(* ===== verification/GC_Prelude.thy ===== *)
theory GC_Prelude
  imports Complex_Main "HOL-Library.Product_Lexorder" "HOL-Library.List_Lexorder"
begin

text \<open>
  Shared vocabulary of the development: Rust's \<open>Result\<close> as a sum type (errors on the
  left), the fallible folds and maps of its iterators, \<open>BTreeMap\<close> as a strictly sorted
  association list behind the interface \<open>ordered_map\<close>, and decimal rendering of
  integers as the standard library's \<open>Display\<close> does it.
\<close>

named_theorems result_simps "unfolding of the Result combinators"
named_theorems bt_simps "lookups and invariants of sorted association lists"

section \<open>Results\<close>

type_synonym ('a, 'e) result = "'e + 'a"

text \<open>\<open>m?\<close> followed by the rest of the function body.\<close>

definition res_bind :: "('a, 'e) result \<Rightarrow> ('a \<Rightarrow> ('b, 'e) result) \<Rightarrow> ('b, 'e) result" where
  "res_bind m f = (case m of Inl e \<Rightarrow> Inl e | Inr x \<Rightarrow> f x)"

definition res_map :: "('a \<Rightarrow> 'b) \<Rightarrow> ('a, 'e) result \<Rightarrow> ('b, 'e) result" where
  "res_map f m = (case m of Inl e \<Rightarrow> Inl e | Inr x \<Rightarrow> Inr (f x))"

definition map_err :: "('e \<Rightarrow> 'f) \<Rightarrow> ('a, 'e) result \<Rightarrow> ('a, 'f) result" where
  "map_err f m = (case m of Inl e \<Rightarrow> Inl (f e) | Inr x \<Rightarrow> Inr x)"

definition ok_or :: "'e \<Rightarrow> 'a option \<Rightarrow> ('a, 'e) result" where
  "ok_or e m = (case m of None \<Rightarrow> Inl e | Some x \<Rightarrow> Inr x)"

definition is_ok :: "('a, 'e) result \<Rightarrow> bool" where
  "is_ok m = (case m of Inl _ \<Rightarrow> False | Inr _ \<Rightarrow> True)"

lemma res_bind_simps [simp, result_simps]:
  "res_bind (Inl e) f = Inl e"
  "res_bind (Inr x) f = f x"
  by (simp_all add: res_bind_def)

lemma res_map_simps [simp, result_simps]:
  "res_map g (Inl e) = Inl e"
  "res_map g (Inr x) = Inr (g x)"
  by (simp_all add: res_map_def)

lemma map_err_simps [simp, result_simps]:
  "map_err g (Inl e) = Inl (g e)"
  "map_err g (Inr x) = Inr x"
  by (simp_all add: map_err_def)

lemma ok_or_simps [simp, result_simps]:
  "ok_or e None = Inl e"
  "ok_or e (Some x) = Inr x"
  by (simp_all add: ok_or_def)

lemma is_ok_simps [simp, result_simps]:
  "\<not> is_ok (Inl e)"
  "is_ok (Inr x)"
  by (simp_all add: is_ok_def)

lemma res_bind_Inr_iff: "res_bind m f = Inr y \<longleftrightarrow> (\<exists>x. m = Inr x \<and> f x = Inr y)"
  by (cases m) simp_all

lemma res_bind_Inl_iff:
  "res_bind m f = Inl e \<longleftrightarrow> m = Inl e \<or> (\<exists>x. m = Inr x \<and> f x = Inl e)"
  by (cases m) simp_all

lemma res_map_Inr_iff: "res_map f m = Inr y \<longleftrightarrow> (\<exists>x. m = Inr x \<and> y = f x)"
  by (cases m) auto

lemma res_map_Inl_iff: "res_map f m = Inl e \<longleftrightarrow> m = Inl e"
  by (cases m) auto

lemma map_err_Inr_iff: "map_err f m = Inr y \<longleftrightarrow> m = Inr y"
  by (cases m) auto

lemma map_err_Inl_iff: "map_err f m = Inl e \<longleftrightarrow> (\<exists>e'. m = Inl e' \<and> e = f e')"
  by (cases m) auto

lemma ok_or_Inr_iff: "ok_or e m = Inr y \<longleftrightarrow> m = Some y"
  by (cases m) auto

lemma ok_or_Inl_iff: "ok_or e m = Inl e' \<longleftrightarrow> m = None \<and> e' = e"
  by (cases m) auto

lemma is_ok_iff: "is_ok m \<longleftrightarrow> (\<exists>x. m = Inr x)"
  by (cases m) auto

lemma not_is_ok_iff: "\<not> is_ok m \<longleftrightarrow> (\<exists>e. m = Inl e)"
  by (cases m) auto

lemmas result_iffs =
  res_bind_Inr_iff res_bind_Inl_iff res_map_Inr_iff res_map_Inl_iff
  map_err_Inr_iff map_err_Inl_iff ok_or_Inr_iff ok_or_Inl_iff

section \<open>Fallible iteration\<close>

text \<open>\<open>Iterator::try_fold\<close>: stops at the first error.\<close>

fun try_fold :: "('s \<Rightarrow> 'a \<Rightarrow> ('s, 'e) result) \<Rightarrow> 's \<Rightarrow> 'a list \<Rightarrow> ('s, 'e) result" where
  "try_fold f s [] = Inr s"
| "try_fold f s (x # xs) = res_bind (f s x) (\<lambda>s'. try_fold f s' xs)"

text \<open>\<open>map(f).collect::<Result<Vec<_>, _>>()\<close>.\<close>

fun try_map :: "('a \<Rightarrow> ('b, 'e) result) \<Rightarrow> 'a list \<Rightarrow> ('b list, 'e) result" where
  "try_map f [] = Inr []"
| "try_map f (x # xs) =
     res_bind (f x) (\<lambda>y. res_bind (try_map f xs) (\<lambda>ys. Inr (y # ys)))"

lemma try_fold_append:
  "try_fold f s (xs @ ys) = res_bind (try_fold f s xs) (\<lambda>s'. try_fold f s' ys)"
proof (induction xs arbitrary: s)
  case (Cons x xs)
  then show ?case by (cases "f s x") simp_all
qed simp

lemma try_fold_Inl_iff:
  "try_fold f s xs = Inl e \<longleftrightarrow>
     (\<exists>pre x post s'. xs = pre @ x # post \<and> try_fold f s pre = Inr s' \<and> f s' x = Inl e)"
proof
  show "try_fold f s xs = Inl e \<Longrightarrow>
      \<exists>pre x post s'. xs = pre @ x # post \<and> try_fold f s pre = Inr s' \<and> f s' x = Inl e"
  proof (induction xs arbitrary: s)
    case (Cons x xs)
    show ?case
    proof (cases "f s x")
      case (Inl e')
      then have "x # xs = [] @ x # xs \<and> try_fold f s [] = Inr s \<and> f s x = Inl e" using Cons.prems by simp
      then show ?thesis by blast
    next
      case (Inr s')
      then obtain pre y post t where "xs = pre @ y # post" "try_fold f s' pre = Inr t" "f t y = Inl e"
        using Cons.prems Cons.IH [of s'] by auto
      then have "x # xs = (x # pre) @ y # post \<and> try_fold f s (x # pre) = Inr t \<and> f t y = Inl e"
        using Inr by simp
      then show ?thesis by blast
    qed
  qed simp
qed (auto simp: try_fold_append)

text \<open>An invariant every step keeps holds at the end, if the fold gets there.\<close>

lemma try_fold_invariant:
  assumes "try_fold f s xs = Inr t" "P s"
    and "\<And>s x s'. P s \<Longrightarrow> x \<in> set xs \<Longrightarrow> f s x = Inr s' \<Longrightarrow> P s'"
  shows "P t"
  using assms
proof (induction xs arbitrary: s)
  case (Cons x xs)
  from Cons.prems(1) obtain s' where s': "f s x = Inr s'" "try_fold f s' xs = Inr t"
    by (auto simp: result_iffs)
  from Cons.prems(3) [OF Cons.prems(2) _ s'(1)] have "P s'" by simp
  with s'(2) show ?case
    by (rule Cons.IH) (rule Cons.prems(3), auto)
qed simp

text \<open>An invariant that the errors of a fold may rely on.\<close>

lemma try_fold_rule:
  assumes "P 0 s" "\<And>i s. i < length xs \<Longrightarrow> P i s \<Longrightarrow> case f s (xs ! i) of Inl e \<Rightarrow> Q e | Inr s' \<Rightarrow> P (Suc i) s'"
  shows "case try_fold f s xs of Inl e \<Rightarrow> Q e | Inr s' \<Rightarrow> P (length xs) s'"
  using assms
proof (induction xs arbitrary: s P)
  case (Cons x xs)
  note step = Cons.prems(2) [of 0 s, simplified, OF Cons.prems(1)]
  show ?case
  proof (cases "f s x")
    case (Inr s')
    have "case try_fold f s' xs of Inl e \<Rightarrow> Q e | Inr s' \<Rightarrow> P (Suc (length xs)) s'"
    proof (rule Cons.IH [of "\<lambda>i. P (Suc i)"])
      show "P (Suc 0) s'" using step Inr by simp
      show "case f t (xs ! i) of Inl e \<Rightarrow> Q e | Inr s' \<Rightarrow> P (Suc (Suc i)) s'" if "i < length xs" "P (Suc i) t" for i t
        using Cons.prems(2) [of "Suc i" t] that by simp
    qed
    with Inr show ?thesis by (simp split: sum.splits)
  qed (use step in simp)
qed simp

lemma try_map_Inr_iff:
  "try_map f xs = Inr ys \<longleftrightarrow> list_all2 (\<lambda>x y. f x = Inr y) xs ys"
  by (induction xs arbitrary: ys) (auto simp: result_iffs list_all2_Cons1)

lemma try_map_InlD: "try_map f xs = Inl e \<Longrightarrow> \<exists>x \<in> set xs. f x = Inl e"
  by (induction xs) (auto simp: result_iffs)

lemma try_map_length: "try_map f xs = Inr ys \<Longrightarrow> length ys = length xs"
  by (auto simp: try_map_Inr_iff dest: list_all2_lengthD)

lemma try_map_cong [fundef_cong]:
  "xs = ys \<Longrightarrow> (\<And>x. x \<in> set ys \<Longrightarrow> f x = g x) \<Longrightarrow> try_map f xs = try_map g ys"
  by (induction ys arbitrary: xs) auto

lemma try_fold_cong [fundef_cong]:
  "xs = ys \<Longrightarrow> s = t \<Longrightarrow> (\<And>s x. x \<in> set ys \<Longrightarrow> f s x = g s x) \<Longrightarrow>
    try_fold f s xs = try_fold g t ys"
proof (induction ys arbitrary: xs s t)
  case (Cons y ys)
  have "res_bind (g t y) (\<lambda>s'. try_fold f s' ys) = res_bind (g t y) (\<lambda>s'. try_fold g s' ys)"
    by (cases "g t y") (use Cons.IH [of ys] Cons.prems in auto)
  with Cons.prems show ?case by simp
qed simp

section \<open>Ordered maps\<close>

lemma entries_unique:
  fixes xs ys :: "('k::linorder \<times> 'v) list"
  assumes "sorted_wrt (<) (map fst xs)" "sorted_wrt (<) (map fst ys)" "set xs = set ys"
  shows "xs = ys"
proof -
  have "map fst xs = map fst ys"
    using assms strict_sorted_equal [of "map fst xs" "map fst ys"] by simp
  moreover have "inj_on fst (set xs \<union> set ys)"
    using assms(1,3) by (simp add: strict_sorted_iff distinct_map)
  ultimately show ?thesis
    using map_inj_on by blast
qed

text \<open>
  What the code uses of \<open>BTreeMap\<close>: lookups after insertions and removals, and an
  iteration in strictly ascending key order that determines the map.
\<close>

locale ordered_map =
  fixes emp :: 'm
    and get :: "'m \<Rightarrow> 'k::linorder \<Rightarrow> 'v option"
    and ins :: "'k \<Rightarrow> 'v \<Rightarrow> 'm \<Rightarrow> 'm"
    and del :: "'k \<Rightarrow> 'm \<Rightarrow> 'm"
    and entries :: "'m \<Rightarrow> ('k \<times> 'v) list"
    and ok :: "'m \<Rightarrow> bool"
  assumes ok_emp: "ok emp"
    and ok_ins: "ok m \<Longrightarrow> ok (ins k v m)"
    and ok_del: "ok m \<Longrightarrow> ok (del k m)"
    and get_emp: "get emp k = None"
    and get_ins: "ok m \<Longrightarrow> get (ins k v m) j = (if j = k then Some v else get m j)"
    and get_del: "ok m \<Longrightarrow> get (del k m) j = (if j = k then None else get m j)"
    and entries_get: "ok m \<Longrightarrow> (k, v) \<in> set (entries m) \<longleftrightarrow> get m k = Some v"
    and entries_sorted: "ok m \<Longrightarrow> sorted_wrt (<) (map fst (entries m))"
    and entries_inj: "ok m \<Longrightarrow> ok m' \<Longrightarrow> entries m = entries m' \<Longrightarrow> m = m'"
begin

lemma entries_distinct: "ok m \<Longrightarrow> distinct (map fst (entries m))"
  using entries_sorted strict_sorted_iff by blast

text \<open>A map is determined by its lookups.\<close>

lemma get_ext:
  assumes "ok m" "ok m'" "\<And>k. get m k = get m' k"
  shows "m = m'"
proof (rule entries_inj [OF assms(1,2)])
  have "p \<in> set (entries m) \<longleftrightarrow> p \<in> set (entries m')" for p
    using entries_get [OF assms(1)] entries_get [OF assms(2)] assms(3) by (cases p) simp
  then show "entries m = entries m'"
    using entries_unique [OF entries_sorted [OF assms(1)] entries_sorted [OF assms(2)]] by blast
qed

lemma ins_ins: "ok m \<Longrightarrow> ins k v (ins k w m) = ins k v m"
  by (rule get_ext) (simp_all add: ok_ins get_ins)

lemma ins_commute: "ok m \<Longrightarrow> j \<noteq> k \<Longrightarrow> ins j v (ins k w m) = ins k w (ins j v m)"
  by (rule get_ext) (simp_all add: ok_ins get_ins)

lemma del_ins: "ok m \<Longrightarrow> del k (ins k v m) = del k m"
  by (rule get_ext) (simp_all add: ok_ins ok_del get_ins get_del)

end

section \<open>Ordered maps as strictly sorted association lists\<close>

type_synonym ('k, 'v) btree = "('k \<times> 'v) list"

definition bt_ok :: "('k::linorder, 'v) btree \<Rightarrow> bool" where
  "bt_ok m \<longleftrightarrow> sorted_wrt (<) (map fst m)"

fun bt_insert :: "'k::linorder \<Rightarrow> 'v \<Rightarrow> ('k, 'v) btree \<Rightarrow> ('k, 'v) btree" where
  "bt_insert k v [] = [(k, v)]"
| "bt_insert k v (p # m) =
     (if k < fst p then (k, v) # p # m
      else if fst p < k then p # bt_insert k v m
      else (k, v) # m)"

fun bt_remove :: "'k::linorder \<Rightarrow> ('k, 'v) btree \<Rightarrow> ('k, 'v) btree" where
  "bt_remove k [] = []"
| "bt_remove k (p # m) = (if fst p = k then m else p # bt_remove k m)"

lemma bt_ok_Nil [simp]: "bt_ok []"
  by (simp add: bt_ok_def)

lemma bt_ok_Cons: "bt_ok (p # m) \<longleftrightarrow> (\<forall>q \<in> set m. fst p < fst q) \<and> bt_ok m"
  by (auto simp: bt_ok_def)

lemma bt_ok_distinct: "bt_ok m \<Longrightarrow> distinct (map fst m)"
  using strict_sorted_iff unfolding bt_ok_def by blast

lemma set_bt_insert: "set (bt_insert k v m) \<subseteq> insert (k, v) (set m)"
  by (induction m) auto

lemma set_bt_insert_new:
  "bt_ok m \<Longrightarrow> map_of m k = None \<Longrightarrow> set (bt_insert k v m) = insert (k, v) (set m)"
  by (induction m) (auto simp: bt_ok_Cons split: if_splits)

lemma keys_bt_insert: "fst ` set (bt_insert k v m) = insert k (fst ` set m)"
  by (induction m) (auto simp: image_iff)

lemma set_bt_remove: "set (bt_remove k m) \<subseteq> set m"
  by (induction m) auto

lemma bt_ok_insert [simp]: "bt_ok m \<Longrightarrow> bt_ok (bt_insert k v m)"
proof (induction m)
  case (Cons p m)
  have "fst p < fst q" if "fst p < k" "q \<in> set (bt_insert k v m)" for q
    using that Cons.prems set_bt_insert [of k v m] by (auto simp: bt_ok_Cons)
  with Cons show ?case by (auto simp: bt_ok_Cons)
qed (simp add: bt_ok_def)

lemma bt_ok_remove [simp]: "bt_ok m \<Longrightarrow> bt_ok (bt_remove k m)"
  by (induction m) (use set_bt_remove in \<open>fastforce simp: bt_ok_Cons\<close>)+

lemma map_of_bt_insert: "map_of (bt_insert k v m) j = (if j = k then Some v else map_of m j)"
  by (induction m) auto

lemma map_of_bt_less: "\<forall>q \<in> set m. (k::'k::linorder) < fst q \<Longrightarrow> map_of m k = None"
  by (induction m) auto

lemma bt_remove_less: "\<forall>q \<in> set m. (k::'k::linorder) < fst q \<Longrightarrow> bt_remove k m = m"
  by (induction m) auto

lemma map_of_bt_remove:
  "bt_ok m \<Longrightarrow> map_of (bt_remove k m) j = (if j = k then None else map_of m j)"
  by (induction m) (auto simp: bt_ok_Cons simp: map_of_bt_less)

interpretation bt: ordered_map "[]" map_of bt_insert bt_remove "\<lambda>m. m" bt_ok
proof
  show "bt_ok []" by simp
  show "(k, v) \<in> set m \<longleftrightarrow> map_of m k = Some v" if "bt_ok m" for m :: "('a, 'b) btree" and k v
    using bt_ok_distinct [OF that] by simp
  show "sorted_wrt (<) (map fst m)" if "bt_ok m" for m :: "('a, 'b) btree"
    using that by (simp add: bt_ok_def)
qed (simp_all add: map_of_bt_insert map_of_bt_remove)

lemmas bt_facts [bt_simps] =
  bt_ok_insert bt_ok_remove map_of_bt_insert map_of_bt_remove

text \<open>\<open>retain\<close> keeps the order, and mapping the values keeps the keys.\<close>

lemma bt_ok_filter [simp]: "bt_ok m \<Longrightarrow> bt_ok (filter P m)"
  by (induction m) (auto simp: bt_ok_Cons)

lemma bt_ok_map_values [simp]: "bt_ok (map (\<lambda>(k, v). (k, f v)) m) \<longleftrightarrow> bt_ok m"
  by (simp add: bt_ok_def comp_def case_prod_unfold)

lemma map_of_map_values: "map_of (map (\<lambda>(k, v). (k, f v)) m) k = map_option f (map_of m k)"
  by (induction m) auto

lemma map_of_filter_values:
  "bt_ok m \<Longrightarrow> map_of (filter (\<lambda>(k, v). P v) m) k =
     (case map_of m k of None \<Rightarrow> None | Some v \<Rightarrow> if P v then Some v else None)"
  by (induction m) (auto simp: bt_ok_Cons simp: map_of_bt_less split: option.splits)

lemma bt_in_set_iff: "bt_ok m \<Longrightarrow> (k, v) \<in> set m \<longleftrightarrow> map_of m k = Some v"
  by (rule bt.entries_get)

text \<open>Sums and products over the entries, seen from one key.\<close>

lemma sum_list_bt_insert:
  fixes f :: "'k::linorder \<times> 'v \<Rightarrow> 'a::comm_monoid_add"
  assumes "bt_ok m"
  shows "sum_list (map f (bt_insert k v m)) = f (k, v) + sum_list (map f (bt_remove k m))"
  using assms
proof (induction m)
  case (Cons p m)
  have "bt_remove k m = m" if "k < fst p"
    using that Cons.prems by (intro bt_remove_less) (auto simp: bt_ok_Cons)
  with Cons show ?case by (auto simp: bt_ok_Cons ac_simps)
qed simp

lemma sum_list_bt_remove:
  fixes f :: "'k::linorder \<times> 'v \<Rightarrow> 'a::comm_monoid_add"
  assumes "bt_ok m"
  shows "sum_list (map f m) =
    (case map_of m k of None \<Rightarrow> 0 | Some v \<Rightarrow> f (k, v)) + sum_list (map f (bt_remove k m))"
  using assms by (induction m) (auto simp: bt_ok_Cons ac_simps split: option.splits)

lemma prod_list_bt_insert:
  fixes f :: "'k::linorder \<times> 'v \<Rightarrow> 'a::comm_monoid_mult"
  assumes "bt_ok m"
  shows "prod_list (map f (bt_insert k v m)) = f (k, v) * prod_list (map f (bt_remove k m))"
  using assms
proof (induction m)
  case (Cons p m)
  have "bt_remove k m = m" if "k < fst p"
    using that Cons.prems by (intro bt_remove_less) (auto simp: bt_ok_Cons)
  with Cons show ?case by (auto simp: bt_ok_Cons ac_simps)
qed simp

lemma prod_list_bt_remove:
  fixes f :: "'k::linorder \<times> 'v \<Rightarrow> 'a::comm_monoid_mult"
  assumes "bt_ok m"
  shows "prod_list (map f m) =
    (case map_of m k of None \<Rightarrow> 1 | Some v \<Rightarrow> f (k, v)) * prod_list (map f (bt_remove k m))"
  using assms by (induction m) (auto simp: bt_ok_Cons ac_simps split: option.splits)

text \<open>\<open>[T]::join\<close>.\<close>

fun join :: "string \<Rightarrow> string list \<Rightarrow> string" where
  "join sep [] = []"
| "join sep [s] = s"
| "join sep (s # ss) = s @ sep @ join sep ss"

section \<open>Decimal rendering\<close>

text \<open>\<open>Display\<close> of the integer types: decimal digits, no padding, a leading minus sign.\<close>

definition digit_char :: "nat \<Rightarrow> char" where
  "digit_char d = char_of (48 + d)"

definition char_digit :: "char \<Rightarrow> nat" where
  "char_digit c = of_char c - 48"

fun show_nat :: "nat \<Rightarrow> string" where
  "show_nat n =
     (if n < 10 then [digit_char n] else show_nat (n div 10) @ [digit_char (n mod 10)])"

declare show_nat.simps [simp del]

definition show_int :: "int \<Rightarrow> string" where
  "show_int i = (if i < 0 then ''-'' @ show_nat (nat (- i)) else show_nat (nat i))"

definition read_nat :: "string \<Rightarrow> nat" where
  "read_nat = foldl (\<lambda>n c. 10 * n + char_digit c) 0"

definition digits :: "char set" where
  "digits = digit_char ` {..< 10}"

lemma char_digit_digit_char: "d < 10 \<Longrightarrow> char_digit (digit_char d) = d"
  by (simp add: char_digit_def digit_char_def)

lemma show_nat_digits: "set (show_nat n) \<subseteq> digits"
proof (induction n rule: show_nat.induct)
  case (1 n)
  then show ?case
    by (subst show_nat.simps) (auto simp: digits_def)
qed

lemma show_nat_nonempty [simp]: "show_nat n \<noteq> []"
  by (subst show_nat.simps) simp

lemma read_show_nat [simp]: "read_nat (show_nat n) = n"
proof (induction n rule: show_nat.induct)
  case (1 n)
  then show ?case
    by (subst show_nat.simps) (auto simp: read_nat_def char_digit_digit_char)
qed

lemma show_nat_inj: "show_nat m = show_nat n \<Longrightarrow> m = n"
  using read_show_nat by metis

lemma not_digits [simp]:
  "CHR ''-'' \<notin> digits" "CHR ''/'' \<notin> digits" "CHR ''^'' \<notin> digits"
  "CHR ''('' \<notin> digits" "CHR '')'' \<notin> digits" "CHR '' '' \<notin> digits"
proof -
  have "of_char c \<in> {48 ..< 58 :: nat}" if "c \<in> digits" for c :: char
    using that by (auto simp: digits_def digit_char_def)
  from this [of "CHR ''-''"] this [of "CHR ''/''"] this [of "CHR ''^''"]
    this [of "CHR ''(''"] this [of "CHR '')''"] this [of "CHR '' ''"]
  show "CHR ''-'' \<notin> digits" "CHR ''/'' \<notin> digits" "CHR ''^'' \<notin> digits"
    "CHR ''('' \<notin> digits" "CHR '')'' \<notin> digits" "CHR '' '' \<notin> digits"
    by auto
qed

lemma show_nat_no_char: "c \<notin> digits \<Longrightarrow> c \<notin> set (show_nat n)"
  using show_nat_digits by blast

lemma show_int_chars: "set (show_int i) \<subseteq> insert (CHR ''-'') digits"
  using show_nat_digits by (auto simp: show_int_def)

lemma show_nat_not_minus: "show_nat m \<noteq> CHR ''-'' # s"
  using show_nat_no_char [OF not_digits(1), of m] by (metis list.set_intros(1))

lemma show_int_inj: "show_int i = show_int j \<Longrightarrow> i = j"
  using show_nat_not_minus [of "nat i"] show_nat_not_minus [of "nat j"]
  by (auto simp: show_int_def split: if_splits dest!: show_nat_inj)
    (metis show_nat_not_minus)+

lemma show_int_nonempty [simp]: "show_int i \<noteq> []"
  by (simp add: show_int_def)

end
