(* ===== verification/Ratio.thy ===== *)
theory Ratio
  imports GC_Prelude
begin

text \<open>
  Reduced rationals over a symmetric fixed-width range
  (\<open>crates/graphcal-ratio/src/ratio.rs\<close>), the exponents of dimensions and powers.
  The component type \<open>T\<close> is the value \<open>w\<close> of \<open>ratio_int\<close>; components are
  mathematical integers and the 128-bit intermediate arithmetic is checked as in the code.
  The lemmas show that construction and arithmetic return the exact rational in its
  unique reduced form, and fail exactly when that form has no representation.
\<close>

section \<open>Data\<close>

datatype ratio_int = I32 | I64

fun ri_max :: "ratio_int \<Rightarrow> int" where
  "ri_max I32 = 2147483647"
| "ri_max I64 = 9223372036854775807"

record ratio =
  r_num :: int
  r_den :: int

datatype ratio_error = ZeroDenominator | RatioOverflow

definition narrow_magnitude :: "ratio_int \<Rightarrow> nat \<Rightarrow> int option" where
  "narrow_magnitude w m = (if int m \<le> ri_max w then Some (int m) else None)"

definition ratio_zero :: ratio where
  "ratio_zero = \<lparr>r_num = 0, r_den = 1\<rparr>"

definition ratio_one :: ratio where
  "ratio_one = \<lparr>r_num = 1, r_den = 1\<rparr>"

section \<open>Checked 128-bit arithmetic\<close>

definition in_i128 :: "int \<Rightarrow> bool" where
  "in_i128 x \<longleftrightarrow> - (2 ^ 127) \<le> x \<and> x < 2 ^ 127"

definition i128_checked :: "int \<Rightarrow> int option" where
  "i128_checked x = (if in_i128 x then Some x else None)"

definition i128_add :: "int \<Rightarrow> int \<Rightarrow> int option" where
  "i128_add a b = i128_checked (a + b)"

definition i128_sub :: "int \<Rightarrow> int \<Rightarrow> int option" where
  "i128_sub a b = i128_checked (a - b)"

definition i128_mul :: "int \<Rightarrow> int \<Rightarrow> int option" where
  "i128_mul a b = i128_checked (a * b)"

section \<open>Construction\<close>

fun gcd_u128 :: "nat \<Rightarrow> nat \<Rightarrow> nat" where
  "gcd_u128 a b = (if b = 0 then a else gcd_u128 b (a mod b))"

declare gcd_u128.simps [simp del]

definition try_from_wide :: "ratio_int \<Rightarrow> int \<Rightarrow> int \<Rightarrow> (ratio, ratio_error) result" where
  "try_from_wide w n d =
     (if d = 0 then Inl ZeroDenominator
      else if n = 0 then Inr ratio_zero
      else let nm = nat \<bar>n\<bar>; dm = nat \<bar>d\<bar>; g = gcd_u128 nm dm in
        res_bind (ok_or RatioOverflow (narrow_magnitude w (nm div g))) (\<lambda>nm'.
        res_bind (ok_or RatioOverflow (narrow_magnitude w (dm div g))) (\<lambda>d'.
          let negative = ((n < 0) \<noteq> (d < 0)) in
          Inr \<lparr>r_num = (if negative then - nm' else nm'), r_den = d'\<rparr>)))"

definition try_new :: "ratio_int \<Rightarrow> int \<Rightarrow> int \<Rightarrow> (ratio, ratio_error) result" where
  "try_new w n d = try_from_wide w n d"

definition ratio_integer :: "ratio_int \<Rightarrow> int \<Rightarrow> (ratio, ratio_error) result" where
  "ratio_integer w v = try_new w v 1"

definition ratio_is_zero :: "ratio \<Rightarrow> bool" where
  "ratio_is_zero r \<longleftrightarrow> r_num r = 0"

definition ratio_is_integer :: "ratio \<Rightarrow> bool" where
  "ratio_is_integer r \<longleftrightarrow> r_den r = 1"

definition ratio_is_positive :: "ratio \<Rightarrow> bool" where
  "ratio_is_positive r \<longleftrightarrow> 0 < r_num r"

definition ratio_is_negative :: "ratio \<Rightarrow> bool" where
  "ratio_is_negative r \<longleftrightarrow> r_num r < 0"

definition half :: ratio where
  "half = \<lparr>r_num = 1, r_den = 2\<rparr>"

definition third :: ratio where
  "third = \<lparr>r_num = 1, r_den = 3\<rparr>"

definition ratio_from_i16 :: "int \<Rightarrow> ratio" where
  "ratio_from_i16 v = \<lparr>r_num = v, r_den = 1\<rparr>"

definition ratio_widen :: "ratio \<Rightarrow> ratio" where
  "ratio_widen r = \<lparr>r_num = r_num r, r_den = r_den r\<rparr>"

definition ratio_narrow :: "ratio \<Rightarrow> (ratio, ratio_error) result" where
  "ratio_narrow r = try_from_wide I32 (r_num r) (r_den r)"

section \<open>Arithmetic\<close>

definition checked_combine ::
  "ratio_int \<Rightarrow> (int \<Rightarrow> int \<Rightarrow> int option) \<Rightarrow> ratio \<Rightarrow> ratio \<Rightarrow> (ratio, ratio_error) result" where
  "checked_combine w combine a b =
     (case (i128_mul (r_num a) (r_den b), i128_mul (r_num b) (r_den a),
            i128_mul (r_den a) (r_den b)) of
        (Some lhs, Some rhs, Some den) \<Rightarrow>
          res_bind (ok_or RatioOverflow (combine lhs rhs)) (\<lambda>num. try_from_wide w num den)
      | _ \<Rightarrow> Inl RatioOverflow)"

definition ratio_neg :: "ratio \<Rightarrow> ratio" where
  "ratio_neg r = \<lparr>r_num = - r_num r, r_den = r_den r\<rparr>"

definition ratio_add :: "ratio_int \<Rightarrow> ratio \<Rightarrow> ratio \<Rightarrow> (ratio, ratio_error) result" where
  "ratio_add w a b = checked_combine w i128_add a b"

definition ratio_sub :: "ratio_int \<Rightarrow> ratio \<Rightarrow> ratio \<Rightarrow> (ratio, ratio_error) result" where
  "ratio_sub w a b = checked_combine w i128_sub a b"

definition ratio_mul :: "ratio_int \<Rightarrow> ratio \<Rightarrow> ratio \<Rightarrow> (ratio, ratio_error) result" where
  "ratio_mul w a b =
     (case (i128_mul (r_num a) (r_num b), i128_mul (r_den a) (r_den b)) of
        (Some num, Some den) \<Rightarrow> try_from_wide w num den
      | _ \<Rightarrow> Inl RatioOverflow)"

section \<open>Rendering\<close>

datatype exponent_style = SourceStyle | CompactStyle

definition ratio_display :: "ratio \<Rightarrow> string" where
  "ratio_display r =
     (if ratio_is_integer r then show_int (r_num r)
      else show_int (r_num r) @ ''/'' @ show_int (r_den r))"

definition exponent_display :: "ratio \<Rightarrow> exponent_style \<Rightarrow> bool \<Rightarrow> string" where
  "exponent_display r style caret =
     (if caret then ''^'' else []) @
     (case style of
        SourceStyle \<Rightarrow>
          if \<not> ratio_is_integer r
          then ''('' @ show_int (r_num r) @ ''/'' @ show_int (r_den r) @ '')''
          else ratio_display r
      | CompactStyle \<Rightarrow> ratio_display r)"

definition source_syntax :: "ratio \<Rightarrow> string" where
  "source_syntax r = exponent_display r SourceStyle False"

definition fmt_exponent :: "ratio \<Rightarrow> exponent_style \<Rightarrow> string" where
  "fmt_exponent r style = exponent_display r style True"

section \<open>The invariant and the value\<close>

text \<open>The three invariants of the module comment, and the rational a value stands for.\<close>

definition ratio_ok :: "ratio_int \<Rightarrow> ratio \<Rightarrow> bool" where
  "ratio_ok w r \<longleftrightarrow> 0 < r_den r \<and> coprime (r_num r) (r_den r) \<and>
     \<bar>r_num r\<bar> \<le> ri_max w \<and> r_den r \<le> ri_max w"

definition ratio_rat :: "ratio \<Rightarrow> rat" where
  "ratio_rat r = of_int (r_num r) / of_int (r_den r)"

lemma ri_max_bounds: "1 \<le> ri_max w" "ri_max w < 2 ^ 63"
  by (cases w; simp)+

lemma gcd_u128_gcd: "gcd_u128 a b = gcd a b"
proof (induction a b rule: gcd_u128.induct)
  case (1 a b)
  then show ?case
    by (subst gcd_u128.simps) (simp add: gcd_red_nat [symmetric] gcd.commute [of b])
qed

lemma ratio_ok_zero [simp]: "ratio_ok w ratio_zero"
  using ri_max_bounds(1) [of w] by (simp add: ratio_ok_def ratio_zero_def)

lemma ratio_ok_one [simp]: "ratio_ok w ratio_one"
  using ri_max_bounds(1) [of w] by (simp add: ratio_ok_def ratio_one_def)

lemma ratio_rat_zero [simp]: "ratio_rat ratio_zero = 0"
  by (simp add: ratio_rat_def ratio_zero_def)

lemma ratio_rat_one [simp]: "ratio_rat ratio_one = 1"
  by (simp add: ratio_rat_def ratio_one_def)

lemma ratio_rat_eq_0_iff [simp]: "ratio_ok w r \<Longrightarrow> ratio_rat r = 0 \<longleftrightarrow> ratio_is_zero r"
  by (simp add: ratio_rat_def ratio_ok_def ratio_is_zero_def)

lemma reduced_fraction_unique:
  fixes p q p' q' :: int
  assumes "coprime p q" "coprime p' q'" "0 < q" "0 < q'" "p * q' = p' * q"
  shows "p = p' \<and> q = q'"
proof -
  have "q dvd p * q'" "q' dvd p' * q"
    using assms(5) by (metis dvd_triv_right)+
  then have "q dvd q'" "q' dvd q"
    using assms(1,2) by (simp_all add: coprime_dvd_mult_right_iff coprime_commute)
  then have "q = q'"
    using assms(3,4) by (simp add: zdvd_antisym_nonneg)
  with assms(3,5) show ?thesis by simp
qed

text \<open>A value has one representation.\<close>

lemma ratio_rat_inj:
  assumes "ratio_ok w a" "ratio_ok v b" "ratio_rat a = ratio_rat b"
  shows "a = b"
proof -
  have "(of_int (r_num a * r_den b) :: rat) = of_int (r_num b * r_den a)"
    using assms by (simp add: ratio_rat_def ratio_ok_def field_simps)
  then have "r_num a * r_den b = r_num b * r_den a"
    by (simp only: of_int_eq_iff)
  then show ?thesis
    using reduced_fraction_unique [of "r_num a" "r_den a" "r_num b" "r_den b"] assms(1,2)
    by (simp add: ratio_ok_def)
qed

section \<open>Construction is exact\<close>

text \<open>The reduced numerator and denominator of \<open>n / d\<close>, before narrowing.\<close>

definition red_num :: "int \<Rightarrow> int \<Rightarrow> int" where
  "red_num n d = (if (n < 0) \<noteq> (d < 0) then - (\<bar>n\<bar> div gcd n d) else \<bar>n\<bar> div gcd n d)"

definition red_den :: "int \<Rightarrow> int \<Rightarrow> int" where
  "red_den n d = \<bar>d\<bar> div gcd n d"

lemma red_den_pos: "d \<noteq> 0 \<Longrightarrow> 0 < red_den n d"
  unfolding red_den_def by (simp add: pos_imp_zdiv_pos_iff zdvd_imp_le)

lemma red_coprime: "d \<noteq> 0 \<Longrightarrow> coprime (red_num n d) (red_den n d)"
proof -
  assume "d \<noteq> 0"
  then have "coprime (\<bar>n\<bar> div gcd \<bar>n\<bar> \<bar>d\<bar>) (\<bar>d\<bar> div gcd \<bar>n\<bar> \<bar>d\<bar>)"
    by (intro div_gcd_coprime) simp
  then show ?thesis by (simp add: red_num_def red_den_def)
qed

lemma red_cross: "d \<noteq> 0 \<Longrightarrow> red_num n d * d = n * red_den n d"
proof -
  assume "d \<noteq> 0"
  define g where "g = gcd n d"
  have "g \<noteq> 0" "g dvd \<bar>n\<bar>" "g dvd \<bar>d\<bar>"
    using \<open>d \<noteq> 0\<close> by (simp_all add: g_def)
  then obtain a b where ab: "\<bar>n\<bar> = g * a" "\<bar>d\<bar> = g * b"
    unfolding dvd_def by blast
  then have "red_num n d = (if (n < 0) \<noteq> (d < 0) then - a else a)" "red_den n d = b"
    using \<open>g \<noteq> 0\<close> by (simp_all add: red_num_def red_den_def flip: g_def)
  moreover have "n = (if n < 0 then - (g * a) else g * a)" "d = (if d < 0 then - (g * b) else g * b)"
    using ab by (auto split: if_splits)
  ultimately show ?thesis
    by (auto simp: algebra_simps split: if_splits)
qed

lemma red_value:
  assumes "d \<noteq> 0"
  shows "(of_int (red_num n d) / of_int (red_den n d) :: rat) = of_int n / of_int d"
proof -
  have "(of_int (red_num n d * d) :: rat) = of_int (n * red_den n d)"
    using red_cross [OF assms] by simp
  then show ?thesis
    using red_den_pos [OF assms, of n] assms by (simp add: field_simps)
qed

lemma narrow_magnitude_iff:
  "narrow_magnitude w m = Some x \<longleftrightarrow> x = int m \<and> int m \<le> ri_max w"
  by (auto simp: narrow_magnitude_def)

lemma try_from_wide_reduced:
  assumes "d \<noteq> 0"
  shows "try_from_wide w n d =
    (if \<bar>red_num n d\<bar> \<le> ri_max w \<and> red_den n d \<le> ri_max w
     then Inr \<lparr>r_num = red_num n d, r_den = red_den n d\<rparr> else Inl RatioOverflow)"
proof (cases "n = 0")
  case True
  then show ?thesis
    using assms ri_max_bounds(1) [of w]
    by (simp add: try_from_wide_def ratio_zero_def red_num_def red_den_def)
next
  case False
  define nm where "nm = nat \<bar>n\<bar> div gcd_u128 (nat \<bar>n\<bar>) (nat \<bar>d\<bar>)"
  define dm where "dm = nat \<bar>d\<bar> div gcd_u128 (nat \<bar>n\<bar>) (nat \<bar>d\<bar>)"
  have g: "int (gcd (nat \<bar>n\<bar>) (nat \<bar>d\<bar>)) = gcd n d"
    by (simp only: gcd_int_def)
  have parts: "int nm = \<bar>n\<bar> div gcd n d" "int dm = \<bar>d\<bar> div gcd n d"
    by (simp_all only: nm_def dm_def gcd_u128_gcd zdiv_int g int_nat_eq abs_ge_zero if_True)
  have "try_from_wide w n d =
      res_bind (ok_or RatioOverflow (narrow_magnitude w nm)) (\<lambda>nm'.
      res_bind (ok_or RatioOverflow (narrow_magnitude w dm)) (\<lambda>d'.
        Inr \<lparr>r_num = (if (n < 0) \<noteq> (d < 0) then - nm' else nm'), r_den = d'\<rparr>))"
    unfolding try_from_wide_def Let_def using False assms
    by (simp only: nm_def [symmetric] dm_def [symmetric] if_False)
  moreover have "red_num n d = (if (n < 0) \<noteq> (d < 0) then - int nm else int nm)" "red_den n d = int dm"
    by (simp_all only: red_num_def red_den_def parts)
  ultimately show ?thesis
    by (simp add: narrow_magnitude_def)
qed

text \<open>Construction returns exactly the valid value that equals \<open>n / d\<close>.\<close>

lemma try_from_wide_iff:
  assumes "d \<noteq> 0"
  shows "try_from_wide w n d = Inr r \<longleftrightarrow> ratio_ok w r \<and> ratio_rat r = of_int n / of_int d"
proof -
  let ?r = "\<lparr>r_num = red_num n d, r_den = red_den n d\<rparr>"
  have ok: "ratio_rat ?r = of_int n / of_int d" "0 < r_den ?r" "coprime (r_num ?r) (r_den ?r)"
    using red_value [OF assms] red_den_pos [OF assms] red_coprime [OF assms]
    by (simp_all add: ratio_rat_def)
  have "r = ?r" if "ratio_ok w r" "ratio_rat r = of_int n / of_int d"
  proof -
    have "(of_int (r_num r * red_den n d) :: rat) = of_int (red_num n d * r_den r)"
      using that ok by (simp add: ratio_rat_def ratio_ok_def field_simps)
    then have "r_num r * red_den n d = red_num n d * r_den r"
      by (simp only: of_int_eq_iff)
    then show ?thesis
      using reduced_fraction_unique [of "r_num r" "r_den r" "red_num n d" "red_den n d"] that ok
      by (simp add: ratio_ok_def)
  qed
  then show ?thesis
    using ok by (auto simp: try_from_wide_reduced [OF assms] ratio_ok_def)
qed

lemma try_from_wide_ok: "try_from_wide w n d = Inr r \<Longrightarrow> ratio_ok w r"
  by (cases "d = 0") (simp_all add: try_from_wide_iff, simp add: try_from_wide_def)

lemma try_from_wide_error:
  "d \<noteq> 0 \<Longrightarrow> try_from_wide w n d = Inl e \<Longrightarrow> e = RatioOverflow"
  by (simp add: try_from_wide_reduced split: if_splits)

section \<open>Arithmetic is exact\<close>

lemma abs_mult_bound:
  fixes x y :: int
  assumes "\<bar>x\<bar> \<le> ri_max w" "\<bar>y\<bar> \<le> ri_max w"
  shows "\<bar>x * y\<bar> < 2 ^ 126"
proof -
  have "\<bar>x\<bar> < 2 ^ 63" "\<bar>y\<bar> < 2 ^ 63"
    using assms ri_max_bounds(2) [of w] by linarith+
  then have "\<bar>x\<bar> * \<bar>y\<bar> < 2 ^ 63 * 2 ^ 63"
    by (intro mult_strict_mono) simp_all
  then show ?thesis by (simp add: abs_mult)
qed

text \<open>The 128-bit products of valid components never overflow, nor does their sum.\<close>

lemma i128_checked_in: "\<bar>x\<bar> < 2 ^ 127 \<Longrightarrow> i128_checked x = Some x"
  by (simp add: i128_checked_def in_i128_def abs_less_iff)

lemma i128_mul_in:
  "\<bar>x\<bar> \<le> ri_max w \<Longrightarrow> \<bar>y\<bar> \<le> ri_max w \<Longrightarrow> i128_mul x y = Some (x * y)"
  using abs_mult_bound [of x w y] by (simp add: i128_mul_def i128_checked_in)

lemma ratio_ok_abs:
  "ratio_ok w r \<Longrightarrow> \<bar>r_num r\<bar> \<le> ri_max w"
  "ratio_ok w r \<Longrightarrow> \<bar>r_den r\<bar> \<le> ri_max w"
  "ratio_ok w r \<Longrightarrow> 0 < r_den r"
  by (simp_all add: ratio_ok_def)

lemma checked_combine_exact:
  assumes "ratio_ok w a" "ratio_ok w b"
    and "\<And>x y. \<bar>x\<bar> < 2 ^ 126 \<Longrightarrow> \<bar>y\<bar> < 2 ^ 126 \<Longrightarrow> combine x y = Some (g x y)"
  shows "checked_combine w combine a b =
     try_from_wide w (g (r_num a * r_den b) (r_num b * r_den a)) (r_den a * r_den b)"
  using assms(3) [OF abs_mult_bound abs_mult_bound] ratio_ok_abs [OF assms(1)] ratio_ok_abs [OF assms(2)]
  by (simp add: checked_combine_def i128_mul_in [of _ w])

lemma ratio_add_wide:
  "ratio_ok w a \<Longrightarrow> ratio_ok w b \<Longrightarrow>
   ratio_add w a b = try_from_wide w (r_num a * r_den b + r_num b * r_den a) (r_den a * r_den b)"
  unfolding ratio_add_def
  by (rule checked_combine_exact) (simp_all add: i128_add_def i128_checked_in)

lemma ratio_sub_wide:
  "ratio_ok w a \<Longrightarrow> ratio_ok w b \<Longrightarrow>
   ratio_sub w a b = try_from_wide w (r_num a * r_den b - r_num b * r_den a) (r_den a * r_den b)"
  unfolding ratio_sub_def
  by (rule checked_combine_exact) (simp_all add: i128_sub_def i128_checked_in)

lemma ratio_mul_wide:
  "ratio_ok w a \<Longrightarrow> ratio_ok w b \<Longrightarrow>
   ratio_mul w a b = try_from_wide w (r_num a * r_num b) (r_den a * r_den b)"
  using ratio_ok_abs [of w a] ratio_ok_abs [of w b] by (simp add: ratio_mul_def i128_mul_in [of _ w])

lemma ratio_add_iff:
  assumes "ratio_ok w a" "ratio_ok w b"
  shows "ratio_add w a b = Inr c \<longleftrightarrow> ratio_ok w c \<and> ratio_rat c = ratio_rat a + ratio_rat b"
  using assms ratio_ok_abs(3) [OF assms(1)] ratio_ok_abs(3) [OF assms(2)]
  by (simp add: ratio_add_wide try_from_wide_iff ratio_rat_def add_frac_eq)

lemma ratio_sub_iff:
  assumes "ratio_ok w a" "ratio_ok w b"
  shows "ratio_sub w a b = Inr c \<longleftrightarrow> ratio_ok w c \<and> ratio_rat c = ratio_rat a - ratio_rat b"
  using assms ratio_ok_abs(3) [OF assms(1)] ratio_ok_abs(3) [OF assms(2)]
  by (simp add: ratio_sub_wide try_from_wide_iff ratio_rat_def diff_frac_eq)

lemma ratio_mul_iff:
  assumes "ratio_ok w a" "ratio_ok w b"
  shows "ratio_mul w a b = Inr c \<longleftrightarrow> ratio_ok w c \<and> ratio_rat c = ratio_rat a * ratio_rat b"
  using assms ratio_ok_abs(3) [OF assms(1)] ratio_ok_abs(3) [OF assms(2)]
  by (simp add: ratio_mul_wide try_from_wide_iff ratio_rat_def)

lemma ratio_neg_ok [simp]: "ratio_ok w (ratio_neg r) \<longleftrightarrow> ratio_ok w r"
  by (simp add: ratio_ok_def ratio_neg_def)

lemma ratio_neg_rat [simp]: "ratio_rat (ratio_neg r) = - ratio_rat r"
  by (simp add: ratio_rat_def ratio_neg_def)

lemma ratio_neg_neg [simp]: "ratio_neg (ratio_neg r) = r"
  by (simp add: ratio_neg_def)

lemma ratio_op_error:
  assumes "ratio_ok w a" "ratio_ok w b"
  shows "ratio_add w a b = Inl e \<Longrightarrow> e = RatioOverflow"
    and "ratio_sub w a b = Inl e \<Longrightarrow> e = RatioOverflow"
    and "ratio_mul w a b = Inl e \<Longrightarrow> e = RatioOverflow"
  using assms ratio_ok_abs(3) [OF assms(1)] ratio_ok_abs(3) [OF assms(2)]
  by (auto simp: ratio_add_wide ratio_sub_wide ratio_mul_wide
      intro!: try_from_wide_error [rotated])

lemma ratio_widen_id [simp]: "ratio_widen r = r"
  by (simp add: ratio_widen_def)

lemma ratio_ok_I64: "ratio_ok I32 r \<Longrightarrow> ratio_ok I64 r"
  unfolding ratio_ok_def by clarsimp

lemma ratio_widen_ok: "ratio_ok I32 r \<Longrightarrow> ratio_ok I64 (ratio_widen r)"
  by (simp add: ratio_ok_I64)

lemma ratio_narrow_iff:
  "ratio_ok I64 r \<Longrightarrow> ratio_narrow r = Inr s \<longleftrightarrow> ratio_ok I32 s \<and> ratio_rat s = ratio_rat r"
  using ratio_ok_abs(3) [of I64 r] by (simp add: ratio_narrow_def try_from_wide_iff ratio_rat_def)

lemma ratio_narrow_widen: "ratio_ok I32 r \<Longrightarrow> ratio_narrow (ratio_widen r) = Inr r"
  by (simp add: ratio_ok_I64 ratio_narrow_iff)

section \<open>Rendering is faithful\<close>

lemma split_at_slash:
  assumes "CHR ''/'' \<notin> set a" "CHR ''/'' \<notin> set c"
  shows "a @ ''/'' @ b = c @ ''/'' @ d \<longleftrightarrow> a = c \<and> b = d"
proof -
  have "takeWhile ((\<noteq>) (CHR ''/'')) (x @ ''/'' @ y) = x" "dropWhile ((\<noteq>) (CHR ''/'')) (x @ ''/'' @ y) = ''/'' @ y"
    if "CHR ''/'' \<notin> set x" for x y
    using that by (induction x) auto
  from this [OF assms(1)] this [OF assms(2)] show ?thesis
    by (metis append_Cons append_Nil list.inject)
qed

lemma show_int_no_slash: "CHR ''/'' \<notin> set (show_int i)"
  using show_int_chars [of i] not_digits(2) by auto

lemma ratio_display_inj: "ratio_display a = ratio_display b \<Longrightarrow> a = b"
proof (cases "ratio_is_integer a"; cases "ratio_is_integer b")
  assume *: "ratio_display a = ratio_display b"
  {
    assume "ratio_is_integer a" "ratio_is_integer b"
    with * show ?thesis by (auto simp: ratio_display_def ratio_is_integer_def dest: show_int_inj)
  next
    assume "\<not> ratio_is_integer a" "\<not> ratio_is_integer b"
    with * show ?thesis
      by (auto simp: ratio_display_def split_at_slash [OF show_int_no_slash show_int_no_slash, simplified]
          dest!: show_int_inj)
  next
    assume "ratio_is_integer a" "\<not> ratio_is_integer b"
    with * have "CHR ''/'' \<in> set (show_int (r_num a))" by (simp add: ratio_display_def)
    then show ?thesis by (simp add: show_int_no_slash)
  next
    assume "\<not> ratio_is_integer a" "ratio_is_integer b"
    with * [symmetric] have "CHR ''/'' \<in> set (show_int (r_num b))" by (simp add: ratio_display_def)
    then show ?thesis by (simp add: show_int_no_slash)
  }
qed

section \<open>Properties\<close>

text \<open>C34: addition, subtraction and multiplication of rationals are exact. They succeed with
  \<open>c\<close> exactly when \<open>c\<close> is the normalised value of the true result at the width of the
  operands, and otherwise fail with an overflow, never with a wrong value.\<close>

theorem ratio_arithmetic_exact:
  assumes "ratio_ok w a" "ratio_ok w b"
  shows "(ratio_add w a b = Inr c \<longleftrightarrow> ratio_ok w c \<and> ratio_rat c = ratio_rat a + ratio_rat b) \<and>
    (ratio_sub w a b = Inr c \<longleftrightarrow> ratio_ok w c \<and> ratio_rat c = ratio_rat a - ratio_rat b) \<and>
    (ratio_mul w a b = Inr c \<longleftrightarrow> ratio_ok w c \<and> ratio_rat c = ratio_rat a * ratio_rat b) \<and>
    {ratio_add w a b, ratio_sub w a b, ratio_mul w a b} \<subseteq> range Inr \<union> {Inl RatioOverflow}"
proof -
  have "r \<in> range Inr \<union> {Inl RatioOverflow}"
    if "\<And>e. r = Inl e \<Longrightarrow> e = RatioOverflow" for r :: "(ratio, ratio_error) result"
    using that by (cases r) auto
  then show ?thesis
    using ratio_add_iff [OF assms] ratio_sub_iff [OF assms] ratio_mul_iff [OF assms] ratio_op_error [OF assms]
    by simp
qed

theorem ratio_arithmetic_exact_witness:
  "ratio_add I32 half third = Inr \<lparr>r_num = 5, r_den = 6\<rparr> \<longleftrightarrow>
    ratio_ok I32 \<lparr>r_num = 5, r_den = 6\<rparr> \<and>
    ratio_rat \<lparr>r_num = 5, r_den = 6\<rparr> = ratio_rat half + ratio_rat third"
  using ratio_arithmetic_exact [of I32 half third "\<lparr>r_num = 5, r_den = 6\<rparr>"]
  by (simp add: ratio_ok_def half_def third_def)

text \<open>\<open>try_new\<close> returns the one normalised pair with the value of the fraction, whatever
  the signs and common factors of its arguments, or an overflow when that pair does not fit;
  so two normalised rationals are equal exactly when their values are.\<close>

theorem ratio_normal_form:
  assumes "ratio_ok w a" "ratio_ok w b"
  shows "(a = b \<longleftrightarrow> ratio_rat a = ratio_rat b) \<and>
    try_new w n 0 = Inl ZeroDenominator \<and>
    (d \<noteq> 0 \<longrightarrow> (try_new w n d = Inr a \<longleftrightarrow> ratio_rat a = of_int n / of_int d)) \<and>
    try_new w (r_num a) (r_den a) = Inr a"
proof -
  have "r_den a \<noteq> 0" using assms(1) by (auto simp: ratio_ok_def)
  then show ?thesis
    using assms ratio_rat_inj [OF assms] try_from_wide_iff [of _ w _ a]
    by (auto simp: try_new_def try_from_wide_def ratio_rat_def)
qed

theorem ratio_normal_form_witness:
  "try_new I32 (- 6) (- 4) = Inr \<lparr>r_num = 3, r_den = 2\<rparr>"
  using ratio_normal_form [of I32 "\<lparr>r_num = 3, r_den = 2\<rparr>" "\<lparr>r_num = 3, r_den = 2\<rparr>" "- 6" "- 4"]
  by (simp add: ratio_ok_def ratio_rat_def)

end
