(* ===== verification/Sparse_Monomial.thy ===== *)
theory Sparse_Monomial
  imports Ratio
begin

text \<open>
  The monomial algebra shared by dimensions and type-level Nat polynomials
  (\<open>crates/graphcal-compiler/src/sparse_monomial.rs\<close>): a \<open>BTreeMap\<close> from keys
  to non-zero exponents. The trait \<open>MonomialExponent\<close> is the record \<open>exponent_ops\<close>
  that the operations take; its contract is the locale \<open>exponent_laws\<close>, inside which
  the operations are shown to compute the sums and products of exponents and to fail
  exactly when one of them has no representation.
\<close>

section \<open>Operations\<close>

record ('e, 'err) exponent_ops =
  exp_is_zero :: "'e \<Rightarrow> bool"
  exp_add :: "'e \<Rightarrow> 'e \<Rightarrow> ('e, 'err) result"
  exp_mul :: "'e \<Rightarrow> 'e \<Rightarrow> ('e, 'err) result"

type_synonym ('k, 'e) monomial = "('k, 'e) btree"

datatype 'k factor_error = ZeroExponent 'k | DuplicateKey 'k

fun map_key :: "('k \<Rightarrow> 'l) \<Rightarrow> 'k factor_error \<Rightarrow> 'l factor_error" where
  "map_key f (ZeroExponent k) = ZeroExponent (f k)"
| "map_key f (DuplicateKey k) = DuplicateKey (f k)"

definition mono_one :: "('k, 'e) monomial" where
  "mono_one = []"

definition mono_is_empty :: "('k, 'e) monomial \<Rightarrow> bool" where
  "mono_is_empty m \<longleftrightarrow> m = []"

definition mono_keys :: "('k, 'e) monomial \<Rightarrow> 'k list" where
  "mono_keys m = map fst m"

fun as_single :: "('k, 'e) monomial \<Rightarrow> ('k \<times> 'e) option" where
  "as_single [f] = Some f"
| "as_single _ = None"

definition mono_single ::
  "('e, 'err) exponent_ops \<Rightarrow> 'k::linorder \<Rightarrow> 'e \<Rightarrow> ('k, 'e) monomial" where
  "mono_single X key e = (if \<not> exp_is_zero X e then bt_insert key e [] else [])"

definition add_factor ::
  "('e, 'err) exponent_ops \<Rightarrow> ('k::linorder, 'e) monomial \<Rightarrow> 'k \<times> 'e \<Rightarrow> (('k, 'e) monomial, 'k factor_error) result" where
  "add_factor X m p =
     (if exp_is_zero X (snd p) then Inl (ZeroExponent (fst p))
      else (case map_of m (fst p) of
              None \<Rightarrow> Inr (bt_insert (fst p) (snd p) m)
            | Some _ \<Rightarrow> Inl (DuplicateKey (fst p))))"

definition try_from_factors ::
  "('e, 'err) exponent_ops \<Rightarrow> ('k::linorder \<times> 'e) list \<Rightarrow> (('k, 'e) monomial, 'k factor_error) result" where
  "try_from_factors X factors = try_fold (add_factor X) [] factors"

definition mono_get :: "('k, 'e) monomial \<Rightarrow> 'k \<Rightarrow> 'e option" where
  "mono_get m key = map_of m key"

definition mul_factor ::
  "('e, 'err) exponent_ops \<Rightarrow> ('k::linorder, 'e) monomial \<Rightarrow> 'k \<times> 'e \<Rightarrow> (('k, 'e) monomial, 'err) result" where
  "mul_factor X factors p =
     (case map_of factors (fst p) of
        None \<Rightarrow> Inr (bt_insert (fst p) (snd p) factors)
      | Some e \<Rightarrow> res_bind (exp_add X e (snd p)) (\<lambda>s.
          if exp_is_zero X s then Inr (bt_remove (fst p) factors)
          else Inr (bt_insert (fst p) s factors)))"

definition try_mul ::
  "('e, 'err) exponent_ops \<Rightarrow> ('k::linorder, 'e) monomial \<Rightarrow> ('k, 'e) monomial \<Rightarrow> (('k, 'e) monomial, 'err) result" where
  "try_mul X a b = try_fold (mul_factor X) a b"

definition pow_factor ::
  "('e, 'err) exponent_ops \<Rightarrow> 'e \<Rightarrow> ('k::linorder, 'e) monomial \<Rightarrow> 'k \<times> 'e \<Rightarrow> (('k, 'e) monomial, 'err) result" where
  "pow_factor X e factors p =
     res_bind (exp_mul X (snd p) e) (\<lambda>q.
       if \<not> exp_is_zero X q then Inr (bt_insert (fst p) q factors) else Inr factors)"

definition try_pow ::
  "('e, 'err) exponent_ops \<Rightarrow> ('k::linorder, 'e) monomial \<Rightarrow> 'e \<Rightarrow> (('k, 'e) monomial, 'err) result" where
  "try_pow X m e =
     (if exp_is_zero X e then Inr mono_one else try_fold (pow_factor X e) [] m)"

definition mono_inverse :: "('e \<Rightarrow> 'e) \<Rightarrow> ('k, 'e) monomial \<Rightarrow> ('k, 'e) monomial" where
  "mono_inverse ng m = map (\<lambda>(k, e). (k, ng e)) m"

definition try_div ::
  "('e, 'err) exponent_ops \<Rightarrow> ('e \<Rightarrow> 'e) \<Rightarrow> ('k::linorder, 'e) monomial \<Rightarrow> ('k, 'e) monomial \<Rightarrow>
     (('k, 'e) monomial, 'err) result" where
  "try_div X ng a b = try_mul X a (mono_inverse ng b)"

section \<open>Invariant and denotation\<close>

text \<open>Keys ascend and no stored exponent is zero (or outside the exponent type).\<close>

definition mono_ok :: "('e, 'err) exponent_ops \<Rightarrow> ('e \<Rightarrow> bool) \<Rightarrow> ('k::linorder, 'e) monomial \<Rightarrow> bool" where
  "mono_ok X okE m \<longleftrightarrow> bt_ok m \<and> (\<forall>p \<in> set m. \<not> exp_is_zero X (snd p) \<and> okE (snd p))"

text \<open>The exponent of every key, zero for the absent ones.\<close>

definition mono_val :: "('e \<Rightarrow> 'v::zero) \<Rightarrow> ('k, 'e) monomial \<Rightarrow> 'k \<Rightarrow> 'v" where
  "mono_val val m k = (case map_of m k of None \<Rightarrow> 0 | Some e \<Rightarrow> val e)"

lemma mono_val_Nil [simp]: "mono_val val [] k = 0"
  by (simp add: mono_val_def)

lemma mono_val_Cons:
  "mono_val val (p # m) k = (if k = fst p then val (snd p) else mono_val val m k)"
  by (simp add: mono_val_def)

lemma mono_val_insert:
  "mono_val val (bt_insert j e m) k = (if k = j then val e else mono_val val m k)"
  by (simp add: mono_val_def map_of_bt_insert)

lemma mono_val_remove:
  "bt_ok m \<Longrightarrow> mono_val val (bt_remove j m) k = (if k = j then 0 else mono_val val m k)"
  by (simp add: mono_val_def map_of_bt_remove)

lemma mono_ok_Nil [simp]: "mono_ok X okE []"
  by (simp add: mono_ok_def)

lemma mono_ok_one [simp]: "mono_ok X okE mono_one"
  by (simp add: mono_one_def)

lemma mono_ok_bt: "mono_ok X okE m \<Longrightarrow> bt_ok m"
  by (simp add: mono_ok_def)

lemma mono_ok_Cons:
  "mono_ok X okE (p # m) \<longleftrightarrow>
     (\<forall>q \<in> set m. fst p < fst q) \<and> \<not> exp_is_zero X (snd p) \<and> okE (snd p) \<and> mono_ok X okE m"
  by (auto simp: mono_ok_def bt_ok_Cons)

lemma mono_ok_insert:
  "mono_ok X okE m \<Longrightarrow> \<not> exp_is_zero X e \<Longrightarrow> okE e \<Longrightarrow> mono_ok X okE (bt_insert k e m)"
  using set_bt_insert [of k e m] by (fastforce simp: mono_ok_def)

lemma mono_ok_remove: "mono_ok X okE m \<Longrightarrow> mono_ok X okE (bt_remove k m)"
  using set_bt_remove [of k m] by (auto simp: mono_ok_def)

lemma mono_ok_lookup:
  "mono_ok X okE m \<Longrightarrow> map_of m k = Some e \<Longrightarrow> okE e \<and> \<not> exp_is_zero X e"
  by (fastforce simp: mono_ok_def dest: map_of_SomeD)

text \<open>A written factor list is accepted when its keys differ and no exponent is zero.\<close>

lemma add_factor_fold_iff:
  assumes "bt_ok m"
  shows "try_fold (add_factor X) m fs = Inr c \<longleftrightarrow>
    distinct (map fst fs) \<and> fst ` set fs \<inter> fst ` set m = {} \<and> (\<forall>p \<in> set fs. \<not> exp_is_zero X (snd p)) \<and>
    bt_ok c \<and> set c = set m \<union> set fs"
  using assms
proof (induction fs arbitrary: m)
  case Nil
  then show ?case using entries_unique [of m c] by (auto simp: bt_ok_def)
next
  case (Cons p fs)
  show ?case
  proof (cases "exp_is_zero X (snd p) \<or> fst p \<in> fst ` set m")
    case True
    then show ?thesis
      using map_of_eq_None_iff [of m "fst p"]
      by (auto simp: add_factor_def image_iff split: option.splits)
  next
    case False
    then have new: "map_of m (fst p) = None" by (simp add: map_of_eq_None_iff)
    then have "try_fold (add_factor X) m (p # fs) = try_fold (add_factor X) (bt_insert (fst p) (snd p) m) fs"
      using False by (simp add: add_factor_def)
    moreover have "set (bt_insert (fst p) (snd p) m) = insert p (set m)"
      using set_bt_insert_new [OF Cons.prems new] by simp
    ultimately show ?thesis
      using Cons.IH [OF bt_ok_insert [OF Cons.prems]] False by (auto simp: keys_bt_insert)
  qed
qed

lemma try_from_factors_iff:
  "try_from_factors X fs = Inr c \<longleftrightarrow>
    distinct (map fst fs) \<and> (\<forall>p \<in> set fs. \<not> exp_is_zero X (snd p)) \<and> bt_ok c \<and> set c = set fs"
  by (simp add: try_from_factors_def add_factor_fold_iff)

lemma try_from_factors_ok:
  "try_from_factors X fs = Inr c \<Longrightarrow> \<forall>p \<in> set fs. okE (snd p) \<Longrightarrow> mono_ok X okE c"
  by (auto simp: try_from_factors_iff mono_ok_def)

lemmas mono_rules = mono_val_insert mono_val_remove mono_ok_insert mono_ok_remove mono_ok_bt

section \<open>The contract of an exponent type\<close>

text \<open>
  \<open>val\<close> is the number an exponent stands for and \<open>okE\<close> the representable ones:
  sums and products are returned exactly when the result is representable.
\<close>

locale exponent_laws =
  fixes X :: "('e, 'err) exponent_ops"
    and okE :: "'e \<Rightarrow> bool"
    and val :: "'e \<Rightarrow> 'v::semidom"
  assumes zero_rep: "\<exists>z. okE z \<and> val z = 0"
    and val_inj: "okE a \<Longrightarrow> okE b \<Longrightarrow> val a = val b \<Longrightarrow> a = b"
    and zero_iff: "okE e \<Longrightarrow> exp_is_zero X e \<longleftrightarrow> val e = 0"
    and add_iff: "okE a \<Longrightarrow> okE b \<Longrightarrow> exp_add X a b = Inr c \<longleftrightarrow> okE c \<and> val c = val a + val b"
    and mul_iff: "okE a \<Longrightarrow> okE b \<Longrightarrow> exp_mul X a b = Inr c \<longleftrightarrow> okE c \<and> val c = val a * val b"
begin

lemma mono_val_rep: "mono_ok X okE c \<Longrightarrow> \<exists>e. okE e \<and> val e = mono_val val c k"
  using zero_rep mono_ok_lookup [of X okE c k]
  by (cases "map_of c k") (auto simp: mono_val_def)

text \<open>Equality of monomials is equality of all exponents.\<close>

lemma mono_val_eq_iff:
  assumes "mono_ok X okE a" "mono_ok X okE b"
  shows "mono_val val a = mono_val val b \<longleftrightarrow> a = b"
proof
  assume eq: "mono_val val a = mono_val val b"
  have "map_of a k = map_of b k" for k
    using fun_cong [OF eq, of k] mono_ok_lookup [OF assms(1), of k] mono_ok_lookup [OF assms(2), of k]
    by (auto simp: mono_val_def zero_iff split: option.splits intro: val_inj)
  then show "a = b"
    by (rule bt.get_ext [OF mono_ok_bt [OF assms(1)] mono_ok_bt [OF assms(2)]])
qed simp

lemma mul_factor_sound:
  assumes "mono_ok X okE m" "okE (snd p)" "\<not> exp_is_zero X (snd p)" "mul_factor X m p = Inr c"
  shows "mono_ok X okE c \<and> mono_val val c = (mono_val val m)(fst p := mono_val val m (fst p) + val (snd p))"
proof (cases "map_of m (fst p)")
  case None
  with assms show ?thesis
    by (auto simp: mul_factor_def fun_eq_iff mono_rules mono_val_def [of _ m])
next
  case (Some e)
  note e = mono_ok_lookup [OF assms(1) Some]
  from Some assms(4) obtain s where s: "exp_add X e (snd p) = Inr s"
    and c: "c = (if exp_is_zero X s then bt_remove (fst p) m else bt_insert (fst p) s m)"
    by (auto simp: mul_factor_def result_iffs split: if_splits)
  have "okE s" "val s = val e + val (snd p)"
    using s e assms(2) by (simp_all add: add_iff)
  with c Some assms(1) show ?thesis
    by (auto simp: fun_eq_iff mono_rules zero_iff mono_val_def [of _ m])
qed

lemma mul_factor_complete:
  assumes "mono_ok X okE m" "okE (snd p)" "\<not> exp_is_zero X (snd p)"
    and "okE e" "val e = mono_val val m (fst p) + val (snd p)"
  shows "is_ok (mul_factor X m p)"
proof (cases "map_of m (fst p)")
  case (Some d)
  with assms mono_ok_lookup [OF assms(1) Some] have "exp_add X d (snd p) = Inr e"
    by (simp add: add_iff mono_val_def)
  with Some show ?thesis by (simp add: mul_factor_def)
qed (simp add: mul_factor_def)

text \<open>Exponents add; cancelled factors vanish.\<close>

lemma try_mul_sound:
  assumes "mono_ok X okE a" "mono_ok X okE b" "try_mul X a b = Inr c"
  shows "mono_ok X okE c \<and> mono_val val c = (\<lambda>k. mono_val val a k + mono_val val b k)"
  using assms unfolding try_mul_def
proof (induction b arbitrary: a)
  case (Cons p b)
  from Cons.prems obtain a' where a': "mul_factor X a p = Inr a'" "try_fold (mul_factor X) a' b = Inr c"
    by (auto simp: result_iffs)
  have p: "okE (snd p)" "\<not> exp_is_zero X (snd p)" "mono_ok X okE b" "mono_val val b (fst p) = 0"
    using Cons.prems(2) by (auto simp: mono_ok_Cons mono_val_def map_of_bt_less)
  note step = mul_factor_sound [OF Cons.prems(1) p(1,2) a'(1)]
  with Cons.IH [of a'] p a'(2)
  have "mono_ok X okE c \<and> mono_val val c = (\<lambda>k. mono_val val a' k + mono_val val b k)"
    by blast
  with step p(4) show ?case by (auto simp: fun_eq_iff mono_val_Cons)
qed (simp add: fun_eq_iff)

text \<open>The product is returned whenever every sum is representable.\<close>

lemma try_mul_complete:
  assumes "mono_ok X okE a" "mono_ok X okE b"
    and "\<And>k. \<exists>e. okE e \<and> val e = mono_val val a k + mono_val val b k"
  shows "is_ok (try_mul X a b)"
  using assms unfolding try_mul_def
proof (induction b arbitrary: a)
  case (Cons p b)
  have p: "okE (snd p)" "\<not> exp_is_zero X (snd p)" "mono_ok X okE b" "mono_val val b (fst p) = 0"
    using Cons.prems(2) by (auto simp: mono_ok_Cons mono_val_def map_of_bt_less)
  from Cons.prems(3) [of "fst p"] mul_factor_complete [OF Cons.prems(1) p(1,2)]
  obtain a' where a': "mul_factor X a p = Inr a'"
    by (auto simp: mono_val_Cons is_ok_iff)
  note step = mul_factor_sound [OF Cons.prems(1) p(1,2) a']
  have "\<exists>e. okE e \<and> val e = mono_val val a' k + mono_val val b k" for k
    using Cons.prems(3) [of k] step p(4) by (auto simp: mono_val_Cons split: if_splits)
  with Cons.IH [of a'] step p(3) show ?case by (simp add: a')
qed simp

lemma try_mul_iff:
  assumes "mono_ok X okE a" "mono_ok X okE b"
  shows "try_mul X a b = Inr c \<longleftrightarrow>
    mono_ok X okE c \<and> mono_val val c = (\<lambda>k. mono_val val a k + mono_val val b k)"
    (is "_ \<longleftrightarrow> ?c")
proof
  assume c: ?c
  have "\<exists>e. okE e \<and> val e = mono_val val a k + mono_val val b k" for k
    using c mono_val_rep [of c k] by simp
  with try_mul_complete [OF assms] obtain d where d: "try_mul X a b = Inr d"
    by (auto simp: is_ok_iff)
  with try_mul_sound [OF assms d] c mono_val_eq_iff [of d c] show "try_mul X a b = Inr c"
    by simp
qed (rule try_mul_sound [OF assms])

lemma try_mul_commute:
  "mono_ok X okE a \<Longrightarrow> mono_ok X okE b \<Longrightarrow> try_mul X a b = Inr c \<Longrightarrow> try_mul X b a = Inr c"
  by (simp add: try_mul_iff add.commute)

lemma try_mul_one:
  "mono_ok X okE a \<Longrightarrow> try_mul X a mono_one = Inr a"
  "mono_ok X okE a \<Longrightarrow> try_mul X mono_one a = Inr a"
  by (simp_all add: try_mul_iff) (simp_all add: mono_one_def)

text \<open>Powers multiply every exponent; an exponent product is computed for every factor.\<close>

lemma pow_fold_iff:
  assumes "mono_ok X okE acc" "mono_ok X okE m" "okE e" "\<not> exp_is_zero X e"
    and "\<And>k. k \<in> fst ` set m \<Longrightarrow> mono_val val acc k = 0"
  shows "try_fold (pow_factor X e) acc m = Inr c \<longleftrightarrow>
    mono_ok X okE c \<and> mono_val val c = (\<lambda>k. mono_val val acc k + mono_val val m k * val e)"
  using assms
proof (induction m arbitrary: acc)
  case Nil
  then show ?case using mono_val_eq_iff [of c acc] by auto
next
  case (Cons p m)
  have p: "okE (snd p)" "\<not> exp_is_zero X (snd p)" "mono_ok X okE m" "\<And>k. k \<in> fst ` set m \<Longrightarrow> k \<noteq> fst p"
    and pm: "mono_val val m (fst p) = 0" "mono_val val acc (fst p) = 0"
    using Cons.prems(2) Cons.prems(5) [of "fst p"] by (auto simp: mono_ok_Cons mono_val_def map_of_bt_less)
  show ?case
  proof (cases "exp_mul X (snd p) e")
    case (Inl err)
    have "mono_val val c (fst p) \<noteq> val (snd p) * val e" if "mono_ok X okE c"
    proof
      assume *: "mono_val val c (fst p) = val (snd p) * val e"
      have "val (snd p) * val e \<noteq> 0"
        using p Cons.prems(3,4) zero_iff by simp
      with * obtain x where "map_of c (fst p) = Some x" "val x = val (snd p) * val e"
        by (auto simp: mono_val_def split: option.splits)
      with mono_ok_lookup [OF that] mul_iff [OF p(1) Cons.prems(3), of x] Inl show False by auto
    qed
    with Inl pm show ?thesis
      by (auto simp: pow_factor_def fun_eq_iff mono_val_Cons dest: spec [of _ "fst p"])
  next
    case (Inr q)
    then have q: "okE q" "val q = val (snd p) * val e" "\<not> exp_is_zero X q"
      using mul_iff [OF p(1) Cons.prems(3)] p Cons.prems(3,4) zero_iff [of q] zero_iff [of e] zero_iff [of "snd p"]
      by auto
    let ?acc = "bt_insert (fst p) q acc"
    have "try_fold (pow_factor X e) acc (p # m) = try_fold (pow_factor X e) ?acc m"
      using Inr q(3) by (simp add: pow_factor_def)
    also have "\<dots> = Inr c \<longleftrightarrow>
        mono_ok X okE c \<and> mono_val val c = (\<lambda>k. mono_val val ?acc k + mono_val val m k * val e)"
      using Cons.prems(1,3,4,5) p q by (intro Cons.IH) (auto simp: mono_rules)
    also have "(\<lambda>k. mono_val val ?acc k + mono_val val m k * val e) =
        (\<lambda>k. mono_val val acc k + mono_val val (p # m) k * val e)"
      using q(2) pm by (auto simp: fun_eq_iff mono_val_insert mono_val_Cons)
    finally show ?thesis .
  qed
qed

lemma try_pow_iff:
  assumes "mono_ok X okE m" "okE e"
  shows "try_pow X m e = Inr c \<longleftrightarrow>
    mono_ok X okE c \<and> mono_val val c = (\<lambda>k. mono_val val m k * val e)"
proof (cases "exp_is_zero X e")
  case True
  then show ?thesis
    using assms mono_val_eq_iff [of mono_one c] zero_iff [of e]
    by (auto simp: try_pow_def) (auto simp: mono_one_def fun_eq_iff)
next
  case False
  then show ?thesis
    using pow_fold_iff [of "[]" m e c] assms by (simp add: try_pow_def)
qed

lemma try_pow_mul_distrib:
  assumes "mono_ok X okE a" "mono_ok X okE b" "okE e"
    and "try_mul X a b = Inr ab" "try_pow X ab e = Inr l"
    and "try_pow X a e = Inr ae" "try_pow X b e = Inr be"
  shows "try_mul X ae be = Inr l"
proof -
  note ab = try_mul_sound [OF assms(1,2,4)]
  have "mono_ok X okE l" "mono_val val l = (\<lambda>k. mono_val val ab k * val e)"
    using assms(5) ab try_pow_iff [of ab e l] assms(3) by simp_all
  moreover have "mono_ok X okE ae" "mono_val val ae = (\<lambda>k. mono_val val a k * val e)"
    "mono_ok X okE be" "mono_val val be = (\<lambda>k. mono_val val b k * val e)"
    using assms(6,7) try_pow_iff [OF assms(1,3)] try_pow_iff [OF assms(2,3)] by simp_all
  ultimately show ?thesis
    using ab by (simp add: try_mul_iff algebra_simps)
qed

end

section \<open>Signed exponents\<close>

text \<open>An exponent type closed under negation: every monomial has an inverse.\<close>

locale signed_exponent_laws = exponent_laws X okE val
  for X :: "('e, 'err) exponent_ops" and okE :: "'e \<Rightarrow> bool" and val :: "'e \<Rightarrow> 'v::idom" +
  fixes ng :: "'e \<Rightarrow> 'e"
  assumes neg_ok: "okE e \<Longrightarrow> okE (ng e)"
    and neg_val: "okE e \<Longrightarrow> val (ng e) = - val e"
begin

lemma mono_inverse_ok:
  assumes "mono_ok X okE m"
  shows "mono_ok X okE (mono_inverse ng m)"
    and "mono_val val (mono_inverse ng m) = (\<lambda>k. - mono_val val m k)"
proof -
  show "mono_ok X okE (mono_inverse ng m)"
    using assms by (auto simp: mono_ok_def mono_inverse_def neg_ok neg_val zero_iff)
  show "mono_val val (mono_inverse ng m) = (\<lambda>k. - mono_val val m k)"
    using mono_ok_lookup [OF assms]
    by (auto simp: mono_val_def mono_inverse_def map_of_map_values fun_eq_iff neg_val split: option.splits)
qed

lemma try_div_iff:
  assumes "mono_ok X okE a" "mono_ok X okE b"
  shows "try_div X ng a b = Inr c \<longleftrightarrow>
    mono_ok X okE c \<and> mono_val val c = (\<lambda>k. mono_val val a k - mono_val val b k)"
  using assms mono_inverse_ok [OF assms(2)] by (simp add: try_div_def try_mul_iff)

lemma try_div_self: "mono_ok X okE a \<Longrightarrow> try_div X ng a a = Inr mono_one"
  by (simp add: try_div_iff) (simp add: mono_one_def fun_eq_iff)

lemma try_div_mul_cancel:
  assumes "mono_ok X okE a" "mono_ok X okE b" "try_div X ng a b = Inr q"
  shows "try_mul X q b = Inr a"
  using assms by (simp add: try_div_iff try_mul_iff)

lemma try_mul_div_cancel:
  assumes "mono_ok X okE a" "mono_ok X okE b" "try_mul X a b = Inr q"
  shows "try_div X ng q b = Inr a"
  using assms by (simp add: try_div_iff try_mul_iff)

end

section \<open>Rational exponents\<close>

definition ratio_exponent :: "ratio_int \<Rightarrow> (ratio, ratio_error) exponent_ops" where
  "ratio_exponent w =
     \<lparr>exp_is_zero = ratio_is_zero, exp_add = ratio_add w, exp_mul = ratio_mul w\<rparr>"

interpretation ratio_exp: signed_exponent_laws "ratio_exponent w" "ratio_ok w" ratio_rat ratio_neg
  for w
proof
  show "\<exists>z. ratio_ok w z \<and> ratio_rat z = 0"
    using ratio_ok_zero ratio_rat_zero by blast
qed (auto simp: ratio_exponent_def ratio_add_iff ratio_mul_iff intro: ratio_rat_inj)

lemma add_factor_error_iff:
  "try_from_factors X pre = Inr m \<and> add_factor X m (k, e) = Inl err \<longleftrightarrow>
     try_from_factors X pre = Inr m \<and>
     (if exp_is_zero X e then err = ZeroExponent k else k \<in> fst ` set pre \<and> err = DuplicateKey k)"
proof (cases "try_from_factors X pre = Inr m")
  case True
  then have "set m = set pre" by (simp add: try_from_factors_iff)
  then have "map_of m k = None \<longleftrightarrow> k \<notin> fst ` set pre" by (simp add: map_of_eq_None_iff)
  then show ?thesis using True by (cases "map_of m k") (auto simp: add_factor_def)
qed simp

section \<open>Properties\<close>

text \<open>A monomial is built from a factor list exactly when no base repeats and no exponent is
  zero, and then it holds those factors, sorted by base; otherwise the first factor that is zero
  or repeats an earlier base is reported.\<close>

theorem try_from_factors_correct:
  "(try_from_factors X fs = Inr c \<longleftrightarrow>
     distinct (map fst fs) \<and> (\<forall>p \<in> set fs. \<not> exp_is_zero X (snd p)) \<and> bt_ok c \<and> set c = set fs) \<and>
   (try_from_factors X fs = Inl err \<longleftrightarrow>
     (\<exists>pre k e post. fs = pre @ (k, e) # post \<and> is_ok (try_from_factors X pre) \<and>
        (if exp_is_zero X e then err = ZeroExponent k
         else k \<in> fst ` set pre \<and> err = DuplicateKey k)))"
proof -
  have "try_from_factors X fs = Inl err \<longleftrightarrow>
      (\<exists>pre k e post m. fs = pre @ (k, e) # post \<and> try_from_factors X pre = Inr m \<and>
        add_factor X m (k, e) = Inl err)"
    by (simp add: try_from_factors_def try_fold_Inl_iff)
  then have "try_from_factors X fs = Inl err \<longleftrightarrow>
      (\<exists>pre k e post. fs = pre @ (k, e) # post \<and> is_ok (try_from_factors X pre) \<and>
        (if exp_is_zero X e then err = ZeroExponent k else k \<in> fst ` set pre \<and> err = DuplicateKey k))"
    unfolding add_factor_error_iff is_ok_iff by (simp only: ex_simps)
  then show ?thesis using try_from_factors_iff by (intro conjI)
qed

theorem try_from_factors_correct_witness:
  "try_from_factors (ratio_exponent I32) [(2::nat, half), (1, third), (2, third)] = Inl (DuplicateKey 2)"
proof -
  let ?X = "ratio_exponent I32" and ?fs = "[(2::nat, half), (1, third), (2, third)]"
  have "?fs = [(2, half), (1, third)] @ (2, third) # []" by simp
  moreover have "is_ok (try_from_factors ?X [(2::nat, half), (1, third)])" by code_simp
  moreover have "\<not> exp_is_zero ?X third" by code_simp
  moreover have "(2::nat) \<in> fst ` set [(2::nat, half), (1, third)]" by simp
  ultimately show ?thesis
    using try_from_factors_correct [of ?X ?fs _ "DuplicateKey 2"] by metis
qed

end
