(* ===== verification/Dag_Id.thy ===== *)
theory Dag_Id
  imports GC_Prelude "HOL-Library.Char_ord"
begin

text \<open>
  Module identities (\<open>crates/graphcal-compiler/src/dag_id.rs\<close>) with the scope segments of
  \<open>syntax/module_name.rs\<close>, the name atoms of \<open>syntax/names.rs\<close>, and resolved names
  (\<open>resolved_name.rs\<close>). Strings are their UTF-8 bytes, whose lexicographic order is the
  order of Rust's \<open>str\<close>; a relative path is the list of its \<open>std::path::Component\<close>s. The
  hand-written \<open>Ord\<close> implementations are \<open>linorder\<close> instances. The lemmas show that the
  child constructors and \<open>parent\<close> are inverse, that descent is the transitive closure of
  the child relation, and that exactly the canonical \<open>.gcl\<close> paths have an identity.
\<close>

section \<open>Scope segments\<close>

datatype scope_segment = ScopeNamed string | IncludeInstance nat

definition include_instance_display :: "nat \<Rightarrow> string" where
  "include_instance_display offset = ''<include@'' @ show_nat offset @ ''>''"

fun scope_rendered :: "scope_segment \<Rightarrow> string" where
  "scope_rendered (ScopeNamed alias) = alias"
| "scope_rendered (IncludeInstance i) = include_instance_display i"

fun scope_alias :: "scope_segment \<Rightarrow> string option" where
  "scope_alias (ScopeNamed alias) = Some alias"
| "scope_alias (IncludeInstance _) = None"

text \<open>Rendered text first, then named before anonymous, then the payload.\<close>

fun scope_cmp_key :: "scope_segment \<Rightarrow> string \<times> bool \<times> nat" where
  "scope_cmp_key (ScopeNamed alias) = (alias, False, 0)"
| "scope_cmp_key (IncludeInstance i) = (include_instance_display i, True, i)"

lemma scope_cmp_key_inj: "scope_cmp_key a = scope_cmp_key b \<Longrightarrow> a = b"
  by (cases a; cases b) auto

instantiation scope_segment :: linorder
begin

definition less_eq_scope_segment :: "scope_segment \<Rightarrow> scope_segment \<Rightarrow> bool" where
  "a \<le> b \<longleftrightarrow> scope_cmp_key a \<le> scope_cmp_key b"

definition less_scope_segment :: "scope_segment \<Rightarrow> scope_segment \<Rightarrow> bool" where
  "a < b \<longleftrightarrow> scope_cmp_key a < scope_cmp_key b"

instance
  by standard
    (auto simp: less_eq_scope_segment_def less_scope_segment_def less_le_not_le
      intro: order_trans scope_cmp_key_inj antisym)

end

section \<open>Segments\<close>

datatype dag_segment =
    FileSegment string
  | InlineDag string
  | InstanceSegment scope_segment

fun is_file :: "dag_segment \<Rightarrow> bool" where
  "is_file (FileSegment _) = True"
| "is_file _ = False"

fun is_instance :: "dag_segment \<Rightarrow> bool" where
  "is_instance (InstanceSegment _) = True"
| "is_instance _ = False"

fun inline_dag :: "dag_segment \<Rightarrow> string option" where
  "inline_dag (InlineDag name) = Some name"
| "inline_dag _ = None"

fun segment_scope :: "dag_segment \<Rightarrow> scope_segment option" where
  "segment_scope (FileSegment _) = None"
| "segment_scope (InlineDag name) = Some (ScopeNamed name)"
| "segment_scope (InstanceSegment scope) = Some scope"

datatype name_atom_error = EmptyAtom | ContainsDot

definition name_atom_parse :: "string \<Rightarrow> (string, name_atom_error) result" where
  "name_atom_parse s =
     (if s = [] then Inl EmptyAtom
      else if CHR ''.'' \<in> set s then Inl ContainsDot
      else Inr s)"

fun module_path_segment :: "dag_segment \<Rightarrow> string option" where
  "module_path_segment (FileSegment name) =
     (case name_atom_parse name of Inl _ \<Rightarrow> None | Inr a \<Rightarrow> Some a)"
| "module_path_segment (InlineDag name) = Some name"
| "module_path_segment (InstanceSegment _) = None"

fun segment_rendered :: "dag_segment \<Rightarrow> string" where
  "segment_rendered (FileSegment name) = name"
| "segment_rendered (InlineDag name) = name"
| "segment_rendered (InstanceSegment scope) = scope_rendered scope"

text \<open>The derived order: by constructor, then by payload.\<close>

fun segment_cmp_key :: "dag_segment \<Rightarrow> nat \<times> string \<times> scope_segment list" where
  "segment_cmp_key (FileSegment name) = (0, name, [])"
| "segment_cmp_key (InlineDag name) = (1, name, [])"
| "segment_cmp_key (InstanceSegment scope) = (2, [], [scope])"

lemma segment_cmp_key_inj: "segment_cmp_key a = segment_cmp_key b \<Longrightarrow> a = b"
  by (cases a; cases b) auto

instantiation dag_segment :: linorder
begin

definition less_eq_dag_segment :: "dag_segment \<Rightarrow> dag_segment \<Rightarrow> bool" where
  "a \<le> b \<longleftrightarrow> segment_cmp_key a \<le> segment_cmp_key b"

definition less_dag_segment :: "dag_segment \<Rightarrow> dag_segment \<Rightarrow> bool" where
  "a < b \<longleftrightarrow> segment_cmp_key a < segment_cmp_key b"

instance
  by standard
    (auto simp: less_eq_dag_segment_def less_dag_segment_def less_le_not_le
      intro: order_trans segment_cmp_key_inj antisym)

end

section \<open>Identities\<close>

datatype dag_id = DagId (dag_package: string) (dag_segments: "dag_segment list")

definition dag_cmp_key ::
  "dag_id \<Rightarrow> string \<times> string list \<times> bool list \<times> dag_segment list" where
  "dag_cmp_key d =
     (dag_package d, map segment_rendered (dag_segments d),
      map is_instance (dag_segments d), dag_segments d)"

instantiation dag_id :: linorder
begin

definition less_eq_dag_id :: "dag_id \<Rightarrow> dag_id \<Rightarrow> bool" where
  "a \<le> b \<longleftrightarrow> dag_cmp_key a \<le> dag_cmp_key b"

definition less_dag_id :: "dag_id \<Rightarrow> dag_id \<Rightarrow> bool" where
  "a < b \<longleftrightarrow> dag_cmp_key a < dag_cmp_key b"

instance
proof
  fix a b :: dag_id
  assume "a \<le> b" "b \<le> a"
  then have "dag_cmp_key a = dag_cmp_key b"
    unfolding less_eq_dag_id_def by (rule antisym)
  then show "a = b"
    by (simp add: dag_cmp_key_def dag_id.expand)
qed (auto simp: less_eq_dag_id_def less_dag_id_def less_le_not_le intro: order_trans)

end

definition dag_new :: "string \<Rightarrow> string list \<Rightarrow> dag_id" where
  "dag_new package segments = DagId package (map FileSegment segments)"

definition root_in_package :: "string \<Rightarrow> string \<Rightarrow> dag_id" where
  "root_in_package package name = DagId package [FileSegment name]"

definition with_child :: "dag_id \<Rightarrow> dag_segment \<Rightarrow> dag_id" where
  "with_child d segment = DagId (dag_package d) (dag_segments d @ [segment])"

definition inline_dag_child :: "dag_id \<Rightarrow> string \<Rightarrow> dag_id" where
  "inline_dag_child d name = with_child d (InlineDag name)"

definition instance_child :: "dag_id \<Rightarrow> scope_segment \<Rightarrow> dag_id" where
  "instance_child d scope = with_child d (InstanceSegment scope)"

definition dag_leaf :: "dag_id \<Rightarrow> dag_segment" where
  "dag_leaf d = last (dag_segments d)"

definition dag_parent :: "dag_id \<Rightarrow> dag_id option" where
  "dag_parent d =
     (if is_file (dag_leaf d) then None
      else if dag_segments d = [] then None
      else (case butlast (dag_segments d) of
              [] \<Rightarrow> None
            | first # rest \<Rightarrow> Some (DagId (dag_package d) (first # rest))))"

definition is_instance_child_of :: "dag_id \<Rightarrow> dag_id \<Rightarrow> bool" where
  "is_instance_child_of d parent \<longleftrightarrow> is_instance (dag_leaf d) \<and> dag_parent d = Some parent"

lemma dag_parent_shorter:
  "dag_parent d = Some p \<Longrightarrow> length (dag_segments p) < length (dag_segments d)"
  by (cases "dag_segments d" rule: rev_cases) (auto simp: dag_parent_def split: if_splits list.splits)

function file_root :: "dag_id \<Rightarrow> dag_id" where
  "file_root d = (case dag_parent d of Some parent \<Rightarrow> file_root parent | None \<Rightarrow> d)"
  by auto

termination file_root
  by (relation "measure (\<lambda>d. length (dag_segments d))") (simp_all add: dag_parent_shorter)

declare file_root.simps [simp del]

fun strip_prefix :: "'a list \<Rightarrow> 'a list \<Rightarrow> 'a list option" where
  "strip_prefix xs [] = Some xs"
| "strip_prefix [] (_ # _) = None"
| "strip_prefix (x # xs) (p # ps) = (if x = p then strip_prefix xs ps else None)"

definition is_descendant_of :: "dag_id \<Rightarrow> dag_id \<Rightarrow> bool" where
  "is_descendant_of d ancestor \<longleftrightarrow>
     dag_package d = dag_package ancestor \<and>
     (case strip_prefix (dag_segments d) (dag_segments ancestor) of
        Some (child # _) \<Rightarrow> \<not> is_file child
      | _ \<Rightarrow> False)"

fun collect_options :: "'a option list \<Rightarrow> 'a list option" where
  "collect_options [] = Some []"
| "collect_options (None # _) = None"
| "collect_options (Some x # xs) = map_option ((#) x) (collect_options xs)"

definition scopes_below :: "dag_id \<Rightarrow> dag_id \<Rightarrow> scope_segment list option" where
  "scopes_below d ancestor =
     (if d \<noteq> ancestor \<and> \<not> is_descendant_of d ancestor then None
      else collect_options (map segment_scope (drop (length (dag_segments ancestor)) (dag_segments d))))"

definition module_path_key :: "dag_id \<Rightarrow> string list option" where
  "module_path_key d = collect_options (map module_path_segment (dag_segments d))"

definition dag_display :: "dag_id \<Rightarrow> string" where
  "dag_display d = join ''.'' (map segment_rendered (dag_segments d))"

section \<open>Concrete instances\<close>

record instance_id =
  inst_owner :: dag_id
  inst_template :: dag_id
  inst_parent :: dag_id
  inst_scope :: scope_segment

definition instance_new :: "dag_id \<Rightarrow> scope_segment \<Rightarrow> dag_id \<Rightarrow> instance_id" where
  "instance_new parent scope template =
     \<lparr>inst_owner = instance_child parent scope, inst_template = template,
      inst_parent = parent, inst_scope = scope\<rparr>"

section \<open>Identities from relative paths\<close>

datatype path_component =
    NormalComponent "string option"
  | ParentDir
  | CurDir
  | RootDir
  | PathPrefix

datatype dag_id_path_error =
    EmptyPath
  | NotRelative
  | ParentTraversal
  | CurrentDirectory
  | NonUtf8Component
  | MissingGclExtension
  | EmptyFileStem

definition strip_suffix :: "string \<Rightarrow> string \<Rightarrow> string option" where
  "strip_suffix suffix s =
     (if length suffix \<le> length s \<and> drop (length s - length suffix) s = suffix
      then Some (take (length s - length suffix) s) else None)"

fun path_segment :: "path_component \<Rightarrow> (string, dag_id_path_error) result" where
  "path_segment (NormalComponent c) = ok_or NonUtf8Component c"
| "path_segment ParentDir = Inl ParentTraversal"
| "path_segment CurDir = Inl CurrentDirectory"
| "path_segment RootDir = Inl NotRelative"
| "path_segment PathPrefix = Inl NotRelative"

definition relative_path_segments ::
  "path_component list \<Rightarrow> (string list, dag_id_path_error) result" where
  "relative_path_segments path =
     (if path = [] then Inl EmptyPath
      else res_bind (try_map path_segment path) (\<lambda>segments.
        if segments = [] then Inl EmptyPath
        else res_bind (ok_or MissingGclExtension (strip_suffix ''.gcl'' (last segments))) (\<lambda>stem.
          if stem = [] then Inl EmptyFileStem
          else Inr (butlast segments @ [stem]))))"

definition try_from_vec :: "'e \<Rightarrow> 'a list \<Rightarrow> ('a list, 'e) result" where
  "try_from_vec e items = (if items = [] then Inl e else Inr items)"

definition from_relative_path ::
  "string \<Rightarrow> path_component list \<Rightarrow> (dag_id, dag_id_path_error) result" where
  "from_relative_path package path =
     res_bind (relative_path_segments path) (\<lambda>segments.
     res_bind (try_from_vec EmptyPath segments) (\<lambda>segments.
       Inr (dag_new package segments)))"

definition from_virtual_relative_path ::
  "path_component list \<Rightarrow> (dag_id, dag_id_path_error) result" where
  "from_virtual_relative_path path =
     res_bind (relative_path_segments path) (\<lambda>segments.
     res_bind (try_from_vec EmptyPath segments) (\<lambda>segments.
       Inr (dag_new (last segments) segments)))"

section \<open>Resolved names\<close>

datatype resolved_name = ResolvedName (rn_owner: dag_id) (rn_leaf: string)

instantiation resolved_name :: linorder
begin

definition less_eq_resolved_name :: "resolved_name \<Rightarrow> resolved_name \<Rightarrow> bool" where
  "a \<le> b \<longleftrightarrow> (rn_owner a, rn_leaf a) \<le> (rn_owner b, rn_leaf b)"

definition less_resolved_name :: "resolved_name \<Rightarrow> resolved_name \<Rightarrow> bool" where
  "a < b \<longleftrightarrow> (rn_owner a, rn_leaf a) < (rn_owner b, rn_leaf b)"

instance
  by standard
    (auto simp: less_eq_resolved_name_def less_resolved_name_def resolved_name.expand)

end

definition resolved_with_leaf :: "resolved_name \<Rightarrow> string \<Rightarrow> resolved_name" where
  "resolved_with_leaf r leaf = ResolvedName (rn_owner r) leaf"

definition resolved_display :: "resolved_name \<Rightarrow> string" where
  "resolved_display r = dag_display (rn_owner r) @ ''.'' @ rn_leaf r"

section \<open>Well-formed identities\<close>

text \<open>File segments form a non-empty prefix, as every constructor establishes.\<close>

definition dag_ok :: "dag_id \<Rightarrow> bool" where
  "dag_ok d \<longleftrightarrow> dag_segments d \<noteq> [] \<and> is_file (hd (dag_segments d)) \<and>
     (\<forall>s \<in> set (dropWhile is_file (dag_segments d)). \<not> is_file s)"

lemma dropWhile_all: "\<forall>x \<in> set xs. P x \<Longrightarrow> dropWhile P xs = []"
  by (simp add: dropWhile_eq_Nil_conv)

lemma takeWhile_all: "\<forall>x \<in> set xs. P x \<Longrightarrow> takeWhile P xs = xs"
  by simp

lemma dag_ok_append:
  assumes "segs \<noteq> []" "\<not> is_file s"
  shows "dag_ok (DagId p (segs @ [s])) \<longleftrightarrow> dag_ok (DagId p segs)"
proof (cases "\<forall>x \<in> set segs. is_file x")
  case True
  with assms show ?thesis by (simp add: dag_ok_def dropWhile_append dropWhile_all)
next
  case False
  then obtain x where "x \<in> set segs" "\<not> is_file x" by blast
  then have "dropWhile is_file (segs @ [s]) = dropWhile is_file segs @ [s]"
    by (rule dropWhile_append1)
  with assms show ?thesis by (auto simp: dag_ok_def)
qed

lemma dag_ok_child [simp]: "dag_ok d \<Longrightarrow> \<not> is_file s \<Longrightarrow> dag_ok (with_child d s)"
  using dag_ok_append [of "dag_segments d" s "dag_package d"] dag_ok_def [of d]
  by (simp add: with_child_def)

lemma dag_ok_new [simp]: "dag_ok (dag_new p names) \<longleftrightarrow> names \<noteq> []"
  by (cases "names = []") (simp_all add: dag_ok_def dag_new_def hd_map dropWhile_all)

lemma dag_ok_segments: "dag_ok d \<Longrightarrow> dag_segments d \<noteq> []"
  by (simp add: dag_ok_def)

lemma with_child_simps [simp]:
  "dag_package (with_child d s) = dag_package d"
  "dag_segments (with_child d s) = dag_segments d @ [s]"
  "dag_leaf (with_child d s) = s"
  by (simp_all add: with_child_def dag_leaf_def)

lemma with_child_inject [simp]: "with_child d s = with_child e t \<longleftrightarrow> d = e \<and> s = t"
  by (cases d; cases e) (simp add: with_child_def)

lemma with_child_neq [simp]: "with_child d s \<noteq> d" "d \<noteq> with_child d s"
  by (cases d; simp add: with_child_def)+

text \<open>The last segment is a file exactly when every segment is.\<close>

lemma dag_ok_leaf_file:
  assumes "dag_ok d"
  shows "is_file (dag_leaf d) \<longleftrightarrow> (\<forall>s \<in> set (dag_segments d). is_file s)"
proof
  assume leaf: "is_file (dag_leaf d)"
  have "dropWhile is_file (dag_segments d) = []"
  proof (rule ccontr)
    assume ne: "dropWhile is_file (dag_segments d) \<noteq> []"
    then have "last (dropWhile is_file (dag_segments d)) = dag_leaf d"
      by (metis dag_leaf_def last_appendR takeWhile_dropWhile_id)
    with ne leaf assms show False
      unfolding dag_ok_def by (metis last_in_set)
  qed
  then show "\<forall>s \<in> set (dag_segments d). is_file s"
    by (simp add: dropWhile_eq_Nil_conv)
qed (use assms in \<open>simp add: dag_ok_def dag_leaf_def\<close>)

lemma dag_cases:
  assumes "dag_ok d"
  obtains (root_file) "is_file (dag_leaf d)" "dag_parent d = None"
  | (child) p s where "dag_ok p" "\<not> is_file s" "d = with_child p s" "dag_parent d = Some p"
proof (cases "is_file (dag_leaf d)")
  case True
  then show thesis by (rule root_file) (simp add: dag_parent_def True)
next
  case False
  obtain segs s where d: "d = DagId (dag_package d) (segs @ [s])"
    using dag_ok_segments [OF assms] by (metis dag_id.collapse rev_exhaust)
  have s: "\<not> is_file s" using False by (subst (asm) d) (simp add: dag_leaf_def)
  have "segs \<noteq> []"
  proof
    assume "segs = []"
    with assms d have "is_file s" unfolding dag_ok_def by (metis append_Nil dag_id.sel(2) list.sel(1))
    with s show False by simp
  qed
  let ?p = "DagId (dag_package d) segs"
  have "dag_ok ?p" using dag_ok_append [OF \<open>segs \<noteq> []\<close> s] assms d by metis
  moreover have "d = with_child ?p s" using d by (simp add: with_child_def)
  moreover have "dag_parent (with_child ?p s) = Some ?p"
    using s \<open>segs \<noteq> []\<close> by (cases segs) (auto simp: dag_parent_def)
  ultimately show thesis using s by (metis child)
qed

lemma dag_parent_child:
  assumes "dag_ok d" "\<not> is_file s"
  shows "dag_parent (with_child d s) = Some d"
  using dag_ok_child [OF assms] by (cases rule: dag_cases) (use assms in auto)

lemma dag_parent_iff:
  assumes "dag_ok d"
  shows "dag_parent d = Some p \<longleftrightarrow> dag_ok p \<and> (\<exists>s. \<not> is_file s \<and> d = with_child p s)"
  using assms by (cases rule: dag_cases) (auto simp: dag_parent_child)

lemma dag_induct [consumes 1, case_names root_file child]:
  assumes "dag_ok d"
    and "\<And>d. dag_ok d \<Longrightarrow> is_file (dag_leaf d) \<Longrightarrow> dag_parent d = None \<Longrightarrow> P d"
    and "\<And>d s. dag_ok d \<Longrightarrow> \<not> is_file s \<Longrightarrow> P d \<Longrightarrow> P (with_child d s)"
  shows "P d"
  using assms(1)
proof (induction "length (dag_segments d)" arbitrary: d rule: less_induct)
  case less
  from less.prems show ?case
  proof (cases rule: dag_cases)
    case root_file
    with less.prems assms(2) show ?thesis by blast
  next
    case (child p s)
    with less.hyps [of p] assms(3) show ?thesis by simp
  qed
qed

text \<open>The file root keeps the package and the file segments.\<close>

lemma file_root_eq:
  assumes "dag_ok d"
  shows "file_root d = DagId (dag_package d) (takeWhile is_file (dag_segments d))"
  using assms
proof (induction rule: dag_induct)
  case (root_file d)
  then show ?case
    using takeWhile_all [of "dag_segments d" is_file]
    by (simp add: dag_ok_leaf_file file_root.simps [of d] del: takeWhile_eq_all_conv)
next
  case (child d s)
  have "file_root (with_child d s) = file_root d"
    using child by (subst file_root.simps) (simp add: dag_parent_child)
  with child show ?case by (simp add: takeWhile_tail)
qed

lemma file_root_ok:
  assumes "dag_ok d"
  shows "dag_ok (file_root d) \<and> dag_parent (file_root d) = None"
  using assms
proof (induction rule: dag_induct)
  case (root_file d)
  then show ?case by (subst (1 2) file_root.simps) simp
next
  case (child d s)
  then show ?case by (subst (1 2) file_root.simps) (simp add: dag_parent_child)
qed

section \<open>Descent\<close>

inductive nested_in :: "dag_id \<Rightarrow> dag_id \<Rightarrow> bool" where
  nested_child: "\<not> is_file s \<Longrightarrow> nested_in p (with_child p s)"
| nested_step: "nested_in a p \<Longrightarrow> \<not> is_file s \<Longrightarrow> nested_in a (with_child p s)"

inductive_cases nested_in_childE: "nested_in a (with_child p s)"
inductive_simps nested_in_child_iff: "nested_in a (with_child p s)"

lemma nested_in_leaf: "nested_in a d \<Longrightarrow> \<not> is_file (dag_leaf d)"
  by (induction rule: nested_in.induct) simp_all

lemma strip_prefix_iff: "strip_prefix xs ps = Some ys \<longleftrightarrow> xs = ps @ ys"
  by (induction xs ps rule: strip_prefix.induct) auto

lemma is_descendant_of_iff:
  "is_descendant_of d a \<longleftrightarrow> dag_package d = dag_package a \<and>
     (\<exists>c rest. dag_segments d = dag_segments a @ c # rest \<and> \<not> is_file c)"
proof (cases "strip_prefix (dag_segments d) (dag_segments a)")
  case None
  then have "dag_segments d \<noteq> dag_segments a @ ys" for ys
    using strip_prefix_iff [of "dag_segments d" "dag_segments a" ys] by simp
  with None show ?thesis by (simp add: is_descendant_of_def)
next
  case (Some ys)
  then have "dag_segments d = dag_segments a @ ys" by (simp add: strip_prefix_iff)
  with Some show ?thesis by (cases ys) (auto simp: is_descendant_of_def)
qed

lemma nested_in_segments:
  "nested_in a d \<Longrightarrow> dag_package d = dag_package a \<and>
     (\<exists>c rest. dag_segments d = dag_segments a @ c # rest \<and> \<not> is_file c)"
proof (induction rule: nested_in.induct)
  case (nested_step a p s)
  then obtain c rest where "dag_segments p = dag_segments a @ c # rest" "\<not> is_file c"
    by blast
  with nested_step.IH show ?case by (auto intro!: exI [of _ c] exI [of _ "rest @ [s]"])
qed auto

lemma descendant_child:
  assumes "dag_ok p" "\<not> is_file s"
  shows "is_descendant_of (with_child p s) a \<longleftrightarrow> p = a \<or> is_descendant_of p a"
proof
  assume "is_descendant_of (with_child p s) a"
  then obtain c rest where c: "dag_package p = dag_package a" "dag_segments p @ [s] = dag_segments a @ c # rest"
    "\<not> is_file c"
    by (auto simp: is_descendant_of_iff)
  show "p = a \<or> is_descendant_of p a"
  proof (cases rest rule: rev_cases)
    case Nil
    with c show ?thesis by (simp add: dag_id.expand)
  next
    case (snoc rest' s')
    with c have "dag_segments p = dag_segments a @ c # rest'" by simp
    with c show ?thesis by (simp add: is_descendant_of_iff)
  qed
qed (use assms in \<open>auto simp: is_descendant_of_iff\<close>)

text \<open>Descent is what the child constructors generate.\<close>

lemma is_descendant_of_nested:
  assumes "dag_ok d"
  shows "is_descendant_of d a \<and> dag_ok a \<longleftrightarrow> nested_in a d \<and> dag_ok a"
  using assms
proof (induction rule: dag_induct)
  case (root_file d)
  then have "\<forall>s \<in> set (dag_segments d). is_file s" by (simp add: dag_ok_leaf_file)
  then show ?case using nested_in_segments [of a d] by (auto simp: is_descendant_of_iff)
next
  case (child d s)
  then show ?case by (auto simp: descendant_child nested_in_child_iff)
qed

lemma is_descendant_trans:
  assumes "dag_ok c" "is_descendant_of c b" "is_descendant_of b a"
  shows "is_descendant_of c a"
  using assms by (auto simp: is_descendant_of_iff)

lemma is_descendant_irrefl: "\<not> is_descendant_of d d"
  by (simp add: is_descendant_of_iff)

lemma collect_options_Some_iff: "collect_options xs = Some ys \<longleftrightarrow> xs = map Some ys"
proof (induction xs arbitrary: ys)
  case (Cons x xs)
  then show ?case by (cases x) (auto simp: map_eq_Cons_conv Cons_eq_map_conv)
qed auto

lemma segment_scope_some: "\<not> is_file s \<Longrightarrow> \<exists>sc. segment_scope s = Some sc"
  by (cases s) auto

text \<open>The scopes below an ancestor grow with each child and exist for every descendant.\<close>

lemma scopes_below_refl: "scopes_below d d = Some []"
  by (simp add: scopes_below_def)

lemma scopes_below_child:
  assumes "dag_ok d" "segment_scope s = Some sc" "d = a \<or> is_descendant_of d a"
  shows "scopes_below (with_child d s) a = map_option (\<lambda>ss. ss @ [sc]) (scopes_below d a)"
proof -
  have s: "\<not> is_file s" using assms(2) by (cases s) auto
  have len: "length (dag_segments a) \<le> length (dag_segments d)"
    using assms(3) by (auto simp: is_descendant_of_iff)
  have "collect_options (xs @ [Some sc]) = map_option (\<lambda>ss. ss @ [sc]) (collect_options xs)" for xs
    by (induction xs rule: collect_options.induct) (auto simp: option.map_comp comp_def)
  with assms s len show ?thesis
    by (auto simp: scopes_below_def descendant_child)
qed

lemma scopes_below_exists:
  assumes "dag_ok d"
  shows "scopes_below d a \<noteq> None \<longleftrightarrow> d = a \<or> is_descendant_of d a"
proof -
  have "scopes_below d a \<noteq> None" if "d = a \<or> is_descendant_of d a"
    using assms that
  proof (induction rule: dag_induct)
    case (root_file d)
    then have "\<not> is_descendant_of d a" by (auto simp: is_descendant_of_iff dag_ok_leaf_file)
    with root_file show ?case by (auto simp: scopes_below_refl)
  next
    case (child d s)
    show ?case
    proof (cases "with_child d s = a")
      case False
      with child.prems child.hyps have "d = a \<or> is_descendant_of d a" by (simp add: descendant_child)
      moreover obtain sc where "segment_scope s = Some sc"
        using segment_scope_some child.hyps by blast
      ultimately show ?thesis
        using scopes_below_child [OF \<open>dag_ok d\<close>] child.IH by simp
    qed (auto simp: scopes_below_refl)
  qed
  then show ?thesis by (auto simp: scopes_below_def split: if_splits)
qed

section \<open>Paths\<close>

lemma strip_suffix_iff: "strip_suffix suffix s = Some stem \<longleftrightarrow> s = stem @ suffix"
proof
  assume "strip_suffix suffix s = Some stem"
  then show "s = stem @ suffix"
    unfolding strip_suffix_def by (metis append_take_drop_id option.inject option.distinct(1))
qed (simp add: strip_suffix_def)

lemma path_segment_Inr: "path_segment c = Inr s \<longleftrightarrow> c = NormalComponent (Some s)"
  by (cases c) (auto simp: result_iffs)

lemma path_segments_Inr:
  "try_map path_segment path = Inr names \<longleftrightarrow> path = map (\<lambda>s. NormalComponent (Some s)) names"
  by (simp add: try_map_Inr_iff path_segment_Inr)
    (induction path arbitrary: names; auto simp: list_all2_Cons1 Cons_eq_map_conv)

text \<open>Exactly the relative paths of normal components ending in a stem and \<open>.gcl\<close> have an identity.\<close>

lemma relative_path_segments_iff:
  "relative_path_segments path = Inr segs \<longleftrightarrow>
    (\<exists>names stem. stem \<noteq> [] \<and> segs = names @ [stem] \<and>
      path = map (\<lambda>s. NormalComponent (Some s)) (names @ [stem @ ''.gcl'']))"
proof
  assume *: "relative_path_segments path = Inr segs"
  then obtain ss where ss: "try_map path_segment path = Inr ss"
    by (auto simp: relative_path_segments_def res_bind_Inr_iff split: if_splits)
  with * obtain stem where "strip_suffix ''.gcl'' (last ss) = Some stem" "ss \<noteq> []" "stem \<noteq> []"
    "segs = butlast ss @ [stem]"
    by (auto simp add: relative_path_segments_def res_bind_Inr_iff ok_or_Inr_iff simp del: try_map.simps
        split: if_splits)
  then have ss: "path = map (\<lambda>s. NormalComponent (Some s)) ss" "ss \<noteq> []"
    "last ss = stem @ ''.gcl''" "stem \<noteq> []" "segs = butlast ss @ [stem]"
    using ss by (auto simp only: path_segments_Inr strip_suffix_iff not_False_eq_True)
  then have "butlast ss @ [stem @ ''.gcl''] = ss" by (metis append_butlast_last_id)
  then have "path = map (\<lambda>s. NormalComponent (Some s)) (butlast ss @ [stem @ ''.gcl''])"
    using ss(1) by (simp only:)
  with ss(4,5) show "\<exists>names stem. stem \<noteq> [] \<and> segs = names @ [stem] \<and>
      path = map (\<lambda>s. NormalComponent (Some s)) (names @ [stem @ ''.gcl''])"
    by (intro exI conjI)
next
  assume "\<exists>names stem. stem \<noteq> [] \<and> segs = names @ [stem] \<and>
      path = map (\<lambda>s. NormalComponent (Some s)) (names @ [stem @ ''.gcl''])"
  then obtain names stem where *: "stem \<noteq> []" "segs = names @ [stem]"
    "path = map (\<lambda>s. NormalComponent (Some s)) (names @ [stem @ ''.gcl''])"
    by blast
  then have "try_map path_segment path = Inr (names @ [stem @ ''.gcl''])"
    by (simp only: path_segments_Inr)
  moreover have "strip_suffix ''.gcl'' (stem @ ''.gcl'') = Some stem"
    by (simp only: strip_suffix_iff)
  ultimately show "relative_path_segments path = Inr segs"
    using * by (simp add: relative_path_segments_def)
qed

lemma from_relative_path_iff:
  "from_relative_path pkg path = Inr d \<longleftrightarrow>
    (\<exists>names stem. stem \<noteq> [] \<and> d = dag_new pkg (names @ [stem]) \<and>
      path = map (\<lambda>s. NormalComponent (Some s)) (names @ [stem @ ''.gcl'']))"
  unfolding from_relative_path_def try_from_vec_def
  by (auto simp add: res_bind_Inr_iff relative_path_segments_iff simp del: map_append)

lemma dag_new_inject [simp]: "dag_new p xs = dag_new q ys \<longleftrightarrow> p = q \<and> xs = ys"
  by (auto simp: dag_new_def inj_map_eq_map inj_def)

section \<open>Properties\<close>

text \<open>\<open>is_descendant_of\<close> decides declaration nesting: it holds exactly when the descendant is
  reached from the ancestor by one or more inline-DAG or instance children. It is irreflexive and
  transitive, and never relates two files.\<close>

theorem descendants_are_nested:
  assumes "dag_ok d" "dag_ok a"
  shows "(is_descendant_of d a \<longleftrightarrow> nested_in a d) \<and> \<not> is_descendant_of d d \<and>
    (is_file (dag_leaf d) \<longrightarrow> \<not> is_descendant_of d a) \<and>
    (\<forall>b. is_descendant_of b d \<and> is_descendant_of d a \<and> dag_ok b \<longrightarrow> is_descendant_of b a)"
proof (intro conjI)
  show nest: "is_descendant_of d a \<longleftrightarrow> nested_in a d"
    using is_descendant_of_nested [OF assms(1), of a] assms(2) by blast
  show "is_file (dag_leaf d) \<longrightarrow> \<not> is_descendant_of d a"
    unfolding nest using nested_in_leaf by blast
  show "\<not> is_descendant_of d d" by (rule is_descendant_irrefl)
  show "\<forall>b. is_descendant_of b d \<and> is_descendant_of d a \<and> dag_ok b \<longrightarrow> is_descendant_of b a"
    by (intro allI impI, elim conjE) (rule is_descendant_trans)
qed

theorem descendants_are_nested_witness:
  "is_descendant_of (inline_dag_child (instance_child (dag_new ''p'' [''a'', ''m'']) (IncludeInstance 7)) ''f'')
     (dag_new ''p'' [''a'', ''m'']) \<and>
   \<not> is_descendant_of (dag_new ''p'' [''a'', ''m'']) (dag_new ''p'' [''a''])"
proof -
  let ?m = "dag_new ''p'' [''a'', ''m'']"
  let ?d = "inline_dag_child (instance_child ?m (IncludeInstance 7)) ''f''"
  have "nested_in ?m ?d"
    unfolding inline_dag_child_def instance_child_def by (intro nested_in.intros) simp_all
  moreover have "dag_ok ?d" by (simp add: inline_dag_child_def instance_child_def)
  moreover have "is_file (dag_leaf ?m)" by code_simp
  moreover have "dag_ok ?m" "dag_ok (dag_new ''p'' [''a''])" by simp_all
  ultimately show ?thesis
    using descendants_are_nested [of ?d ?m] descendants_are_nested [of ?m "dag_new ''p'' [''a'']"] by blast
qed

text \<open>The parent of a DAG is the one it was made a child of, a file has none, and walking up
  always ends at the DAG of the file, which keeps the package and is the longest prefix of file
  segments.\<close>

theorem parents_and_files:
  assumes "dag_ok d"
  shows "(dag_parent d = Some p \<longleftrightarrow> dag_ok p \<and> (\<exists>s. \<not> is_file s \<and> d = with_child p s)) \<and>
    (dag_parent d = None \<longleftrightarrow> is_file (dag_leaf d)) \<and>
    dag_ok (file_root d) \<and> dag_parent (file_root d) = None \<and>
    file_root d = DagId (dag_package d) (takeWhile is_file (dag_segments d)) \<and>
    (file_root d = d \<or> is_descendant_of d (file_root d))"
proof (intro conjI)
  show "dag_parent d = Some p \<longleftrightarrow> dag_ok p \<and> (\<exists>s. \<not> is_file s \<and> d = with_child p s)"
    using dag_parent_iff [OF assms] .
  show "dag_parent d = None \<longleftrightarrow> is_file (dag_leaf d)"
    using assms by (cases rule: dag_cases) auto
  show root: "file_root d = DagId (dag_package d) (takeWhile is_file (dag_segments d))"
    by (rule file_root_eq [OF assms])
  have "dropWhile is_file (dag_segments d) = [] \<or>
      (\<exists>c rest. dropWhile is_file (dag_segments d) = c # rest \<and> \<not> is_file c)"
    by (metis hd_dropWhile list.collapse)
  moreover have "dag_segments d = takeWhile is_file (dag_segments d) @ dropWhile is_file (dag_segments d)" by simp
  ultimately show "file_root d = d \<or> is_descendant_of d (file_root d)"
    unfolding root is_descendant_of_iff dag_id.sel by (metis append_Nil2 dag_id.collapse)
qed (use file_root_ok [OF assms] in blast)+

theorem parents_and_files_witness:
  "file_root (inline_dag_child (dag_new ''p'' [''a'', ''m'']) ''f'') = dag_new ''p'' [''a'', ''m''] \<and>
   dag_parent (inline_dag_child (dag_new ''p'' [''a'', ''m'']) ''f'') = Some (dag_new ''p'' [''a'', ''m''])"
  using parents_and_files [of "inline_dag_child (dag_new ''p'' [''a'', ''m'']) ''f''" "dag_new ''p'' [''a'', ''m'']"]
  by (simp add: inline_dag_child_def) (simp add: dag_new_def with_child_def)

text \<open>The scopes below an ancestor are defined exactly for the ancestor itself and its
  descendants; they are empty for the ancestor, and entering a child appends its scope.\<close>

theorem scopes_below_correct:
  assumes "dag_ok d"
  shows "(scopes_below d a \<noteq> None \<longleftrightarrow> d = a \<or> is_descendant_of d a) \<and> scopes_below d d = Some [] \<and>
    (scopes_below d a = Some scopes \<and> segment_scope s = Some scope \<longrightarrow>
       scopes_below (with_child d s) a = Some (scopes @ [scope]))"
  using scopes_below_exists [OF assms, of a] scopes_below_refl scopes_below_child [OF assms, of s scope a]
  by auto

theorem scopes_below_correct_witness:
  "scopes_below (instance_child (inline_dag_child (dag_new ''p'' [''a'']) ''f'') (IncludeInstance 3)) (dag_new ''p'' [''a'']) =
     Some [ScopeNamed ''f'', IncludeInstance 3]"
proof -
  let ?a = "dag_new ''p'' [''a'']"
  have "scopes_below (with_child ?a (InlineDag ''f'')) ?a = Some [ScopeNamed ''f'']"
    using scopes_below_refl [of ?a] scopes_below_child [of ?a "InlineDag ''f''" "ScopeNamed ''f''" ?a] by simp
  then show ?thesis
    using scopes_below_correct [of "with_child ?a (InlineDag ''f'')" ?a "[ScopeNamed ''f'']"
        "InstanceSegment (IncludeInstance 3)" "IncludeInstance 3"]
    by (simp add: inline_dag_child_def instance_child_def)
qed

text \<open>C40: a relative path becomes a file's DAG exactly when all its components are plain names and
  the last is a non-empty stem with the extension \<open>.gcl\<close>; the DAG then has the package and
  one file segment per component, the extension removed. Distinct paths give distinct DAGs.\<close>

theorem relative_paths:
  "(from_relative_path package path = Inr d \<longleftrightarrow>
     (\<exists>names stem. stem \<noteq> [] \<and> d = dag_new package (names @ [stem]) \<and>
       path = map (\<lambda>s. NormalComponent (Some s)) (names @ [stem @ ''.gcl'']))) \<and>
   (from_relative_path package path = Inr d \<and> from_relative_path package path' = Inr d \<longrightarrow> path = path')"
proof
  show iff: "from_relative_path package path = Inr d \<longleftrightarrow>
     (\<exists>names stem. stem \<noteq> [] \<and> d = dag_new package (names @ [stem]) \<and>
       path = map (\<lambda>s. NormalComponent (Some s)) (names @ [stem @ ''.gcl'']))" for path
    by (rule from_relative_path_iff)
  show "from_relative_path package path = Inr d \<and> from_relative_path package path' = Inr d \<longrightarrow> path = path'"
    unfolding iff by auto
qed

theorem relative_paths_witness:
  "from_relative_path ''p'' [NormalComponent (Some ''lib''), NormalComponent (Some ''m.gcl'')] =
     Inr (dag_new ''p'' [''lib'', ''m''])"
  by (subst relative_paths [THEN conjunct1]) (intro exI [of _ "[''lib'']"] exI [of _ "''m''"], simp)

end
