(* ===== verification/Dimension.thy ===== *)
theory Dimension
  imports Sparse_Monomial Dag_Id
begin

text \<open>
  Physical dimensions (\<open>crates/graphcal-compiler/src/dimension.rs\<close>): monomials over base
  dimensions with reduced \<open>i32\<close> rational exponents. The base dimensions are ordered as
  the code orders them (prelude dimensions by their spelling, before the user-defined
  ones). The lemmas show that the checked operations are exact on the exponent vectors,
  that they fail exactly when an exponent is not representable, and what is rendered.
\<close>

section \<open>Base dimensions\<close>

datatype prelude_base_dimension =
    Length | Time | Mass | Temperature | ElectricCurrent | Amount | LuminousIntensity | Angle

definition all_prelude_dimensions :: "prelude_base_dimension list" where
  "all_prelude_dimensions =
     [Length, Time, Mass, Temperature, ElectricCurrent, Amount, LuminousIntensity, Angle]"

fun prelude_as_str :: "prelude_base_dimension \<Rightarrow> string" where
  "prelude_as_str Length = ''Length''"
| "prelude_as_str Time = ''Time''"
| "prelude_as_str Mass = ''Mass''"
| "prelude_as_str Temperature = ''Temperature''"
| "prelude_as_str ElectricCurrent = ''ElectricCurrent''"
| "prelude_as_str Amount = ''Amount''"
| "prelude_as_str LuminousIntensity = ''LuminousIntensity''"
| "prelude_as_str Angle = ''Angle''"

definition prelude_parse :: "string \<Rightarrow> prelude_base_dimension option" where
  "prelude_parse name =
     (if name = ''Length'' then Some Length
      else if name = ''Time'' then Some Time
      else if name = ''Mass'' then Some Mass
      else if name = ''Temperature'' then Some Temperature
      else if name = ''ElectricCurrent'' then Some ElectricCurrent
      else if name = ''Amount'' then Some Amount
      else if name = ''LuminousIntensity'' then Some LuminousIntensity
      else if name = ''Angle'' then Some Angle
      else None)"

lemma prelude_parse_as_str: "prelude_parse (prelude_as_str d) = Some d"
  by (cases d) (simp_all add: prelude_parse_def)

lemma prelude_parse_iff: "prelude_parse s = Some d \<longleftrightarrow> s = prelude_as_str d"
  by (auto simp: prelude_parse_as_str) (auto simp: prelude_parse_def split: if_splits)

lemma prelude_as_str_inj: "prelude_as_str a = prelude_as_str b \<longleftrightarrow> a = b"
  using prelude_parse_as_str by (metis option.inject)

lemma all_prelude_dimensions: "set all_prelude_dimensions = UNIV" "distinct all_prelude_dimensions"
proof -
  have "d \<in> set all_prelude_dimensions" for d
    by (cases d) (simp_all add: all_prelude_dimensions_def)
  then show "set all_prelude_dimensions = UNIV" by blast
qed (simp add: all_prelude_dimensions_def)

text \<open>\<open>cmp\<close> compares the names.\<close>

definition prelude_before :: "prelude_base_dimension \<Rightarrow> prelude_base_dimension \<Rightarrow> bool" where
  "prelude_before a b \<longleftrightarrow> prelude_as_str a < prelude_as_str b"

instantiation prelude_base_dimension :: linorder
begin

definition less_eq_prelude_base_dimension :: "prelude_base_dimension \<Rightarrow> prelude_base_dimension \<Rightarrow> bool" where
  "a \<le> b \<longleftrightarrow> a = b \<or> prelude_before a b"

definition less_prelude_base_dimension :: "prelude_base_dimension \<Rightarrow> prelude_base_dimension \<Rightarrow> bool" where
  "a < b \<longleftrightarrow> prelude_before a b"

instance
  by standard
    (auto simp: less_eq_prelude_base_dimension_def less_prelude_base_dimension_def prelude_before_def
      simp flip: prelude_as_str_inj)

end

datatype base_dim_id = Prelude prelude_base_dimension | UserDefined resolved_name

fun base_dim_cmp_key :: "base_dim_id \<Rightarrow> bool \<times> prelude_base_dimension list \<times> resolved_name list" where
  "base_dim_cmp_key (Prelude d) = (False, [d], [])"
| "base_dim_cmp_key (UserDefined n) = (True, [], [n])"

lemma base_dim_cmp_key_inj: "base_dim_cmp_key a = base_dim_cmp_key b \<Longrightarrow> a = b"
  by (cases a; cases b) auto

instantiation base_dim_id :: linorder
begin

definition less_eq_base_dim_id :: "base_dim_id \<Rightarrow> base_dim_id \<Rightarrow> bool" where
  "a \<le> b \<longleftrightarrow> base_dim_cmp_key a \<le> base_dim_cmp_key b"

definition less_base_dim_id :: "base_dim_id \<Rightarrow> base_dim_id \<Rightarrow> bool" where
  "a < b \<longleftrightarrow> base_dim_cmp_key a < base_dim_cmp_key b"

instance
  by standard
    (auto simp: less_eq_base_dim_id_def less_base_dim_id_def less_le_not_le
      intro: order_trans base_dim_cmp_key_inj antisym)

end

fun base_dim_name :: "base_dim_id \<Rightarrow> string" where
  "base_dim_name (Prelude d) = prelude_as_str d"
| "base_dim_name (UserDefined n) = rn_leaf n"

fun base_dim_owner_qualified :: "base_dim_id \<Rightarrow> string" where
  "base_dim_owner_qualified (Prelude d) = prelude_as_str d"
| "base_dim_owner_qualified (UserDefined n) = resolved_display n"

section \<open>Dimensions\<close>

type_synonym dimension = "(base_dim_id, ratio) monomial"

abbreviation rational :: "(ratio, ratio_error) exponent_ops" where
  "rational \<equiv> ratio_exponent I32"

definition dimensionless :: dimension where
  "dimensionless = mono_one"

definition dim_base :: "base_dim_id \<Rightarrow> dimension" where
  "dim_base i = mono_single rational i ratio_one"

definition is_dimensionless :: "dimension \<Rightarrow> bool" where
  "is_dimensionless d \<longleftrightarrow> mono_is_empty d"

definition base_dimension_id :: "dimension \<Rightarrow> base_dim_id option" where
  "base_dimension_id d =
     (case as_single d of
        Some (i, e) \<Rightarrow> if e = ratio_one then Some i else None
      | None \<Rightarrow> None)"

definition is_compound :: "dimension \<Rightarrow> bool" where
  "is_compound d \<longleftrightarrow> \<not> mono_is_empty d \<and> base_dimension_id d = None"

definition dim_pow :: "dimension \<Rightarrow> ratio \<Rightarrow> (dimension, ratio_error) result" where
  "dim_pow d e = try_pow rational d e"

definition dim_mul :: "dimension \<Rightarrow> dimension \<Rightarrow> (dimension, ratio_error) result" where
  "dim_mul a b = try_mul rational a b"

definition dim_div :: "dimension \<Rightarrow> dimension \<Rightarrow> (dimension, ratio_error) result" where
  "dim_div a b = try_div rational ratio_neg a b"

section \<open>Rendering\<close>

definition dim_factor :: "(base_dim_id \<Rightarrow> string) \<Rightarrow> base_dim_id \<Rightarrow> ratio \<Rightarrow> string" where
  "dim_factor name i e =
     name i @ (if e = ratio_one then [] else fmt_exponent e CompactStyle)"

text \<open>The accumulator is the text written so far and the flag \<open>first\<close>.\<close>

definition write_numerator ::
  "(base_dim_id \<Rightarrow> string) \<Rightarrow> string \<times> bool \<Rightarrow> base_dim_id \<times> ratio \<Rightarrow> string \<times> bool" where
  "write_numerator name acc p =
     (fst acc @ (if \<not> snd acc then '' * '' else []) @ dim_factor name (fst p) (snd p), False)"

definition write_denominator ::
  "(base_dim_id \<Rightarrow> string) \<Rightarrow> string \<times> bool \<Rightarrow> base_dim_id \<times> ratio \<Rightarrow> string \<times> bool" where
  "write_denominator name acc p =
     (if snd acc then (fst acc @ dim_factor name (fst p) (snd p), False)
      else (fst acc @ '' / '' @ dim_factor name (fst p) (ratio_neg (snd p)), False))"

definition fmt_exponents :: "(base_dim_id \<Rightarrow> string) \<Rightarrow> dimension \<Rightarrow> string" where
  "fmt_exponents name d =
     (if is_dimensionless d then ''Dimensionless''
      else let numerator = foldl (write_numerator name) ([], True) (filter (\<lambda>p. ratio_is_positive (snd p)) d)
        in fst (foldl (write_denominator name) numerator (filter (\<lambda>p. ratio_is_negative (snd p)) d)))"

definition dim_display :: "dimension \<Rightarrow> string" where
  "dim_display d = fmt_exponents base_dim_name d"

definition owner_qualified :: "dimension \<Rightarrow> string" where
  "owner_qualified d = fmt_exponents base_dim_owner_qualified d"

section \<open>Exactness\<close>

definition dim_ok :: "dimension \<Rightarrow> bool" where
  "dim_ok d \<longleftrightarrow> mono_ok rational (ratio_ok I32) d"

definition dim_exponent :: "dimension \<Rightarrow> base_dim_id \<Rightarrow> rat" where
  "dim_exponent d = mono_val ratio_rat d"

lemma dim_ok_dimensionless [simp]: "dim_ok dimensionless"
  by (simp add: dim_ok_def dimensionless_def)

lemma dim_exponent_dimensionless [simp]: "dim_exponent dimensionless = (\<lambda>_. 0)"
  by (simp add: dim_exponent_def dimensionless_def mono_one_def fun_eq_iff)

lemma dim_base_eq: "dim_base i = [(i, ratio_one)]"
  by (simp add: dim_base_def mono_single_def ratio_exponent_def ratio_is_zero_def ratio_one_def)

lemma dim_ok_base [simp]: "dim_ok (dim_base i)"
  by (simp add: dim_ok_def dim_base_eq mono_ok_Cons ratio_exponent_def ratio_is_zero_def ratio_one_def
      flip: ratio_one_def) (simp add: ratio_ok_def ratio_one_def)

lemma dim_exponent_base: "dim_exponent (dim_base i) = (\<lambda>k. if k = i then 1 else 0)"
  by (auto simp: dim_exponent_def dim_base_eq mono_val_Cons fun_eq_iff)

lemma dim_eq_iff: "dim_ok a \<Longrightarrow> dim_ok b \<Longrightarrow> dim_exponent a = dim_exponent b \<longleftrightarrow> a = b"
  unfolding dim_ok_def dim_exponent_def by (rule ratio_exp.mono_val_eq_iff)

lemma dim_mul_iff:
  "dim_ok a \<Longrightarrow> dim_ok b \<Longrightarrow>
   dim_mul a b = Inr c \<longleftrightarrow> dim_ok c \<and> dim_exponent c = (\<lambda>k. dim_exponent a k + dim_exponent b k)"
  unfolding dim_ok_def dim_exponent_def dim_mul_def by (rule ratio_exp.try_mul_iff)

lemma dim_div_iff:
  "dim_ok a \<Longrightarrow> dim_ok b \<Longrightarrow>
   dim_div a b = Inr c \<longleftrightarrow> dim_ok c \<and> dim_exponent c = (\<lambda>k. dim_exponent a k - dim_exponent b k)"
  unfolding dim_ok_def dim_exponent_def dim_div_def by (rule ratio_exp.try_div_iff)

lemma dim_pow_iff:
  "dim_ok a \<Longrightarrow> ratio_ok I32 e \<Longrightarrow>
   dim_pow a e = Inr c \<longleftrightarrow> dim_ok c \<and> dim_exponent c = (\<lambda>k. dim_exponent a k * ratio_rat e)"
  unfolding dim_ok_def dim_exponent_def dim_pow_def by (rule ratio_exp.try_pow_iff)

lemmas dim_exact = dim_mul_iff dim_div_iff dim_pow_iff

lemma dim_ops_ok:
  "dim_ok a \<Longrightarrow> dim_ok b \<Longrightarrow> dim_mul a b = Inr c \<Longrightarrow> dim_ok c"
  "dim_ok a \<Longrightarrow> dim_ok b \<Longrightarrow> dim_div a b = Inr c \<Longrightarrow> dim_ok c"
  "dim_ok a \<Longrightarrow> ratio_ok I32 e \<Longrightarrow> dim_pow a e = Inr c \<Longrightarrow> dim_ok c"
  by (simp_all add: dim_exact)

lemma dim_mul_commute: "dim_ok a \<Longrightarrow> dim_ok b \<Longrightarrow> dim_mul a b = Inr c \<Longrightarrow> dim_mul b a = Inr c"
  by (simp add: dim_exact add.commute)

lemma dim_mul_assoc:
  assumes "dim_ok a" "dim_ok b" "dim_ok c"
    and "dim_mul a b = Inr ab" "dim_mul b c = Inr bc" "dim_mul ab c = Inr l"
  shows "dim_mul a bc = Inr l"
  using assms by (simp add: dim_exact add.assoc)

lemma dim_div_mul: "dim_ok a \<Longrightarrow> dim_ok b \<Longrightarrow> dim_div a b = Inr q \<Longrightarrow> dim_mul q b = Inr a"
  by (simp add: dim_exact)

lemma dim_pow_root:
  assumes "dim_ok a" "ratio_ok I32 e" "ratio_ok I32 f" "ratio_rat e * ratio_rat f = 1" "dim_pow a e = Inr b"
  shows "dim_pow b f = Inr a"
  using assms by (simp add: dim_exact mult.assoc)

lemma is_dimensionless_iff: "is_dimensionless d \<longleftrightarrow> d = dimensionless"
  by (simp add: is_dimensionless_def mono_is_empty_def dimensionless_def mono_one_def)

lemma base_dimension_id_iff: "base_dimension_id d = Some i \<longleftrightarrow> d = dim_base i"
  by (cases d rule: as_single.cases) (auto simp: base_dimension_id_def dim_base_eq split: if_splits)

section \<open>What is rendered\<close>

lemma write_numerator_fold:
  "foldl (write_numerator name) (s, False) ps =
     (s @ concat (map (\<lambda>p. '' * '' @ dim_factor name (fst p) (snd p)) ps), False)"
  by (induction ps arbitrary: s) (simp_all add: write_numerator_def)

lemma write_denominator_fold:
  "foldl (write_denominator name) (s, False) ps =
     (s @ concat (map (\<lambda>p. '' / '' @ dim_factor name (fst p) (ratio_neg (snd p))) ps), False)"
  by (induction ps arbitrary: s) (simp_all add: write_denominator_def)

text \<open>
  Numerator factors joined by \<open>*\<close>, then every denominator factor with its negated
  exponent after \<open>/\<close>; without a numerator the first denominator factor leads, with its
  exponent as it is.
\<close>

lemma fmt_exponents_eq:
  assumes "dim_ok d"
  shows "fmt_exponents name d =
    (let factor = (\<lambda>p. dim_factor name (fst p) (snd p));
         over = (\<lambda>p. '' / '' @ dim_factor name (fst p) (ratio_neg (snd p)))
     in case (filter (\<lambda>p. ratio_is_positive (snd p)) d, filter (\<lambda>p. ratio_is_negative (snd p)) d) of
          ([], []) \<Rightarrow> ''Dimensionless''
        | ([], q # qs) \<Rightarrow> factor q @ concat (map over qs)
        | (p # ps, qs) \<Rightarrow> factor p @ concat (map (\<lambda>p. '' * '' @ factor p) ps) @ concat (map over qs))"
proof (cases "d = []")
  case True
  then show ?thesis by (simp add: fmt_exponents_def is_dimensionless_def mono_is_empty_def)
next
  case False
  have "ratio_is_positive (snd p) \<or> ratio_is_negative (snd p)" if "p \<in> set d" for p
    using assms that
    by (auto simp: dim_ok_def mono_ok_def ratio_exponent_def ratio_is_zero_def ratio_is_positive_def
        ratio_is_negative_def)
  then have "filter (\<lambda>p. ratio_is_positive (snd p)) d \<noteq> [] \<or> filter (\<lambda>p. ratio_is_negative (snd p)) d \<noteq> []"
    using False by (cases d) (auto simp: filter_empty_conv)
  with False show ?thesis
    by (auto simp: fmt_exponents_def is_dimensionless_def mono_is_empty_def Let_def
        write_numerator_fold write_denominator_fold write_numerator_def [of _ "([], True)"]
        write_denominator_def [of _ "([], True)"] split: list.split)
qed

section \<open>Properties\<close>

text \<open>C32: dimensions under multiplication, division and powers are the free abelian group on the
  base dimensions with rational exponents: each operation yields the dimension with the summed,
  subtracted or scaled exponents, and fails exactly when an exponent does not fit; and two
  dimensions are equal exactly when their exponents are.\<close>

theorem dimension_algebra:
  assumes "dim_ok a" "dim_ok b" "ratio_ok I32 e"
  shows "(dim_mul a b = Inr c \<longleftrightarrow> dim_ok c \<and> (\<forall>k. dim_exponent c k = dim_exponent a k + dim_exponent b k)) \<and>
    (dim_div a b = Inr c \<longleftrightarrow> dim_ok c \<and> (\<forall>k. dim_exponent c k = dim_exponent a k - dim_exponent b k)) \<and>
    (dim_pow a e = Inr c \<longleftrightarrow> dim_ok c \<and> (\<forall>k. dim_exponent c k = dim_exponent a k * ratio_rat e)) \<and>
    (a = b \<longleftrightarrow> (\<forall>k. dim_exponent a k = dim_exponent b k))"
  using dim_mul_iff [OF assms(1,2)] dim_div_iff [OF assms(1,2)] dim_pow_iff [OF assms(1,3)]
    dim_eq_iff [OF assms(1,2)]
  unfolding fun_eq_iff by blast

theorem dimension_algebra_witness:
  "\<exists>v. dim_div (dim_base (Prelude Length)) (dim_base (Prelude Time)) = Inr v \<and>
    dim_exponent v (Prelude Time) = - 1"
proof -
  obtain v where v: "dim_div (dim_base (Prelude Length)) (dim_base (Prelude Time)) = Inr v"
  proof -
    have "is_ok (dim_div (dim_base (Prelude Length)) (dim_base (Prelude Time)))" by code_simp
    then show thesis using that by (auto simp: is_ok_iff)
  qed
  moreover have "dim_exponent v (Prelude Time) =
      dim_exponent (dim_base (Prelude Length)) (Prelude Time) -
      dim_exponent (dim_base (Prelude Time)) (Prelude Time)"
    using v dimension_algebra [of "dim_base (Prelude Length)" "dim_base (Prelude Time)" ratio_one v]
    by simp
  ultimately show ?thesis by (simp add: dim_exponent_base)
qed

text \<open>C33: products do not depend on grouping or order, division undoes multiplication, and a
  power is undone by the reciprocal power, so square roots of squares are exact.\<close>

theorem dimension_laws:
  assumes "dim_ok a" "dim_ok b" "dim_ok c" "ratio_ok I32 e" "ratio_ok I32 f" "ratio_rat e * ratio_rat f = 1"
  shows "(dim_mul a b = Inr p \<longrightarrow> dim_mul b a = Inr p) \<and>
    (dim_mul a b = Inr p \<and> dim_mul b c = Inr q \<and> dim_mul p c = Inr r \<longrightarrow> dim_mul a q = Inr r) \<and>
    (dim_div a b = Inr p \<longrightarrow> dim_mul p b = Inr a) \<and>
    (dim_pow a e = Inr p \<longrightarrow> dim_pow p f = Inr a)"
  using assms dim_mul_commute dim_mul_assoc dim_div_mul dim_pow_root by blast

theorem dimension_laws_witness:
  "\<exists>p. dim_pow (dim_base (Prelude Mass)) \<lparr>r_num = 2, r_den = 1\<rparr> = Inr p \<and>
    dim_pow p half = Inr (dim_base (Prelude Mass))"
proof -
  obtain p where p: "dim_pow (dim_base (Prelude Mass)) \<lparr>r_num = 2, r_den = 1\<rparr> = Inr p"
  proof -
    have "is_ok (dim_pow (dim_base (Prelude Mass)) \<lparr>r_num = 2, r_den = 1\<rparr>)" by code_simp
    then show thesis using that by (auto simp: is_ok_iff)
  qed
  moreover have "ratio_ok I32 \<lparr>r_num = 2, r_den = 1\<rparr>" "ratio_ok I32 half"
      "ratio_rat \<lparr>r_num = 2, r_den = 1\<rparr> * ratio_rat half = 1"
    by (simp_all add: ratio_ok_def half_def ratio_rat_def)
  ultimately show ?thesis
    using dimension_laws [of "dim_base (Prelude Mass)" dimensionless dimensionless
        "\<lparr>r_num = 2, r_den = 1\<rparr>" half p] by simp
qed

text \<open>A dimension is rendered with its positive powers as a product over its negative ones,
  the latter after a slash with positive exponent unless they come first; and a dimension is
  one base dimension exactly when it renders as that name alone.\<close>

theorem dimension_rendering:
  assumes "dim_ok d"
  shows "fmt_exponents name d =
    (let factor = (\<lambda>p. dim_factor name (fst p) (snd p));
         over = (\<lambda>p. '' / '' @ dim_factor name (fst p) (ratio_neg (snd p)))
     in case (filter (\<lambda>p. ratio_is_positive (snd p)) d, filter (\<lambda>p. ratio_is_negative (snd p)) d) of
          ([], []) \<Rightarrow> ''Dimensionless''
        | ([], q # qs) \<Rightarrow> factor q @ concat (map over qs)
        | (p # ps, qs) \<Rightarrow> factor p @ concat (map (\<lambda>p. '' * '' @ factor p) ps) @ concat (map over qs)) \<and>
    (base_dimension_id d = Some i \<longleftrightarrow> d = dim_base i)"
  using fmt_exponents_eq [OF assms] base_dimension_id_iff by blast

theorem dimension_rendering_witness:
  "dim_display [(Prelude Length, ratio_one), (Prelude Time, \<lparr>r_num = - 2, r_den = 1\<rparr>)] =
    ''Length / Time^2''"
proof -
  let ?d = "[(Prelude Length, ratio_one), (Prelude Time, \<lparr>r_num = - 2, r_den = 1\<rparr>)]"
  have "dim_ok ?d"
    by (simp add: dim_ok_def mono_ok_def bt_ok_Cons less_base_dim_id_def less_prelude_base_dimension_def prelude_before_def
        ratio_ok_def ratio_is_zero_def ratio_exponent_def ratio_one_def)
  from dimension_rendering [OF this, of base_dim_name "Prelude Time"]
  show ?thesis by (simp add: dim_display_def) code_simp
qed

end
