(* ===== verification/Machine_Int.thy ===== *)
theory Machine_Int
  imports GC_Prelude "HOL-Library.Word" "HOL-Library.Signed_Division"
begin

text \<open>
  The checked operations of Rust's \<open>u64\<close> and \<open>i64\<close> that the code uses, on 64-bit words:
  the word operation wraps, and the checked one returns it only when the mathematical
  result is in range. The lemmas state each operation by the number it returns.
\<close>

type_synonym u64 = "64 word"
type_synonym i64 = "64 word"

section \<open>Unsigned\<close>

definition u64_checked_add :: "u64 \<Rightarrow> u64 \<Rightarrow> u64 option" where
  "u64_checked_add a b = (if unat a + unat b < 2 ^ 64 then Some (a + b) else None)"

definition u64_checked_mul :: "u64 \<Rightarrow> u64 \<Rightarrow> u64 option" where
  "u64_checked_mul a b = (if unat a * unat b < 2 ^ 64 then Some (a * b) else None)"

definition u64_checked_pow :: "u64 \<Rightarrow> nat \<Rightarrow> u64 option" where
  "u64_checked_pow a n = (if unat a ^ n < 2 ^ 64 then Some (a ^ n) else None)"

text \<open>\<open>u32::try_from\<close> of a \<open>u64\<close>.\<close>

definition u32_try_from :: "u64 \<Rightarrow> nat option" where
  "u32_try_from e = (if unat e < 2 ^ 32 then Some (unat e) else None)"

lemma unat_u64_less: "unat (a :: u64) < 2 ^ 64"
  using unsigned_less [of a, where ?'a = nat] by simp

lemma unat_of_nat_u64: "n < 2 ^ 64 \<Longrightarrow> unat (of_nat n :: u64) = n"
  by (rule of_nat_inverse) simp_all

lemma unat_u64_rep: "(\<exists>c. unat (c :: u64) = n) \<longleftrightarrow> n < 2 ^ 64"
  using unat_of_nat_u64 unat_u64_less by metis

lemma unat_u64_inj: "unat (a :: u64) = unat b \<longleftrightarrow> a = b"
  by (simp add: word_unat_eq_iff)

lemma u64_checked_add_iff: "u64_checked_add a b = Some c \<longleftrightarrow> unat c = unat a + unat b"
proof -
  have "a + b = of_nat (unat a + unat b)" by simp
  then show ?thesis
    unfolding u64_checked_add_def using unat_u64_less [of c] unat_of_nat_u64 [of "unat a + unat b"]
    by (auto simp flip: unat_u64_inj)
qed

lemma u64_checked_mul_iff: "u64_checked_mul a b = Some c \<longleftrightarrow> unat c = unat a * unat b"
proof -
  have "a * b = of_nat (unat a * unat b)" by simp
  then show ?thesis
    unfolding u64_checked_mul_def using unat_u64_less [of c] unat_of_nat_u64 [of "unat a * unat b"]
    by (auto simp flip: unat_u64_inj)
qed

lemma u64_checked_pow_iff: "u64_checked_pow a n = Some c \<longleftrightarrow> unat c = unat a ^ n"
proof -
  have "a ^ n = of_nat (unat a ^ n)" by simp
  then show ?thesis
    unfolding u64_checked_pow_def using unat_u64_less [of c] unat_of_nat_u64 [of "unat a ^ n"]
    by (auto simp flip: unat_u64_inj)
qed

lemma u32_try_from_iff: "u32_try_from e = Some n \<longleftrightarrow> n = unat e \<and> n < 2 ^ 32"
  by (auto simp: u32_try_from_def)

lemmas u64_checked_iff = u64_checked_add_iff u64_checked_mul_iff u64_checked_pow_iff

lemma u64_checked_None:
  "u64_checked_add a b = None \<longleftrightarrow> 2 ^ 64 \<le> unat a + unat b"
  "u64_checked_mul a b = None \<longleftrightarrow> 2 ^ 64 \<le> unat a * unat b"
  by (auto simp: u64_checked_add_def u64_checked_mul_def)

section \<open>Signed\<close>

definition in_i64 :: "int \<Rightarrow> bool" where
  "in_i64 x \<longleftrightarrow> - (2 ^ 63) \<le> x \<and> x < 2 ^ 63"

definition i64_checked :: "int \<Rightarrow> i64 option" where
  "i64_checked x = (if in_i64 x then Some (word_of_int x) else None)"

lemma sint_i64: "in_i64 (sint (a :: i64))"
  using sint_lt [of a] sint_ge [of a] by (simp add: in_i64_def)

lemma sint_word_of_int_i64: "in_i64 x \<Longrightarrow> sint (word_of_int x :: i64) = x"
  by (simp add: in_i64_def signed_of_int signed_take_bit_int_eq_self)

lemma sint_i64_inj: "sint (a :: i64) = sint b \<longleftrightarrow> a = b"
  by (auto intro: signed_word_eqI)

lemma i64_checked_iff: "i64_checked x = Some c \<longleftrightarrow> sint c = x"
  using sint_i64 [of c] sint_word_of_int_i64 [of x]
  by (auto simp: i64_checked_def simp flip: sint_i64_inj)

lemma i64_checked_None: "i64_checked x = None \<longleftrightarrow> \<not> in_i64 x"
  by (simp add: i64_checked_def)

end
