(* ===== verification/Nat_Eval.thy ===== *)
theory Nat_Eval
  imports Machine_Int
begin

text \<open>
  Type-level natural-number expressions as written (\<open>syntax/ast/value.rs\<close>) and their
  evaluation before any generic parameter is bound (\<open>syntax/nat_eval.rs\<close>). Identifiers
  and spans are opaque. The lemmas show that a value is exact, that the reported variable
  is the first in source order, and that an overflow is one of a closed sum or product.
\<close>

section \<open>Expressions\<close>

datatype ('i, 's) nat_expr =
    NatLiteral u64 's
  | NatVar 'i
  | NatAdd "('i, 's) nat_expr list" 's
  | NatMul "('i, 's) nat_expr list" 's

fun nat_expr_add :: "('i, 's) nat_expr \<Rightarrow> ('i, 's) nat_expr \<Rightarrow> 's \<Rightarrow> ('i, 's) nat_expr" where
  "nat_expr_add (NatAdd operands _) rhs sp = NatAdd (operands @ [rhs]) sp"
| "nat_expr_add lhs rhs sp = NatAdd [lhs, rhs] sp"

fun nat_expr_mul :: "('i, 's) nat_expr \<Rightarrow> ('i, 's) nat_expr \<Rightarrow> 's \<Rightarrow> ('i, 's) nat_expr" where
  "nat_expr_mul (NatMul operands _) rhs sp = NatMul (operands @ [rhs]) sp"
| "nat_expr_mul lhs rhs sp = NatMul [lhs, rhs] sp"

datatype 'i closed_nat = ClosedValue u64 | OpenNat 'i

datatype nat_arithmetic = Addition | Multiplication

record 's nat_overflow_at =
  ov_op :: nat_arithmetic
  ov_span :: 's

definition nat_combine :: "nat_arithmetic \<Rightarrow> u64 \<Rightarrow> u64 \<Rightarrow> u64 option" where
  "nat_combine op acc value =
     (case op of Addition \<Rightarrow> u64_checked_add acc value | Multiplication \<Rightarrow> u64_checked_mul acc value)"

text \<open>One step of \<open>fold\<close>, after the operand has been evaluated.\<close>

definition nat_fold_step ::
  "nat_arithmetic \<Rightarrow> 's \<Rightarrow> 'i closed_nat \<Rightarrow> 'i closed_nat \<Rightarrow> ('i closed_nat, 's nat_overflow_at) result" where
  "nat_fold_step op sp acc operand =
     (case (acc, operand) of
        (ClosedValue acc, ClosedValue value) \<Rightarrow>
          res_map ClosedValue (ok_or \<lparr>ov_op = op, ov_span = sp\<rparr> (nat_combine op acc value))
      | (OpenNat i, _) \<Rightarrow> Inr (OpenNat i)
      | (ClosedValue _, OpenNat i) \<Rightarrow> Inr (OpenNat i))"

fun closed_value :: "('i, 's) nat_expr \<Rightarrow> ('i closed_nat, 's nat_overflow_at) result" where
  "closed_value (NatLiteral value _) = Inr (ClosedValue value)"
| "closed_value (NatVar ident) = Inr (OpenNat ident)"
| "closed_value (NatAdd operands sp) =
     try_fold (\<lambda>acc operand. res_bind (closed_value operand) (nat_fold_step Addition sp acc))
       (ClosedValue 0) operands"
| "closed_value (NatMul operands sp) =
     try_fold (\<lambda>acc operand. res_bind (closed_value operand) (nat_fold_step Multiplication sp acc))
       (ClosedValue 1) operands"

section \<open>Meaning\<close>

fun nat_vars :: "('i, 's) nat_expr \<Rightarrow> 'i list" where
  "nat_vars (NatLiteral _ _) = []"
| "nat_vars (NatVar i) = [i]"
| "nat_vars (NatAdd es _) = concat (map nat_vars es)"
| "nat_vars (NatMul es _) = concat (map nat_vars es)"

fun nat_meaning :: "('i \<Rightarrow> nat) \<Rightarrow> ('i, 's) nat_expr \<Rightarrow> nat" where
  "nat_meaning \<rho> (NatLiteral v _) = unat v"
| "nat_meaning \<rho> (NatVar i) = \<rho> i"
| "nat_meaning \<rho> (NatAdd es _) = sum_list (map (nat_meaning \<rho>) es)"
| "nat_meaning \<rho> (NatMul es _) = prod_list (map (nat_meaning \<rho>) es)"

text \<open>The builders flatten chains and keep the meaning and the source order.\<close>

lemma nat_expr_add_meaning [simp]:
  "nat_meaning \<rho> (nat_expr_add a b s) = nat_meaning \<rho> a + nat_meaning \<rho> b"
  "nat_vars (nat_expr_add a b s) = nat_vars a @ nat_vars b"
  by (cases a; simp)+

lemma nat_expr_mul_meaning [simp]:
  "nat_meaning \<rho> (nat_expr_mul a b s) = nat_meaning \<rho> a * nat_meaning \<rho> b"
  "nat_vars (nat_expr_mul a b s) = nat_vars a @ nat_vars b"
  by (cases a; simp)+

fun op_nat :: "nat_arithmetic \<Rightarrow> nat \<Rightarrow> nat \<Rightarrow> nat" where
  "op_nat Addition a b = a + b"
| "op_nat Multiplication a b = a * b"

text \<open>What an accumulator or a result says about the operands read so far.\<close>

definition describes :: "'i closed_nat \<Rightarrow> 'i list \<Rightarrow> nat \<Rightarrow> bool" where
  "describes r vars n \<longleftrightarrow>
     (case r of ClosedValue v \<Rightarrow> vars = [] \<and> unat v = n | OpenNat i \<Rightarrow> vars \<noteq> [] \<and> hd vars = i)"

lemma nat_combine_iff: "nat_combine op a b = Some c \<longleftrightarrow> unat c = op_nat op (unat a) (unat b)"
  by (cases op) (simp_all add: nat_combine_def u64_checked_iff)

lemma nat_fold_step_sound:
  assumes "describes acc vs n" "describes r ws m" "nat_fold_step op sp acc r = Inr acc'"
  shows "describes acc' (vs @ ws) (op_nat op n m)"
  using assms
  by (auto simp: describes_def nat_fold_step_def res_map_Inr_iff ok_or_Inr_iff nat_combine_iff
      split: closed_nat.splits)

lemma nat_fold_sound:
  assumes "\<And>e r. e \<in> set es \<Longrightarrow> closed_value e = Inr r \<Longrightarrow> describes r (nat_vars e) (nat_meaning \<rho> e)"
    and "describes acc vs n"
    and "try_fold (\<lambda>acc operand. res_bind (closed_value operand) (nat_fold_step op sp acc)) acc es = Inr r"
  shows "describes r (vs @ concat (map nat_vars es)) (foldl (op_nat op) n (map (nat_meaning \<rho>) es))"
  using assms
proof (induction es arbitrary: acc vs n)
  case (Cons e es)
  then obtain re acc' where re: "closed_value e = Inr re" "nat_fold_step op sp acc re = Inr acc'"
    and rest: "try_fold (\<lambda>acc operand. res_bind (closed_value operand) (nat_fold_step op sp acc)) acc' es = Inr r"
    by (auto simp: res_bind_Inr_iff)
  have "describes acc' (vs @ nat_vars e) (op_nat op n (nat_meaning \<rho> e))"
    using nat_fold_step_sound [OF Cons.prems(2) _ re(2)] Cons.prems(1) [of e] re(1) by simp
  from Cons.IH [OF _ this rest] Cons.prems(1) show ?case by simp
qed simp

lemma foldl_op_nat:
  "foldl (op_nat Addition) n xs = n + sum_list xs"
  "foldl (op_nat Multiplication) n xs = n * prod_list xs"
  by (induction xs arbitrary: n) (simp_all add: ac_simps)

lemma closed_value_sound:
  "closed_value e = Inr r \<Longrightarrow> describes r (nat_vars e) (nat_meaning \<rho> e)"
proof (induction e arbitrary: r)
  case (NatAdd es sp)
  from nat_fold_sound [of es \<rho> "ClosedValue 0" "[]" 0 Addition sp r] NatAdd show ?case
    by (simp add: describes_def [of "ClosedValue 0"] foldl_op_nat)
next
  case (NatMul es sp)
  from nat_fold_sound [of es \<rho> "ClosedValue 1" "[]" 1 Multiplication sp r] NatMul show ?case
    by (simp add: describes_def [of "ClosedValue 1"] foldl_op_nat)
qed (auto simp: describes_def)

section \<open>Overflow\<close>

fun nat_subexprs :: "('i, 's) nat_expr \<Rightarrow> ('i, 's) nat_expr list" where
  "nat_subexprs (NatAdd es s) = NatAdd es s # concat (map nat_subexprs es)"
| "nat_subexprs (NatMul es s) = NatMul es s # concat (map nat_subexprs es)"
| "nat_subexprs e = [e]"

text \<open>A sum or product with a closed prefix whose value leaves \<open>u64\<close>.\<close>

fun overflows_at :: "'s nat_overflow_at \<Rightarrow> ('i, 's) nat_expr \<Rightarrow> bool" where
  "overflows_at ov (NatAdd es s) \<longleftrightarrow> ov = \<lparr>ov_op = Addition, ov_span = s\<rparr> \<and>
     (\<exists>pre post. es = pre @ post \<and> (\<forall>e \<in> set pre. nat_vars e = []) \<and>
       2 ^ 64 \<le> sum_list (map (nat_meaning (\<lambda>_. 0)) pre))"
| "overflows_at ov (NatMul es s) \<longleftrightarrow> ov = \<lparr>ov_op = Multiplication, ov_span = s\<rparr> \<and>
     (\<exists>pre post. es = pre @ post \<and> (\<forall>e \<in> set pre. nat_vars e = []) \<and>
       2 ^ 64 \<le> prod_list (map (nat_meaning (\<lambda>_. 0)) pre))"
| "overflows_at ov _ \<longleftrightarrow> False"

lemma nat_fold_step_error:
  assumes "nat_fold_step op sp acc r = Inl ov" "describes acc vs n" "describes r ws m"
  shows "ov = \<lparr>ov_op = op, ov_span = sp\<rparr> \<and> vs = [] \<and> ws = [] \<and> 2 ^ 64 \<le> op_nat op n m"
proof -
  from assms(1) obtain a b where ab: "acc = ClosedValue a" "r = ClosedValue b" "nat_combine op a b = None"
    "ov = \<lparr>ov_op = op, ov_span = sp\<rparr>"
    by (auto simp: nat_fold_step_def res_map_Inl_iff ok_or_Inl_iff split: closed_nat.splits)
  with assms(2,3) show ?thesis
    by (cases op) (auto simp: describes_def nat_combine_def u64_checked_None)
qed

lemma nat_fold_error:
  assumes "try_fold (\<lambda>acc operand. res_bind (closed_value operand) (nat_fold_step op sp acc)) acc es = Inl ov"
    and "describes acc vs n"
  shows "(\<exists>e \<in> set es. closed_value e = Inl ov) \<or>
    (ov = \<lparr>ov_op = op, ov_span = sp\<rparr> \<and> vs = [] \<and>
     (\<exists>pre post. es = pre @ post \<and> (\<forall>e \<in> set pre. nat_vars e = []) \<and>
       2 ^ 64 \<le> foldl (op_nat op) n (map (nat_meaning (\<lambda>_. 0)) pre)))"
  using assms
proof (induction es arbitrary: acc vs n)
  case (Cons e es)
  show ?case
  proof (cases "closed_value e")
    case (Inr r)
    note r = closed_value_sound [OF Inr, of "\<lambda>_. 0"]
    show ?thesis
    proof (cases "nat_fold_step op sp acc r")
      case (Inl ov')
      with Cons.prems(1) Inr have "ov' = ov" by simp
      with nat_fold_step_error [OF Inl Cons.prems(2) r] show ?thesis
        by (intro disjI2 conjI exI [of _ "[e]"] exI [of _ es]) auto
    next
      case acc': (Inr acc')
      have rest: "try_fold (\<lambda>acc operand. res_bind (closed_value operand) (nat_fold_step op sp acc)) acc' es = Inl ov"
        using Cons.prems(1) Inr acc' by simp
      from Cons.IH [OF rest nat_fold_step_sound [OF Cons.prems(2) r acc']]
      have "(\<exists>e \<in> set es. closed_value e = Inl ov) \<or>
        (ov = \<lparr>ov_op = op, ov_span = sp\<rparr> \<and> vs @ nat_vars e = [] \<and>
         (\<exists>pre post. es = pre @ post \<and> (\<forall>e \<in> set pre. nat_vars e = []) \<and>
           2 ^ 64 \<le> foldl (op_nat op) (op_nat op n (nat_meaning (\<lambda>_. 0) e)) (map (nat_meaning (\<lambda>_. 0)) pre)))"
        by simp
      then show ?thesis
      proof (elim disjE conjE exE)
        fix pre post
        assume "es = pre @ post" "\<forall>e \<in> set pre. nat_vars e = []" "vs @ nat_vars e = []"
          "ov = \<lparr>ov_op = op, ov_span = sp\<rparr>"
          "2 ^ 64 \<le> foldl (op_nat op) (op_nat op n (nat_meaning (\<lambda>_. 0) e)) (map (nat_meaning (\<lambda>_. 0)) pre)"
        then show ?thesis by (intro disjI2 conjI exI [of _ "e # pre"] exI [of _ post]) auto
      qed auto
    qed
  qed (use Cons.prems(1) in auto)
qed simp

text \<open>A reported overflow is one of a sum or product of the expression.\<close>

lemma closed_value_overflow:
  "closed_value e = Inl ov \<Longrightarrow> \<exists>e' \<in> set (nat_subexprs e). overflows_at ov e'"
proof (induction e)
  case (NatAdd es sp)
  have "describes (ClosedValue 0) [] 0" by (simp add: describes_def)
  from nat_fold_error [OF NatAdd.prems [simplified] this] NatAdd.IH show ?case
    by (auto simp: foldl_op_nat)
next
  case (NatMul es sp)
  have "describes (ClosedValue 1) [] 1" by (simp add: describes_def)
  from nat_fold_error [OF NatMul.prems [simplified] this] NatMul.IH show ?case
    by (auto simp: foldl_op_nat)
qed auto

section \<open>Properties\<close>

text \<open>Evaluation of a Nat expression is exact. A closed result is the value of an expression
  without variables, an open one names the first variable in source order, and an overflow is
  reported at a sum or product whose variable-free first operands leave 64 bits.\<close>

theorem closed_value_exact:
  "case closed_value e of
     Inr (ClosedValue v) \<Rightarrow> nat_vars e = [] \<and> unat v = nat_meaning \<rho> e
   | Inr (OpenNat i) \<Rightarrow> nat_vars e \<noteq> [] \<and> hd (nat_vars e) = i
   | Inl ov \<Rightarrow> \<exists>e' \<in> set (nat_subexprs e). overflows_at ov e'"
  using closed_value_sound [of e _ \<rho>] closed_value_overflow [of e]
  by (fastforce simp: describes_def split: sum.split closed_nat.split)

end
