(* ===== verification/Int_Kernels.thy ===== *)
theory Int_Kernels
  imports Machine_Int
begin

text \<open>
  The arithmetic kernels the checker and the evaluator share: checked \<open>Int\<close> arithmetic
  (\<open>semantic/int_arith.rs\<close>), integer division by rounding direction
  (\<open>semantic/int_division.rs\<close>) and the accepted numbers of generic arguments
  (\<open>generic_param.rs\<close>). The lemmas give, for every operand, the exact result or the error.
\<close>

section \<open>Arithmetic\<close>

datatype int_arith_op = AddOp | SubOp | MulOp | ModOp

datatype int_arith_error =
  ModuloByZero | IntOverflow | NegationOverflow | NegativeExponent | ExponentTooLarge

definition i64_checked_rem :: "i64 \<Rightarrow> i64 \<Rightarrow> i64 option" where
  "i64_checked_rem a b =
     (if sint b = 0 \<or> sint a = - (2 ^ 63) \<and> sint b = - 1 then None
      else Some (word_of_int (sint a smod sint b)))"

definition i64_checked_div :: "i64 \<Rightarrow> i64 \<Rightarrow> i64 option" where
  "i64_checked_div a b =
     (if sint b = 0 then None else i64_checked (sint a sdiv sint b))"

definition int_arith :: "int_arith_op \<Rightarrow> i64 \<Rightarrow> i64 \<Rightarrow> (i64, int_arith_error) result" where
  "int_arith op lhs rhs =
     (case op of
        AddOp \<Rightarrow> ok_or IntOverflow (i64_checked (sint lhs + sint rhs))
      | SubOp \<Rightarrow> ok_or IntOverflow (i64_checked (sint lhs - sint rhs))
      | MulOp \<Rightarrow> ok_or IntOverflow (i64_checked (sint lhs * sint rhs))
      | ModOp \<Rightarrow>
          if rhs = 0 then Inl ModuloByZero
          else ok_or IntOverflow (if rhs = -1 then Some 0 else i64_checked_rem lhs rhs))"

definition int_negate :: "i64 \<Rightarrow> (i64, int_arith_error) result" where
  "int_negate value = ok_or NegationOverflow (i64_checked (- sint value))"

definition int_power :: "i64 \<Rightarrow> i64 \<Rightarrow> (i64, int_arith_error) result" where
  "int_power base exponent =
     (if sint exponent < 0 then Inl NegativeExponent
      else if 2 ^ 32 \<le> sint exponent then Inl ExponentTooLarge
      else ok_or IntOverflow (i64_checked (sint base ^ nat (sint exponent))))"

text \<open>The mathematical result of a binary operator.\<close>

fun int_arith_spec :: "int_arith_op \<Rightarrow> int \<Rightarrow> int \<Rightarrow> int" where
  "int_arith_spec AddOp a b = a + b"
| "int_arith_spec SubOp a b = a - b"
| "int_arith_spec MulOp a b = a * b"
| "int_arith_spec ModOp a b = a smod b"

lemma sint_eq_0_iff: "sint (a :: i64) = 0 \<longleftrightarrow> a = 0"
  using sint_i64_inj [of a 0] by simp

lemma sint_eq_m1_iff: "sint (a :: i64) = - 1 \<longleftrightarrow> a = - 1"
  using sint_i64_inj [of a "- 1"] by simp

lemma smod_in_i64: "in_i64 a \<Longrightarrow> in_i64 (a smod b)"
proof -
  assume a: "in_i64 a"
  define r where "r = \<bar>a\<bar> mod \<bar>b\<bar>"
  have "0 \<le> r" unfolding r_def by (cases "b = 0") simp_all
  moreover have "r \<le> \<bar>a\<bar>" unfolding r_def by (rule zmod_le_nonneg_dividend) simp
  moreover have "a smod b = (if a < 0 then - r else r)"
    by (auto simp: signed_modulo_int_def sgn_if r_def)
  ultimately show ?thesis using a by (auto simp: in_i64_def abs_if split: if_splits)
qed

lemma i64_checked_rem_iff:
  "b \<noteq> 0 \<Longrightarrow> b \<noteq> - 1 \<Longrightarrow> i64_checked_rem a b = Some c \<longleftrightarrow> sint c = sint a smod sint b"
  using sint_word_of_int_i64 [OF smod_in_i64 [OF sint_i64 [of a], of "sint b"]]
    sint_i64_inj [of "word_of_int (sint a smod sint b)" c]
  by (auto simp add: i64_checked_rem_def sint_eq_0_iff sint_eq_m1_iff)

lemma int_arith_iff:
  "int_arith op a b = Inr c \<longleftrightarrow>
    (op = ModOp \<longrightarrow> b \<noteq> 0) \<and> sint c = int_arith_spec op (sint a) (sint b)"
proof (cases op)
  case ModOp
  show ?thesis
  proof (cases "b = 0 \<or> b = - 1")
    case True
    then show ?thesis
      by (auto simp: ModOp int_arith_def signed_modulo_int_def sint_eq_0_iff)
  next
    case False
    then show ?thesis by (simp add: ModOp int_arith_def ok_or_Inr_iff i64_checked_rem_iff)
  qed
qed (simp_all add: int_arith_def ok_or_Inr_iff i64_checked_iff)

lemma int_arith_error_iff:
  "int_arith op a b = Inl e \<longleftrightarrow>
    (if op = ModOp then b = 0 \<and> e = ModuloByZero
     else \<not> in_i64 (int_arith_spec op (sint a) (sint b)) \<and> e = IntOverflow)"
proof (cases op)
  case ModOp
  have "i64_checked_rem a b \<noteq> None" if "b \<noteq> 0" "b \<noteq> - 1"
    using that by (simp add: i64_checked_rem_def sint_eq_0_iff sint_eq_m1_iff)
  then show ?thesis by (auto simp: ModOp int_arith_def ok_or_Inl_iff)
qed (auto simp: int_arith_def ok_or_Inl_iff i64_checked_None)

lemma int_negate_iff: "int_negate a = Inr c \<longleftrightarrow> sint c = - sint a"
  by (simp add: int_negate_def ok_or_Inr_iff i64_checked_iff)

lemma int_negate_error_iff: "int_negate a = Inl e \<longleftrightarrow> sint a = - (2 ^ 63) \<and> e = NegationOverflow"
  using sint_i64 [of a] by (auto simp: int_negate_def ok_or_Inl_iff i64_checked_None in_i64_def)

lemma int_power_iff:
  "int_power a n = Inr c \<longleftrightarrow> 0 \<le> sint n \<and> sint n < 2 ^ 32 \<and> sint c = sint a ^ nat (sint n)"
  by (auto simp: int_power_def ok_or_Inr_iff i64_checked_iff)

section \<open>Division\<close>

datatype int_division_fn = TruncDiv | FloorDiv | CeilDiv

datatype int_division_error = DivisionByZero | DivisionOverflow

definition int_divide :: "int_division_fn \<Rightarrow> i64 \<Rightarrow> i64 \<Rightarrow> (i64, int_division_error) result" where
  "int_divide function dividend divisor =
     (if divisor = 0 then Inl DivisionByZero
      else case i64_checked_div dividend divisor of
        None \<Rightarrow> Inl DivisionOverflow
      | Some truncated \<Rightarrow>
          let exact = (i64_checked_rem dividend divisor = Some 0);
              negative = ((sint dividend < 0) \<noteq> (sint divisor < 0));
              rounded = (case function of
                  FloorDiv \<Rightarrow> if \<not> exact \<and> negative then i64_checked (sint truncated - 1) else Some truncated
                | CeilDiv \<Rightarrow> if \<not> exact \<and> \<not> negative then i64_checked (sint truncated + 1) else Some truncated
                | TruncDiv \<Rightarrow> Some truncated)
          in ok_or DivisionOverflow rounded)"

text \<open>Quotients rounded towards zero, down and up.\<close>

fun int_quotient :: "int_division_fn \<Rightarrow> int \<Rightarrow> int \<Rightarrow> int" where
  "int_quotient TruncDiv a b = a sdiv b"
| "int_quotient FloorDiv a b = a div b"
| "int_quotient CeilDiv a b = - ((- a) div b)"

lemma sdiv_signs:
  fixes x y :: int
  shows "(- x) sdiv y = - (x sdiv y)" "x sdiv (- y) = - (x sdiv y)"
    and "0 \<le> x \<Longrightarrow> 0 \<le> y \<Longrightarrow> x sdiv y = x div y"
  by (auto simp: signed_divide_int_def sgn_if)

lemma div_signs:
  fixes x y :: int
  assumes "y \<noteq> 0"
  shows "(- x) div y = (if y dvd x then - (x div y) else - (x div y) - 1)"
    and "x div (- y) = (if y dvd x then - (x div y) else - (x div y) - 1)"
  using assms by (simp_all add: zdiv_zminus1_eq_if zdiv_zminus2_eq_if mod_eq_0_iff_dvd)

lemma sdiv_div:
  fixes a b :: int
  assumes "b \<noteq> 0"
  shows "a div b = (if \<not> b dvd a \<and> ((a < 0) \<noteq> (b < 0)) then a sdiv b - 1 else a sdiv b)"
    and "- ((- a) div b) = (if \<not> b dvd a \<and> ((a < 0) = (b < 0)) then a sdiv b + 1 else a sdiv b)"
proof -
  obtain x y where xy: "0 \<le> x" "0 < y" "x = a \<or> 0 < x \<and> a = - x" "b = y \<or> b = - y"
    using assms that [of "\<bar>a\<bar>" "\<bar>b\<bar>"] by (auto simp: abs_if split: if_splits)
  then show "a div b = (if \<not> b dvd a \<and> ((a < 0) \<noteq> (b < 0)) then a sdiv b - 1 else a sdiv b)"
    by (auto simp: sdiv_signs div_signs)
  show "- ((- a) div b) = (if \<not> b dvd a \<and> ((a < 0) = (b < 0)) then a sdiv b + 1 else a sdiv b)"
    using xy by (auto simp: sdiv_signs div_signs)
qed

lemma sdiv_half:
  fixes a b :: int
  assumes "1 < \<bar>b\<bar>"
  shows "\<bar>a sdiv b\<bar> \<le> \<bar>a\<bar> div 2"
proof -
  define r where "r = \<bar>a\<bar> div \<bar>b\<bar>"
  have "r \<le> \<bar>a\<bar> div 2" unfolding r_def using assms by (intro zdiv_mono2) simp_all
  moreover have "0 \<le> r" by (simp add: r_def div_int_pos_iff)
  moreover have "a sdiv b = sgn a * sgn b * r" by (simp add: signed_divide_int_def r_def)
  ultimately show ?thesis by (auto simp: abs_mult sgn_if)
qed

lemma sdiv_unit: "a sdiv 1 = a" "a sdiv (- 1) = - a" for a :: int
  by (simp_all add: signed_divide_int_def sgn_if abs_if)

lemma int_quotient_in_i64:
  assumes "in_i64 a" "b \<noteq> 0" "\<not> (a = - (2 ^ 63) \<and> b = - 1)"
  shows "in_i64 (int_quotient f a b)" "in_i64 (a sdiv b)"
proof -
  consider "b = 1" | "b = - 1" | "1 < \<bar>b\<bar>" using assms(2) by linarith
  then have "in_i64 (int_quotient f a b) \<and> in_i64 (a sdiv b)"
  proof cases
    case 3
    have "\<bar>a\<bar> div 2 \<le> 2 ^ 62" using assms(1) by (auto simp: in_i64_def abs_if)
    with sdiv_half [OF 3, of a] have "\<bar>a sdiv b\<bar> \<le> 2 ^ 62" by linarith
    then show ?thesis
      using assms(2) by (cases f) (simp_all add: sdiv_div in_i64_def abs_if split: if_splits)
  qed (use assms in \<open>cases f; auto simp: sdiv_unit in_i64_def\<close>)+
  then show "in_i64 (int_quotient f a b)" "in_i64 (a sdiv b)" by simp_all
qed

lemma rem_zero_iff:
  assumes "b \<noteq> 0" "\<not> (sint a = - (2 ^ 63) \<and> sint b = - 1)"
  shows "i64_checked_rem a b = Some 0 \<longleftrightarrow> sint b dvd sint a"
proof -
  have "i64_checked_rem a b = Some 0 \<longleftrightarrow> sint a smod sint b = 0"
  proof -
    have "\<not> (sint b = 0 \<or> sint a = - (2 ^ 63) \<and> sint b = - 1)"
      using assms by (simp add: sint_eq_0_iff)
    then have "i64_checked_rem a b = Some (word_of_int (sint a smod sint b))"
      unfolding i64_checked_rem_def by (rule if_not_P)
    then show ?thesis
      using sint_word_of_int_i64 [OF smod_in_i64 [OF sint_i64 [of a], of "sint b"]]
        sint_i64_inj [of "word_of_int (sint a smod sint b)" 0]
      by simp
  qed
  also have "\<dots> \<longleftrightarrow> sint b dvd sint a"
    by (auto simp: signed_modulo_int_def sgn_if)
  finally show ?thesis .
qed

text \<open>Every quotient is exact, except the one \<open>i64\<close> cannot hold.\<close>

lemma int_divide_eq:
  "int_divide f a b =
    (if b = 0 then Inl DivisionByZero
     else if sint a = - (2 ^ 63) \<and> sint b = - 1 then Inl DivisionOverflow
     else Inr (word_of_int (int_quotient f (sint a) (sint b))))"
proof (cases "b = 0 \<or> sint a = - (2 ^ 63) \<and> sint b = - 1")
  case True
  have "i64_checked_div a b = None" if "sint a = - (2 ^ 63)" "sint b = - 1"
    by (simp add: i64_checked_div_def i64_checked_None that sdiv_unit in_i64_def)
  with True show ?thesis by (auto simp: int_divide_def)
next
  case False
  then have b: "b \<noteq> 0" "sint b \<noteq> 0" and nov: "\<not> (sint a = - (2 ^ 63) \<and> sint b = - 1)"
    by (simp_all add: sint_eq_0_iff)
  note in_range = int_quotient_in_i64 [OF sint_i64 [of a] b(2) nov]
  obtain t where t: "i64_checked_div a b = Some t" "sint t = sint a sdiv sint b"
    using in_range(2) b by (simp add: i64_checked_div_def i64_checked_def sint_word_of_int_i64)
  have "i64_checked (int_quotient f (sint a) (sint b)) = Some (word_of_int (int_quotient f (sint a) (sint b)))"
    using in_range(1) [of f] by (simp add: i64_checked_def)
  moreover have "i64_checked (sint a sdiv sint b) = Some t" using t(2) by (simp add: i64_checked_iff)
  ultimately show ?thesis
    using b nov t(1) rem_zero_iff [OF b(1) nov]
    by (cases f) (auto simp: int_divide_def t(2) sdiv_div [OF b(2)] add.commute split: if_splits)
qed

section \<open>Generic argument counts\<close>

record generic_arg_arity =
  arity_required :: nat
  arity_max :: nat

definition arity_exactly :: "nat \<Rightarrow> generic_arg_arity" where
  "arity_exactly count = \<lparr>arity_required = count, arity_max = count\<rparr>"

definition arity_of_defaults :: "bool list \<Rightarrow> generic_arg_arity" where
  "arity_of_defaults has_default =
     (let (required, mx) = fold (\<lambda>(i, defaulted) (required, _).
            let position = i + 1 in (if defaulted then required else position, position))
          (enumerate 0 has_default) (0, 0)
      in \<lparr>arity_required = required, arity_max = mx\<rparr>)"

definition arity_accepts :: "generic_arg_arity \<Rightarrow> nat \<Rightarrow> bool" where
  "arity_accepts a got \<longleftrightarrow> arity_required a \<le> got \<and> got \<le> arity_max a"

definition defaulted_tail ::
  "('p \<times> 'd option) list \<Rightarrow> nat \<Rightarrow> (('p \<times> 'd) list, generic_arg_arity) result" where
  "defaulted_tail params got =
     (let arity = arity_of_defaults (map (\<lambda>(_, d). d \<noteq> None) params) in
      if length params < got then Inl arity
      else try_map (\<lambda>(p, d). ok_or arity (map_option (Pair p) d)) (drop got params))"

definition arity_display :: "generic_arg_arity \<Rightarrow> string" where
  "arity_display a =
     (if arity_required a = arity_max a then show_nat (arity_max a)
      else show_nat (arity_required a) @ ''..'' @ show_nat (arity_max a))"

text \<open>The required count is one past the last parameter without a default.\<close>

lemma arity_fold:
  "fold (\<lambda>(i, defaulted) (required, _).
      let position = i + 1 in (if defaulted then required else position, position))
    (enumerate n ds) (r, n) =
   (if \<forall>d \<in> set ds. d then r else n + length (dropWhile id (rev ds)), n + length ds)"
proof (induction ds arbitrary: n r)
  case (Cons d ds)
  have "dropWhile id (rev ds @ [d]) = (if \<forall>d \<in> set ds. d then if d then [] else [d] else dropWhile id (rev ds) @ [d])"
    by (auto simp: dropWhile_append dropWhile_eq_Nil_conv)
  with Cons.IH [of "n + 1"] show ?case by (auto simp: Let_def)
qed simp

lemma arity_of_defaults_eq:
  "arity_of_defaults ds =
     \<lparr>arity_required = length (dropWhile id (rev ds)), arity_max = length ds\<rparr>"
proof -
  have "dropWhile id (rev ds) = []" if "\<forall>d \<in> set ds. d"
    using that by (simp add: dropWhile_eq_Nil_conv)
  then show ?thesis
    using arity_fold [of 0 ds 0] by (simp add: arity_of_defaults_def)
qed

text \<open>An application is accepted exactly when every parameter after its arguments has a default.\<close>

lemma required_le_iff: "length (dropWhile id (rev ds)) \<le> n \<longleftrightarrow> (\<forall>d \<in> set (drop n ds). d)"
proof (induction ds rule: rev_induct)
  case (snoc d ds)
  then show ?case by (cases d) (auto simp: drop_Cons' not_less_eq_eq)
qed simp

lemma arity_accepts_iff:
  "arity_accepts (arity_of_defaults ds) got \<longleftrightarrow> got \<le> length ds \<and> (\<forall>d \<in> set (drop got ds). d)"
  by (auto simp: arity_accepts_def arity_of_defaults_eq required_le_iff)

lemma defaulted_tail_ok:
  assumes "arity_accepts (arity_of_defaults (map (\<lambda>(_, d). d \<noteq> None) params)) got"
  shows "\<exists>tail. defaulted_tail params got = Inr tail \<and>
    map (\<lambda>(p, d). (p, Some d)) tail = drop got params"
proof -
  have got: "got \<le> length params" "\<forall>q \<in> set (drop got params). snd q \<noteq> None"
    using assms by (auto simp: arity_accepts_iff drop_map)
  have "\<exists>tail. try_map (\<lambda>(p, d). ok_or e (map_option (Pair p) d)) xs = Inr tail \<and>
      map (\<lambda>(p, d). (p, Some d)) tail = xs" if "\<forall>q \<in> set xs. snd q \<noteq> None"
    for xs :: "('a \<times> 'b option) list" and e :: generic_arg_arity
    using that by (induction xs) auto
  from this [OF got(2)] got(1) show ?thesis by (simp add: defaulted_tail_def Let_def not_less)
qed

lemma defaulted_tail_error:
  assumes "\<not> arity_accepts (arity_of_defaults (map (\<lambda>(_, d). d \<noteq> None) params)) got"
  shows "defaulted_tail params got = Inl (arity_of_defaults (map (\<lambda>(_, d). d \<noteq> None) params))"
proof (cases "length params < got")
  case False
  then have none: "\<exists>q \<in> set (drop got params). snd q = None"
    using assms by (force simp: arity_accepts_iff drop_map)
  have "try_map (\<lambda>(p, d). ok_or e (map_option (Pair p) d)) xs = Inl e" if "\<exists>q \<in> set xs. snd q = None"
    for xs :: "('a \<times> 'b option) list" and e :: generic_arg_arity
    using that
  proof (induction xs)
    case (Cons q xs)
    obtain p d where "q = (p, d)" by force
    with Cons show ?case by (cases d) auto
  qed simp
  from this [OF none] False show ?thesis by (simp add: defaulted_tail_def Let_def)
qed (simp add: defaulted_tail_def)

section \<open>Properties\<close>


text \<open>C39: integer division rounds its quotient in the named direction and never leaves 64 bits: the
  only errors are a zero divisor and the minimum divided by minus one.\<close>

theorem int_division_exact:
  "(int_divide f a b = Inr c \<longleftrightarrow>
     b \<noteq> 0 \<and> \<not> (sint a = - (2 ^ 63) \<and> sint b = - 1) \<and> sint c = int_quotient f (sint a) (sint b)) \<and>
   (int_divide f a b = Inl e \<longleftrightarrow>
     b = 0 \<and> e = DivisionByZero \<or> sint a = - (2 ^ 63) \<and> sint b = - 1 \<and> e = DivisionOverflow)"
proof -
  have exact: "sint (word_of_int (int_quotient f (sint a) (sint b)) :: i64) = int_quotient f (sint a) (sint b)"
    if "b \<noteq> 0" "\<not> (sint a = - (2 ^ 63) \<and> sint b = - 1)"
    using int_quotient_in_i64(1) [OF sint_i64 [of a] _ that(2)] that(1) sint_word_of_int_i64
    by (simp add: sint_eq_0_iff)
  show ?thesis
  proof (cases "b = 0 \<or> sint a = - (2 ^ 63) \<and> sint b = - 1")
    case True
    then show ?thesis by (cases "b = 0") (auto simp: int_divide_eq)
  next
    case False
    have "c = word_of_int (int_quotient f (sint a) (sint b)) \<longleftrightarrow> sint c = int_quotient f (sint a) (sint b)"
      using exact False by (metis sint_i64_inj)
    then show ?thesis using False by (auto simp: int_divide_eq)
  qed
qed

text \<open>A call supplies enough generic arguments exactly when every parameter it leaves out has a
  default; then the defaults of the parameters left out fill the tail, in order, and otherwise
  the accepted range is reported.\<close>

theorem generic_defaults:
  fixes params :: "('p \<times> 'd option) list"
  shows "let arity = arity_of_defaults (map (\<lambda>(_, d). d \<noteq> None) params) in
    (arity_accepts arity got \<longleftrightarrow> got \<le> length params \<and> None \<notin> snd ` set (drop got params)) \<and>
    (defaulted_tail params got = Inr tail \<longleftrightarrow>
       arity_accepts arity got \<and> map (\<lambda>(p, d). (p, Some d)) tail = drop got params) \<and>
    (defaulted_tail params got = Inl e \<longleftrightarrow> \<not> arity_accepts arity got \<and> e = arity)"
proof -
  define arity where "arity = arity_of_defaults (map (\<lambda>(_, d). d \<noteq> None) params)"
  have acc: "arity_accepts arity got \<longleftrightarrow> got \<le> length params \<and> None \<notin> snd ` set (drop got params)"
    unfolding arity_def arity_accepts_iff drop_map set_map
    by (simp only: image_iff split_def ball_simps bex_simps) (auto simp: eq_commute)
  have inj: "map (\<lambda>(p, d). (p, Some d)) xs = map (\<lambda>(p, d). (p, Some d)) ys \<longleftrightarrow> xs = ys"
    for xs ys :: "('p \<times> 'd) list"
    by (rule inj_map_eq_map) (auto simp: inj_def)
  have "(arity_accepts arity got \<longleftrightarrow> got \<le> length params \<and> None \<notin> snd ` set (drop got params)) \<and>
    (defaulted_tail params got = Inr tail \<longleftrightarrow>
       arity_accepts arity got \<and> map (\<lambda>(p, d). (p, Some d)) tail = drop got params) \<and>
    (defaulted_tail params got = Inl e \<longleftrightarrow> \<not> arity_accepts arity got \<and> e = arity)"
  proof (cases "arity_accepts arity got")
    case True
    then obtain t where "defaulted_tail params got = Inr t" "map (\<lambda>(p, d). (p, Some d)) t = drop got params"
      using defaulted_tail_ok unfolding arity_def by blast
    moreover have "t = tail" if "map (\<lambda>(p, d). (p, Some d)) tail = drop got params"
      using that calculation(2) inj [of t tail] by simp
    ultimately show ?thesis using True acc by auto
  next
    case False
    then show ?thesis using acc defaulted_tail_error unfolding arity_def by auto
  qed
  then show ?thesis by (simp only: Let_def arity_def)
qed

end
