(* ===== verification/Nat_Poly.thy ===== *)
theory Nat_Poly
  imports Sparse_Monomial Machine_Int
begin

text \<open>
  Type-level \<open>Nat\<close> arithmetic (\<open>crates/graphcal-compiler/src/nat.rs\<close>): polynomials with
  \<open>u64\<close> coefficients over monomials with \<open>u64\<close> exponents, all sums and products checked.
  Variables are any linearly ordered type (\<open>GenericParamId\<close> in the code). The lemmas show
  that the operations compute the polynomial they name whenever they return, when they
  return, and that the normal form is canonical.
\<close>

section \<open>Forms\<close>

datatype nat_overflow = NatOverflowError

definition u64_exponent :: "(u64, nat_overflow) exponent_ops" where
  "u64_exponent =
     \<lparr>exp_is_zero = (\<lambda>e. e = 0),
      exp_add = (\<lambda>a b. ok_or NatOverflowError (u64_checked_add a b)),
      exp_mul = (\<lambda>a b. ok_or NatOverflowError (u64_checked_mul a b))\<rparr>"

type_synonym 'v nat_mono = "('v, u64) monomial"
type_synonym 'v nat_poly = "('v nat_mono, u64) btree"

definition eval_factor :: "(nat_overflow \<Rightarrow> 'e) \<Rightarrow> u64 \<Rightarrow> u64 \<Rightarrow> (u64, 'e) result" where
  "eval_factor from_overflow value exponent =
     res_bind (ok_or (from_overflow NatOverflowError) (u32_try_from exponent)) (\<lambda>e.
       ok_or (from_overflow NatOverflowError) (u64_checked_pow value e))"

definition evaluate_monomial ::
  "(nat_overflow \<Rightarrow> 'e) \<Rightarrow> 'v nat_mono \<Rightarrow> u64 \<Rightarrow> ('v \<Rightarrow> (u64, 'e) result) \<Rightarrow> (u64, 'e) result" where
  "evaluate_monomial from_overflow monomial coefficient binding =
     try_fold (\<lambda>product p.
       res_bind (binding (fst p)) (\<lambda>value.
       res_bind (eval_factor from_overflow value (snd p)) (\<lambda>factor.
         ok_or (from_overflow NatOverflowError) (u64_checked_mul product factor))))
       coefficient monomial"

definition format_monomial :: "('v \<Rightarrow> string) \<Rightarrow> 'v nat_mono \<Rightarrow> string" where
  "format_monomial show_var monomial =
     join '' * '' (map (\<lambda>p. if snd p = 1 then show_var (fst p)
       else show_var (fst p) @ ''^'' @ show_nat (unat (snd p))) monomial)"

definition from_constant :: "u64 \<Rightarrow> 'v::linorder nat_poly" where
  "from_constant c = (if c \<noteq> 0 then bt_insert mono_one c [] else [])"

definition from_var :: "'v::linorder \<Rightarrow> 'v nat_poly" where
  "from_var name = bt_insert (mono_single u64_exponent name 1) 1 []"

text \<open>\<open>*terms.entry(mn).or_insert(0) += term\<close>, checked.\<close>

definition add_term ::
  "'v::linorder nat_poly \<Rightarrow> 'v nat_mono \<Rightarrow> u64 \<Rightarrow> ('v nat_poly, nat_overflow) result" where
  "add_term terms mn c =
     res_bind (ok_or NatOverflowError
       (u64_checked_add (case map_of terms mn of None \<Rightarrow> 0 | Some e \<Rightarrow> e) c))
       (\<lambda>s. Inr (bt_insert mn s terms))"

definition retain_nonzero :: "'v nat_poly \<Rightarrow> 'v nat_poly" where
  "retain_nonzero terms = filter (\<lambda>(_, c). c \<noteq> 0) terms"

definition poly_add :: "'v::linorder nat_poly \<Rightarrow> 'v nat_poly \<Rightarrow> ('v nat_poly, nat_overflow) result" where
  "poly_add a b =
     res_map retain_nonzero (try_fold (\<lambda>terms p. add_term terms (fst p) (snd p)) a b)"

definition mul_term ::
  "'v::linorder nat_mono \<times> u64 \<Rightarrow> 'v nat_mono \<times> u64 \<Rightarrow> ('v nat_mono \<times> u64, nat_overflow) result" where
  "mul_term p q =
     res_bind (try_mul u64_exponent (fst p) (fst q)) (\<lambda>mn.
     res_bind (ok_or NatOverflowError (u64_checked_mul (snd p) (snd q))) (\<lambda>c. Inr (mn, c)))"

definition poly_mul :: "'v::linorder nat_poly \<Rightarrow> 'v nat_poly \<Rightarrow> ('v nat_poly, nat_overflow) result" where
  "poly_mul a b =
     res_map retain_nonzero
       (try_fold (\<lambda>terms p.
          try_fold (\<lambda>terms q.
            res_bind (mul_term p q) (\<lambda>t. add_term terms (fst t) (snd t))) terms b) [] a)"

function poly_pow :: "'v::linorder nat_poly \<Rightarrow> u64 \<Rightarrow> ('v nat_poly, nat_overflow) result" where
  "poly_pow p e =
     (if e = 0 then Inr (from_constant 1)
      else if e = 1 then Inr p
      else res_bind (poly_pow p (e div 2)) (\<lambda>half.
           res_bind (poly_mul half half) (\<lambda>square.
             if e mod 2 = 0 then Inr square else poly_mul square p)))"
  by auto

termination poly_pow
proof (relation "measure (\<lambda>(p, e). unat e)")
  fix p :: "'a nat_poly" and e :: u64
  assume "e \<noteq> 0"
  then have "unat e div 2 < unat e" by (simp add: unat_gt_0)
  then show "((p, e div 2), (p, e)) \<in> measure (\<lambda>(p, e). unat e)"
    by (simp add: unat_div_distrib)
qed simp

declare poly_pow.simps [simp del]

definition substitute_forms ::
  "'v::linorder nat_poly \<Rightarrow> ('v \<Rightarrow> 'v nat_poly option) \<Rightarrow> ('v nat_poly, nat_overflow) result" where
  "substitute_forms p bindings =
     try_fold (\<lambda>sum t.
       res_bind (try_fold (\<lambda>product ve.
           let factor = (case bindings (fst ve) of Some f \<Rightarrow> f | None \<Rightarrow> from_var (fst ve)) in
           res_bind (poly_pow factor (snd ve)) (\<lambda>power. poly_mul product power))
         (from_constant (snd t)) (fst t)) (\<lambda>term. poly_add sum term))
       (from_constant 0) p"

definition poly_constant :: "'v nat_poly \<Rightarrow> u64" where
  "poly_constant p = (case map_of p mono_one of None \<Rightarrow> 0 | Some c \<Rightarrow> c)"

definition is_constant :: "'v nat_poly \<Rightarrow> bool" where
  "is_constant p \<longleftrightarrow> list_all mono_is_empty (map fst p)"

definition constant_value :: "'v nat_poly \<Rightarrow> u64 option" where
  "constant_value p = (if is_constant p then Some (poly_constant p) else None)"

definition as_variable :: "'v nat_poly \<Rightarrow> 'v option" where
  "as_variable p =
     (case p of
        [(monomial, c)] \<Rightarrow>
          if c = 1 then (case as_single monomial of
             Some (variable, e) \<Rightarrow> if e = 1 then Some variable else None
           | None \<Rightarrow> None)
          else None
      | _ \<Rightarrow> None)"

definition evaluate_with ::
  "(nat_overflow \<Rightarrow> 'e) \<Rightarrow> 'v nat_poly \<Rightarrow> ('v \<Rightarrow> (u64, 'e) result) \<Rightarrow> (u64, 'e) result" where
  "evaluate_with from_overflow p binding =
     try_fold (\<lambda>sum t.
       res_bind (evaluate_monomial from_overflow (fst t) (snd t) binding) (\<lambda>term.
         ok_or (from_overflow NatOverflowError) (u64_checked_add sum term))) 0 p"

definition poly_format :: "('v \<Rightarrow> string) \<Rightarrow> 'v nat_poly \<Rightarrow> string" where
  "poly_format show_var p =
     (if p = [] then ''0''
      else let parts = map (\<lambda>t. if snd t = 1 then format_monomial show_var (fst t)
                 else show_nat (unat (snd t)) @ '' * '' @ format_monomial show_var (fst t))
               (filter (\<lambda>t. \<not> mono_is_empty (fst t)) p);
             parts = (case map_of p mono_one of
                 Some c \<Rightarrow> if 0 < c \<or> parts = [] then parts @ [show_nat (unat c)] else parts
               | None \<Rightarrow> parts)
           in if parts = [] then ''0'' else join '' + '' parts)"

definition is_leq :: "'v nat_poly \<Rightarrow> 'v nat_poly \<Rightarrow> bool" where
  "is_leq a b \<longleftrightarrow>
     list_all (\<lambda>(mn, c). c \<le> (case map_of b mn of None \<Rightarrow> 0 | Some d \<Rightarrow> d)) a"

definition poly_variables :: "'v nat_poly \<Rightarrow> 'v set" where
  "poly_variables p = set (concat (map (mono_keys \<circ> fst) p))"

section \<open>Value and invariant\<close>

abbreviation nat_mono_ok :: "'v::linorder nat_mono \<Rightarrow> bool" where
  "nat_mono_ok \<equiv> mono_ok u64_exponent (\<lambda>_. True)"

definition poly_ok :: "'v::linorder nat_poly \<Rightarrow> bool" where
  "poly_ok p \<longleftrightarrow> mono_ok u64_exponent (\<lambda>_. True) p \<and> (\<forall>t \<in> set p. nat_mono_ok (fst t))"

definition nat_mono_eval :: "('v \<Rightarrow> nat) \<Rightarrow> 'v nat_mono \<Rightarrow> nat" where
  "nat_mono_eval \<rho> m = prod_list (map (\<lambda>p. \<rho> (fst p) ^ unat (snd p)) m)"

definition poly_eval :: "('v \<Rightarrow> nat) \<Rightarrow> 'v nat_poly \<Rightarrow> nat" where
  "poly_eval \<rho> p = sum_list (map (\<lambda>t. unat (snd t) * nat_mono_eval \<rho> (fst t)) p)"

definition coefficient :: "'v nat_poly \<Rightarrow> 'v nat_mono \<Rightarrow> nat" where
  "coefficient p = mono_val unat p"

interpretation u64_exp: exponent_laws u64_exponent "\<lambda>_. True" "unat :: u64 \<Rightarrow> nat"
proof
  show "\<exists>z :: u64. True \<and> unat z = 0" by (intro exI [of _ 0]) simp
qed (auto simp: u64_exponent_def ok_or_Inr_iff u64_checked_iff unat_eq_zero unat_u64_inj)

lemma u64_exponent_simps [simp]:
  "exp_is_zero u64_exponent e \<longleftrightarrow> e = 0"
  "exp_add u64_exponent a b = ok_or NatOverflowError (u64_checked_add a b)"
  by (simp_all add: u64_exponent_def)

lemma poly_ok_Nil [simp]: "poly_ok []"
  by (simp add: poly_ok_def)

lemma poly_ok_bt: "poly_ok p \<Longrightarrow> bt_ok p"
  by (simp add: poly_ok_def mono_ok_def)

lemma poly_ok_Cons:
  "poly_ok (t # p) \<longleftrightarrow>
    (\<forall>q \<in> set p. fst t < fst q) \<and> snd t \<noteq> 0 \<and> nat_mono_ok (fst t) \<and> poly_ok p"
  by (auto simp: poly_ok_def mono_ok_Cons)

lemma poly_ok_insert:
  "poly_ok p \<Longrightarrow> nat_mono_ok m \<Longrightarrow> c \<noteq> 0 \<Longrightarrow> poly_ok (bt_insert m c p)"
  using set_bt_insert [of m c p] by (fastforce simp: poly_ok_def mono_ok_insert)

lemma poly_ok_eq_iff: "poly_ok a \<Longrightarrow> poly_ok b \<Longrightarrow> coefficient a = coefficient b \<longleftrightarrow> a = b"
  unfolding poly_ok_def coefficient_def using u64_exp.mono_val_eq_iff by blast

lemma poly_eval_Nil [simp]: "poly_eval \<rho> [] = 0"
  by (simp add: poly_eval_def)

lemma poly_eval_Cons [simp]:
  "poly_eval \<rho> (t # p) = unat (snd t) * nat_mono_eval \<rho> (fst t) + poly_eval \<rho> p"
  by (simp add: poly_eval_def)

lemma nat_mono_eval_Nil [simp]: "nat_mono_eval \<rho> [] = 1"
  by (simp add: nat_mono_eval_def)

lemma nat_mono_eval_Cons [simp]:
  "nat_mono_eval \<rho> (q # m) = \<rho> (fst q) ^ unat (snd q) * nat_mono_eval \<rho> m"
  by (simp add: nat_mono_eval_def)

lemma coefficient_less: "coefficient p m < 2 ^ 64"
  using unat_u64_less [of "the (map_of p m)"]
  by (cases "map_of p m") (simp_all add: coefficient_def mono_val_def)

lemma coefficient_Nil [simp]: "coefficient [] m = 0"
  by (simp add: coefficient_def)

section \<open>Products of monomials\<close>

lemma mul_factor_eval:
  assumes "bt_ok m" "mul_factor u64_exponent m p = Inr c"
  shows "nat_mono_eval \<rho> c = nat_mono_eval \<rho> m * \<rho> (fst p) ^ unat (snd p)"
proof -
  let ?f = "\<lambda>p. \<rho> (fst p) ^ unat (snd p)"
  have m: "nat_mono_eval \<rho> m = (case map_of m (fst p) of None \<Rightarrow> 1 | Some v \<Rightarrow> ?f (fst p, v)) *
      nat_mono_eval \<rho> (bt_remove (fst p) m)"
    unfolding nat_mono_eval_def by (rule prod_list_bt_remove [OF assms(1)])
  have ins: "nat_mono_eval \<rho> (bt_insert (fst p) v m) = ?f (fst p, v) * nat_mono_eval \<rho> (bt_remove (fst p) m)" for v
    unfolding nat_mono_eval_def by (rule prod_list_bt_insert [OF assms(1)])
  show ?thesis
  proof (cases "map_of m (fst p)")
    case None
    with assms(2) have "c = bt_insert (fst p) (snd p) m" by (simp add: mul_factor_def)
    with m ins None show ?thesis by simp
  next
    case (Some e)
    with assms(2) obtain s where s: "u64_checked_add e (snd p) = Some s"
      and c: "s = 0 \<and> c = bt_remove (fst p) m \<or> s \<noteq> 0 \<and> c = bt_insert (fst p) s m"
      by (auto simp: mul_factor_def res_bind_Inr_iff ok_or_Inr_iff split: if_splits)
    then have "unat s = unat e + unat (snd p)" by (simp add: u64_checked_iff)
    with m ins Some c show ?thesis
      by (cases "s = 0") (auto simp: power_add ac_simps)
  qed
qed

lemma try_mul_eval:
  assumes "nat_mono_ok a" "nat_mono_ok b" "try_mul u64_exponent a b = Inr c"
  shows "nat_mono_eval \<rho> c = nat_mono_eval \<rho> a * nat_mono_eval \<rho> b"
  using assms unfolding try_mul_def
proof (induction b arbitrary: a)
  case (Cons p b)
  then obtain a' where a': "mul_factor u64_exponent a p = Inr a'" "try_fold (mul_factor u64_exponent) a' b = Inr c"
    by (auto simp: res_bind_Inr_iff)
  have "nat_mono_ok a'"
    using u64_exp.mul_factor_sound [OF Cons.prems(1) _ _ a'(1)] Cons.prems(2) by (simp add: mono_ok_Cons)
  with Cons.IH [of a'] Cons.prems a' mul_factor_eval [OF mono_ok_bt [OF Cons.prems(1)] a'(1), of \<rho>] show ?case
    by (simp add: mono_ok_Cons)
qed simp

section \<open>Sums and products of forms\<close>

text \<open>The contribution of one computed term to the coefficient of \<open>m\<close>.\<close>

definition contribution :: "('v nat_mono \<times> u64, nat_overflow) result \<Rightarrow> 'v nat_mono \<Rightarrow> nat" where
  "contribution r m = (case r of Inr t \<Rightarrow> if fst t = m then unat (snd t) else 0 | Inl _ \<Rightarrow> 0)"

lemma add_term_iff:
  assumes "poly_ok t" "nat_mono_ok m" "c \<noteq> 0"
  shows "add_term t m c = Inr t' \<longleftrightarrow>
    poly_ok t' \<and> coefficient t' = (coefficient t)(m := coefficient t m + unat c)"
proof -
  let ?e = "case map_of t m of None \<Rightarrow> 0 | Some e \<Rightarrow> e"
  have e: "unat ?e = coefficient t m"
    by (simp add: coefficient_def mono_val_def split: option.split)
  have step: "poly_ok (bt_insert m s t) \<and> coefficient (bt_insert m s t) = (coefficient t)(m := unat s)"
    if "s \<noteq> 0" for s
    using that assms by (auto simp: poly_ok_insert coefficient_def mono_val_insert fun_eq_iff)
  show ?thesis
  proof
    assume "add_term t m c = Inr t'"
    then obtain s where s: "u64_checked_add ?e c = Some s" "t' = bt_insert m s t"
      by (auto simp: add_term_def res_bind_Inr_iff ok_or_Inr_iff)
    then have "unat s = coefficient t m + unat c" using e by (simp add: u64_checked_iff)
    moreover from this have "s \<noteq> 0" using assms(3) by (auto simp: unat_eq_zero)
    ultimately show "poly_ok t' \<and> coefficient t' = (coefficient t)(m := coefficient t m + unat c)"
      using step s by simp
  next
    assume t': "poly_ok t' \<and> coefficient t' = (coefficient t)(m := coefficient t m + unat c)"
    then have "coefficient t m + unat c < 2 ^ 64"
      using coefficient_less [of t' m] by simp
    then obtain s :: u64 where s: "unat s = coefficient t m + unat c"
      using unat_u64_rep by blast
    then have "add_term t m c = Inr (bt_insert m s t)"
      using e by (simp add: add_term_def u64_checked_iff [THEN iffD2])
    moreover have "s \<noteq> 0" using s assms(3) by (auto simp: unat_eq_zero)
    then have "bt_insert m s t = t'"
      using step t' s by (intro poly_ok_eq_iff [THEN iffD1]) auto
    ultimately show "add_term t m c = Inr t'" by simp
  qed
qed

lemma add_term_eval:
  assumes "bt_ok t" "add_term t m c = Inr t'"
  shows "poly_eval \<rho> t' = poly_eval \<rho> t + unat c * nat_mono_eval \<rho> m"
proof -
  let ?f = "\<lambda>q. unat (snd q) * nat_mono_eval \<rho> (fst q)"
  let ?e = "case map_of t m of None \<Rightarrow> 0 | Some e \<Rightarrow> e"
  from assms(2) obtain s where "u64_checked_add ?e c = Some s" "t' = bt_insert m s t"
    by (auto simp: add_term_def res_bind_Inr_iff ok_or_Inr_iff)
  then have s: "unat s = unat ?e + unat c" "t' = bt_insert m s t" by (simp_all add: u64_checked_iff)
  have "poly_eval \<rho> t = unat ?e * nat_mono_eval \<rho> m + poly_eval \<rho> (bt_remove m t)"
    unfolding poly_eval_def by (subst sum_list_bt_remove [OF assms(1), of ?f m]) (simp split: option.split)
  moreover have "poly_eval \<rho> t' = unat s * nat_mono_eval \<rho> m + poly_eval \<rho> (bt_remove m t)"
    unfolding poly_eval_def s(2) using sum_list_bt_insert [OF assms(1), of ?f m s] by simp
  ultimately show ?thesis using s(1) by (simp add: algebra_simps)
qed

lemma add_terms_iff:
  assumes "poly_ok t"
    and "\<And>x m c. x \<in> set xs \<Longrightarrow> g x = Inr (m, c) \<Longrightarrow> nat_mono_ok m \<and> c \<noteq> 0"
  shows "try_fold (\<lambda>t x. res_bind (g x) (\<lambda>q. add_term t (fst q) (snd q))) t xs = Inr t' \<longleftrightarrow>
    (\<forall>x \<in> set xs. is_ok (g x)) \<and> poly_ok t' \<and>
    coefficient t' = (\<lambda>m. coefficient t m + (\<Sum>x\<leftarrow>xs. contribution (g x) m))"
  using assms
proof (induction xs arbitrary: t)
  case Nil
  then show ?case using poly_ok_eq_iff [of t' t] by auto
next
  case (Cons x xs)
  show ?case
  proof (cases "g x")
    case (Inr q)
    obtain m c where q: "q = (m, c)" by force
    with Cons.prems(2) [of x m c] Inr have mc: "nat_mono_ok m" "c \<noteq> 0" by simp_all
    have contrib: "contribution (Inr (m, c)) k = (if m = k then unat c else 0)" for k
      by (simp add: contribution_def)
    show ?thesis
    proof (cases "add_term t m c")
      case (Inl e)
      then have "2 ^ 64 \<le> coefficient t m + unat c"
        by (auto simp: add_term_def coefficient_def mono_val_def res_bind_Inl_iff ok_or_Inl_iff
            u64_checked_None split: option.splits)
      moreover have "coefficient t' m = coefficient t m + (unat c + (\<Sum>x\<leftarrow>xs. contribution (g x) m))"
        if "coefficient t' = (\<lambda>m. coefficient t m + (\<Sum>x\<leftarrow>x # xs. contribution (g x) m))"
        by (simp add: that Inr q contrib)
      ultimately have "coefficient t' \<noteq> (\<lambda>m. coefficient t m + (\<Sum>x\<leftarrow>x # xs. contribution (g x) m))"
        using coefficient_less [of t' m] by fastforce
      with Inl show ?thesis by (simp add: Inr q)
    next
      case t1: (Inr t1)
      then have ok1: "poly_ok t1" and t1c: "coefficient t1 = (coefficient t)(m := coefficient t m + unat c)"
        using add_term_iff [OF Cons.prems(1) mc] by simp_all
      have "(\<lambda>k. coefficient t1 k + (\<Sum>x\<leftarrow>xs. contribution (g x) k)) =
          (\<lambda>k. coefficient t k + (\<Sum>x\<leftarrow>x # xs. contribution (g x) k))"
        by (auto simp: t1c Inr q contrib fun_eq_iff)
      moreover have "try_fold (\<lambda>t x. res_bind (g x) (\<lambda>q. add_term t (fst q) (snd q))) t1 xs = Inr t' \<longleftrightarrow>
          (\<forall>x \<in> set xs. is_ok (g x)) \<and> poly_ok t' \<and>
          coefficient t' = (\<lambda>m. coefficient t1 m + (\<Sum>x\<leftarrow>xs. contribution (g x) m))"
        by (rule Cons.IH [OF ok1]) (use Cons.prems(2) in auto)
      ultimately show ?thesis by (simp add: Inr q t1)
    qed
  qed simp
qed

lemma add_terms_eval:
  assumes "poly_ok t"
    and "\<And>x m c. x \<in> set xs \<Longrightarrow> g x = Inr (m, c) \<Longrightarrow> nat_mono_ok m \<and> c \<noteq> 0 \<and> unat c * nat_mono_eval \<rho> m = h x"
    and "try_fold (\<lambda>t x. res_bind (g x) (\<lambda>q. add_term t (fst q) (snd q))) t xs = Inr t'"
  shows "poly_eval \<rho> t' = poly_eval \<rho> t + (\<Sum>x\<leftarrow>xs. h x)"
  using assms
proof (induction xs arbitrary: t)
  case (Cons x xs)
  then obtain m c t1 where x: "g x = Inr (m, c)" "add_term t m c = Inr t1"
    and rest: "try_fold (\<lambda>t x. res_bind (g x) (\<lambda>q. add_term t (fst q) (snd q))) t1 xs = Inr t'"
    by (auto simp: res_bind_Inr_iff)
  have mc: "nat_mono_ok m" "c \<noteq> 0" "unat c * nat_mono_eval \<rho> m = h x"
    using Cons.prems(2) [of x m c] x by simp_all
  then have "poly_ok t1"
    using add_term_iff [OF Cons.prems(1)] x(2) by blast
  then have "poly_eval \<rho> t' = poly_eval \<rho> t1 + (\<Sum>x\<leftarrow>xs. h x)"
    by (rule Cons.IH [OF _ _ rest]) (use Cons.prems(2) in auto)
  with add_term_eval [OF poly_ok_bt [OF Cons.prems(1)] x(2), of \<rho>] mc
  show ?case by simp
qed simp

lemma retain_nonzero_ok: "poly_ok p \<Longrightarrow> retain_nonzero p = p"
  unfolding retain_nonzero_def by (rule filter_True) (auto simp: poly_ok_def mono_ok_def)

text \<open>The sum of two forms: coefficients add, and it is returned exactly when they fit.\<close>

lemma poly_add_iff:
  assumes "poly_ok a" "poly_ok b"
  shows "poly_add a b = Inr c \<longleftrightarrow>
    poly_ok c \<and> coefficient c = (\<lambda>m. coefficient a m + coefficient b m)"
proof -
  have "(\<Sum>x\<leftarrow>b. contribution (Inr x) m) = coefficient b m" for m
    using poly_ok_bt [OF assms(2)]
    by (induction b)
      (auto simp: contribution_def coefficient_def mono_val_Cons bt_ok_Cons mono_val_def map_of_bt_less)
  moreover have b: "nat_mono_ok m \<and> c \<noteq> 0" if "(m, c) \<in> set b" for m c
    using that assms(2) by (auto simp: poly_ok_def mono_ok_def)
  have "try_fold (\<lambda>t x. res_bind (Inr x) (\<lambda>q. add_term t (fst q) (snd q))) a b = Inr c \<longleftrightarrow>
      (\<forall>x \<in> set b. is_ok (Inr x :: (_, nat_overflow) result)) \<and> poly_ok c \<and>
      coefficient c = (\<lambda>m. coefficient a m + (\<Sum>x\<leftarrow>b. contribution (Inr x) m))" for c
    by (rule add_terms_iff [OF assms(1)]) (use b in simp)
  ultimately have fold: "try_fold (\<lambda>t x. add_term t (fst x) (snd x)) a b = Inr c \<longleftrightarrow>
      poly_ok c \<and> coefficient c = (\<lambda>m. coefficient a m + coefficient b m)" for c
    by simp
  have "poly_add a b = try_fold (\<lambda>t x. add_term t (fst x) (snd x)) a b"
  proof (cases "try_fold (\<lambda>t x. add_term t (fst x) (snd x)) a b")
    case (Inr t)
    then have "poly_ok t" using fold [of t] by blast
    with Inr show ?thesis by (simp add: poly_add_def retain_nonzero_ok)
  qed (simp add: poly_add_def)
  then show ?thesis by (simp only: fold)
qed

lemma poly_add_ok: "poly_ok a \<Longrightarrow> poly_ok b \<Longrightarrow> poly_add a b = Inr c \<Longrightarrow> poly_ok c"
  by (simp add: poly_add_iff)

lemma poly_add_eval:
  assumes "poly_ok a" "poly_ok b" "poly_add a b = Inr c"
  shows "poly_eval \<rho> c = poly_eval \<rho> a + poly_eval \<rho> b"
proof -
  from assms(3) have "poly_ok c" using assms(1,2) by (simp add: poly_add_iff)
  obtain t where t: "try_fold (\<lambda>t x. add_term t (fst x) (snd x)) a b = Inr t" "c = retain_nonzero t"
    using assms(3) by (auto simp: poly_add_def res_map_Inr_iff)
  have b: "nat_mono_ok m \<and> c \<noteq> 0" if "(m, c) \<in> set b" for m c
    using that assms(2) by (auto simp: poly_ok_def mono_ok_def)
  have fold: "try_fold (\<lambda>t x. res_bind (Inr x) (\<lambda>q. add_term t (fst q) (snd q))) a b = Inr t"
    using t(1) by simp
  have "poly_ok t"
    using iffD1 [OF add_terms_iff [OF assms(1)] fold] b by simp
  moreover have "poly_eval \<rho> t = poly_eval \<rho> a + (\<Sum>t\<leftarrow>b. unat (snd t) * nat_mono_eval \<rho> (fst t))"
    by (rule add_terms_eval [OF assms(1) _ fold]) (use b in auto)
  ultimately show ?thesis by (simp add: t(2) retain_nonzero_ok) (simp add: poly_eval_def)
qed

text \<open>Nested iteration is iteration over the pairs.\<close>

lemma try_fold_product:
  "try_fold (\<lambda>t p. try_fold (\<lambda>t q. h t (p, q)) t b) s a = try_fold h s (List.product a b)"
proof (induction a arbitrary: s)
  case (Cons p a)
  have "try_fold h t (map (Pair p) b) = try_fold (\<lambda>t q. h t (p, q)) t b" for t
    by (induction b arbitrary: t) (auto intro!: arg_cong [of _ _ "res_bind _"])
  with Cons show ?case by (simp add: try_fold_append)
qed simp

lemma mul_term_ok:
  assumes "poly_ok a" "poly_ok b" "p \<in> set a" "q \<in> set b" "mul_term p q = Inr (m, c)"
  shows "nat_mono_ok m \<and> c \<noteq> 0 \<and>
    unat c * nat_mono_eval \<rho> m =
      (unat (snd p) * nat_mono_eval \<rho> (fst p)) * (unat (snd q) * nat_mono_eval \<rho> (fst q))"
proof -
  have pq: "nat_mono_ok (fst p)" "nat_mono_ok (fst q)" "unat (snd p) \<noteq> 0" "unat (snd q) \<noteq> 0"
    using assms(1-4) by (auto simp: poly_ok_def mono_ok_def unat_eq_zero)
  have m: "try_mul u64_exponent (fst p) (fst q) = Inr m" and c: "unat c = unat (snd p) * unat (snd q)"
    using assms(5) by (auto simp: mul_term_def res_bind_Inr_iff ok_or_Inr_iff u64_checked_iff)
  then have "c \<noteq> 0" using pq by auto
  with m c pq show ?thesis
    using u64_exp.try_mul_sound [OF pq(1,2) m] by (simp add: try_mul_eval)
qed

lemma mul_term_product:
  assumes "poly_ok a" "poly_ok b" "x \<in> set (List.product a b)" "mul_term (fst x) (snd x) = Inr (m, c)"
  shows "nat_mono_ok m \<and> c \<noteq> 0"
    and "nat_mono_ok m \<and> c \<noteq> 0 \<and> unat c * nat_mono_eval \<rho> m =
      (unat (snd (fst x)) * nat_mono_eval \<rho> (fst (fst x))) * (unat (snd (snd x)) * nat_mono_eval \<rho> (fst (snd x)))"
  using mul_term_ok [OF assms(1,2) _ _ assms(4), of \<rho>] assms(3) by auto

lemma poly_mul_fold:
  "poly_mul a b = res_map retain_nonzero
     (try_fold (\<lambda>t x. res_bind (mul_term (fst x) (snd x)) (\<lambda>q. add_term t (fst q) (snd q))) []
       (List.product a b))"
  unfolding poly_mul_def by (subst try_fold_product [symmetric]) simp

lemma poly_mul_iff:
  assumes "poly_ok a" "poly_ok b"
  shows "poly_mul a b = Inr c \<longleftrightarrow>
    (\<forall>p \<in> set a. \<forall>q \<in> set b. is_ok (mul_term p q)) \<and> poly_ok c \<and>
    coefficient c = (\<lambda>m. \<Sum>(p, q)\<leftarrow>List.product a b. contribution (mul_term p q) m)"
proof -
  have "try_fold (\<lambda>t x. res_bind (mul_term (fst x) (snd x)) (\<lambda>q. add_term t (fst q) (snd q))) []
       (List.product a b) = Inr c \<longleftrightarrow>
     (\<forall>x \<in> set (List.product a b). is_ok (mul_term (fst x) (snd x))) \<and> poly_ok c \<and>
     coefficient c = (\<lambda>m. coefficient [] m + (\<Sum>x\<leftarrow>List.product a b. contribution (mul_term (fst x) (snd x)) m))"
    for c
    by (rule add_terms_iff [OF poly_ok_Nil mul_term_product(1) [OF assms]])
  then show ?thesis
    by (auto simp: poly_mul_fold res_map_Inr_iff retain_nonzero_ok case_prod_unfold)
qed

lemma poly_mul_ok: "poly_ok a \<Longrightarrow> poly_ok b \<Longrightarrow> poly_mul a b = Inr c \<Longrightarrow> poly_ok c"
  by (simp add: poly_mul_iff)

lemma poly_mul_eval:
  assumes "poly_ok a" "poly_ok b" "poly_mul a b = Inr c"
  shows "poly_eval \<rho> c = poly_eval \<rho> a * poly_eval \<rho> b"
proof -
  let ?xs = "List.product a b" and ?v = "\<lambda>t. unat (snd t) * nat_mono_eval \<rho> (fst t)"
  obtain t where t: "try_fold (\<lambda>t x. res_bind (mul_term (fst x) (snd x)) (\<lambda>q. add_term t (fst q) (snd q))) [] ?xs = Inr t"
    "c = retain_nonzero t"
    using assms(3) by (auto simp: poly_mul_fold res_map_Inr_iff)
  have "poly_ok t \<and> poly_eval \<rho> t = poly_eval \<rho> [] + (\<Sum>x\<leftarrow>?xs. ?v (fst x) * ?v (snd x))"
  proof
    show "poly_ok t"
      using iffD1 [OF add_terms_iff [OF poly_ok_Nil mul_term_product(1) [OF assms(1,2)]] t(1)] by simp
    show "poly_eval \<rho> t = poly_eval \<rho> [] + (\<Sum>x\<leftarrow>?xs. ?v (fst x) * ?v (snd x))"
      by (rule add_terms_eval [OF poly_ok_Nil mul_term_product(2) [OF assms(1,2)] t(1)])
  qed
  moreover have "(\<Sum>x\<leftarrow>List.product a b. f (fst x) * f (snd x)) = (\<Sum>x\<leftarrow>a. f x) * (\<Sum>x\<leftarrow>b. f x)"
    for f :: "'a nat_mono \<times> u64 \<Rightarrow> nat"
    by (induction a) (simp_all add: comp_def sum_list_const_mult algebra_simps)
  ultimately show ?thesis
    by (simp add: t(2) retain_nonzero_ok) (simp add: poly_eval_def)
qed

section \<open>Constants, variables, powers\<close>

lemma from_constant_ok [simp]: "poly_ok (from_constant c)"
  by (simp add: from_constant_def poly_ok_Cons)

lemma from_constant_eval [simp]: "poly_eval \<rho> (from_constant c) = unat c"
  by (simp add: from_constant_def mono_one_def)

lemma from_var_eq: "from_var v = [([(v, 1)], 1)]"
  by (simp add: from_var_def mono_single_def)

lemma from_var_ok [simp]: "poly_ok (from_var v)"
  by (simp add: from_var_eq poly_ok_Cons mono_ok_Cons)

lemma from_var_eval [simp]: "poly_eval \<rho> (from_var v) = \<rho> v"
  by (simp add: from_var_eq)

lemma poly_pow_sound:
  "poly_ok p \<Longrightarrow> poly_pow p e = Inr q \<Longrightarrow> poly_ok q \<and> poly_eval \<rho> q = poly_eval \<rho> p ^ unat e"
proof (induction p e arbitrary: q rule: poly_pow.induct)
  case (1 p e)
  show ?case
  proof (cases "e = 0 \<or> e = 1")
    case True
    with 1 show ?thesis by (auto simp: poly_pow.simps [of p e])
  next
    case False
    then have "res_bind (poly_pow p (e div 2)) (\<lambda>half. res_bind (poly_mul half half) (\<lambda>square.
        if e mod 2 = 0 then Inr square else poly_mul square p)) = Inr q"
      using 1(3) by (simp only: poly_pow.simps [of p e] de_Morgan_disj if_False)
    then obtain half square where half: "poly_pow p (e div 2) = Inr half"
      and square: "poly_mul half half = Inr square"
      and q: "(if e mod 2 = 0 then Inr square else poly_mul square p) = Inr q"
      unfolding res_bind_Inr_iff by blast
    have h: "poly_ok half" "poly_eval \<rho> half = poly_eval \<rho> p ^ (unat e div 2)"
      using 1 False half by (auto simp: unat_div_distrib)
    have s: "poly_ok square" "poly_eval \<rho> square = poly_eval \<rho> p ^ (2 * (unat e div 2))"
      using poly_mul_ok [OF h(1) h(1) square] poly_mul_eval [OF h(1) h(1) square, of \<rho>] h(2)
      by (simp_all add: mult_2 power_add)
    have m: "e mod 2 = 0 \<longleftrightarrow> unat e mod 2 = 0"
      by (simp add: unat_mod_distrib flip: unat_eq_zero)
    show ?thesis
    proof (cases "e mod 2 = 0")
      case True
      then have "unat e mod 2 = 0" by (simp only: m)
      then have "2 * (unat e div 2) = unat e" by presburger
      with True q s show ?thesis by simp
    next
      case odd: False
      then have "unat e mod 2 \<noteq> 0" by (simp only: m not_False_eq_True)
      then have "unat e = 2 * (unat e div 2) + 1" by presburger
      then have "poly_eval \<rho> p ^ unat e = poly_eval \<rho> square * poly_eval \<rho> p"
        using s(2) by (metis power_add power_one_right)
      with odd q s(1) 1(2) show ?thesis
        using poly_mul_ok [of square p q] poly_mul_eval [of square p q \<rho>] by simp
    qed
  qed
qed

section \<open>Substitution\<close>

definition binding_form :: "('v::linorder \<Rightarrow> 'v nat_poly option) \<Rightarrow> 'v \<Rightarrow> 'v nat_poly" where
  "binding_form bindings v = (case bindings v of Some f \<Rightarrow> f | None \<Rightarrow> from_var v)"

lemma substitute_monomial_sound:
  assumes "\<And>v. poly_ok (binding_form bindings v)" "poly_ok acc"
    and "try_fold (\<lambda>product ve.
           let factor = (case bindings (fst ve) of Some f \<Rightarrow> f | None \<Rightarrow> from_var (fst ve)) in
           res_bind (poly_pow factor (snd ve)) (\<lambda>power. poly_mul product power)) acc m = Inr q"
  shows "poly_ok q \<and>
    poly_eval \<rho> q = poly_eval \<rho> acc * nat_mono_eval (\<lambda>v. poly_eval \<rho> (binding_form bindings v)) m"
  using assms(2,3)
proof (induction m arbitrary: acc)
  case (Cons ve m)
  then obtain power acc' where power: "poly_pow (binding_form bindings (fst ve)) (snd ve) = Inr power"
    and acc': "poly_mul acc power = Inr acc'"
    and rest: "try_fold (\<lambda>product ve.
           let factor = (case bindings (fst ve) of Some f \<Rightarrow> f | None \<Rightarrow> from_var (fst ve)) in
           res_bind (poly_pow factor (snd ve)) (\<lambda>power. poly_mul product power)) acc' m = Inr q"
    by (auto simp: res_bind_Inr_iff binding_form_def Let_def)
  note pw = poly_pow_sound [OF assms(1) power]
  have "poly_ok power" using pw by blast
  from poly_mul_ok [OF Cons.prems(1) this acc'] poly_mul_eval [OF Cons.prems(1) this acc']
  show ?case using Cons.IH [OF _ rest] pw by simp
qed simp

text \<open>Substitution is composition: the value of the result at \<open>\<rho>\<close> is the value of the
  form at the values of the bindings.\<close>

lemma substitute_forms_sound:
  assumes "poly_ok p" "\<And>v. poly_ok (binding_form bindings v)" "substitute_forms p bindings = Inr q"
  shows "poly_ok q \<and> poly_eval \<rho> q = poly_eval (\<lambda>v. poly_eval \<rho> (binding_form bindings v)) p"
proof -
  have "poly_ok q \<and> poly_eval \<rho> q = poly_eval \<rho> acc + poly_eval (\<lambda>v. poly_eval \<rho> (binding_form bindings v)) p"
    if "try_fold (\<lambda>sum t.
       res_bind (try_fold (\<lambda>product ve.
           let factor = (case bindings (fst ve) of Some f \<Rightarrow> f | None \<Rightarrow> from_var (fst ve)) in
           res_bind (poly_pow factor (snd ve)) (\<lambda>power. poly_mul product power))
         (from_constant (snd t)) (fst t)) (\<lambda>term. poly_add sum term)) acc p = Inr q" "poly_ok acc" for acc
    using that
  proof (induction p arbitrary: acc)
    case (Cons t p)
    from Cons.prems(1) obtain tm acc' where tm: "try_fold (\<lambda>product ve.
           let factor = (case bindings (fst ve) of Some f \<Rightarrow> f | None \<Rightarrow> from_var (fst ve)) in
           res_bind (poly_pow factor (snd ve)) (\<lambda>power. poly_mul product power))
         (from_constant (snd t)) (fst t) = Inr tm"
      and acc': "poly_add acc tm = Inr acc'" and rest: "try_fold (\<lambda>sum t.
       res_bind (try_fold (\<lambda>product ve.
           let factor = (case bindings (fst ve) of Some f \<Rightarrow> f | None \<Rightarrow> from_var (fst ve)) in
           res_bind (poly_pow factor (snd ve)) (\<lambda>power. poly_mul product power))
         (from_constant (snd t)) (fst t)) (\<lambda>term. poly_add sum term)) acc' p = Inr q"
      by (auto simp only: try_fold.simps res_bind_Inr_iff)
    note tm_sound = substitute_monomial_sound [OF assms(2) from_constant_ok tm]
    have "poly_ok tm" using tm_sound by blast
    from poly_add_ok [OF Cons.prems(2) this acc'] poly_add_eval [OF Cons.prems(2) this acc']
    show ?case using Cons.IH [OF rest] tm_sound by simp
  qed simp
  from this [OF assms(3) [unfolded substitute_forms_def]] show ?thesis by simp
qed

section \<open>Evaluation\<close>

lemma eval_factor_iff:
  "eval_factor conv v e = Inr x \<longleftrightarrow> unat e < 2 ^ 32 \<and> unat x = unat v ^ unat e"
  by (auto simp: eval_factor_def res_bind_Inr_iff ok_or_Inr_iff u32_try_from_iff u64_checked_iff
      simp del: power_numeral)

lemma evaluate_monomial_Nil [simp]: "evaluate_monomial conv [] c binding = Inr c"
  by (simp add: evaluate_monomial_def)

lemma evaluate_monomial_Cons:
  "evaluate_monomial conv (p # m) c binding = Inr y \<longleftrightarrow>
    (\<exists>v (f :: u64) c'. binding (fst p) = Inr v \<and> unat (snd p) < 2 ^ 32 \<and> unat f = unat v ^ unat (snd p) \<and>
      unat c' = unat c * unat f \<and> evaluate_monomial conv m c' binding = Inr y)"
  unfolding evaluate_monomial_def
  by (auto simp: res_bind_Inr_iff ok_or_Inr_iff eval_factor_iff u64_checked_iff simp del: power_numeral)

lemma evaluate_monomial_sound:
  assumes "\<And>v x. binding v = Inr x \<Longrightarrow> \<rho> v = unat x" "evaluate_monomial conv m c binding = Inr y"
  shows "unat y = unat c * nat_mono_eval \<rho> m"
  using assms(2)
proof (induction m arbitrary: c)
  case (Cons p m)
  from Cons.prems obtain v c' and f :: u64 where "binding (fst p) = Inr v" "unat f = unat v ^ unat (snd p)"
    "unat c' = unat c * unat f" "evaluate_monomial conv m c' binding = Inr y"
    by (auto simp: evaluate_monomial_Cons)
  with Cons.IH [of c'] assms(1) show ?case by simp
qed simp

text \<open>A value is the value of the polynomial.\<close>

lemma evaluate_with_sound:
  assumes "\<And>v x. binding v = Inr x \<Longrightarrow> \<rho> v = unat x" "evaluate_with conv p binding = Inr y"
  shows "unat y = poly_eval \<rho> p"
proof -
  have "unat y = unat s + poly_eval \<rho> p"
    if "try_fold (\<lambda>sum t. res_bind (evaluate_monomial conv (fst t) (snd t) binding) (\<lambda>term.
         ok_or (conv NatOverflowError) (u64_checked_add sum term))) s p = Inr y" for s
    using that
  proof (induction p arbitrary: s)
    case (Cons t p)
    then obtain x and s' :: u64 where x: "evaluate_monomial conv (fst t) (snd t) binding = Inr x"
      and "unat s' = unat s + unat x" "unat y = unat s' + poly_eval \<rho> p"
      by (auto simp: res_bind_Inr_iff ok_or_Inr_iff u64_checked_iff)
    with evaluate_monomial_sound [OF assms(1) x] show ?case by simp
  qed simp
  from this [of 0] assms(2) show ?thesis by (simp add: evaluate_with_def)
qed

text \<open>A representable value is returned when no variable is zero.\<close>

lemma evaluate_monomial_complete:
  assumes "\<And>p. p \<in> set m \<Longrightarrow> \<exists>x. binding (fst p) = Inr x \<and> \<rho> (fst p) = unat x \<and> 0 < unat x"
    and "\<And>p. p \<in> set m \<Longrightarrow> unat (snd p) < 2 ^ 32" "0 < unat c" "unat c * nat_mono_eval \<rho> m < 2 ^ 64"
  shows "\<exists>y. evaluate_monomial conv m c binding = Inr y \<and> unat y = unat c * nat_mono_eval \<rho> m"
  using assms
proof (induction m arbitrary: c)
  case (Cons p m)
  obtain x where x: "binding (fst p) = Inr x" "\<rho> (fst p) = unat x" "0 < unat x"
    using Cons.prems(1) [of p] by auto
  have pos: "0 < nat_mono_eval \<rho> m"
    unfolding nat_mono_eval_def using Cons.prems(1) by (induction m) (auto, fastforce)
  let ?n = "unat c * unat x ^ unat (snd p)"
  have prod: "?n * nat_mono_eval \<rho> m < 2 ^ 64"
    using Cons.prems(4) x by (simp add: ac_simps)
  moreover have "?n \<le> ?n * nat_mono_eval \<rho> m" using pos by simp
  ultimately have n: "?n < 2 ^ 64" by linarith
  moreover have "unat x ^ unat (snd p) \<le> ?n" using Cons.prems(3) by simp
  ultimately have "unat x ^ unat (snd p) < 2 ^ 64" by linarith
  with n obtain c' f :: u64 where c': "unat c' = ?n" "unat f = unat x ^ unat (snd p)"
    using unat_u64_rep by metis
  have "0 < unat c'" using c'(1) Cons.prems(3) x(3) by simp
  with Cons.IH [of c'] Cons.prems(1,2) prod c' obtain y where
    "evaluate_monomial conv m c' binding = Inr y" "unat y = ?n * nat_mono_eval \<rho> m"
    by auto
  moreover have "unat c' = unat c * unat f" "unat (snd p) < 2 ^ 32"
    using c' Cons.prems(2) [of p] by simp_all
  ultimately have "evaluate_monomial conv (p # m) c binding = Inr y"
    unfolding evaluate_monomial_Cons using x(1) c'(2) by blast
  with \<open>unat y = _\<close> x(2) show ?case by (simp add: ac_simps)
qed simp

lemma evaluate_with_complete:
  assumes "\<And>v. v \<in> poly_variables p \<Longrightarrow> \<exists>x. binding v = Inr x \<and> \<rho> v = unat x \<and> 0 < unat x"
    and "\<And>t q. t \<in> set p \<Longrightarrow> q \<in> set (fst t) \<Longrightarrow> unat (snd q) < 2 ^ 32" "poly_ok p" "poly_eval \<rho> p < 2 ^ 64"
  shows "is_ok (evaluate_with conv p binding)"
proof -
  have "is_ok (try_fold (\<lambda>sum t. res_bind (evaluate_monomial conv (fst t) (snd t) binding) (\<lambda>term.
         ok_or (conv NatOverflowError) (u64_checked_add sum term))) s p)"
    if "unat s + poly_eval \<rho> p < 2 ^ 64" for s
    using assms(1-3) that
  proof (induction p arbitrary: s)
    case (Cons t p)
    have "\<exists>y. evaluate_monomial conv (fst t) (snd t) binding = Inr y \<and>
        unat y = unat (snd t) * nat_mono_eval \<rho> (fst t)"
    proof (rule evaluate_monomial_complete)
      show "\<exists>x. binding (fst q) = Inr x \<and> \<rho> (fst q) = unat x \<and> 0 < unat x" if "q \<in> set (fst t)" for q
        using Cons.prems(1) [of "fst q"] that by (auto simp: poly_variables_def mono_keys_def)
      show "unat (snd q) < 2 ^ 32" if "q \<in> set (fst t)" for q
        by (rule Cons.prems(2) [of t]) (simp_all add: that)
      show "0 < unat (snd t)" using Cons.prems(3) by (simp add: poly_ok_Cons unat_gt_0)
    qed (use Cons.prems(4) in simp)
    then obtain y where y: "evaluate_monomial conv (fst t) (snd t) binding = Inr y"
      "unat y = unat (snd t) * nat_mono_eval \<rho> (fst t)"
      by blast
    have "unat s + unat y < 2 ^ 64" using Cons.prems(4) y(2) by simp
    then obtain s' :: u64 where s': "unat s' = unat s + unat y" using unat_u64_rep by blast
    then have "u64_checked_add s y = Some s'" by (simp add: u64_checked_iff)
    moreover have "is_ok (try_fold (\<lambda>sum t. res_bind (evaluate_monomial conv (fst t) (snd t) binding) (\<lambda>term.
         ok_or (conv NatOverflowError) (u64_checked_add sum term))) s' p)"
    proof (rule Cons.IH)
      show "\<exists>x. binding v = Inr x \<and> \<rho> v = unat x \<and> 0 < unat x" if "v \<in> poly_variables p" for v
        by (rule Cons.prems(1)) (use that in \<open>simp add: poly_variables_def\<close>)
      show "unat (snd q) < 2 ^ 32" if "u \<in> set p" "q \<in> set (fst u)" for u q
        by (rule Cons.prems(2) [of u]) (simp_all add: that)
    qed (use Cons.prems(3,4) s' y(2) in \<open>simp_all add: poly_ok_Cons\<close>)
    ultimately show ?case by (simp add: y(1))
  qed simp
  from this [of 0] assms(4) show ?thesis by (simp add: evaluate_with_def)
qed

section \<open>Comparison\<close>

lemma is_leq_sound:
  assumes "bt_ok a" "bt_ok b" "is_leq a b"
  shows "poly_eval \<rho> a \<le> poly_eval \<rho> b"
  using assms
proof (induction a arbitrary: b)
  case (Cons t a)
  let ?b = "bt_remove (fst t) b"
  have b: "poly_eval \<rho> b =
      unat (case map_of b (fst t) of None \<Rightarrow> 0 | Some d \<Rightarrow> d) * nat_mono_eval \<rho> (fst t) + poly_eval \<rho> ?b"
    unfolding poly_eval_def by (subst sum_list_bt_remove [OF Cons.prems(2), of _ "fst t"]) (simp split: option.split)
  have "is_leq a ?b"
    using Cons.prems by (fastforce simp: is_leq_def list_all_iff map_of_bt_remove bt_ok_Cons)
  then have "poly_eval \<rho> a \<le> poly_eval \<rho> ?b"
    using Cons.IH Cons.prems by (simp add: bt_ok_Cons)
  moreover have "unat (snd t) \<le> unat (case map_of b (fst t) of None \<Rightarrow> 0 | Some d \<Rightarrow> d)"
    using Cons.prems(3) by (cases t) (simp add: is_leq_def word_le_nat_alt)
  ultimately show ?case by (simp add: b add_mono)
qed simp

section \<open>The normal form is canonical\<close>

text \<open>
  Kronecker substitution: at \<open>\<rho> v = X ^ (D ^ index v)\<close> a form's value is a number whose
  base-\<open>X\<close> digits are its coefficients, at positions whose base-\<open>D\<close> digits are the
  exponents. With \<open>X = D = 2 ^ 64\<close> no digit overflows.
\<close>

lemma digits_unique:
  fixes f g :: "nat \<Rightarrow> nat"
  assumes "\<And>i. f i < B" "\<And>i. g i < B" "(\<Sum>i<n. f i * B ^ i) = (\<Sum>i<n. g i * B ^ i)" "i < n"
  shows "f i = g i"
  using assms
proof (induction n arbitrary: f g i)
  case (Suc n)
  have split: "(\<Sum>i<Suc n. h i * B ^ i) = h 0 + B * (\<Sum>i<n. h (Suc i) * B ^ i)" for h :: "nat \<Rightarrow> nat"
    by (simp add: sum.lessThan_Suc_shift sum_distrib_left ac_simps del: sum.lessThan_Suc)
  have low: "h 0 = (\<Sum>i<Suc n. h i * B ^ i) mod B" "(\<Sum>i<n. h (Suc i) * B ^ i) = (\<Sum>i<Suc n. h i * B ^ i) div B"
    if "\<And>i. h i < B" for h :: "nat \<Rightarrow> nat"
    using that [of 0] by (simp_all only: split) simp_all
  have "f 0 = g 0" "(\<Sum>i<n. f (Suc i) * B ^ i) = (\<Sum>i<n. g (Suc i) * B ^ i)"
    using low [of f] low [of g] Suc.prems by simp_all
  with Suc.IH [of "\<lambda>i. f (Suc i)" "\<lambda>i. g (Suc i)" "i - 1"] Suc.prems show ?case
    by (cases i) auto
qed simp

lemma coded_digits_unique:
  fixes f g :: "'m \<Rightarrow> nat" and code :: "'m \<Rightarrow> nat"
  assumes "finite M" "inj_on code M" "\<And>m. f m < B" "\<And>m. g m < B"
    and "(\<Sum>m\<in>M. f m * B ^ code m) = (\<Sum>m\<in>M. g m * B ^ code m)" "m \<in> M"
  shows "f m = g m"
proof -
  let ?S = "code ` M" and ?inv = "the_inv_into M code"
  define lift where "lift h i = (if i \<in> ?S then h (?inv i) else 0)" for h :: "'m \<Rightarrow> nat" and i
  obtain n where "\<forall>i \<in> ?S. i < n"
    using assms(1) finite_nat_set_iff_bounded [of ?S] by auto
  then have n: "?S \<subseteq> {..<n}" by auto
  have sum: "(\<Sum>i<n. lift h i * B ^ i) = (\<Sum>m\<in>M. h m * B ^ code m)" for h
  proof -
    have "(\<Sum>i<n. lift h i * B ^ i) = (\<Sum>i\<in>?S. lift h i * B ^ i)"
      by (rule sum.mono_neutral_right) (use n in \<open>auto simp: lift_def\<close>)
    also have "\<dots> = (\<Sum>m\<in>M. h m * B ^ code m)"
      by (subst sum.reindex [OF assms(2)], rule sum.cong)
        (simp_all add: lift_def the_inv_into_f_f [OF assms(2)])
    finally show ?thesis .
  qed
  have "lift f (code m) = lift g (code m)"
  proof (rule digits_unique [of "lift f" B "lift g" n "code m"])
    show "lift f i < B" "lift g i < B" for i
      using assms(3,4) [of "?inv i"] by (simp_all add: lift_def)
    show "code m < n" using n assms(6) by auto
  qed (simp only: sum assms(5))
  then show ?thesis
    using assms(6) by (simp add: lift_def the_inv_into_f_f [OF assms(2)])
qed

text \<open>Values as sums and products over a finite set of keys.\<close>

lemma nat_mono_eval_prod:
  assumes "bt_ok m" "finite V" "fst ` set m \<subseteq> V"
  shows "nat_mono_eval \<rho> m = (\<Prod>v\<in>V. \<rho> v ^ mono_val unat m v)"
  using assms
proof (induction m)
  case (Cons p m)
  have new: "mono_val unat m (fst p) = (0 :: nat)"
    using Cons.prems(1) by (auto simp: bt_ok_Cons mono_val_def map_of_bt_less)
  have "(\<Prod>v\<in>V. \<rho> v ^ mono_val unat (p # m) v) =
      (\<Prod>v\<in>V. (if v = fst p then \<rho> v ^ unat (snd p) else 1) * \<rho> v ^ mono_val unat m v)"
    by (rule prod.cong) (auto simp: mono_val_Cons new)
  also have "\<dots> = \<rho> (fst p) ^ unat (snd p) * (\<Prod>v\<in>V. \<rho> v ^ mono_val unat m v)"
    using Cons.prems by (simp add: prod.distrib)
  finally show ?case using Cons by (simp add: bt_ok_Cons)
qed simp

lemma poly_eval_sum:
  assumes "bt_ok p" "finite M" "fst ` set p \<subseteq> M"
  shows "poly_eval \<rho> p = (\<Sum>m\<in>M. coefficient p m * nat_mono_eval \<rho> m)"
  using assms
proof (induction p)
  case (Cons t p)
  have new: "coefficient p (fst t) = 0"
    using Cons.prems(1) by (auto simp: bt_ok_Cons mono_val_def map_of_bt_less coefficient_def)
  have "(\<Sum>m\<in>M. coefficient (t # p) m * nat_mono_eval \<rho> m) =
      (\<Sum>m\<in>M. (if m = fst t then unat (snd t) * nat_mono_eval \<rho> m else 0) + coefficient p m * nat_mono_eval \<rho> m)"
    by (rule sum.cong) (use new in \<open>auto simp: coefficient_def mono_val_Cons\<close>)
  also have "\<dots> = unat (snd t) * nat_mono_eval \<rho> (fst t) + (\<Sum>m\<in>M. coefficient p m * nat_mono_eval \<rho> m)"
    using Cons.prems by (simp add: sum.distrib)
  finally show ?case using Cons by (simp add: bt_ok_Cons)
qed simp

lemma nat_poly_canonical:
  fixes a b :: "'v::linorder nat_poly"
  assumes "poly_ok a" "poly_ok b" "\<And>\<rho>. poly_eval \<rho> a = poly_eval \<rho> b"
  shows "a = b"
proof -
  define B :: nat where "B = 2 ^ 64"
  define M where "M = fst ` set a \<union> fst ` set b"
  define V where "V = fst ` (\<Union>m\<in>M. set m)"
  have fin: "finite M" "finite V" by (simp_all add: M_def V_def)
  then obtain idx :: "'v \<Rightarrow> nat" where idx: "inj_on idx V"
    using finite_imp_inj_to_nat_seg by metis
  define code where "code m = (\<Sum>v\<in>V. mono_val unat m v * B ^ idx v)" for m :: "'v nat_mono"
  have ok: "nat_mono_ok m" "fst ` set m \<subseteq> V" if "m \<in> M" for m
    using that assms(1,2) by (auto simp: M_def V_def poly_ok_def)
  have exps: "mono_val unat m v < B" for m :: "'v nat_mono" and v
    using coefficient_less [of "[([], the (map_of m v))]" "[]"]
    by (auto simp: mono_val_def B_def coefficient_def split: option.split)
  have "inj_on code M"
  proof (rule inj_onI)
    fix m m' assume m: "m \<in> M" "m' \<in> M" "code m = code m'"
    have "mono_val unat m v = (mono_val unat m' v :: nat)" for v
    proof (cases "v \<in> V")
      case True
      show ?thesis
        by (rule coded_digits_unique [OF fin(2) idx exps exps _ True]) (use m(3) in \<open>simp add: code_def\<close>)
    next
      case False
      then have "map_of m v = None" "map_of m' v = None"
        using ok(2) [OF m(1)] ok(2) [OF m(2)] by (auto simp: map_of_eq_None_iff)
      then show ?thesis by (simp add: mono_val_def)
    qed
    then show "m = m'"
      using u64_exp.mono_val_eq_iff [OF ok(1) [OF m(1)] ok(1) [OF m(2)]] by auto
  qed
  define \<rho> where "\<rho> v = B ^ (B ^ idx v)" for v
  have mono: "nat_mono_eval \<rho> m = B ^ code m" if "m \<in> M" for m
    using nat_mono_eval_prod [OF mono_ok_bt [OF ok(1) [OF that]] fin(2) ok(2) [OF that], of \<rho>]
    by (simp add: \<rho>_def code_def power_sum mult.commute flip: power_mult)
  have sums: "(\<Sum>m\<in>M. coefficient a m * B ^ code m) = (\<Sum>m\<in>M. coefficient b m * B ^ code m)"
    using assms(3) [of \<rho>] poly_eval_sum [OF poly_ok_bt [OF assms(1)] fin(1), of \<rho>]
      poly_eval_sum [OF poly_ok_bt [OF assms(2)] fin(1), of \<rho>] mono
    by (simp add: M_def)
  have "coefficient a m = coefficient b m" if "m \<in> M" for m
    by (rule coded_digits_unique [OF fin(1) \<open>inj_on code M\<close> _ _ sums that])
      (unfold B_def, rule coefficient_less, rule coefficient_less)
  moreover have "coefficient a m = coefficient b m" if "m \<notin> M" for m
    using that by (auto simp: M_def coefficient_def mono_val_def image_iff map_of_eq_None_iff
        split: option.split dest!: map_of_SomeD)
  ultimately have "coefficient a = coefficient b" by blast
  then show ?thesis using poly_ok_eq_iff [OF assms(1,2)] by blast
qed

section \<open>Recognising constants and variables\<close>

lemma constant_value_iff:
  assumes "poly_ok p"
  shows "constant_value p = Some c \<longleftrightarrow> p = from_constant c"
proof
  assume "constant_value p = Some c"
  then have empty: "\<forall>t \<in> set p. fst t = mono_one" and c: "c = poly_constant p"
    by (auto simp: constant_value_def is_constant_def list_all_iff mono_is_empty_def mono_one_def split: if_splits)
  show "p = from_constant c"
  proof (cases p)
    case (Cons t p')
    with empty assms have "p' = []" by (cases p') (auto simp: poly_ok_Cons)
    with Cons empty assms c show ?thesis
      by (cases t) (simp add: poly_constant_def from_constant_def poly_ok_Cons)
  qed (use c in \<open>simp add: poly_constant_def from_constant_def\<close>)
qed (auto simp: from_constant_def constant_value_def is_constant_def poly_constant_def mono_is_empty_def mono_one_def)

lemma as_variable_iff: "as_variable p = Some v \<longleftrightarrow> p = from_var v"
proof
  assume *: "as_variable p = Some v"
  then obtain m c where p: "p = [(m, c)]"
    by (auto simp: as_variable_def split: list.splits)
  with * show "p = from_var v"
    by (cases m rule: as_single.cases) (auto simp: as_variable_def from_var_eq split: if_splits)
qed (simp add: as_variable_def from_var_eq)

lemma poly_eval_cong:
  assumes "\<And>v. v \<in> poly_variables p \<Longrightarrow> \<rho> v = \<sigma> v"
  shows "poly_eval \<rho> p = poly_eval \<sigma> p"
proof -
  have "nat_mono_eval \<rho> (fst t) = nat_mono_eval \<sigma> (fst t)" if "t \<in> set p" for t
    unfolding nat_mono_eval_def
    by (intro arg_cong [of _ _ prod_list] map_cong refl)
      (use that assms in \<open>force simp: poly_variables_def mono_keys_def\<close>)
  then show ?thesis
    unfolding poly_eval_def by (intro arg_cong [of _ _ sum_list] map_cong) simp_all
qed

section \<open>Properties\<close>

lemmas u64_ops = u64_checked_add_def u64_checked_mul_def u64_checked_pow_def

text \<open>Sums and products of Nat forms are exact. They keep the normal form, evaluate to the sum
  and the product at every assignment, a sum fails exactly when a coefficient exceeds 64 bits,
  and powers multiply out to the power.\<close>

theorem nat_form_arithmetic:
  assumes "poly_ok a" "poly_ok b"
  shows "(poly_add a b = Inr c \<longleftrightarrow> poly_ok c \<and> (\<forall>m. coefficient c m = coefficient a m + coefficient b m)) \<and>
    (poly_add a b = Inr c \<longrightarrow> poly_eval \<rho> c = poly_eval \<rho> a + poly_eval \<rho> b) \<and>
    (poly_mul a b = Inr c \<longrightarrow> poly_ok c \<and> poly_eval \<rho> c = poly_eval \<rho> a * poly_eval \<rho> b) \<and>
    (poly_pow a e = Inr c \<longrightarrow> poly_ok c \<and> poly_eval \<rho> c = poly_eval \<rho> a ^ unat e)"
proof (intro conjI impI)
  show "poly_add a b = Inr c \<longleftrightarrow> poly_ok c \<and> (\<forall>m. coefficient c m = coefficient a m + coefficient b m)"
    using poly_add_iff [OF assms] by (simp add: fun_eq_iff)
qed (use assms poly_add_eval poly_mul_ok poly_mul_eval poly_pow_sound in blast)+

theorem nat_form_arithmetic_witness:
  "\<exists>c. poly_mul (from_var (0::nat)) (from_var 1) = Inr c \<and> (\<forall>\<rho>. poly_eval \<rho> c = \<rho> 0 * \<rho> 1)"
proof -
  have "is_ok (poly_mul (from_var (0::nat)) (from_var 1))"
    by (simp add: from_var_eq poly_mul_def mul_term_def try_mul_def mul_factor_def add_term_def u64_ops)
  then obtain c where "poly_mul (from_var (0::nat)) (from_var 1) = Inr c" by (auto simp: is_ok_iff)
  then show ?thesis using nat_form_arithmetic [of "from_var 0" "from_var 1" c] by auto
qed

text \<open>C36: substitution composes. Substituting forms for variables and then evaluating is evaluating
  with the values of those forms; a variable without a binding stays itself.\<close>

theorem nat_form_substitution:
  assumes "poly_ok p" "\<And>v f. bindings v = Some f \<Longrightarrow> poly_ok f" "substitute_forms p bindings = Inr q"
  shows "poly_ok q \<and> poly_eval \<rho> q =
    poly_eval (\<lambda>v. case bindings v of Some f \<Rightarrow> poly_eval \<rho> f | None \<Rightarrow> \<rho> v) p"
proof -
  have "poly_ok (binding_form bindings v)" for v
    using assms(2) by (simp add: binding_form_def split: option.split)
  then have "poly_ok q \<and> poly_eval \<rho> q = poly_eval (\<lambda>v. poly_eval \<rho> (binding_form bindings v)) p"
    using substitute_forms_sound [OF assms(1) _ assms(3)] by blast
  moreover have "(\<lambda>v. poly_eval \<rho> (binding_form bindings v)) =
      (\<lambda>v. case bindings v of Some f \<Rightarrow> poly_eval \<rho> f | None \<Rightarrow> \<rho> v)"
    by (auto simp: fun_eq_iff binding_form_def split: option.split)
  ultimately show ?thesis by simp
qed

theorem nat_form_substitution_witness:
  "\<exists>q. substitute_forms (from_var (0::nat)) [0 \<mapsto> from_constant 5] = Inr q \<and> (\<forall>\<rho>. poly_eval \<rho> q = 5)"
proof -
  have "is_ok (substitute_forms (from_var (0::nat)) [0 \<mapsto> from_constant 5])"
    by (simp add: from_var_eq substitute_forms_def from_constant_def poly_mul_def mul_term_def try_mul_def
        add_term_def poly_add_def poly_pow.simps [of _ 1] u64_ops mono_one_def retain_nonzero_def)
  then obtain q where q: "substitute_forms (from_var (0::nat)) [0 \<mapsto> from_constant 5] = Inr q"
    by (auto simp: is_ok_iff)
  have five: "poly_ok f" if "[0 \<mapsto> from_constant 5] v = Some f" for v :: nat and f :: "nat nat_poly"
    using that by (simp split: if_splits) (metis from_constant_ok)
  have "poly_eval \<rho> q = 5" for \<rho>
    using nat_form_substitution [of "from_var 0" "[0 \<mapsto> from_constant 5]" q \<rho>, OF from_var_ok five q] by simp
  then show ?thesis using q by blast
qed

text \<open>C37: evaluation at machine integers is exact. A result is the value of the form, and when
  every binding is positive, every exponent below \<open>2\<^sup>3\<^sup>2\<close> and the value below
  \<open>2\<^sup>6\<^sup>4\<close>, there is a result.\<close>

theorem nat_form_evaluation:
  assumes "\<And>v x. binding v = Inr x \<Longrightarrow> \<rho> v = unat x" "poly_ok p"
  shows "(evaluate_with conv p binding = Inr y \<longrightarrow> unat y = poly_eval \<rho> p) \<and>
    ((\<forall>v \<in> poly_variables p. \<exists>x. binding v = Inr x \<and> 0 < unat x) \<and>
     (\<forall>t \<in> set p. \<forall>q \<in> set (fst t). unat (snd q) < 2 ^ 32) \<and> poly_eval \<rho> p < 2 ^ 64 \<longrightarrow>
       is_ok (evaluate_with conv p binding))"
proof (intro conjI impI)
  show "unat y = poly_eval \<rho> p" if "evaluate_with conv p binding = Inr y"
    using evaluate_with_sound [OF _ that] assms(1) by blast
  show "is_ok (evaluate_with conv p binding)"
    if "(\<forall>v \<in> poly_variables p. \<exists>x. binding v = Inr x \<and> 0 < unat x) \<and>
      (\<forall>t \<in> set p. \<forall>q \<in> set (fst t). unat (snd q) < 2 ^ 32) \<and> poly_eval \<rho> p < 2 ^ 64"
    using that assms by (intro evaluate_with_complete [of p binding \<rho>]) (blast, blast, auto)
qed

theorem nat_form_evaluation_witness:
  "is_ok (evaluate_with id [([(0::nat, 2)], 3)] (\<lambda>_. Inr 7))"
proof -
  have "poly_ok [([(0::nat, 2)], 3)]" by (simp add: poly_ok_Cons mono_ok_Cons)
  moreover have "unat (7::u64) = 7" "unat (2::u64) = 2" "unat (3::u64) = 3" by simp_all
  ultimately show ?thesis
    using nat_form_evaluation [of "\<lambda>_. Inr 7" "\<lambda>_. 7" "[([(0::nat, 2)], 3)]" id]
    by (simp add: poly_variables_def)
qed

text \<open>C35: the normal form decides equality of Nat expressions: two forms in normal form are the
  same exactly when they agree at every assignment. The coefficient-wise comparison of
  \<open>is_leq\<close> is sound for the pointwise order.\<close>

theorem nat_form_canonical:
  fixes a b :: "'v::linorder nat_poly"
  assumes "poly_ok a" "poly_ok b"
  shows "(a = b \<longleftrightarrow> (\<forall>\<rho>. poly_eval \<rho> a = poly_eval \<rho> b)) \<and>
    (is_leq a b \<longrightarrow> (\<forall>\<rho>. poly_eval \<rho> a \<le> poly_eval \<rho> b)) \<and>
    (constant_value a = Some c \<longleftrightarrow> (\<forall>\<rho>. poly_eval \<rho> a = unat c)) \<and>
    (as_variable a = Some v \<longleftrightarrow> (\<forall>\<rho>. poly_eval \<rho> a = \<rho> v))"
proof (intro conjI impI allI)
  have eq: "x = y \<longleftrightarrow> (\<forall>\<rho>. poly_eval \<rho> x = poly_eval \<rho> y)" if "poly_ok x" "poly_ok y"
    for x y :: "'v nat_poly"
    using nat_poly_canonical [OF that] by blast
  show "a = b \<longleftrightarrow> (\<forall>\<rho>. poly_eval \<rho> a = poly_eval \<rho> b)" by (rule eq [OF assms])
  show "constant_value a = Some c \<longleftrightarrow> (\<forall>\<rho>. poly_eval \<rho> a = unat c)"
    unfolding constant_value_iff [OF assms(1)] eq [OF assms(1) from_constant_ok] by simp
  show "as_variable a = Some v \<longleftrightarrow> (\<forall>\<rho>. poly_eval \<rho> a = \<rho> v)"
    unfolding as_variable_iff eq [OF assms(1) from_var_ok] by simp
  show "poly_eval \<rho> a \<le> poly_eval \<rho> b" if "is_leq a b" for \<rho>
    using is_leq_sound [OF poly_ok_bt [OF assms(1)] poly_ok_bt [OF assms(2)] that] .
qed

theorem nat_form_canonical_witness:
  "\<exists>a. poly_add (from_var (0::nat)) (from_var 1) = Inr a \<and> poly_add (from_var 1) (from_var 0) = Inr a"
proof -
  have "is_ok (poly_add (from_var (0::nat)) (from_var 1))" "is_ok (poly_add (from_var (1::nat)) (from_var 0))"
    by (simp_all add: from_var_eq poly_add_def add_term_def u64_ops)
  then obtain a b where ab: "poly_add (from_var (0::nat)) (from_var 1) = Inr a"
      "poly_add (from_var (1::nat)) (from_var 0) = Inr b"
    unfolding is_ok_iff by blast
  have "poly_ok a" "poly_ok b" using ab poly_add_ok from_var_ok by blast+
  moreover have "poly_eval \<rho> a = poly_eval \<rho> b" for \<rho>
    using poly_add_eval [OF _ _ ab(1)] poly_add_eval [OF _ _ ab(2)] by simp
  ultimately have "a = b" using nat_form_canonical [of a b] by blast
  then show ?thesis using ab by blast
qed

end
