(* ===== verification/Dep_Graph.thy ===== *)
theory Dep_Graph
  imports GC_Prelude "HOL-Library.Multiset"
begin

text \<open>
  Dependency graphs with deterministic topological orders
  (\<open>crates/graphcal-compiler/src/dependency_graph.rs\<close>): the graph with its index tables,
  the iterative depth-first search with an explicit path of frames, and Kahn's algorithm
  with a FIFO queue. The lemmas show that the tables stay consistent, that both orders
  put every node once and after its dependencies, that a reported cycle is one, and that
  one of the two is returned according to whether the graph is acyclic.
\<close>

section \<open>Graphs\<close>

record ('k, 'e) dep_graph =
  g_keys :: "'k list"
  g_positions :: "'k \<Rightarrow> nat option"
  g_dependencies :: "(nat \<times> 'e) list list"
  g_dependents :: "nat list list"
  g_edges :: "(nat \<times> nat) set"

definition graph_new :: "('k, 'e) dep_graph" where
  "graph_new = \<lparr>g_keys = [], g_positions = (\<lambda>_. None), g_dependencies = [],
     g_dependents = [], g_edges = {}\<rparr>"

definition position_of :: "('k, 'e) dep_graph \<Rightarrow> 'k \<Rightarrow> nat \<times> ('k, 'e) dep_graph" where
  "position_of g key =
     (case g_positions g key of
        Some position \<Rightarrow> (position, g)
      | None \<Rightarrow>
          let position = length (g_keys g) in
          (position,
           g\<lparr>g_positions := (g_positions g)(key \<mapsto> position),
             g_keys := g_keys g @ [key],
             g_dependencies := g_dependencies g @ [[]],
             g_dependents := g_dependents g @ [[]]\<rparr>))"

definition add_node :: "('k, 'e) dep_graph \<Rightarrow> 'k \<Rightarrow> ('k, 'e) dep_graph" where
  "add_node g key = snd (position_of g key)"

text \<open>The common tail of the edge operations.\<close>

definition insert_edge :: "('k, 'e) dep_graph \<Rightarrow> nat \<Rightarrow> nat \<Rightarrow> 'e \<Rightarrow> ('k, 'e) dep_graph" where
  "insert_edge g depender dependency label =
     (if (depender, dependency) \<notin> g_edges g
      then g\<lparr>g_edges := insert (depender, dependency) (g_edges g),
             g_dependencies := (g_dependencies g)[depender := g_dependencies g ! depender @ [(dependency, label)]],
             g_dependents := (g_dependents g)[dependency := g_dependents g ! dependency @ [depender]]\<rparr>
      else g)"

definition add_labelled_dependency ::
  "('k, 'e) dep_graph \<Rightarrow> 'k \<Rightarrow> 'k \<Rightarrow> 'e \<Rightarrow> ('k, 'e) dep_graph" where
  "add_labelled_dependency g depender dependency label =
     (let (depender, g) = position_of g depender;
          (dependency, g) = position_of g dependency
      in insert_edge g depender dependency label)"

definition add_dependency :: "('k, unit) dep_graph \<Rightarrow> 'k \<Rightarrow> 'k \<Rightarrow> ('k, unit) dep_graph" where
  "add_dependency g depender dependency = add_labelled_dependency g depender dependency ()"

definition add_labelled_dependency_between ::
  "('k, 'e) dep_graph \<Rightarrow> 'k \<Rightarrow> 'k \<Rightarrow> 'e \<Rightarrow> bool \<times> ('k, 'e) dep_graph" where
  "add_labelled_dependency_between g depender dependency label =
     (case (g_positions g depender, g_positions g dependency) of
        (Some depender, Some dependency) \<Rightarrow> (True, insert_edge g depender dependency label)
      | _ \<Rightarrow> (False, g))"

definition graph_contains :: "('k, 'e) dep_graph \<Rightarrow> 'k \<Rightarrow> bool" where
  "graph_contains g key \<longleftrightarrow> g_positions g key \<noteq> None"

section \<open>Depth-first search\<close>

datatype visit = Unvisited | OnPath nat | Done

record 'e index_cycle =
  ic_entry :: nat
  ic_rest :: "nat list"
  ic_closing :: 'e

text \<open>
  Indexing out of range panics in the code. \<open>visit_at\<close> and \<open>edge_at\<close> are total; the
  invariant \<open>dfs_inv\<close> shows that every index the search uses is in range.
\<close>

definition visit_at :: "visit list \<Rightarrow> nat \<Rightarrow> visit" where
  "visit_at st v = (if v < length st then st ! v else Done)"

definition edge_at :: "(nat \<times> 'e) list list \<Rightarrow> nat \<Rightarrow> nat \<Rightarrow> (nat \<times> 'e) option" where
  "edge_at deps node cursor =
     (if cursor < length (deps ! node) then Some (deps ! node ! cursor) else None)"

definition unvisited_weight :: "(nat \<times> 'e) list list \<Rightarrow> visit list \<Rightarrow> nat" where
  "unvisited_weight deps st = (\<Sum>v<length st. if st ! v = Unvisited then length (deps ! v) + 2 else 0)"

definition path_weight :: "(nat \<times> 'e) list list \<Rightarrow> (nat \<times> nat) list \<Rightarrow> nat" where
  "path_weight deps path = (\<Sum>(u, c)\<leftarrow>path. length (deps ! u) - c + 1)"

lemma unvisited_weight_visit:
  assumes "visit_at st d = Unvisited" "x \<noteq> Unvisited"
  shows "unvisited_weight deps (st[d := x]) + (length (deps ! d) + 2) = unvisited_weight deps st"
proof -
  have d: "d < length st" "st ! d = Unvisited"
    using assms(1) by (auto simp: visit_at_def split: if_splits)
  then have "unvisited_weight deps st =
      (length (deps ! d) + 2) + (\<Sum>v\<in>{..<length st} - {d}. if st ! v = Unvisited then length (deps ! v) + 2 else 0)"
    unfolding unvisited_weight_def by (subst sum.remove [of _ d]) auto
  moreover have "unvisited_weight deps (st[d := x]) =
      (\<Sum>v\<in>{..<length st} - {d}. if st ! v = Unvisited then length (deps ! v) + 2 else 0)"
    unfolding unvisited_weight_def using d assms(2)
    by (subst sum.remove [of _ d]) (auto intro!: sum.cong)
  ultimately show ?thesis by simp
qed

lemma unvisited_weight_done: "unvisited_weight deps (st[d := Done]) \<le> unvisited_weight deps st"
  unfolding unvisited_weight_def
  by (cases "d < length st") (auto intro!: sum_mono simp: nth_list_update split: if_splits)

lemma path_weight_snoc:
  "path_weight deps (p @ [f]) = path_weight deps p + (length (deps ! fst f) - snd f + 1)"
  by (simp add: path_weight_def case_prod_unfold)

function dfs_loop ::
  "(nat \<times> 'e) list list \<Rightarrow> visit list \<Rightarrow> nat list \<Rightarrow> (nat \<times> nat) list \<Rightarrow>
     (visit list \<times> nat list, 'e index_cycle) result" where
  "dfs_loop deps st post path =
     (if path = [] then Inr (st, post)
      else let node = fst (last path); cursor = snd (last path) in
        case edge_at deps node cursor of
          None \<Rightarrow> dfs_loop deps (st[node := Done]) (post @ [node]) (butlast path)
        | Some edge \<Rightarrow>
            let path' = butlast path @ [(node, cursor + 1)]; dependency = fst edge in
            case visit_at st dependency of
              Unvisited \<Rightarrow>
                dfs_loop deps (st[dependency := OnPath (length path')]) post (path' @ [(dependency, 0)])
            | OnPath position \<Rightarrow>
                Inl \<lparr>ic_entry = dependency, ic_rest = map fst (drop 1 (drop position path')),
                     ic_closing = snd edge\<rparr>
            | Done \<Rightarrow> dfs_loop deps st post path')"
  by auto

termination dfs_loop
proof (relation "measure (\<lambda>(deps, st, post, path). unvisited_weight deps st + path_weight deps path)")
  fix deps :: "(nat \<times> 'e) list list" and st :: "visit list" and post :: "nat list" and path :: "(nat \<times> nat) list"
    and node cursor :: nat
  assume ne: "path \<noteq> []" and node: "node = fst (last path)" and cursor: "cursor = snd (last path)"
  have path: "path_weight deps path = path_weight deps (butlast path) + (length (deps ! node) - cursor + 1)"
    using path_weight_snoc [of deps "butlast path" "last path"] ne node cursor by simp
  show "((deps, st[node := Done], post @ [node], butlast path), deps, st, post, path)
      \<in> measure (\<lambda>(deps, st, post, path). unvisited_weight deps st + path_weight deps path)"
    using path unvisited_weight_done [of deps st node] by simp
  fix edge :: "nat \<times> 'e" and path' dependency
  assume edge: "edge_at deps node cursor = Some edge" and path': "path' = butlast path @ [(node, cursor + 1)]"
    and dependency: "dependency = fst edge"
  have less: "path_weight deps path' < path_weight deps path"
    using edge path by (simp add: path' path_weight_snoc edge_at_def split: if_splits)
  show "((deps, st, post, path'), deps, st, post, path)
      \<in> measure (\<lambda>(deps, st, post, path). unvisited_weight deps st + path_weight deps path)"
    using less by simp
  assume "visit_at st dependency = Unvisited"
  then show "((deps, st[dependency := OnPath (length path')], post, path' @ [(dependency, 0)]), deps, st, post, path)
      \<in> measure (\<lambda>(deps, st, post, path). unvisited_weight deps st + path_weight deps path)"
    using less unvisited_weight_visit [of st dependency "OnPath (length path')" deps]
    by (simp add: path_weight_snoc)
qed simp

declare dfs_loop.simps [simp del]

definition depth_first :: "('k, 'e) dep_graph \<Rightarrow> (nat list, 'e index_cycle) result" where
  "depth_first g =
     res_map snd
       (try_fold (\<lambda>(st, post) root.
          if st ! root \<noteq> Unvisited then Inr (st, post)
          else dfs_loop (g_dependencies g) (st[root := OnPath 0]) post [(root, 0)])
        (replicate (length (g_keys g)) Unvisited, []) [0..<length (g_keys g)])"

record ('k, 'e) cycle =
  c_entry :: 'k
  c_rest :: "'k list"
  c_closing :: 'e

definition cycle_from_indices :: "('k, 'e) dep_graph \<Rightarrow> 'e index_cycle \<Rightarrow> ('k, 'e) cycle" where
  "cycle_from_indices g c =
     \<lparr>c_entry = g_keys g ! ic_entry c, c_rest = map (\<lambda>v. g_keys g ! v) (ic_rest c),
      c_closing = ic_closing c\<rparr>"

definition cycle_path :: "('k, 'e) cycle \<Rightarrow> 'k list" where
  "cycle_path c = c_entry c # c_rest c"

definition cycle_len :: "('k, 'e) cycle \<Rightarrow> nat" where
  "cycle_len c = length (c_rest c) + 1"

definition cycle_map :: "('k \<Rightarrow> 'l) \<Rightarrow> ('k, 'e) cycle \<Rightarrow> ('l, 'e) cycle" where
  "cycle_map f c = \<lparr>c_entry = f (c_entry c), c_rest = map f (c_rest c), c_closing = c_closing c\<rparr>"

definition into_depth_first_order :: "('k, 'e) dep_graph \<Rightarrow> ('k list, ('k, 'e) cycle) result" where
  "into_depth_first_order g =
     (case depth_first g of
        Inr post_order \<Rightarrow> Inr (map (\<lambda>v. g_keys g ! v) post_order)
      | Inl cycle \<Rightarrow> Inl (cycle_from_indices g cycle))"

section \<open>Kahn's algorithm\<close>

record kahn_state =
  k_pending :: "nat list"
  k_ready :: "nat list"
  k_rank :: "nat list"
  k_emitted :: nat

definition release :: "kahn_state \<Rightarrow> nat \<Rightarrow> kahn_state" where
  "release s depender =
     (let pending = (k_pending s)[depender := k_pending s ! depender - 1] in
      s\<lparr>k_pending := pending,
        k_ready := (if pending ! depender = 0 then k_ready s @ [depender] else k_ready s)\<rparr>)"

definition emit :: "nat list list \<Rightarrow> kahn_state \<Rightarrow> nat \<Rightarrow> nat list \<Rightarrow> kahn_state" where
  "emit dependents s node rest =
     foldl release
       (s\<lparr>k_ready := rest, k_rank := (k_rank s)[node := k_emitted s], k_emitted := k_emitted s + 1\<rparr>)
       (dependents ! node)"

text \<open>One unit of fuel per popped node; \<open>kahn_ranks_complete\<close> shows that a node each is enough.\<close>

fun kahn_loop :: "nat \<Rightarrow> nat list list \<Rightarrow> kahn_state \<Rightarrow> kahn_state" where
  "kahn_loop 0 dependents s = s"
| "kahn_loop (Suc fuel) dependents s =
     (case k_ready s of
        [] \<Rightarrow> s
      | node # rest \<Rightarrow> kahn_loop fuel dependents (emit dependents s node rest))"

definition kahn_init :: "('k, 'e) dep_graph \<Rightarrow> kahn_state" where
  "kahn_init g =
     (let pending = map length (g_dependencies g) in
      \<lparr>k_pending = pending,
       k_ready = filter (\<lambda>v. pending ! v = 0) [0..<length (g_keys g)],
       k_rank = replicate (length (g_keys g)) 0, k_emitted = 0\<rparr>)"

definition kahn_ranks :: "('k, 'e) dep_graph \<Rightarrow> nat list" where
  "kahn_ranks g = k_rank (kahn_loop (length (g_keys g)) (g_dependents g) (kahn_init g))"

definition into_topo_order :: "('k, 'e) dep_graph \<Rightarrow> ('k list, ('k, 'e) cycle) result" where
  "into_topo_order g =
     (case depth_first g of
        Inl cycle \<Rightarrow> Inl (cycle_from_indices g cycle)
      | Inr _ \<Rightarrow> Inr (map snd (sort_key fst (zip (kahn_ranks g) (g_keys g)))))"

section \<open>The tables stay consistent\<close>

definition dep_nodes :: "(nat \<times> 'e) list list \<Rightarrow> nat \<Rightarrow> nat set" where
  "dep_nodes deps v = fst ` set (deps ! v)"

definition graph_ok :: "('k, 'e) dep_graph \<Rightarrow> bool" where
  "graph_ok g \<longleftrightarrow>
     distinct (g_keys g) \<and>
     (\<forall>k i. g_positions g k = Some i \<longleftrightarrow> i < length (g_keys g) \<and> g_keys g ! i = k) \<and>
     length (g_dependencies g) = length (g_keys g) \<and>
     length (g_dependents g) = length (g_keys g) \<and>
     g_edges g \<subseteq> {..<length (g_keys g)} \<times> {..<length (g_keys g)} \<and>
     (\<forall>v < length (g_keys g).
        distinct (map fst (g_dependencies g ! v)) \<and> dep_nodes (g_dependencies g) v = {w. (v, w) \<in> g_edges g} \<and>
        distinct (g_dependents g ! v) \<and> set (g_dependents g ! v) = {w. (w, v) \<in> g_edges g})"

text \<open>The relation on keys that a graph records, and the labels of its edges.\<close>

definition depends :: "('k, 'e) dep_graph \<Rightarrow> 'k \<Rightarrow> 'k \<Rightarrow> bool" where
  "depends g a b \<longleftrightarrow>
     (\<exists>e \<in> g_edges g. g_keys g ! fst e = a \<and> g_keys g ! snd e = b)"

definition edge_label :: "('k, 'e) dep_graph \<Rightarrow> 'k \<Rightarrow> 'k \<Rightarrow> 'e \<Rightarrow> bool" where
  "edge_label g a b l \<longleftrightarrow>
     (\<exists>i j. i < length (g_keys g) \<and> j < length (g_keys g) \<and> g_keys g ! i = a \<and> g_keys g ! j = b \<and>
       (j, l) \<in> set (g_dependencies g ! i))"

lemma graph_okD:
  assumes "graph_ok g"
  shows "distinct (g_keys g)"
    and "\<And>k i. g_positions g k = Some i \<longleftrightarrow> i < length (g_keys g) \<and> g_keys g ! i = k"
    and "length (g_dependencies g) = length (g_keys g)"
    and "length (g_dependents g) = length (g_keys g)"
    and "g_edges g \<subseteq> {..<length (g_keys g)} \<times> {..<length (g_keys g)}"
    and "\<And>v. v < length (g_keys g) \<Longrightarrow> distinct (map fst (g_dependencies g ! v))"
    and "\<And>v. v < length (g_keys g) \<Longrightarrow> dep_nodes (g_dependencies g) v = {w. (v, w) \<in> g_edges g}"
    and "\<And>v. v < length (g_keys g) \<Longrightarrow> distinct (g_dependents g ! v)"
    and "\<And>v. v < length (g_keys g) \<Longrightarrow> set (g_dependents g ! v) = {w. (w, v) \<in> g_edges g}"
  using assms unfolding graph_ok_def by blast+

lemma graph_ok_new [simp]: "graph_ok graph_new"
  by (simp add: graph_ok_def graph_new_def)

lemma graph_positions_None:
  "graph_ok g \<Longrightarrow> g_positions g k = None \<longleftrightarrow> k \<notin> set (g_keys g)"
  using graph_okD(2) [of g k] by (metis in_set_conv_nth not_None_eq)

lemma position_of_ok:
  assumes "graph_ok g" "position_of g k = (i, g')"
  shows "graph_ok g'" "i < length (g_keys g')" "g_keys g' ! i = k"
    "g_edges g' = g_edges g" "\<exists>ks. g_keys g' = g_keys g @ ks \<and> set ks = {k} - set (g_keys g)"
    "\<exists>ds. g_dependencies g' = g_dependencies g @ ds \<and> (\<forall>d \<in> set ds. d = [])"
proof -
  show "graph_ok g'"
  proof (cases "g_positions g k")
    case None
    then have g': "g' = g\<lparr>g_positions := (g_positions g)(k \<mapsto> length (g_keys g)), g_keys := g_keys g @ [k],
             g_dependencies := g_dependencies g @ [[]], g_dependents := g_dependents g @ [[]]\<rparr>"
      using assms(2) by (auto simp: position_of_def Let_def)
    have edges: "(v, w) \<in> g_edges g \<Longrightarrow> v < length (g_keys g) \<and> w < length (g_keys g)" for v w
      using graph_okD(5) [OF assms(1)] by auto
    have new: "k \<notin> set (g_keys g)" using None graph_positions_None [OF assms(1)] by simp
    show ?thesis
      unfolding graph_ok_def g'
      using graph_okD [OF assms(1)] new edges
      by (auto simp: dep_nodes_def nth_append less_Suc_eq)
  qed (use assms in \<open>simp add: position_of_def\<close>)
  show "i < length (g_keys g')" "g_keys g' ! i = k" "g_edges g' = g_edges g"
    "\<exists>ks. g_keys g' = g_keys g @ ks \<and> set ks = {k} - set (g_keys g)"
    "\<exists>ds. g_dependencies g' = g_dependencies g @ ds \<and> (\<forall>d \<in> set ds. d = [])"
    using assms graph_positions_None [OF assms(1), of k] graph_okD(2) [OF assms(1), of k]
    by (auto simp: position_of_def Let_def split: option.splits)
qed

lemma insert_edge_ok:
  assumes "graph_ok g" "i < length (g_keys g)" "j < length (g_keys g)"
  shows "graph_ok (insert_edge g i j l)" "g_keys (insert_edge g i j l) = g_keys g"
    "g_edges (insert_edge g i j l) = insert (i, j) (g_edges g)"
proof -
  show "graph_ok (insert_edge g i j l)"
  proof (cases "(i, j) \<in> g_edges g")
    case False
    have new: "j \<notin> fst ` set (g_dependencies g ! i)" "i \<notin> set (g_dependents g ! j)"
      using False graph_okD(7) [OF assms(1,2)] graph_okD(9) [OF assms(1,3)] by (auto simp: dep_nodes_def)
    show ?thesis
      unfolding graph_ok_def insert_edge_def
      using graph_okD [OF assms(1)] assms(2,3) False new
      by (auto simp: dep_nodes_def nth_list_update image_iff)
  qed (use assms in \<open>simp add: insert_edge_def\<close>)
qed (auto simp: insert_edge_def)

text \<open>Adding nodes keeps the relation on keys.\<close>

lemma depends_append:
  assumes "graph_ok g" "g_edges g' = g_edges g" "g_keys g' = g_keys g @ ks"
  shows "depends g' a b \<longleftrightarrow> depends g a b"
proof -
  have "g_keys g' ! fst e = g_keys g ! fst e \<and> g_keys g' ! snd e = g_keys g ! snd e" if "e \<in> g_edges g" for e
    using that graph_okD(5) [OF assms(1)] by (auto simp: assms(3) nth_append)
  then show ?thesis
    unfolding depends_def assms(2) by (intro bex_cong refl) simp
qed

lemma add_node_ok:
  assumes "graph_ok g"
  shows "graph_ok (add_node g k)" "set (g_keys (add_node g k)) = insert k (set (g_keys g))"
    "depends (add_node g k) a b \<longleftrightarrow> depends g a b"
proof -
  obtain i g' where p: "position_of g k = (i, g')" by force
  note ok = position_of_ok [OF assms p]
  have eq: "add_node g k = g'" by (simp add: add_node_def p)
  obtain ks where ks: "g_keys g' = g_keys g @ ks" "set ks = {k} - set (g_keys g)" using ok(5) by blast
  show "graph_ok (add_node g k)" by (simp only: eq ok(1))
  show "set (g_keys (add_node g k)) = insert k (set (g_keys g))"
    using ks by (simp add: eq)
  show "depends (add_node g k) a b \<longleftrightarrow> depends g a b"
    unfolding eq by (rule depends_append [OF assms ok(4) ks(1)])
qed

lemma depends_insert_edge:
  assumes "graph_ok g" "i < length (g_keys g)" "j < length (g_keys g)"
  shows "depends (insert_edge g i j l) a b \<longleftrightarrow>
    depends g a b \<or> a = g_keys g ! i \<and> b = g_keys g ! j"
  using insert_edge_ok [OF assms, of l] assms(2,3) by (auto simp: depends_def)

lemma add_labelled_dependency_ok:
  assumes "graph_ok g"
  shows "graph_ok (add_labelled_dependency g a b l)"
    "set (g_keys (add_labelled_dependency g a b l)) = {a, b} \<union> set (g_keys g)"
    "depends (add_labelled_dependency g a b l) x y \<longleftrightarrow> depends g x y \<or> x = a \<and> y = b"
proof -
  obtain i g1 where p1: "position_of g a = (i, g1)" by force
  obtain j g2 where p2: "position_of g1 b = (j, g2)" by force
  note ok1 = position_of_ok [OF assms p1]
  note ok2 = position_of_ok [OF ok1(1) p2]
  from ok2(5) obtain ks where ks: "g_keys g2 = g_keys g1 @ ks" "set ks = {b} - set (g_keys g1)" by blast
  from ok1(5) obtain js where js: "g_keys g1 = g_keys g @ js" "set js = {a} - set (g_keys g)" by blast
  have i: "i < length (g_keys g2)" "g_keys g2 ! i = a"
    using ok1(2,3) ks by (simp_all add: nth_append)
  have eq: "add_labelled_dependency g a b l = insert_edge g2 i j l"
    by (simp add: add_labelled_dependency_def p1 p2)
  note ins = insert_edge_ok [OF ok2(1) i(1) ok2(2), of l]
  show "graph_ok (add_labelled_dependency g a b l)" by (simp only: eq ins(1))
  show "set (g_keys (add_labelled_dependency g a b l)) = {a, b} \<union> set (g_keys g)"
    using ks js by (auto simp: eq ins(2))
  have "depends g2 x y \<longleftrightarrow> depends g x y"
    using depends_append [OF assms ok1(4) js(1)] depends_append [OF ok1(1) ok2(4) ks(1)] by simp
  then show "depends (add_labelled_dependency g a b l) x y \<longleftrightarrow> depends g x y \<or> x = a \<and> y = b"
    using depends_insert_edge [OF ok2(1) i(1) ok2(2)] i(2) ok2(3) by (simp add: eq)
qed

lemma add_labelled_dependency_between_ok:
  assumes "graph_ok g" "add_labelled_dependency_between g a b l = (r, g')"
  shows "graph_ok g'" "g_keys g' = g_keys g" "r \<longleftrightarrow> a \<in> set (g_keys g) \<and> b \<in> set (g_keys g)"
    "depends g' x y \<longleftrightarrow> depends g x y \<or> r \<and> x = a \<and> y = b"
proof -
  have "graph_ok g' \<and> g_keys g' = g_keys g \<and> (r \<longleftrightarrow> a \<in> set (g_keys g) \<and> b \<in> set (g_keys g)) \<and>
      (depends g' x y \<longleftrightarrow> depends g x y \<or> r \<and> x = a \<and> y = b)"
  proof (cases "g_positions g a = None \<or> g_positions g b = None")
    case True
    then have "r = False" "g' = g"
      using assms(2) by (auto simp: add_labelled_dependency_between_def split: option.splits)
    with True show ?thesis using assms(1) graph_positions_None [OF assms(1)] by blast
  next
    case False
    then obtain i j where ij: "g_positions g a = Some i" "g_positions g b = Some j" by auto
    then have "r = True" "g' = insert_edge g i j l"
      using assms(2) by (auto simp: add_labelled_dependency_between_def)
    moreover have "i < length (g_keys g)" "g_keys g ! i = a" "j < length (g_keys g)" "g_keys g ! j = b"
      using ij graph_okD(2) [OF assms(1)] by blast+
    ultimately show ?thesis
      using insert_edge_ok [OF assms(1)] depends_insert_edge [OF assms(1)] by (auto simp: in_set_conv_nth)
  qed
  then show "graph_ok g'" "g_keys g' = g_keys g" "r \<longleftrightarrow> a \<in> set (g_keys g) \<and> b \<in> set (g_keys g)"
    "depends g' x y \<longleftrightarrow> depends g x y \<or> r \<and> x = a \<and> y = b"
    by blast+
qed

section \<open>Orders and cycles on indices\<close>

definition topo_indices :: "(nat \<times> 'e) list list \<Rightarrow> nat list \<Rightarrow> bool" where
  "topo_indices deps xs \<longleftrightarrow> (\<forall>i < length xs. dep_nodes deps (xs ! i) \<subseteq> set (take i xs))"

lemma topo_indices_snoc:
  "topo_indices deps (xs @ [v]) \<longleftrightarrow> topo_indices deps xs \<and> dep_nodes deps v \<subseteq> set xs"
  by (auto simp: topo_indices_def nth_append less_Suc_eq)

text \<open>Each node depends on the next one, and the last on the first, through the closing label.\<close>

definition index_cycle_ok :: "(nat \<times> 'e) list list \<Rightarrow> 'e index_cycle \<Rightarrow> bool" where
  "index_cycle_ok deps c \<longleftrightarrow>
     (let p = ic_entry c # ic_rest c in
      distinct p \<and> set p \<subseteq> {..<length deps} \<and>
      (\<forall>i. Suc i < length p \<longrightarrow> p ! Suc i \<in> dep_nodes deps (p ! i)) \<and>
      (ic_entry c, ic_closing c) \<in> set (deps ! last p))"

definition deps_ok :: "(nat \<times> 'e) list list \<Rightarrow> bool" where
  "deps_ok deps \<longleftrightarrow> (\<forall>v < length deps. dep_nodes deps v \<subseteq> {..<length deps})"

text \<open>A frame \<open>i\<close> of the path: its node, and its cursor behind the edges already followed.\<close>

definition frame_ok ::
  "(nat \<times> 'e) list list \<Rightarrow> visit list \<Rightarrow> (nat \<times> nat) list \<Rightarrow> nat \<Rightarrow> bool" where
  "frame_ok deps st path i \<longleftrightarrow>
     (let (u, c) = path ! i; settled = (if Suc i < length path then c - 1 else c) in
      u < length deps \<and> c \<le> length (deps ! u) \<and>
      (\<forall>k < settled. st ! fst (deps ! u ! k) = Done) \<and>
      (Suc i < length path \<longrightarrow> 0 < c \<and> fst (deps ! u ! (c - 1)) = fst (path ! Suc i)))"

definition dfs_inv ::
  "(nat \<times> 'e) list list \<Rightarrow> visit list \<Rightarrow> nat list \<Rightarrow> (nat \<times> nat) list \<Rightarrow> bool" where
  "dfs_inv deps st post path \<longleftrightarrow>
     length st = length deps \<and> distinct post \<and>
     set post = {v. v < length deps \<and> st ! v = Done} \<and> topo_indices deps post \<and>
     (\<forall>v < length deps. \<forall>i. st ! v = OnPath i \<longleftrightarrow> i < length path \<and> fst (path ! i) = v) \<and>
     (\<forall>i < length path. frame_ok deps st path i)"

lemma edge_at_cases:
  assumes "deps_ok deps" "u < length deps"
  shows "edge_at deps u c = None \<longleftrightarrow> length (deps ! u) \<le> c"
    and "edge_at deps u c = Some e \<Longrightarrow> c < length (deps ! u) \<and> e = deps ! u ! c \<and> fst e \<in> dep_nodes deps u \<and> fst e < length deps"
  using assms by (auto simp: edge_at_def dep_nodes_def deps_ok_def image_subset_iff split: if_splits)

lemma dfs_inv_frame:
  assumes "dfs_inv deps st post path" "i < length path"
  shows "fst (path ! i) < length deps" "st ! fst (path ! i) = OnPath i"
proof -
  have "frame_ok deps st path i" using assms by (simp add: dfs_inv_def)
  then show "fst (path ! i) < length deps" by (auto simp: frame_ok_def split: prod.splits)
  with assms show "st ! fst (path ! i) = OnPath i" by (auto simp: dfs_inv_def)
qed

lemma dfs_inv_distinct:
  assumes "dfs_inv deps st post path"
  shows "distinct (map fst path)"
  unfolding distinct_conv_nth using dfs_inv_frame(2) [OF assms] by (metis length_map nth_map visit.inject)

text \<open>The node on top has followed all its edges: it is emitted.\<close>

lemma dfs_inv_pop:
  assumes "deps_ok deps" "dfs_inv deps st post (p @ [(u, c)])" "length (deps ! u) \<le> c"
  shows "dfs_inv deps (st[u := Done]) (post @ [u]) p"
proof -
  let ?st = "st[u := Done]" and ?path = "p @ [(u, c)]"
  have len: "length st = length deps" using assms(2) by (simp add: dfs_inv_def)
  have top: "u < length deps" "st ! u = OnPath (length p)"
    using dfs_inv_frame [OF assms(2), of "length p"] by simp_all
  have "frame_ok deps st ?path (length p)" using assms(2) by (simp add: dfs_inv_def)
  then have "\<forall>k < length (deps ! u). st ! fst (deps ! u ! k) = Done"
    using assms(3) by (auto simp: frame_ok_def)
  then have settled: "\<forall>e \<in> set (deps ! u). st ! fst e = Done"
    by (simp add: all_set_conv_all_nth)
  moreover have "dep_nodes deps u \<subseteq> {..<length deps}" using assms(1) top(1) by (simp add: deps_ok_def)
  moreover have "set post = {v. v < length deps \<and> st ! v = Done}" using assms(2) by (simp add: dfs_inv_def)
  ultimately have "dep_nodes deps u \<subseteq> set post"
    unfolding dep_nodes_def by (auto simp: in_set_conv_nth image_subset_iff)
  moreover have "st ! u \<noteq> Done" using top(2) by simp
  then have "u \<notin> set post" using assms(2) by (auto simp: dfs_inv_def)
  moreover have "\<forall>v < length deps. \<forall>i. ?st ! v = OnPath i \<longleftrightarrow> i < length p \<and> fst (p ! i) = v"
  proof (intro allI impI)
    fix v i assume v: "v < length deps"
    have "st ! v = OnPath i \<longleftrightarrow> i < length ?path \<and> fst (?path ! i) = v"
      using assms(2) v by (simp add: dfs_inv_def)
    with v top len show "?st ! v = OnPath i \<longleftrightarrow> i < length p \<and> fst (p ! i) = v"
      by (cases "v = u") (auto simp: nth_append less_Suc_eq nth_list_update split: if_splits)
  qed
  moreover have "frame_ok deps ?st p i" if "i < length p" for i
  proof -
    obtain u' c' where f: "p ! i = (u', c')" by force
    have old: "frame_ok deps st ?path i" using assms(2) that by (simp add: dfs_inv_def)
    have keep: "?st ! w = Done" if "st ! w = Done \<or> w = u" for w
      using that top len by (cases "w = u") auto
    show ?thesis
    proof (cases "Suc i < length p")
      case True
      with old keep f that show ?thesis by (auto simp: frame_ok_def nth_append)
    next
      case False
      then have last: "Suc i = length p" using that by simp
      have c': "0 < c'" "c' \<le> length (deps ! u')" "u' < length deps" "fst (deps ! u' ! (c' - 1)) = u"
        "\<forall>k < c' - 1. st ! fst (deps ! u' ! k) = Done"
        using old f that last by (simp_all add: frame_ok_def nth_append)
      have "?st ! fst (deps ! u' ! k) = Done" if "k < c'" for k
      proof (cases "k = c' - 1")
        case False
        then have "k < c' - 1" using that by simp
        with c'(5) keep show ?thesis by blast
      qed (use c'(4) keep in simp)
      with c' f last show ?thesis by (simp add: frame_ok_def)
    qed
  qed
  ultimately show ?thesis
    using assms(2) top len
    by (auto simp: dfs_inv_def topo_indices_snoc nth_list_update)
qed

text \<open>Following an edge to a finished node.\<close>

lemma dfs_inv_advance:
  assumes "dfs_inv deps st post (p @ [(u, c)])" "c < length (deps ! u)" "st ! fst (deps ! u ! c) = Done"
  shows "dfs_inv deps st post (p @ [(u, c + 1)])"
proof -
  let ?path = "p @ [(u, c)]" and ?path' = "p @ [(u, c + 1)]"
  have fst_eq: "fst (?path' ! i) = fst (?path ! i)" if "i < length ?path" for i
    using that by (auto simp: nth_append less_Suc_eq)
  have "frame_ok deps st ?path' i" if "i < length ?path'" for i
  proof (cases "i = length p")
    case True
    have "frame_ok deps st ?path (length p)" using assms(1) by (simp add: dfs_inv_def)
    with True assms(2,3) show ?thesis by (auto simp: frame_ok_def less_Suc_eq)
  next
    case False
    then have "i < length p" using that by simp
    moreover have "frame_ok deps st ?path i" using assms(1) \<open>i < length p\<close> by (simp add: dfs_inv_def)
    ultimately show ?thesis
      unfolding frame_ok_def using fst_eq [of "Suc i"] by (simp add: nth_append [of p _ i])
  qed
  moreover have "i < length ?path' \<and> fst (?path' ! i) = v \<longleftrightarrow> i < length ?path \<and> fst (?path ! i) = v" for i v
    using fst_eq [of i] by auto
  ultimately show ?thesis
    using assms(1) unfolding dfs_inv_def by presburger
qed

text \<open>Entering an unvisited node.\<close>

lemma dfs_inv_push:
  assumes "dfs_inv deps st post (p @ [(u, c)])" "c < length (deps ! u)" "fst (deps ! u ! c) = d"
    and "d < length deps" "st ! d = Unvisited"
  shows "dfs_inv deps (st[d := OnPath (Suc (length p))]) post (p @ [(u, c + 1), (d, 0)])"
proof -
  let ?path = "p @ [(u, c)]" and ?path' = "p @ [(u, c + 1), (d, 0)]"
  let ?st = "st[d := OnPath (Suc (length p))]"
  have len: "length st = length deps" using assms(1) by (simp add: dfs_inv_def)
  have fst_eq: "i < length ?path \<Longrightarrow> fst (?path' ! i) = fst (?path ! i)" for i
    by (auto simp: nth_append less_Suc_eq)
  have done_iff: "?st ! v = Done \<longleftrightarrow> st ! v = Done" for v
    using assms(5) len assms(4) by (cases "v = d") auto
  have "frame_ok deps ?st ?path' i" if i: "i < length ?path'" for i
  proof -
    consider "i < length p" | "i = length p" | "i = Suc (length p)" using i by force
    then show ?thesis
    proof cases
      case 1
      then have "frame_ok deps st ?path i" using assms(1) by (simp add: dfs_inv_def)
      with 1 show ?thesis
        unfolding frame_ok_def done_iff using fst_eq [of "Suc i"] by (simp add: nth_append [of p _ i])
    next
      case 2
      have "frame_ok deps st ?path (length p)" using assms(1) by (simp add: dfs_inv_def)
      with 2 assms(2,3) show ?thesis
        unfolding frame_ok_def done_iff by (auto simp: nth_append)
    next
      case 3
      then show ?thesis using assms(4) by (simp add: frame_ok_def nth_append)
    qed
  qed
  moreover have "?st ! v = OnPath i \<longleftrightarrow> i < length ?path' \<and> fst (?path' ! i) = v" if v: "v < length deps" for v i
  proof -
    have on: "st ! v = OnPath i \<longleftrightarrow> i < length ?path \<and> fst (?path ! i) = v"
      using assms(1) v by (simp add: dfs_inv_def)
    show ?thesis
    proof (cases "v = d")
      case True
      then have "\<not> (i < length ?path \<and> fst (?path ! i) = d)" using on assms(5) by simp
      with True show ?thesis using fst_eq [of i] len assms(4)
        by (cases "i = Suc (length p)") (auto simp: nth_append)
    next
      case False
      then show ?thesis using on fst_eq [of i]
        by (cases "i = Suc (length p)") (auto simp: nth_append)
    qed
  qed
  ultimately show ?thesis
    using assms(1) by (auto simp: dfs_inv_def done_iff)
qed

text \<open>Re-entering the path closes a cycle.\<close>

lemma dfs_inv_cycle:
  assumes "dfs_inv deps st post (p @ [(u, c)])" "c < length (deps ! u)" "deps ! u ! c = (d, l)"
    and "d < length deps" "st ! d = OnPath i"
  shows "index_cycle_ok deps
    \<lparr>ic_entry = d, ic_rest = map fst (drop 1 (drop i (p @ [(u, c + 1)]))), ic_closing = l\<rparr>"
proof -
  let ?path = "p @ [(u, c)]"
  have i: "i < length ?path" "fst (?path ! i) = d" using assms(1,4,5) by (simp_all add: dfs_inv_def)
  have "map fst (p @ [(u, c + 1)]) = map fst ?path" by simp
  then have "d # map fst (drop 1 (drop i (p @ [(u, c + 1)]))) = map fst (drop i ?path)"
    using i by (metis Cons_nth_drop_Suc drop_drop drop_map length_map nth_map plus_1_eq_Suc)
  moreover have "distinct (map fst (drop i ?path))"
    using distinct_drop [OF dfs_inv_distinct [OF assms(1)]] by (simp only: drop_map)
  moreover have "set (map fst (drop i ?path)) \<subseteq> {..<length deps}"
  proof
    fix v assume "v \<in> set (map fst (drop i ?path))"
    then have "v \<in> set (map fst ?path)" by (metis drop_map in_set_dropD)
    then obtain j where "j < length ?path" "v = fst (?path ! j)" by (metis in_set_conv_nth length_map nth_map)
    with dfs_inv_frame(1) [OF assms(1)] show "v \<in> {..<length deps}" by simp
  qed
  moreover have "map fst (drop i ?path) ! Suc j \<in> dep_nodes deps (map fst (drop i ?path) ! j)"
    if j: "Suc j < length (map fst (drop i ?path))" for j
  proof -
    obtain u' c' where f: "?path ! (i + j) = (u', c')" by force
    have "frame_ok deps st ?path (i + j)" using assms(1) j by (simp add: dfs_inv_def)
    then have "0 < c'" "c' \<le> length (deps ! u')" "fst (deps ! u' ! (c' - 1)) = fst (?path ! Suc (i + j))"
      using f j by (simp_all add: frame_ok_def Let_def)
    then have "fst (?path ! Suc (i + j)) \<in> dep_nodes deps u'"
      unfolding dep_nodes_def by (metis diff_less image_eqI less_le_trans less_one nth_mem)
    with f j show ?thesis by (simp add: nth_drop del: drop_append)
  qed
  moreover have "last (map fst (drop i ?path)) = u" using i by (simp add: last_map last_drop)
  moreover have "(d, l) \<in> set (deps ! u)" using assms(2,3) by (metis nth_mem)
  ultimately show ?thesis
    unfolding index_cycle_ok_def Let_def index_cycle.select_convs by (simp only: simp_thms) blast
qed

section \<open>The search is correct\<close>

lemma dfs_loop_sound:
  assumes "deps_ok deps" "dfs_inv deps st post path"
  shows "case dfs_loop deps st post path of
      Inl c \<Rightarrow> index_cycle_ok deps c
    | Inr (st', post') \<Rightarrow> dfs_inv deps st' post' [] \<and> (\<forall>v. st ! v \<noteq> Unvisited \<longrightarrow> st' ! v \<noteq> Unvisited)"
  using assms
proof (induction deps st post path rule: dfs_loop.induct)
  case (1 deps st post path)
  show ?case
  proof (cases "path = []")
    case True
    with 1 show ?thesis by (simp add: dfs_loop.simps)
  next
    case False
    obtain p u c where path: "path = p @ [(u, c)]"
      using False by (metis append_butlast_last_id surj_pair)
    note inv = 1(5) [unfolded path]
    have u: "u < length deps" using dfs_inv_frame(1) [OF inv, of "length p"] by simp
    note edge = edge_at_cases [OF 1(4) u, of c]
    show ?thesis
    proof (cases "edge_at deps u c")
      case None
      then have "dfs_inv deps (st[u := Done]) (post @ [u]) p"
        using dfs_inv_pop [OF 1(4) inv] edge(1) by simp
      moreover have "dfs_loop deps st post path = dfs_loop deps (st[u := Done]) (post @ [u]) p"
        using None by (simp add: dfs_loop.simps [of deps st post] path)
      moreover have "st ! v \<noteq> Unvisited \<longrightarrow> st[u := Done] ! v \<noteq> Unvisited" for v
        by (cases "u < length st"; cases "v = u") (simp_all add: list_update_beyond)
      ultimately show ?thesis
        using 1(1) [OF False refl refl] 1(4) None by (auto simp: path split: sum.splits)
    next
      case (Some e)
      obtain d l where e: "e = (d, l)" by force
      have c: "c < length (deps ! u)" "deps ! u ! c = (d, l)" "d < length deps"
        using edge(2) [OF Some] e by auto
      have at: "visit_at st d = st ! d" using c(3) 1(5) by (simp add: visit_at_def dfs_inv_def)
      show ?thesis
      proof (cases "st ! d")
        case Unvisited
        have "dfs_inv deps (st[d := OnPath (Suc (length p))]) post (p @ [(u, c + 1), (d, 0)])"
          by (rule dfs_inv_push [OF inv c(1) _ c(3) Unvisited]) (simp add: c(2))
        moreover have "dfs_loop deps st post path =
            dfs_loop deps (st[d := OnPath (Suc (length p))]) post (p @ [(u, c + 1), (d, 0)])"
          using Some Unvisited at e by (simp add: dfs_loop.simps [of deps st post] path)
        moreover have "st ! v \<noteq> Unvisited \<longrightarrow> st[d := OnPath (Suc (length p))] ! v \<noteq> Unvisited" for v
          by (cases "d < length st"; cases "v = d") (simp_all add: list_update_beyond)
        ultimately show ?thesis
          using 1(2) [OF False refl refl _ refl refl, of e] 1(4) Some Unvisited at e
          by (auto simp: path split: sum.splits)
      next
        case (OnPath i)
        have "dfs_loop deps st post path =
            Inl \<lparr>ic_entry = d, ic_rest = map fst (drop 1 (drop i (p @ [(u, c + 1)]))), ic_closing = l\<rparr>"
          using Some OnPath at e
          by (simp add: dfs_loop.simps [of deps st post] path del: drop_append drop_drop)
        with dfs_inv_cycle [OF inv c OnPath] show ?thesis by simp
      next
        case Done
        have "dfs_inv deps st post (p @ [(u, c + 1)])"
          by (rule dfs_inv_advance [OF inv c(1)]) (simp add: c(2) Done)
        moreover have "dfs_loop deps st post path = dfs_loop deps st post (p @ [(u, c + 1)])"
          using Some Done at e by (subst dfs_loop.simps) (simp add: path)
        ultimately show ?thesis
          using 1(3) [OF False refl refl _ refl refl, of e] 1(4) Some Done at e
          by (auto simp: path split: sum.splits)
      qed
    qed
  qed
qed

lemma graph_deps_ok: "graph_ok g \<Longrightarrow> deps_ok (g_dependencies g)"
  using graph_okD(3,5,7) [of g] by (fastforce simp: deps_ok_def)

lemma dfs_root:
  assumes "dfs_inv deps st post []" "v < length deps" "st ! v = Unvisited"
  shows "dfs_inv deps (st[v := OnPath 0]) post [(v, 0)]"
  using assms by (auto simp: dfs_inv_def frame_ok_def nth_list_update)

lemma depth_first_sound:
  assumes "graph_ok g"
  shows "case depth_first g of
      Inl c \<Rightarrow> index_cycle_ok (g_dependencies g) c
    | Inr post \<Rightarrow> distinct post \<and> set post = {..<length (g_keys g)} \<and> topo_indices (g_dependencies g) post"
proof -
  let ?deps = "g_dependencies g" and ?n = "length (g_keys g)"
  let ?step = "\<lambda>(st, post) root. if st ! root \<noteq> Unvisited then Inr (st, post)
      else dfs_loop ?deps (st[root := OnPath 0]) post [(root, 0)]"
  have n: "length ?deps = ?n" using graph_okD(3) [OF assms] .
  have fold: "case try_fold ?step (st, post) roots of
      Inl c \<Rightarrow> index_cycle_ok ?deps c
    | Inr (st', post') \<Rightarrow> dfs_inv ?deps st' post' [] \<and>
        (\<forall>v. st ! v \<noteq> Unvisited \<longrightarrow> st' ! v \<noteq> Unvisited) \<and> (\<forall>v \<in> set roots. st' ! v \<noteq> Unvisited)"
    if "dfs_inv ?deps st post []" "set roots \<subseteq> {..<?n}" for st post roots
    using that
  proof (induction roots arbitrary: st post)
    case (Cons v roots)
    show ?case
    proof (cases "st ! v = Unvisited")
      case True
      have v: "v < length ?deps" using Cons.prems(2) n by simp
      note loop = dfs_loop_sound [OF graph_deps_ok [OF assms] dfs_root [OF Cons.prems(1) v True]]
      show ?thesis
      proof (cases "dfs_loop ?deps (st[v := OnPath 0]) post [(v, 0)]")
        case (Inl c)
        with loop True show ?thesis by simp
      next
        case (Inr r)
        obtain st1 post1 where r: "r = (st1, post1)" by force
        with loop Inr have st1: "dfs_inv ?deps st1 post1 []"
          "\<And>w. st[v := OnPath 0] ! w \<noteq> Unvisited \<Longrightarrow> st1 ! w \<noteq> Unvisited"
          by auto
        have "length st = length ?deps" using Cons.prems(1) by (simp add: dfs_inv_def)
        then have "st1 ! v \<noteq> Unvisited" using st1(2) [of v] v by simp
        moreover have "st1 ! w \<noteq> Unvisited" if "st ! w \<noteq> Unvisited" for w
          using st1(2) [of w] that True by (cases "w = v") auto
        ultimately show ?thesis
          using Cons.IH [OF st1(1)] Cons.prems(2) True Inr r by (auto split: sum.splits)
      qed
    next
      case False
      then show ?thesis using Cons.IH [OF Cons.prems(1)] Cons.prems(2) by (auto split: sum.splits)
    qed
  qed auto
  have "dfs_inv ?deps (replicate ?n Unvisited) [] []" "set [0..<?n] \<subseteq> {..<?n}"
    using n by (auto simp add: dfs_inv_def topo_indices_def)
  note all = fold [OF this]
  show ?thesis
  proof (cases "try_fold ?step (replicate ?n Unvisited, []) [0..<?n]")
    case (Inl c)
    with all show ?thesis by (simp add: depth_first_def)
  next
    case (Inr r)
    obtain st post where r: "r = (st, post)" by force
    with all Inr have inv: "dfs_inv ?deps st post []" "\<forall>v < ?n. st ! v \<noteq> Unvisited" by auto
    then have "st ! v = Done" if "v < ?n" for v
      using that n by (cases "st ! v") (auto simp: dfs_inv_def)
    with inv(1) n have "distinct post" "set post = {..<?n}" "topo_indices ?deps post"
      by (auto simp: dfs_inv_def)
    with Inr r show ?thesis by (simp add: depth_first_def)
  qed
qed

section \<open>Kahn's ranks are correct\<close>

text \<open>\<open>em\<close> lists the nodes emitted so far.\<close>

definition kahn_inv :: "('k, 'e) dep_graph \<Rightarrow> kahn_state \<Rightarrow> nat list \<Rightarrow> bool" where
  "kahn_inv g s em \<longleftrightarrow>
     (let n = length (g_keys g) in
      distinct (em @ k_ready s) \<and> set (em @ k_ready s) \<subseteq> {..<n} \<and>
      length (k_rank s) = n \<and> length (k_pending s) = n \<and> k_emitted s = length em \<and>
      (\<forall>i < length em. k_rank s ! (em ! i) = i) \<and>
      (\<forall>v < n. k_pending s ! v = card {w. (v, w) \<in> g_edges g \<and> w \<notin> set em}) \<and>
      (\<forall>v < n. k_pending s ! v = 0 \<longleftrightarrow> v \<in> set (em @ k_ready s)) \<and>
      topo_indices (g_dependencies g) em)"

lemma release_fold:
  assumes "distinct ds" "set ds \<subseteq> {..<length (k_pending s)}" "\<forall>v \<in> set ds. 0 < k_pending s ! v"
  shows "k_ready (foldl release s ds) = k_ready s @ filter (\<lambda>v. k_pending s ! v = 1) ds \<and>
    k_rank (foldl release s ds) = k_rank s \<and> k_emitted (foldl release s ds) = k_emitted s \<and>
    length (k_pending (foldl release s ds)) = length (k_pending s) \<and>
    (\<forall>v < length (k_pending s). k_pending (foldl release s ds) ! v =
       (if v \<in> set ds then k_pending s ! v - 1 else k_pending s ! v))"
  using assms
proof (induction ds arbitrary: s)
  case (Cons d ds)
  let ?s = "release s d"
  have d: "d \<notin> set ds" "d < length (k_pending s)" "0 < k_pending s ! d" using Cons.prems by auto
  have pend: "k_pending ?s = (k_pending s)[d := k_pending s ! d - 1]" "k_rank ?s = k_rank s" "k_emitted ?s = k_emitted s"
    and ready: "k_ready ?s = (if k_pending s ! d = 1 then k_ready s @ [d] else k_ready s)"
    using d by (auto simp: release_def Let_def)
  have same: "k_pending ?s ! v = k_pending s ! v" if "v \<in> set ds" for v
    using that d by (auto simp: pend nth_list_update)
  have filt: "filter (\<lambda>v. k_pending ?s ! v = 1) ds = filter (\<lambda>v. k_pending s ! v = 1) ds"
    using same by (intro filter_cong) auto
  have "distinct ds" "set ds \<subseteq> {..<length (k_pending ?s)}" "\<forall>v \<in> set ds. 0 < k_pending ?s ! v"
    using Cons.prems same by (auto simp: pend)
  note IH = Cons.IH [OF this, unfolded filt]
  show ?case
    using IH d by (simp add: ready pend nth_list_update)
qed simp

lemma graph_finite_deps:
  assumes "graph_ok g"
  shows "finite {w. (v, w) \<in> g_edges g \<and> P w}"
proof (rule finite_subset)
  show "{w. (v, w) \<in> g_edges g \<and> P w} \<subseteq> {..<length (g_keys g)}"
    using graph_okD(5) [OF assms] by auto
qed simp

lemma kahn_inv_init:
  assumes "graph_ok g"
  shows "kahn_inv g (kahn_init g) []"
proof -
  have "length (g_dependencies g ! v) = card {w. (v, w) \<in> g_edges g}" if "v < length (g_keys g)" for v
    using graph_okD(6,7) [OF assms that] by (metis dep_nodes_def distinct_card length_map list.set_map)
  then show ?thesis
    using graph_okD(3) [OF assms]
    by (auto simp: kahn_inv_def kahn_init_def Let_def topo_indices_def)
qed

lemma kahn_inv_emit:
  assumes g: "graph_ok g" and inv: "kahn_inv g s em" and ready: "k_ready s = node # rest"
  shows "kahn_inv g (emit (g_dependents g) s node rest) (em @ [node])"
proof -
  let ?n = "length (g_keys g)" and ?ds = "g_dependents g ! node"
  let ?start = "s\<lparr>k_ready := rest, k_rank := (k_rank s)[node := k_emitted s], k_emitted := k_emitted s + 1\<rparr>"
  let ?s = "foldl release ?start ?ds"
  let ?open = "\<lambda>em v. {w. (v, w) \<in> g_edges g \<and> w \<notin> set em}"
  have node: "node < ?n" "node \<notin> set em" "node \<notin> set rest"
    using inv ready by (auto simp: kahn_inv_def Let_def)
  have len: "length (k_pending s) = ?n" using inv by (simp add: kahn_inv_def Let_def)
  have ds: "distinct ?ds" "set ?ds = {v. (v, node) \<in> g_edges g}"
    using graph_okD(8,9) [OF g node(1)] by simp_all
  then have ds_n: "set ?ds \<subseteq> {..<?n}" using graph_okD(5) [OF g] by auto
  have pend: "k_pending s ! v = card (?open em v)" "k_pending s ! v = 0 \<longleftrightarrow> v \<in> set (em @ k_ready s)" if "v < ?n" for v
    using inv that unfolding kahn_inv_def Let_def by blast+
  have pos: "0 < k_pending s ! v" if "v \<in> set ?ds" for v
  proof -
    have "node \<in> ?open em v" using that ds node by simp
    then have "0 < card (?open em v)" using graph_finite_deps [OF g] by (metis card_gt_0_iff empty_iff)
    then show ?thesis using pend(1) [of v] that ds_n by auto
  qed
  have "\<forall>v \<in> set ?ds. 0 < k_pending ?start ! v" "set ?ds \<subseteq> {..<length (k_pending ?start)}"
    using pos ds_n len by simp_all
  note rel = release_fold [OF ds(1) this(2,1)]
  define t where "t = ?s"
  have emit: "emit (g_dependents g) s node rest = t" by (simp add: emit_def t_def)
  have ready': "k_ready t = rest @ filter (\<lambda>v. k_pending s ! v = 1) ?ds"
    and rank': "k_rank t = (k_rank s)[node := k_emitted s]" and em': "k_emitted t = Suc (k_emitted s)"
    and len': "length (k_pending t) = ?n"
    and pend': "\<And>v. v < ?n \<Longrightarrow> k_pending t ! v = (if v \<in> set ?ds then k_pending s ! v - 1 else k_pending s ! v)"
    using rel len by (simp_all add: t_def)
  have card: "card (?open (em @ [node]) v) = (if v \<in> set ?ds then card (?open em v) - 1 else card (?open em v))" for v
  proof (cases "v \<in> set ?ds")
    case True
    then have "?open (em @ [node]) v = ?open em v - {node}" "node \<in> ?open em v" using ds node by auto
    with True show ?thesis using graph_finite_deps [OF g] by (simp only: card_Diff_singleton) simp
  next
    case False
    then have "?open (em @ [node]) v = ?open em v" using ds by auto
    with False show ?thesis by simp
  qed
  have fresh: "v \<notin> set em" "v \<noteq> node" "v \<notin> set rest" if "v \<in> set ?ds" for v
    using pend(2) [of v] pos [OF that] ds_n that ready by auto
  have deps_node: "dep_nodes (g_dependencies g) node \<subseteq> set em"
  proof -
    have "card (?open em node) = 0" using pend [OF node(1)] ready by simp
    then have "?open em node = {}" using graph_finite_deps [OF g] by simp
    then show ?thesis using graph_okD(7) [OF g node(1)] by auto
  qed
  have "distinct ((em @ [node]) @ k_ready t)" "set ((em @ [node]) @ k_ready t) \<subseteq> {..<?n}"
  proof -
    have "distinct em" "node \<notin> set rest" "distinct rest" "set em \<inter> set rest = {}"
      "set em \<subseteq> {..<?n}" "set rest \<subseteq> {..<?n}"
      using inv ready by (auto simp: kahn_inv_def Let_def)
    then show "distinct ((em @ [node]) @ k_ready t)" "set ((em @ [node]) @ k_ready t) \<subseteq> {..<?n}"
      using fresh fresh(2) [of node] ds(1) ds_n node by (auto simp: ready')
  qed
  moreover have "\<forall>i < length (em @ [node]). k_rank t ! ((em @ [node]) ! i) = i"
  proof (intro allI impI)
    fix i assume i: "i < length (em @ [node])"
    show "k_rank t ! ((em @ [node]) ! i) = i"
    proof (cases "i < length em")
      case True
      then have "em ! i \<noteq> node" using node(2) by auto
      with True inv show ?thesis by (simp add: rank' nth_append kahn_inv_def Let_def)
    next
      case False
      then show ?thesis using i inv node(1) by (simp add: rank' nth_append kahn_inv_def Let_def less_Suc_eq)
    qed
  qed
  moreover have "k_pending t ! v = 0 \<longleftrightarrow> v \<in> set ((em @ [node]) @ k_ready t)" if v: "v < ?n" for v
  proof (cases "v \<in> set ?ds")
    case True
    then show ?thesis using fresh [OF True] pos [OF True] pend' [OF v] by (auto simp: ready')
  next
    case False
    then show ?thesis using pend(2) [OF v] pend' [OF v] ready by (auto simp: ready')
  qed
  ultimately show ?thesis
    unfolding emit using inv rank' em' len' pend' pend(1) card deps_node
    by (simp add: kahn_inv_def Let_def topo_indices_snoc)
qed

lemma kahn_loop_sound:
  assumes "graph_ok g" "kahn_inv g s em" "length (g_keys g) \<le> fuel + length em"
  shows "\<exists>em'. kahn_inv g (kahn_loop fuel (g_dependents g) s) em' \<and>
    k_ready (kahn_loop fuel (g_dependents g) s) = []"
  using assms(2,3)
proof (induction fuel arbitrary: s em)
  case 0
  have "distinct (em @ k_ready s)" "set (em @ k_ready s) \<subseteq> {..<length (g_keys g)}"
    using 0 by (simp_all add: kahn_inv_def Let_def)
  then have "length (em @ k_ready s) \<le> length (g_keys g)"
    by (metis card_lessThan card_mono distinct_card finite_lessThan)
  with 0(2) have "k_ready s = []" by (cases "k_ready s") auto
  with 0(1) show ?case by auto
next
  case (Suc fuel)
  show ?case
  proof (cases "k_ready s")
    case Nil
    then show ?thesis using Suc.prems(1) by auto
  next
    case (Cons node rest)
    from Suc.IH [OF kahn_inv_emit [OF assms(1) Suc.prems(1) Cons]] Suc.prems(2) show ?thesis
      by (simp add: Cons)
  qed
qed

text \<open>On an acyclic graph, evidenced by any topological order, every node is emitted.\<close>

lemma kahn_all_emitted:
  assumes "graph_ok g" "kahn_inv g s em" "k_ready s = []"
    and "topo_indices (g_dependencies g) post" "set post = {..<length (g_keys g)}"
  shows "set em = {..<length (g_keys g)}"
proof -
  have "post ! i \<in> set em" if "i < length post" for i
    using that
  proof (induction i rule: less_induct)
    case (less i)
    let ?v = "post ! i"
    have v: "?v < length (g_keys g)" using less.prems assms(5) nth_mem by blast
    have "w \<in> set em" if "(?v, w) \<in> g_edges g" for w
    proof -
      have "w \<in> dep_nodes (g_dependencies g) ?v" using that graph_okD(7) [OF assms(1) v] by simp
      then have "w \<in> set (take i post)" using assms(4) less.prems by (auto simp: topo_indices_def)
      then show ?thesis using less by (auto simp: in_set_conv_nth)
    qed
    then have "{w. (?v, w) \<in> g_edges g \<and> w \<notin> set em} = {}" by blast
    moreover have "k_pending s ! ?v = card {w. (?v, w) \<in> g_edges g \<and> w \<notin> set em}"
      "k_pending s ! ?v = 0 \<longleftrightarrow> ?v \<in> set (em @ k_ready s)"
      using assms(2) v unfolding kahn_inv_def Let_def by blast+
    ultimately have "?v \<in> set (em @ k_ready s)" by (simp only: card.empty)
    then show ?case by (simp add: assms(3))
  qed
  then have "set post \<subseteq> set em" by (auto simp: in_set_conv_nth)
  moreover have "set em \<subseteq> {..<length (g_keys g)}" using assms(2) by (simp add: kahn_inv_def Let_def)
  ultimately show ?thesis using assms(5) by blast
qed

lemma kahn_ranks_complete:
  assumes "graph_ok g" "depth_first g = Inr post"
  shows "\<exists>em. distinct em \<and> set em = {..<length (g_keys g)} \<and> topo_indices (g_dependencies g) em \<and>
    length (kahn_ranks g) = length (g_keys g) \<and> (\<forall>i < length em. kahn_ranks g ! (em ! i) = i)"
proof -
  have post: "topo_indices (g_dependencies g) post" "set post = {..<length (g_keys g)}"
    using depth_first_sound [OF assms(1)] assms(2) by simp_all
  let ?s = "kahn_loop (length (g_keys g)) (g_dependents g) (kahn_init g)"
  obtain em where em: "kahn_inv g ?s em" "k_ready ?s = []"
    using kahn_loop_sound [OF assms(1) kahn_inv_init [OF assms(1)]] by auto
  then show ?thesis
    using kahn_all_emitted [OF assms(1) em post] by (auto simp: kahn_inv_def Let_def kahn_ranks_def)
qed

lemma into_topo_order_eq:
  assumes "graph_ok g" "depth_first g = Inr post"
  shows "\<exists>em. distinct em \<and> set em = {..<length (g_keys g)} \<and> topo_indices (g_dependencies g) em \<and>
    into_topo_order g = Inr (map (\<lambda>v. g_keys g ! v) em)"
proof -
  let ?n = "length (g_keys g)" and ?r = "kahn_ranks g"
  obtain em where em: "distinct em" "set em = {..<?n}" "topo_indices (g_dependencies g) em"
    and r: "length ?r = ?n" "\<forall>i < length em. ?r ! (em ! i) = i"
    using kahn_ranks_complete [OF assms] by blast
  have len: "length em = ?n" using em by (metis card_lessThan distinct_card)
  have zip: "zip ?r (g_keys g) = map (\<lambda>v. (?r ! v, g_keys g ! v)) [0..<?n]"
    by (rule nth_equalityI) (simp_all add: r(1))
  have "mset [0..<?n] = mset em"
    by (rule set_eq_iff_mset_eq_distinct [THEN iffD1, OF distinct_upt em(1)])
      (simp add: em(2) atLeast0LessThan)
  then have "mset (zip ?r (g_keys g)) = mset (map (\<lambda>v. (?r ! v, g_keys g ! v)) em)"
    by (simp only: zip mset_map)
  moreover have "inj_on fst (set (zip ?r (g_keys g)))"
  proof -
    have "inj_on (\<lambda>v. ?r ! v) {..<?n}"
      using em(2) r(2) by (auto simp: inj_on_def in_set_conv_nth simp flip: em(2))
    then show ?thesis by (auto simp: zip intro!: inj_onI dest: inj_onD)
  qed
  moreover have "map fst (map (\<lambda>v. (?r ! v, g_keys g ! v)) em) = [0..<length em]"
    by (rule nth_equalityI) (simp_all add: r(2))
  then have "sorted (map fst (map (\<lambda>v. (?r ! v, g_keys g ! v)) em))" by (simp only: sorted_upt)
  ultimately have "sort_key fst (zip ?r (g_keys g)) = map (\<lambda>v. (?r ! v, g_keys g ! v)) em"
    by (rule sort_key_inj_key_eq)
  then show ?thesis using em assms(2) by (auto simp: into_topo_order_def comp_def)
qed

section \<open>Orders and cycles on keys\<close>

definition topo_ordered :: "('k \<Rightarrow> 'k \<Rightarrow> bool) \<Rightarrow> 'k set \<Rightarrow> 'k list \<Rightarrow> bool" where
  "topo_ordered dep nodes xs \<longleftrightarrow>
     distinct xs \<and> set xs = nodes \<and> (\<forall>i < length xs. \<forall>b. dep (xs ! i) b \<longrightarrow> b \<in> set (take i xs))"

definition dependency_cycle :: "('k \<Rightarrow> 'k \<Rightarrow> bool) \<Rightarrow> 'k list \<Rightarrow> bool" where
  "dependency_cycle dep p \<longleftrightarrow>
     p \<noteq> [] \<and> distinct p \<and> (\<forall>i. Suc i < length p \<longrightarrow> dep (p ! i) (p ! Suc i)) \<and> dep (last p) (hd p)"

lemma topo_ordered_Nil_iff: "topo_ordered dep {} xs \<longleftrightarrow> xs = []"
  by (auto simp: topo_ordered_def)

lemma dependency_cycle_trancl:
  assumes "dependency_cycle dep p"
  shows "dep\<^sup>+\<^sup>+ (hd p) (hd p)"
proof -
  have p: "p \<noteq> []" "\<And>i. Suc i < length p \<Longrightarrow> dep (p ! i) (p ! Suc i)" "dep (last p) (hd p)"
    using assms by (auto simp: dependency_cycle_def)
  have "dep\<^sup>*\<^sup>* (hd p) (p ! i)" if "i < length p" for i
    using that
  proof (induction i)
    case 0
    then show ?case using p(1) by (simp add: hd_conv_nth)
  next
    case (Suc i)
    with p(2) [of i] show ?case by (meson Suc_lessD rtranclp.rtrancl_into_rtrancl)
  qed
  then have "dep\<^sup>*\<^sup>* (hd p) (last p)" using p(1) by (simp add: last_conv_nth)
  from this p(3) show ?thesis by (rule rtranclp_into_tranclp1)
qed

lemma topo_ordered_acyclic:
  assumes "topo_ordered dep nodes xs" "\<And>a b. dep a b \<Longrightarrow> a \<in> nodes"
  shows "\<not> dep\<^sup>+\<^sup>+ a a"
proof -
  have earlier: "\<exists>i j. i < j \<and> j < length xs \<and> xs ! i = b \<and> xs ! j = a" if ab: "dep a b" for a b
  proof -
    obtain j where j: "j < length xs" "xs ! j = a"
      using assms(1) assms(2) [OF ab] by (auto simp: topo_ordered_def in_set_conv_nth)
    with ab assms(1) have "b \<in> set (take j xs)" by (auto simp: topo_ordered_def)
    then obtain i where "i < j" "xs ! i = b" using j(1) by (auto simp: in_set_conv_nth)
    with j show ?thesis by blast
  qed
  have inj: "i = j" if "i < length xs" "j < length xs" "xs ! i = xs ! j" for i j
    using that assms(1) by (simp add: topo_ordered_def nth_eq_iff_index_eq)
  have "\<exists>i j. i < j \<and> j < length xs \<and> xs ! i = b \<and> xs ! j = a" if "dep\<^sup>+\<^sup>+ a b" for a b
    using that
  proof (induction rule: tranclp_induct)
    case (step y z)
    then obtain i j k l where "i < j" "j < length xs" "xs ! i = y" "xs ! j = a"
      "k < l" "l < length xs" "xs ! k = z" "xs ! l = y"
      using earlier [OF step(2)] by blast
    then show ?case using inj [of i l] by (metis less_trans)
  qed (rule earlier)
  then show ?thesis using inj by (metis less_irrefl less_trans)
qed

text \<open>
  Evaluating in a topological order solves the recursion: each node's value is computed
  once, from a complete environment for its dependencies.
\<close>

definition eval_in_order :: "('k \<Rightarrow> ('k \<Rightarrow> 'v option) \<Rightarrow> 'v) \<Rightarrow> 'k list \<Rightarrow> ('k \<Rightarrow> 'v option)" where
  "eval_in_order f xs = foldl (\<lambda>env k. env(k \<mapsto> f k env)) Map.empty xs"

lemma eval_in_order_snoc:
  "eval_in_order f (xs @ [x]) = (eval_in_order f xs)(x \<mapsto> f x (eval_in_order f xs))"
  by (simp add: eval_in_order_def)

lemma eval_in_order_dom: "dom (eval_in_order f xs) = set xs"
proof (induction xs rule: rev_induct)
  case (snoc x xs)
  then show ?case by (simp only: eval_in_order_snoc dom_fun_upd) simp
qed (simp add: eval_in_order_def)

lemma eval_in_order_solves:
  assumes "distinct xs" "\<forall>i < length xs. \<forall>b. dep (xs ! i) b \<longrightarrow> b \<in> set (take i xs)"
    and "\<And>k env env'. (\<And>b. dep k b \<Longrightarrow> env b = env' b) \<Longrightarrow> f k env = f k env'"
  shows "\<forall>k \<in> set xs. eval_in_order f xs k = Some (f k (eval_in_order f xs))"
  using assms(1,2)
proof (induction xs rule: rev_induct)
  case (snoc x xs)
  let ?env = "eval_in_order f xs" and ?env' = "eval_in_order f (xs @ [x])"
  note env' = eval_in_order_snoc [of f xs x]
  have before: "dep (xs ! i) b \<Longrightarrow> b \<in> set (take i xs)" if "i < length xs" for i b
    using snoc.prems(2) that by (auto simp: nth_append dest!: spec [of _ i])
  then have IH: "\<forall>k \<in> set xs. ?env k = Some (f k ?env)" using snoc by simp
  have last: "dep x b \<Longrightarrow> b \<in> set xs" for b
    using snoc.prems(2) by (auto dest!: spec [of _ "length xs"])
  have deps: "dep k b \<Longrightarrow> b \<in> set xs" if k: "k \<in> set (xs @ [x])" for k b
  proof (cases "k = x")
    case False
    then obtain i where "i < length xs" "xs ! i = k" using k by (auto simp: in_set_conv_nth)
    then show "dep k b \<Longrightarrow> b \<in> set xs" using before [of i b] by (auto dest: in_set_takeD)
  qed (use last in simp)
  have eq: "f k ?env' = f k ?env" if "k \<in> set (xs @ [x])" for k
  proof (rule assms(3))
    fix b assume "dep k b"
    with deps [OF that] have "b \<in> set xs" by blast
    then show "?env' b = ?env b" using snoc.prems(1) by (auto simp: env')
  qed
  show ?case
  proof
    fix k assume k: "k \<in> set (xs @ [x])"
    then show "?env' k = Some (f k ?env')"
      unfolding eq [OF k] using IH by (cases "k = x") (simp_all add: env')
  qed
qed simp

section \<open>What a client relies on\<close>

locale order_provider =
  fixes order :: "'g \<Rightarrow> ('k list, 'c) result"
    and ok :: "'g \<Rightarrow> bool"
    and nodes :: "'g \<Rightarrow> 'k set"
    and dep :: "'g \<Rightarrow> 'k \<Rightarrow> 'k \<Rightarrow> bool"
    and path :: "'c \<Rightarrow> 'k list"
  assumes dep_nodes: "ok g \<Longrightarrow> dep g a b \<Longrightarrow> a \<in> nodes g \<and> b \<in> nodes g"
    and order_sound: "ok g \<Longrightarrow> order g = Inr xs \<Longrightarrow> topo_ordered (dep g) (nodes g) xs"
    and cycle_sound: "ok g \<Longrightarrow> order g = Inl c \<Longrightarrow> dependency_cycle (dep g) (path c)"
begin

lemma order_iff_acyclic:
  assumes "ok g"
  shows "is_ok (order g) \<longleftrightarrow> (\<forall>a. \<not> (dep g)\<^sup>+\<^sup>+ a a)"
proof (cases "order g")
  case (Inl c)
  with dependency_cycle_trancl [OF cycle_sound [OF assms Inl]] show ?thesis by auto
next
  case (Inr xs)
  then show ?thesis
    using topo_ordered_acyclic [OF order_sound [OF assms Inr]] dep_nodes [OF assms] by auto
qed

lemma order_permutation:
  "ok g \<Longrightarrow> order g = Inr xs \<Longrightarrow> distinct xs \<and> set xs = nodes g"
  using order_sound by (auto simp: topo_ordered_def)

lemma order_evaluates:
  assumes "ok g" "order g = Inr xs"
    and "\<And>k env env'. (\<And>b. dep g k b \<Longrightarrow> env b = env' b) \<Longrightarrow> f k env = f k env'"
  shows "\<forall>k \<in> nodes g. eval_in_order f xs k = Some (f k (eval_in_order f xs))"
  using order_sound [OF assms(1,2)] eval_in_order_solves [of xs "dep g" f, OF _ _ assms(3)]
  by (auto simp: topo_ordered_def)

end

lemma depends_index:
  assumes "graph_ok g" "i < length (g_keys g)" "j < length (g_keys g)"
  shows "depends g (g_keys g ! i) (g_keys g ! j) \<longleftrightarrow> (i, j) \<in> g_edges g"
proof
  assume "depends g (g_keys g ! i) (g_keys g ! j)"
  then obtain e where e: "e \<in> g_edges g" "g_keys g ! fst e = g_keys g ! i" "g_keys g ! snd e = g_keys g ! j"
    by (auto simp: depends_def)
  then have "fst e < length (g_keys g)" "snd e < length (g_keys g)"
    using graph_okD(5) [OF assms(1)] by auto
  with e have "fst e = i" "snd e = j"
    using assms graph_okD(1) [OF assms(1)] by (simp_all add: nth_eq_iff_index_eq)
  with e(1) show "(i, j) \<in> g_edges g" by force
qed (force simp: depends_def)

lemma depends_nodes: "graph_ok g \<Longrightarrow> depends g a b \<Longrightarrow> a \<in> set (g_keys g) \<and> b \<in> set (g_keys g)"
  using graph_okD(5) [of g] by (fastforce simp: depends_def)

lemma topo_indices_keys:
  assumes "graph_ok g" "distinct em" "set em = {..<length (g_keys g)}" "topo_indices (g_dependencies g) em"
  shows "topo_ordered (depends g) (set (g_keys g)) (map (\<lambda>v. g_keys g ! v) em)"
proof -
  have "inj_on (\<lambda>v. g_keys g ! v) {..<length (g_keys g)}"
    using graph_okD(1) [OF assms(1)] by (simp add: inj_on_def nth_eq_iff_index_eq)
  then have "distinct (map (\<lambda>v. g_keys g ! v) em)"
    by (simp add: distinct_map assms(2,3))
  moreover have "set (map (\<lambda>v. g_keys g ! v) em) = set (g_keys g)"
    unfolding set_map assms(3) by (force simp: in_set_conv_nth)
  moreover have "b \<in> set (take i (map (\<lambda>v. g_keys g ! v) em))"
    if i: "i < length em" and dep: "depends g (g_keys g ! (em ! i)) b" for i b
  proof -
    have v: "em ! i < length (g_keys g)" using i assms(3) nth_mem by blast
    obtain j where j: "j < length (g_keys g)" "g_keys g ! j = b"
      using depends_nodes [OF assms(1) dep] by (auto simp: in_set_conv_nth)
    then have "j \<in> dep_nodes (g_dependencies g) (em ! i)"
      using depends_index [OF assms(1) v j(1)] dep graph_okD(7) [OF assms(1) v] by simp
    then have "j \<in> set (take i em)" using assms(4) i by (auto simp: topo_indices_def)
    with j show ?thesis by (auto simp: take_map)
  qed
  ultimately show ?thesis by (auto simp: topo_ordered_def)
qed

lemma index_cycle_keys:
  assumes "graph_ok g" "index_cycle_ok (g_dependencies g) c"
  shows "dependency_cycle (depends g) (cycle_path (cycle_from_indices g c))"
    and "edge_label g (last (cycle_path (cycle_from_indices g c))) (c_entry (cycle_from_indices g c))
      (c_closing (cycle_from_indices g c))"
proof -
  define p where "p = ic_entry c # ic_rest c"
  have path: "cycle_path (cycle_from_indices g c) = map (\<lambda>v. g_keys g ! v) p"
    by (simp add: cycle_path_def cycle_from_indices_def p_def)
  have p: "distinct p" "\<And>i. i < length p \<Longrightarrow> p ! i < length (g_keys g)" "p \<noteq> []"
    "\<And>i. Suc i < length p \<Longrightarrow> p ! Suc i \<in> dep_nodes (g_dependencies g) (p ! i)"
    "(ic_entry c, ic_closing c) \<in> set (g_dependencies g ! last p)"
    using assms(2) graph_okD(3) [OF assms(1)]
    by (auto simp: index_cycle_ok_def p_def [symmetric] Let_def subset_iff) (simp_all add: p_def)
  have last: "last p < length (g_keys g)" using p(2) [of "length p - 1"] p(3) by (simp add: last_conv_nth)
  have entry: "ic_entry c = hd p" "hd p < length (g_keys g)" using p(2) [of 0] by (simp_all add: p_def)
  have edge: "depends g (g_keys g ! u) (g_keys g ! v)"
    if "v \<in> dep_nodes (g_dependencies g) u" "u < length (g_keys g)" "v < length (g_keys g)" for u v
    using that depends_index [OF assms(1)] graph_okD(7) [OF assms(1)] by simp
  have "hd p \<in> dep_nodes (g_dependencies g) (last p)"
    using p(5) entry(1) by (force simp: dep_nodes_def)
  then have "depends g (g_keys g ! last p) (g_keys g ! hd p)" by (rule edge [OF _ last entry(2)])
  moreover have "distinct (map (\<lambda>v. g_keys g ! v) p)"
    using p(1,2) graph_okD(1) [OF assms(1)]
    by (auto simp: distinct_map inj_on_def nth_eq_iff_index_eq in_set_conv_nth)
  ultimately show "dependency_cycle (depends g) (cycle_path (cycle_from_indices g c))"
    unfolding path dependency_cycle_def using p edge by (simp add: last_map hd_map)
  show "edge_label g (last (cycle_path (cycle_from_indices g c))) (c_entry (cycle_from_indices g c))
      (c_closing (cycle_from_indices g c))"
    unfolding path edge_label_def using p(3,5) last entry
    by (auto simp: last_map cycle_from_indices_def)
qed

interpretation dfs: order_provider into_depth_first_order graph_ok "\<lambda>g. set (g_keys g)" depends cycle_path
proof
  fix g :: "('a, 'b) dep_graph"
  assume g: "graph_ok g"
  note sound = depth_first_sound [OF g]
  show "topo_ordered (depends g) (set (g_keys g)) xs" if "into_depth_first_order g = Inr xs" for xs
    using that sound topo_indices_keys [OF g] by (auto simp: into_depth_first_order_def split: sum.splits)
  show "dependency_cycle (depends g) (cycle_path c)" if "into_depth_first_order g = Inl c" for c
    using that sound index_cycle_keys(1) [OF g] by (auto simp: into_depth_first_order_def split: sum.splits)
qed (rule depends_nodes)

interpretation kahn: order_provider into_topo_order graph_ok "\<lambda>g. set (g_keys g)" depends cycle_path
proof
  fix g :: "('a, 'b) dep_graph"
  assume g: "graph_ok g"
  note sound = depth_first_sound [OF g]
  show "topo_ordered (depends g) (set (g_keys g)) xs" if xs: "into_topo_order g = Inr xs" for xs
  proof -
    obtain post where "depth_first g = Inr post"
      using xs by (auto simp: into_topo_order_def split: sum.splits)
    from into_topo_order_eq [OF g this] xs topo_indices_keys [OF g] show ?thesis by auto
  qed
  show "dependency_cycle (depends g) (cycle_path c)" if "into_topo_order g = Inl c" for c
    using that sound index_cycle_keys(1) [OF g] by (auto simp: into_topo_order_def split: sum.splits)
qed (rule depends_nodes)

lemma same_cycle: "into_topo_order g = Inl c \<longleftrightarrow> into_depth_first_order g = Inl c"
  by (simp add: into_topo_order_def into_depth_first_order_def split: sum.split)

section \<open>Properties\<close>



text \<open>C16: both orderings succeed exactly on acyclic graphs, and then list every node once, after
  everything it depends on; otherwise they report the same cycle.\<close>

theorem graph_orders:
  assumes "graph_ok g"
  shows "(is_ok (into_topo_order g) \<longleftrightarrow> (\<forall>k. \<not> (depends g)\<^sup>+\<^sup>+ k k)) \<and>
    (is_ok (into_depth_first_order g) \<longleftrightarrow> (\<forall>k. \<not> (depends g)\<^sup>+\<^sup>+ k k)) \<and>
    (into_topo_order g = Inr xs \<or> into_depth_first_order g = Inr xs \<longrightarrow>
       topo_ordered (depends g) (set (g_keys g)) xs) \<and>
    (into_topo_order g = Inl c \<longleftrightarrow> into_depth_first_order g = Inl c)"
  using dfs.order_iff_acyclic [OF assms] kahn.order_iff_acyclic [OF assms]
    dfs.order_sound [OF assms] kahn.order_sound [OF assms] same_cycle by blast

theorem graph_orders_witness:
  "is_ok (into_topo_order (add_dependency graph_new (1::nat) 0)) \<longleftrightarrow>
     (\<forall>k. \<not> (depends (add_dependency graph_new (1::nat) 0))\<^sup>+\<^sup>+ k k)"
proof -
  have "graph_ok (add_dependency graph_new (1::nat) 0)"
    by (simp add: add_dependency_def add_labelled_dependency_ok)
  from graph_orders [OF this] show ?thesis by blast
qed

text \<open>C17: a reported cycle is one: its path is a closed chain of distinct nodes along recorded
  dependencies, and its closing label is the label recorded for the edge back to its entry.\<close>

theorem graph_cycles:
  assumes "graph_ok g" "into_depth_first_order g = Inl c \<or> into_topo_order g = Inl c"
  shows "dependency_cycle (depends g) (cycle_path c) \<and>
    edge_label g (last (cycle_path c)) (c_entry c) (c_closing c) \<and>
    cycle_path (cycle_map f c) = map f (cycle_path c) \<and> cycle_len c = length (cycle_path c)"
proof (intro conjI)
  obtain ic where ic: "depth_first g = Inl ic" "c = cycle_from_indices g ic"
    using assms(2) by (auto simp: into_depth_first_order_def into_topo_order_def split: sum.splits)
  have "index_cycle_ok (g_dependencies g) ic" using depth_first_sound [OF assms(1)] ic(1) by simp
  then show "dependency_cycle (depends g) (cycle_path c)"
      "edge_label g (last (cycle_path c)) (c_entry c) (c_closing c)"
    unfolding ic(2) by (rule index_cycle_keys [OF assms(1)])+
qed (simp_all add: cycle_path_def cycle_map_def cycle_len_def)

theorem graph_cycles_witness:
  "\<exists>c. into_depth_first_order (add_dependency (add_dependency graph_new (0::nat) 1) 1 0) = Inl c \<and>
    cycle_path c = [0, 1] \<and> dependency_cycle (depends (add_dependency (add_dependency graph_new 0 1) 1 0)) (cycle_path c)"
proof -
  let ?g = "add_dependency (add_dependency graph_new (0::nat) 1) 1 0"
  have "graph_ok ?g" by (simp add: add_dependency_def add_labelled_dependency_ok)
  moreover have "into_depth_first_order ?g = Inl \<lparr>c_entry = 0, c_rest = [1], c_closing = ()\<rparr>"
    by code_simp
  ultimately show ?thesis
    using graph_cycles [of ?g "\<lparr>c_entry = 0, c_rest = [1], c_closing = ()\<rparr>" id] by (auto simp: cycle_path_def)
qed



end
