(* ===== verification/Recurrence_Group.thy ===== *)
theory Recurrence_Group
  imports Dag_Id Nat_Poly Dep_Graph
begin

text \<open>
  The checker of recurrence groups (\<open>tir/recurrence_group.rs\<close>, from the facts of a group
  to its plan) and the plan (\<open>tir/recurrence_plan.rs\<close>). The lemmas show that an accepted
  group satisfies the rules, that its plan lists every member once and after the members
  it reads at the same step, that R7 rejects exactly the groups with a same-step cycle,
  and that a reported same-step cycle is one.
\<close>

section \<open>Plans\<close>

datatype recurrence_shape = ForShape | UnfoldShape

fun runs_body_at :: "recurrence_shape \<Rightarrow> nat \<Rightarrow> bool" where
  "runs_body_at ForShape step = True"
| "runs_body_at UnfoldShape step = (step \<noteq> 0)"

datatype step_access = SameStep | PreviousStep

record group_read =
  gr_target :: nat
  gr_access :: step_access

record recurrence_member =
  rm_declaration :: resolved_name
  rm_shape :: recurrence_shape
  rm_reads :: "group_read list"

type_synonym recurrence_plan = "recurrence_member list"

definition checked_pred :: "nat \<Rightarrow> nat option" where
  "checked_pred n = (if n = 0 then None else Some (n - 1))"

definition push_new :: "'a list \<Rightarrow> 'a \<Rightarrow> 'a list" where
  "push_new xs x = (if x \<in> set xs then xs else xs @ [x])"

definition read_element :: "recurrence_shape \<Rightarrow> nat \<Rightarrow> group_read \<Rightarrow> (nat \<times> nat) option" where
  "read_element shape step read =
     (case gr_access read of
        SameStep \<Rightarrow> if runs_body_at shape step then Some (gr_target read, step) else None
      | PreviousStep \<Rightarrow> map_option (Pair (gr_target read)) (checked_pred step))"

definition element_dependencies :: "recurrence_plan \<Rightarrow> nat \<Rightarrow> nat \<Rightarrow> (nat \<times> nat) list" where
  "element_dependencies plan member step =
     (if length plan \<le> member then []
      else let reader = plan ! member;
               dependencies = foldl (\<lambda>ds read. case read_element (rm_shape reader) step read of
                   Some e \<Rightarrow> push_new ds e | None \<Rightarrow> ds) [] (rm_reads reader)
        in if rm_shape reader = UnfoldShape
           then (case checked_pred step of
                   Some previous \<Rightarrow> push_new dependencies (member, previous)
                 | None \<Rightarrow> dependencies)
           else dependencies)"

section \<open>Facts\<close>

datatype 'v group_axis = NamedAxis resolved_name | FiniteAxis "'v nat_poly"

datatype 'v member_definition = ForOver "'v group_axis" | UnfoldOver "'v group_axis" | OtherFormula

fun def_shape :: "'v member_definition \<Rightarrow> recurrence_shape option" where
  "def_shape (ForOver _) = Some ForShape"
| "def_shape (UnfoldOver _) = Some UnfoldShape"
| "def_shape OtherFormula = None"

fun def_axis :: "'v member_definition \<Rightarrow> 'v group_axis option" where
  "def_axis (ForOver axis) = Some axis"
| "def_axis (UnfoldOver axis) = Some axis"
| "def_axis OtherFormula = None"

datatype leading_key = StepBinder | PreviousBinder | OtherLocal | ComputedKey

datatype read_form = ElementRead leading_key | WholeRead | ImplicitRead

record 's read_fact =
  rd_source :: nat
  rd_target :: nat
  rd_form :: read_form
  rd_span :: 's

record ('v, 's) member_fact =
  mf_identity :: resolved_name
  mf_name :: string
  mf_span :: 's
  mf_definition :: "'v member_definition"

record ('v, 's) group_facts =
  gf_members :: "('v, 's) member_fact list"
  gf_reads :: "'s read_fact list"

definition mf_owner :: "('v, 's) member_fact \<Rightarrow> dag_id" where
  "mf_owner m = rn_owner (mf_identity m)"

datatype recurrence_rejection =
    MixedOwners string
  | NotRecurrenceShape
  | AxisMismatch string
  | SelfRead
  | WholeValueRead string
  | ImplicitValueRead string
  | NotStepKeyed string
  | SameStepCycle "string list"

datatype 's component_rejection =
    PlainCycle
  | RecurrenceRejected string 's recurrence_rejection

record 's violation =
  vi_member :: nat
  vi_span :: 's
  vi_reason :: recurrence_rejection

section \<open>The rules\<close>

fun access :: "recurrence_shape \<Rightarrow> read_form \<Rightarrow> step_access option" where
  "access _ (ElementRead StepBinder) = Some SameStep"
| "access UnfoldShape (ElementRead PreviousBinder) = Some PreviousStep"
| "access _ _ = None"

definition position :: "('a \<Rightarrow> bool) \<Rightarrow> 'a list \<Rightarrow> nat option" where
  "position P xs = find (\<lambda>i. P (xs ! i)) [0..<length xs]"

definition check_members :: "('v, 's) group_facts \<Rightarrow> dag_id \<Rightarrow> (unit, 's violation) result" where
  "check_members facts callable =
     (let members = gf_members facts in
      case members of
        [] \<Rightarrow> Inr ()
      | first # _ \<Rightarrow>
          if \<exists>m \<in> set members. mf_owner m \<noteq> mf_owner first then
            (case find (\<lambda>r. mf_owner (members ! rd_source r) = callable \<and>
                           mf_owner (members ! rd_target r) \<noteq> callable) (gf_reads facts) of
               None \<Rightarrow> Inl \<lparr>vi_member = 0, vi_span = mf_span first, vi_reason = MixedOwners (mf_name first)\<rparr>
             | Some r \<Rightarrow> Inl \<lparr>vi_member = rd_source r, vi_span = mf_span (members ! rd_source r),
                           vi_reason = MixedOwners (mf_name (members ! rd_target r))\<rparr>)
          else (case position (\<lambda>m. def_shape (mf_definition m) = None) members of
            Some i \<Rightarrow> Inl \<lparr>vi_member = i, vi_span = mf_span (members ! i), vi_reason = NotRecurrenceShape\<rparr>
          | None \<Rightarrow> (case position (\<lambda>m. def_axis (mf_definition m) \<noteq> def_axis (mf_definition first)) members of
              Some i \<Rightarrow> Inl \<lparr>vi_member = i, vi_span = mf_span (members ! i), vi_reason = AxisMismatch (mf_name first)\<rparr>
            | None \<Rightarrow> Inr ())))"

definition read_access :: "('v, 's) group_facts \<Rightarrow> 's read_fact \<Rightarrow> step_access option" where
  "read_access facts r =
     Option.bind (def_shape (mf_definition (gf_members facts ! rd_source r))) (\<lambda>shape. access shape (rd_form r))"

definition classify_reads :: "('v, 's) group_facts \<Rightarrow> (step_access list, 's violation) result" where
  "classify_reads facts =
     (case find (\<lambda>r. rd_source r = rd_target r) (gf_reads facts) of
        Some r \<Rightarrow> Inl \<lparr>vi_member = rd_source r, vi_span = rd_span r, vi_reason = SelfRead\<rparr>
      | None \<Rightarrow>
          try_map (\<lambda>r. ok_or
              (let target = mf_name (gf_members facts ! rd_target r) in
               \<lparr>vi_member = rd_source r, vi_span = rd_span r,
                vi_reason = (case rd_form r of
                    WholeRead \<Rightarrow> WholeValueRead target
                  | ImplicitRead \<Rightarrow> ImplicitValueRead target
                  | ElementRead _ \<Rightarrow> NotStepKeyed target)\<rparr>)
              (read_access facts r)) (gf_reads facts))"

definition same_targets :: "'s read_fact list \<Rightarrow> step_access list \<Rightarrow> nat \<Rightarrow> nat list" where
  "same_targets reads accesses member =
     map (\<lambda>(r, _). rd_target r)
       (filter (\<lambda>(r, a). rd_source r = member \<and> a = SameStep) (zip reads accesses))"

function greedy_loop :: "nat \<Rightarrow> (nat \<Rightarrow> nat list) \<Rightarrow> bool list \<Rightarrow> nat list \<Rightarrow> (nat list, nat list) result" where
  "greedy_loop n targets placed order =
     (if length order < n then
        (case find (\<lambda>member. \<not> placed ! member \<and> (\<forall>t \<in> set (targets member). placed ! t)) [0..<n] of
           None \<Rightarrow> Inl (filter (\<lambda>member. \<not> placed ! member) [0..<n])
         | Some member \<Rightarrow> greedy_loop n targets (placed[member := True]) (order @ [member]))
      else Inr order)"
  by auto

termination greedy_loop
  by (relation "measure (\<lambda>(n, _, _, order). n - length order)") auto

declare greedy_loop.simps [simp del]

definition greedy_order :: "nat \<Rightarrow> (nat \<Rightarrow> nat list) \<Rightarrow> (nat list, nat list) result" where
  "greedy_order n targets = greedy_loop n targets (replicate n False) []"

function walk_loop :: "nat list \<Rightarrow> (nat \<Rightarrow> nat list) \<Rightarrow> nat list \<Rightarrow> nat \<Rightarrow> nat list" where
  "walk_loop stuck targets visited current =
     (if current \<in> set visited
      then drop (case position (\<lambda>m. m = current) visited of Some i \<Rightarrow> i | None \<Rightarrow> 0) visited
      else let visited = visited @ [current] in
        case find (\<lambda>t. t \<in> set stuck) (targets current) of
          None \<Rightarrow> visited
        | Some nxt \<Rightarrow> walk_loop stuck targets visited nxt)"
  by auto

termination walk_loop
proof (relation "measure (\<lambda>(stuck, _, visited, current). card (insert current (set stuck) - set visited))")
  fix stuck visited :: "nat list" and targets :: "nat \<Rightarrow> nat list" and current nxt :: nat and visited'
  assume new: "current \<notin> set visited" and visited': "visited' = visited @ [current]"
    and "find (\<lambda>t. t \<in> set stuck) (targets current) = Some nxt"
  then have "nxt \<in> set stuck" by (auto simp: find_Some_iff)
  then have "insert nxt (set stuck) - set visited' = (insert current (set stuck) - set visited) - {current}"
    by (auto simp: visited')
  moreover have "card ((insert current (set stuck) - set visited) - {current}) < card (insert current (set stuck) - set visited)"
    using new by (intro card_Diff1_less) auto
  ultimately show "((stuck, targets, visited', nxt), stuck, targets, visited, current)
      \<in> measure (\<lambda>(stuck, _, visited, current). card (insert current (set stuck) - set visited))"
    by simp
qed simp

declare walk_loop.simps [simp del]

definition extract_cycle :: "nat \<Rightarrow> nat list \<Rightarrow> (nat \<Rightarrow> nat list) \<Rightarrow> nat list" where
  "extract_cycle start stuck targets = walk_loop stuck targets [] start"

definition order_members ::
  "('v, 's) group_facts \<Rightarrow> step_access list \<Rightarrow> (nat list, 's violation) result" where
  "order_members facts accesses =
     (let targets = same_targets (gf_reads facts) accesses; members = gf_members facts in
      map_err (\<lambda>stuck.
        let cycle = extract_cycle (stuck ! 0) stuck targets;
            start = cycle ! 0;
            span = (case find (\<lambda>(r, a). rd_source r = start \<and>
                        (1 < length cycle \<and> cycle ! 1 = rd_target r) \<and> a = SameStep)
                      (zip (gf_reads facts) accesses) of
                None \<Rightarrow> mf_span (members ! start)
              | Some (r, _) \<Rightarrow> rd_span r)
        in \<lparr>vi_member = start, vi_span = span,
             vi_reason = SameStepCycle (map (\<lambda>m. mf_name (members ! m)) cycle)\<rparr>)
        (greedy_order (length members) targets))"

definition member_reads :: "('v, 's) group_facts \<Rightarrow> step_access list \<Rightarrow> (nat \<Rightarrow> nat) \<Rightarrow> nat \<Rightarrow> group_read list" where
  "member_reads facts accesses pos member =
     foldl (\<lambda>reads (r, a). push_new reads \<lparr>gr_target = pos (rd_target r), gr_access = a\<rparr>) []
       (filter (\<lambda>(r, _). rd_source r = member) (zip (gf_reads facts) accesses))"

definition position_map :: "nat list \<Rightarrow> nat \<Rightarrow> nat" where
  "position_map order member = the (map_of (zip order [0..<length order]) member)"

definition group_plan :: "('v, 's) group_facts \<Rightarrow> step_access list \<Rightarrow> nat list \<Rightarrow> recurrence_plan" where
  "group_plan facts accesses order =
     map (\<lambda>member.
        \<lparr>rm_declaration = mf_identity (gf_members facts ! member),
         rm_shape = (case def_shape (mf_definition (gf_members facts ! member)) of
             Some shape \<Rightarrow> shape | None \<Rightarrow> ForShape),
         rm_reads = member_reads facts accesses (position_map order) member\<rparr>) order"

definition report_violation :: "('v, 's) group_facts \<Rightarrow> dag_id \<Rightarrow> 's violation \<Rightarrow> 's component_rejection" where
  "report_violation facts callable v =
     (let member = gf_members facts ! vi_member v in
      if mf_owner member = callable
      then RecurrenceRejected (mf_name member) (vi_span v) (vi_reason v)
      else PlainCycle)"

definition check_group ::
  "('v, 's) group_facts \<Rightarrow> dag_id \<Rightarrow> (recurrence_plan, 's component_rejection) result" where
  "check_group facts callable =
     (if \<not> (\<exists>m \<in> set (gf_members facts). def_shape (mf_definition m) = Some UnfoldShape)
      then Inl PlainCycle
      else let report = report_violation facts callable in
        res_bind (map_err report (check_members facts callable)) (\<lambda>_.
        res_bind (map_err report (classify_reads facts)) (\<lambda>accesses.
        res_bind (map_err report (order_members facts accesses)) (\<lambda>order.
          Inr (group_plan facts accesses order)))))"

section \<open>Placement\<close>

text \<open>The placement and, when it is stuck, the cycle extracted from the stuck members.\<close>

definition greedy_or_cycle :: "nat \<times> (nat \<Rightarrow> nat list) \<Rightarrow> (nat list, nat list) result" where
  "greedy_or_cycle g =
     map_err (\<lambda>stuck. extract_cycle (stuck ! 0) stuck (snd g)) (greedy_order (fst g) (snd g))"

definition targets_ok :: "nat \<times> (nat \<Rightarrow> nat list) \<Rightarrow> bool" where
  "targets_ok g \<longleftrightarrow> (\<forall>m. set (snd g m) \<subseteq> {..<fst g} \<and> (fst g \<le> m \<longrightarrow> snd g m = []))"

definition reads_same :: "nat \<times> (nat \<Rightarrow> nat list) \<Rightarrow> nat \<Rightarrow> nat \<Rightarrow> bool" where
  "reads_same g a b \<longleftrightarrow> b \<in> set (snd g a)"

definition stuck_ok :: "nat \<Rightarrow> (nat \<Rightarrow> nat list) \<Rightarrow> nat list \<Rightarrow> bool" where
  "stuck_ok n targets stuck \<longleftrightarrow>
     stuck \<noteq> [] \<and> set stuck \<subseteq> {..<n} \<and> (\<forall>m \<in> set stuck. \<exists>t \<in> set (targets m). t \<in> set stuck)"

lemma greedy_loop_sound:
  assumes "targets_ok (n, targets)" "length placed = n" "distinct order"
    "set order = {m. m < n \<and> placed ! m}"
    "\<forall>i < length order. set (targets (order ! i)) \<subseteq> set (take i order)"
  shows "case greedy_loop n targets placed order of
      Inr xs \<Rightarrow> topo_ordered (reads_same (n, targets)) {..<n} xs
    | Inl stuck \<Rightarrow> stuck_ok n targets stuck"
  using assms
proof (induction n targets placed order rule: greedy_loop.induct)
  case (1 n targets placed order)
  let ?ready = "\<lambda>member. \<not> placed ! member \<and> (\<forall>t \<in> set (targets member). placed ! t)"
  have sub: "set order \<subseteq> {..<n}" using 1(5) by auto
  show ?case
  proof (cases "length order < n")
    case False
    then have "set order = {..<n}"
      using sub 1(4) by (metis card_lessThan card_subset_eq distinct_card finite_lessThan leI
          le_antisym card_mono)
    then show ?thesis
      using False 1(4,6) by (auto simp: greedy_loop.simps topo_ordered_def reads_same_def)
  next
    case less: True
    show ?thesis
    proof (cases "find ?ready [0..<n]")
      case None
      then have none: "\<And>m. m < n \<Longrightarrow> \<not> placed ! m \<Longrightarrow> \<exists>t \<in> set (targets m). \<not> placed ! t"
        by (auto simp: find_None_iff)
      have "set order \<noteq> {..<n}"
        using less 1(4) by (metis card_lessThan distinct_card less_irrefl)
      then obtain m where "m < n" "\<not> placed ! m" using 1(5) by auto
      then have "filter (\<lambda>m. \<not> placed ! m) [0..<n] \<noteq> []" by (auto simp: filter_empty_conv)
      moreover have "\<exists>t \<in> set (targets m). t < n \<and> \<not> placed ! t" if k: "m < n" "\<not> placed ! m" for m
      proof -
        have "set (targets m) \<subseteq> {..<n}" using 1(2) by (simp add: targets_ok_def)
        then show ?thesis using none [OF k] by blast
      qed
      ultimately show ?thesis
        using None less by (auto simp: greedy_loop.simps [of n targets placed order] stuck_ok_def)
    next
      case (Some m)
      then have m: "m < n" "\<not> placed ! m" "\<forall>t \<in> set (targets m). placed ! t"
        by (auto simp: find_Some_iff)
      have step: "greedy_loop n targets placed order = greedy_loop n targets (placed[m := True]) (order @ [m])"
        using less Some by (subst greedy_loop.simps) simp
      have fresh: "m \<notin> set order" using 1(5) m by simp
      have "set (targets m) \<subseteq> set order"
        using m(3) 1(2,5) by (auto simp: targets_ok_def)
      then have "\<forall>i < length (order @ [m]). set (targets ((order @ [m]) ! i)) \<subseteq> set (take i (order @ [m]))"
        using 1(6) by (auto simp: nth_append less_Suc_eq)
      moreover have "set (order @ [m]) = {k. k < n \<and> placed[m := True] ! k}"
        using 1(3,5) m(1) by (auto simp: nth_list_update)
      ultimately show ?thesis
        unfolding step using 1(1) [OF less Some] 1(2-4) fresh by simp
    qed
  qed
qed

lemma greedy_order_sound:
  assumes "targets_ok (n, targets)"
  shows "case greedy_order n targets of
      Inr xs \<Rightarrow> topo_ordered (reads_same (n, targets)) {..<n} xs
    | Inl stuck \<Rightarrow> stuck_ok n targets stuck"
  unfolding greedy_order_def by (rule greedy_loop_sound [OF assms]) auto

lemma position_Some_iff:
  "position P xs = Some i \<longleftrightarrow> i < length xs \<and> P (xs ! i) \<and> (\<forall>j < i. \<not> P (xs ! j))"
  by (auto simp: position_def find_Some_iff)

lemma position_None_iff: "position P xs = None \<longleftrightarrow> (\<forall>x \<in> set xs. \<not> P x)"
  by (simp add: position_def find_None_iff all_set_conv_all_nth)

lemma snoc_chain:
  assumes "\<forall>i. Suc i < length xs \<longrightarrow> R (xs ! i) (xs ! Suc i)" "xs \<noteq> [] \<longrightarrow> R (last xs) x"
  shows "\<forall>i. Suc i < length (xs @ [x]) \<longrightarrow> R ((xs @ [x]) ! i) ((xs @ [x]) ! Suc i)"
proof (intro allI impI)
  fix i
  assume i: "Suc i < length (xs @ [x])"
  show "R ((xs @ [x]) ! i) ((xs @ [x]) ! Suc i)"
  proof (cases "Suc i < length xs")
    case False
    then have "Suc i = length xs" using i by simp
    then have "xs \<noteq> []" "i = length xs - 1" by auto
    then show ?thesis using assms(2) by (simp add: nth_append last_conv_nth)
  qed (use assms(1) in \<open>simp add: nth_append\<close>)
qed

text \<open>The walk follows same-step reads inside the stuck members and stops on the first repetition.\<close>

lemma walk_loop_sound:
  assumes "stuck_ok n targets stuck" "current \<in> set stuck" "set visited \<subseteq> set stuck" "distinct visited"
    "\<forall>i. Suc i < length visited \<longrightarrow> visited ! Suc i \<in> set (targets (visited ! i))"
    "visited \<noteq> [] \<longrightarrow> current \<in> set (targets (last visited))"
  shows "dependency_cycle (reads_same (n, targets)) (walk_loop stuck targets visited current) \<and>
    set (walk_loop stuck targets visited current) \<subseteq> set stuck"
  using assms
proof (induction stuck targets visited current rule: walk_loop.induct)
  case (1 stuck targets visited current)
  show ?case
  proof (cases "current \<in> set visited")
    case True
    then have "position (\<lambda>m. m = current) visited \<noteq> None" unfolding position_None_iff by blast
    then obtain i where i: "position (\<lambda>m. m = current) visited = Some i" by blast
    then have less: "i < length visited" and at: "visited ! i = current"
      unfolding position_Some_iff by blast+
    have cyc: "walk_loop stuck targets visited current = drop i visited"
      using True i by (simp add: walk_loop.simps)
    have "current \<in> set (targets (last visited))" using True 1(7) by auto
    then have "reads_same (n, targets) (last (drop i visited)) (hd (drop i visited))"
      using less at by (simp add: reads_same_def hd_drop_conv_nth)
    moreover have "\<forall>k. Suc k < length (drop i visited) \<longrightarrow>
        reads_same (n, targets) (drop i visited ! k) (drop i visited ! Suc k)"
      using 1(6) by (simp add: reads_same_def)
    moreover have "set (drop i visited) \<subseteq> set stuck"
      using 1(4) by (meson order.trans set_drop_subset)
    ultimately show ?thesis
      unfolding cyc dependency_cycle_def using less 1(5) by simp
  next
    case False
    obtain nxt where nxt: "find (\<lambda>t. t \<in> set stuck) (targets current) = Some nxt"
    proof -
      have "\<exists>t \<in> set (targets current). t \<in> set stuck" using 1(2,3) by (simp add: stuck_ok_def)
      then have "find (\<lambda>t. t \<in> set stuck) (targets current) \<noteq> None" by (auto simp: find_None_iff)
      then show thesis using that by blast
    qed
    then have t: "nxt \<in> set stuck" "nxt \<in> set (targets current)" by (auto simp: find_Some_iff in_set_conv_nth)
    have step: "walk_loop stuck targets visited current = walk_loop stuck targets (visited @ [current]) nxt"
      using False nxt by (subst walk_loop.simps) simp
    have "\<forall>i. Suc i < length (visited @ [current]) \<longrightarrow>
        (visited @ [current]) ! Suc i \<in> set (targets ((visited @ [current]) ! i))"
      by (rule snoc_chain [where R = "\<lambda>a b. b \<in> set (targets a)"]) (use 1(6,7) in auto)
    then show ?thesis
      unfolding step using 1(1) [OF False refl nxt] 1(2-5) False t by simp
  qed
qed

lemma extract_cycle_sound:
  assumes "stuck_ok n targets stuck"
  shows "dependency_cycle (reads_same (n, targets)) (extract_cycle (stuck ! 0) stuck targets) \<and>
    set (extract_cycle (stuck ! 0) stuck targets) \<subseteq> set stuck"
  unfolding extract_cycle_def
  by (rule walk_loop_sound [OF assms]) (use assms in \<open>auto simp: stuck_ok_def\<close>)

interpretation greedy: order_provider greedy_or_cycle targets_ok "\<lambda>g. {..<fst g}" reads_same "\<lambda>c. c"
proof
  fix g :: "nat \<times> (nat \<Rightarrow> nat list)"
  assume g: "targets_ok g"
  show "a \<in> {..<fst g} \<and> b \<in> {..<fst g}" if "reads_same g a b" for a b
    using g that by (cases "fst g \<le> a") (auto simp: targets_ok_def reads_same_def)
  show "topo_ordered (reads_same g) {..<fst g} xs" if "greedy_or_cycle g = Inr xs" for xs
    using that greedy_order_sound [of "fst g" "snd g"] g
    by (auto simp: greedy_or_cycle_def map_err_Inr_iff)
  show "dependency_cycle (reads_same g) c" if "greedy_or_cycle g = Inl c" for c
    using that greedy_order_sound [of "fst g" "snd g"] extract_cycle_sound [of "fst g" "snd g"] g
    by (auto simp: greedy_or_cycle_def map_err_Inl_iff)
qed

section \<open>What acceptance means\<close>

definition facts_ok :: "('v, 's) group_facts \<Rightarrow> bool" where
  "facts_ok facts \<longleftrightarrow>
     (\<forall>r \<in> set (gf_reads facts).
        rd_source r < length (gf_members facts) \<and> rd_target r < length (gf_members facts))"

definition same_step :: "('v, 's) group_facts \<Rightarrow> nat \<Rightarrow> nat \<Rightarrow> bool" where
  "same_step facts a b \<longleftrightarrow>
     (\<exists>r \<in> set (gf_reads facts). rd_source r = a \<and> rd_target r = b \<and> read_access facts r = Some SameStep)"

text \<open>The rules R1 and R3 to R6; R7 is the absence of a same-step cycle.\<close>

definition group_rules :: "('v, 's) group_facts \<Rightarrow> bool" where
  "group_rules facts \<longleftrightarrow>
     (\<exists>m \<in> set (gf_members facts). def_shape (mf_definition m) = Some UnfoldShape) \<and>
     (\<forall>m \<in> set (gf_members facts). \<forall>m' \<in> set (gf_members facts).
        mf_owner m = mf_owner m' \<and> def_axis (mf_definition m) = def_axis (mf_definition m')) \<and>
     (\<forall>m \<in> set (gf_members facts). def_shape (mf_definition m) \<noteq> None) \<and>
     (\<forall>r \<in> set (gf_reads facts). rd_source r \<noteq> rd_target r \<and> read_access facts r \<noteq> None)"

lemma position_not_None: "position P xs \<noteq> None \<longleftrightarrow> (\<exists>x \<in> set xs. P x)"
  unfolding position_None_iff by simp

lemma check_members_iff:
  "check_members facts callable = Inr u \<longleftrightarrow>
     (\<forall>m \<in> set (gf_members facts). \<forall>m' \<in> set (gf_members facts).
        mf_owner m = mf_owner m' \<and> def_axis (mf_definition m) = def_axis (mf_definition m')) \<and>
     (\<forall>m \<in> set (gf_members facts). def_shape (mf_definition m) \<noteq> None)"
proof (cases "gf_members facts")
  case (Cons first rest)
  let ?ms = "first # rest"
  have "check_members facts callable = Inr u \<longleftrightarrow>
      (\<forall>m \<in> set ?ms. mf_owner m = mf_owner first) \<and>
      position (\<lambda>m. def_shape (mf_definition m) = None) ?ms = None \<and>
      position (\<lambda>m. def_axis (mf_definition m) \<noteq> def_axis (mf_definition first)) ?ms = None"
    by (simp add: check_members_def Let_def Cons split: option.split)
  also have "\<dots> \<longleftrightarrow> (\<forall>m \<in> set ?ms. mf_owner m = mf_owner first) \<and>
      (\<forall>m \<in> set ?ms. def_shape (mf_definition m) \<noteq> None) \<and>
      (\<forall>m \<in> set ?ms. def_axis (mf_definition m) = def_axis (mf_definition first))"
    unfolding position_None_iff by simp
  also have "\<dots> \<longleftrightarrow> (\<forall>m \<in> set ?ms. \<forall>m' \<in> set ?ms.
      mf_owner m = mf_owner m' \<and> def_axis (mf_definition m) = def_axis (mf_definition m')) \<and>
     (\<forall>m \<in> set ?ms. def_shape (mf_definition m) \<noteq> None)"
    by (metis list.set_intros(1))
  finally show ?thesis unfolding Cons .
qed (simp add: check_members_def)

lemma classify_reads_iff:
  "classify_reads facts = Inr accesses \<longleftrightarrow>
     (\<forall>r \<in> set (gf_reads facts). rd_source r \<noteq> rd_target r) \<and>
     map Some accesses = map (read_access facts) (gf_reads facts)"
proof -
  have "(\<forall>i < length xs. f (xs ! i) = Some (ys ! i)) \<and> length ys = length xs \<longleftrightarrow> map Some ys = map f xs"
    for f :: "'c read_fact \<Rightarrow> step_access option" and xs ys
    by (auto simp: list_eq_iff_nth_eq)
  note eq = this [of "gf_reads facts" "read_access facts" accesses]
  have "find (\<lambda>r. rd_source r = rd_target r) (gf_reads facts) = None \<longleftrightarrow>
      (\<forall>r \<in> set (gf_reads facts). rd_source r \<noteq> rd_target r)"
    by (auto simp: find_None_iff)
  then show ?thesis
    unfolding classify_reads_def eq [symmetric]
    by (auto simp: try_map_Inr_iff list_all2_conv_all_nth ok_or_Inr_iff split: option.split)
qed

lemma ex_map_Some: "(\<exists>ys. map Some ys = map f xs) \<longleftrightarrow> (\<forall>x \<in> set xs. f x \<noteq> None)"
proof (induction xs)
  case (Cons x xs)
  then show ?case by (cases "f x") (auto simp: Cons_eq_map_conv map_eq_Cons_conv)
qed simp

lemma classify_reads_ok_iff:
  "is_ok (classify_reads facts) \<longleftrightarrow>
     (\<forall>r \<in> set (gf_reads facts). rd_source r \<noteq> rd_target r \<and> read_access facts r \<noteq> None)"
  unfolding is_ok_iff classify_reads_iff ex_simps ex_map_Some by blast

text \<open>The zipped reads and accesses are the reads with their own access.\<close>

lemma zip_accesses:
  assumes "map Some accesses = map f reads"
  shows "(r, a) \<in> set (zip reads accesses) \<longleftrightarrow> r \<in> set reads \<and> f r = Some a"
proof -
  have "length accesses = length reads" using assms by (metis length_map)
  moreover have "f (reads ! i) = Some (accesses ! i)" if "i < length reads" for i
    using assms that calculation by (metis nth_map)
  ultimately show ?thesis
    by (auto simp: set_zip in_set_conv_nth)
qed

lemma same_targets_iff:
  assumes "classify_reads facts = Inr accesses"
  shows "t \<in> set (same_targets (gf_reads facts) accesses m) \<longleftrightarrow> same_step facts m t"
proof -
  have z: "map Some accesses = map (read_access facts) (gf_reads facts)"
    using assms by (simp add: classify_reads_iff)
  show ?thesis
    using zip_accesses [OF z] unfolding same_targets_def same_step_def by force
qed

definition step_graph :: "('v, 's) group_facts \<Rightarrow> step_access list \<Rightarrow> nat \<times> (nat \<Rightarrow> nat list)" where
  "step_graph facts accesses = (length (gf_members facts), same_targets (gf_reads facts) accesses)"

lemma step_graph_ok:
  assumes "facts_ok facts" "classify_reads facts = Inr accesses"
  shows "targets_ok (step_graph facts accesses)" "reads_same (step_graph facts accesses) = same_step facts"
proof -
  show same: "reads_same (step_graph facts accesses) = same_step facts"
    using same_targets_iff [OF assms(2)] by (auto simp: fun_eq_iff reads_same_def step_graph_def)
  have "t < length (gf_members facts) \<and> m < length (gf_members facts)"
    if t: "t \<in> set (same_targets (gf_reads facts) accesses m)" for m t
    using t assms(1) unfolding same_targets_iff [OF assms(2)]
    by (auto simp: same_step_def facts_ok_def)
  note inside = this
  show "targets_ok (step_graph facts accesses)"
    unfolding targets_ok_def step_graph_def fst_conv snd_conv
  proof (intro allI conjI impI subsetI)
    fix m t
    assume "t \<in> set (same_targets (gf_reads facts) accesses m)"
    then show "t \<in> {..<length (gf_members facts)}" using inside by simp
  next
    fix m
    assume far: "length (gf_members facts) \<le> m"
    then have "t \<notin> set (same_targets (gf_reads facts) accesses m)" for t using inside leD by blast
    then show "same_targets (gf_reads facts) accesses m = []" by (meson last_in_set)
  qed
qed

lemma order_members_Inr_iff:
  "order_members facts accesses = Inr order \<longleftrightarrow> greedy_or_cycle (step_graph facts accesses) = Inr order"
  by (simp add: order_members_def greedy_or_cycle_def step_graph_def Let_def map_err_Inr_iff)

lemma order_members_Inl:
  assumes "order_members facts accesses = Inl v"
  obtains cycle where "greedy_or_cycle (step_graph facts accesses) = Inl cycle" "vi_member v = cycle ! 0"
    "vi_reason v = SameStepCycle (map (\<lambda>m. mf_name (gf_members facts ! m)) cycle)"
proof -
  from assms obtain stuck where
    "greedy_order (length (gf_members facts)) (same_targets (gf_reads facts) accesses) = Inl stuck"
    "vi_member v = extract_cycle (stuck ! 0) stuck (same_targets (gf_reads facts) accesses) ! 0"
    "vi_reason v = SameStepCycle (map (\<lambda>m. mf_name (gf_members facts ! m))
       (extract_cycle (stuck ! 0) stuck (same_targets (gf_reads facts) accesses)))"
    unfolding order_members_def Let_def map_err_Inl_iff by fastforce
  then show thesis
    by (intro that) (simp_all add: greedy_or_cycle_def step_graph_def)
qed

lemma check_group_Inr_iff:
  "check_group facts callable = Inr plan \<longleftrightarrow>
     (\<exists>accesses order. group_rules facts \<and> classify_reads facts = Inr accesses \<and>
        greedy_or_cycle (step_graph facts accesses) = Inr order \<and> plan = group_plan facts accesses order)"
proof -
  have "group_rules facts \<longleftrightarrow>
      (\<exists>m \<in> set (gf_members facts). def_shape (mf_definition m) = Some UnfoldShape) \<and>
      check_members facts callable = Inr () \<and> is_ok (classify_reads facts)"
    unfolding group_rules_def check_members_iff classify_reads_ok_iff by (simp only: conj_assoc)
  then show ?thesis
    by (auto simp: check_group_def Let_def result_iffs order_members_Inr_iff is_ok_iff)
qed

text \<open>A group is accepted exactly when it satisfies the rules and no member reads itself at its
  own step through the others, whatever callable it is reported in.\<close>

lemma check_group_ok_iff:
  assumes "facts_ok facts"
  shows "is_ok (check_group facts callable) \<longleftrightarrow>
    group_rules facts \<and> (\<forall>a. \<not> (same_step facts)\<^sup>+\<^sup>+ a a)"
proof (cases "group_rules facts")
  case True
  then have "is_ok (classify_reads facts)"
    unfolding classify_reads_ok_iff group_rules_def by blast
  then obtain accesses where acc: "classify_reads facts = Inr accesses" unfolding is_ok_iff by blast
  have "is_ok (check_group facts callable) \<longleftrightarrow> is_ok (greedy_or_cycle (step_graph facts accesses))"
    unfolding is_ok_iff check_group_Inr_iff using True acc by auto
  also have "\<dots> \<longleftrightarrow> (\<forall>a. \<not> (same_step facts)\<^sup>+\<^sup>+ a a)"
    using greedy.order_iff_acyclic [OF step_graph_ok(1) [OF assms acc]] step_graph_ok(2) [OF assms acc]
    by simp
  finally show ?thesis using True by simp
qed (auto simp: is_ok_iff check_group_Inr_iff)

lemma foldl_push_new: "set (foldl (\<lambda>ys x. push_new ys (f x)) ys xs) = set ys \<union> f ` set xs"
  by (induction xs arbitrary: ys) (auto simp: push_new_def)

lemma distinct_foldl_push_new:
  "distinct ys \<Longrightarrow> distinct (foldl (\<lambda>ys x. push_new ys (f x)) ys xs)"
  by (induction xs arbitrary: ys) (auto simp: push_new_def)

lemma position_map_nth:
  assumes "distinct order" "i < length order"
  shows "position_map order (order ! i) = i"
proof -
  have "map_of (zip order [0..<length order]) (order ! i) = Some i"
    using map_of_zip_nth [OF _ assms(1), of "[0..<length order]" i] assms(2) by simp
  then show ?thesis by (simp add: position_map_def)
qed

lemma position_map_eq_iff:
  assumes "distinct order" "m \<in> set order" "i < length order"
  shows "position_map order m = i \<longleftrightarrow> m = order ! i"
  using assms position_map_nth [OF assms(1)] by (metis in_set_conv_nth)

lemma member_reads_iff:
  assumes "classify_reads facts = Inr accesses"
  shows "\<lparr>gr_target = i, gr_access = a\<rparr> \<in> set (member_reads facts accesses pos m) \<longleftrightarrow>
    (\<exists>r \<in> set (gf_reads facts). rd_source r = m \<and> read_access facts r = Some a \<and> i = pos (rd_target r))"
proof -
  have z: "map Some accesses = map (read_access facts) (gf_reads facts)"
    using assms by (simp add: classify_reads_iff)
  have "set (member_reads facts accesses pos m) =
      (\<lambda>(r, a). \<lparr>gr_target = pos (rd_target r), gr_access = a\<rparr>) `
        {p \<in> set (zip (gf_reads facts) accesses). rd_source (fst p) = m}"
    by (simp add: member_reads_def case_prod_unfold foldl_push_new)
  then show ?thesis using zip_accesses [OF z] by (force simp: image_iff)
qed

lemma member_reads_distinct: "distinct (member_reads facts accesses pos m)"
  by (simp add: member_reads_def case_prod_unfold distinct_foldl_push_new)

text \<open>What evaluation relies on: reads stay inside the plan, a same-step read goes to an earlier
  position, and only an \<open>unfold\<close> reads the previous step.\<close>

definition plan_ok :: "recurrence_plan \<Rightarrow> bool" where
  "plan_ok plan \<longleftrightarrow>
     (\<forall>i < length plan. distinct (rm_reads (plan ! i)) \<and>
        (\<forall>read \<in> set (rm_reads (plan ! i)). gr_target read < length plan \<and>
          (gr_access read = SameStep \<longrightarrow> gr_target read < i) \<and>
          (gr_access read = PreviousStep \<longrightarrow> rm_shape (plan ! i) = UnfoldShape)))"

text \<open>How the plan represents the group: the members in plan order, with their shapes and with
  exactly their classified reads.\<close>

definition plan_represents :: "('v, 's) group_facts \<Rightarrow> nat list \<Rightarrow> recurrence_plan \<Rightarrow> bool" where
  "plan_represents facts order plan \<longleftrightarrow>
     distinct order \<and> set order = {..<length (gf_members facts)} \<and>
     map rm_declaration plan = map (\<lambda>m. mf_identity (gf_members facts ! m)) order \<and>
     map (\<lambda>p. Some (rm_shape p)) plan = map (\<lambda>m. def_shape (mf_definition (gf_members facts ! m))) order \<and>
     (\<forall>i < length order. \<forall>j < length order. \<forall>a.
        \<lparr>gr_target = j, gr_access = a\<rparr> \<in> set (rm_reads (plan ! i)) \<longleftrightarrow>
        (\<exists>r \<in> set (gf_reads facts). rd_source r = order ! i \<and> rd_target r = order ! j \<and>
           read_access facts r = Some a))"

lemma group_plan_represents:
  assumes ok: "facts_ok facts" and rules: "group_rules facts" and acc: "classify_reads facts = Inr accesses"
    and perm: "distinct order" "set order = {..<length (gf_members facts)}"
  shows "plan_represents facts order (group_plan facts accesses order)"
  unfolding plan_represents_def
proof (intro conjI perm allI impI)
  show "map rm_declaration (group_plan facts accesses order) = map (\<lambda>m. mf_identity (gf_members facts ! m)) order"
    by (simp add: group_plan_def)
  have "def_shape (mf_definition (gf_members facts ! m)) \<noteq> None" if "m \<in> set order" for m
    using that rules perm(2) unfolding group_rules_def by (metis lessThan_iff nth_mem)
  then show "map (\<lambda>p. Some (rm_shape p)) (group_plan facts accesses order) =
      map (\<lambda>m. def_shape (mf_definition (gf_members facts ! m))) order"
    by (fastforce simp: group_plan_def split: option.split)
  fix i j a
  assume ij: "i < length order" "j < length order"
  have reads: "rm_reads (group_plan facts accesses order ! i) =
      member_reads facts accesses (position_map order) (order ! i)"
    using ij by (simp add: group_plan_def)
  have "rd_target r \<in> set order" if "r \<in> set (gf_reads facts)" for r
    using that ok perm(2) by (auto simp: facts_ok_def)
  then have "j = position_map order (rd_target r) \<longleftrightarrow> rd_target r = order ! j" if "r \<in> set (gf_reads facts)" for r
    using position_map_eq_iff [OF perm(1) _ ij(2)] that by blast
  then show "\<lparr>gr_target = j, gr_access = a\<rparr> \<in> set (rm_reads (group_plan facts accesses order ! i)) \<longleftrightarrow>
      (\<exists>r \<in> set (gf_reads facts). rd_source r = order ! i \<and> rd_target r = order ! j \<and> read_access facts r = Some a)"
    unfolding reads member_reads_iff [OF acc] by blast
qed

lemma access_PreviousStep: "access shape form = Some PreviousStep \<Longrightarrow> shape = UnfoldShape"
  by (cases "(shape, form)" rule: access.cases) simp_all

lemma topo_before:
  assumes "topo_ordered dep N xs" "i < length xs" "dep (xs ! i) (xs ! j)" "j < length xs"
  shows "j < i"
proof -
  have "xs ! j \<in> set (take i xs)" using assms(1-3) by (auto simp: topo_ordered_def)
  then obtain k where "k < i" "k < length xs" "xs ! k = xs ! j" by (auto simp: in_set_conv_nth)
  then show ?thesis using assms(1,4) by (auto simp: topo_ordered_def nth_eq_iff_index_eq)
qed

lemma group_plan_ok:
  assumes ok: "facts_ok facts" and rules: "group_rules facts" and acc: "classify_reads facts = Inr accesses"
    and topo: "topo_ordered (same_step facts) {..<length (gf_members facts)} order"
  shows "plan_ok (group_plan facts accesses order)"
  unfolding plan_ok_def
proof (intro allI impI conjI ballI)
  let ?plan = "group_plan facts accesses order"
  have perm: "distinct order" "set order = {..<length (gf_members facts)}"
    using topo by (auto simp: topo_ordered_def)
  fix i
  assume i: "i < length ?plan"
  then have io: "i < length order" and reads: "rm_reads (?plan ! i) =
      member_reads facts accesses (position_map order) (order ! i)"
    by (simp_all add: group_plan_def)
  show "distinct (rm_reads (?plan ! i))" unfolding reads by (rule member_reads_distinct)
  fix read
  assume "read \<in> set (rm_reads (?plan ! i))"
  moreover have "\<lparr>gr_target = gr_target read, gr_access = gr_access read\<rparr> = read" by simp
  ultimately have "\<lparr>gr_target = gr_target read, gr_access = gr_access read\<rparr> \<in> set (rm_reads (?plan ! i))"
    by (simp only:)
  then obtain r where r: "r \<in> set (gf_reads facts)" "rd_source r = order ! i"
      "read_access facts r = Some (gr_access read)" "gr_target read = position_map order (rd_target r)"
    unfolding reads member_reads_iff [OF acc] by blast
  have "rd_target r \<in> set order" using r(1) ok perm(2) by (auto simp: facts_ok_def)
  then obtain j where j: "j < length order" "order ! j = rd_target r" by (auto simp: in_set_conv_nth)
  then have target: "gr_target read = j" using r(4) position_map_nth [OF perm(1) j(1)] by simp
  show "gr_target read < length ?plan" using target j(1) by (simp add: group_plan_def)
  show "gr_target read < i" if "gr_access read = SameStep"
  proof -
    have "same_step facts (order ! i) (order ! j)" using r(1-3) j(2) that unfolding same_step_def by auto
    then show ?thesis unfolding target by (rule topo_before [OF topo io _ j(1)])
  qed
  show "rm_shape (?plan ! i) = UnfoldShape" if "gr_access read = PreviousStep"
  proof -
    have "def_shape (mf_definition (gf_members facts ! (order ! i))) = Some UnfoldShape"
      using r(2,3) that access_PreviousStep by (fastforce simp: read_access_def Option.bind_eq_Some_conv)
    then show ?thesis using io by (simp add: group_plan_def)
  qed
qed

lemma check_group_sound:
  assumes ok: "facts_ok facts" and check: "check_group facts callable = Inr plan"
  obtains order where "plan_represents facts order plan"
    "topo_ordered (same_step facts) {..<length (gf_members facts)} order" "plan_ok plan"
proof -
  from check obtain accesses order where g: "group_rules facts" "classify_reads facts = Inr accesses"
      "greedy_or_cycle (step_graph facts accesses) = Inr order" "plan = group_plan facts accesses order"
    unfolding check_group_Inr_iff by blast
  have topo: "topo_ordered (same_step facts) {..<length (gf_members facts)} order"
    using greedy.order_sound [OF step_graph_ok(1) [OF ok g(2)] g(3)] step_graph_ok(2) [OF ok g(2)]
    by (simp add: step_graph_def)
  then have "distinct order" "set order = {..<length (gf_members facts)}" by (auto simp: topo_ordered_def)
  then have "plan_represents facts order plan"
    unfolding g(4) by (rule group_plan_represents [OF ok g(1,2)])
  then show thesis using topo group_plan_ok [OF ok g(1,2) topo] g(4) that by blast
qed

lemma check_members_reason: "check_members facts callable = Inl v \<Longrightarrow> vi_reason v \<noteq> SameStepCycle names"
  by (auto simp: check_members_def Let_def split: list.splits if_splits option.splits)

lemma classify_reads_reason: "classify_reads facts = Inl v \<Longrightarrow> vi_reason v \<noteq> SameStepCycle names"
  by (auto simp: classify_reads_def ok_or_Inl_iff Let_def split: option.splits read_form.splits dest!: try_map_InlD)

text \<open>A reported same-step cycle is one, and it is reported at its first member.\<close>

lemma check_group_cycle:
  assumes ok: "facts_ok facts"
    and check: "check_group facts callable = Inl (RecurrenceRejected name sp (SameStepCycle names))"
  obtains cycle where "dependency_cycle (same_step facts) cycle"
    "names = map (\<lambda>m. mf_name (gf_members facts ! m)) cycle" "name = mf_name (gf_members facts ! hd cycle)"
proof -
  have report: "vi_reason v = SameStepCycle names"
      "name = mf_name (gf_members facts ! vi_member v)"
    if "report_violation facts callable v = RecurrenceRejected name sp (SameStepCycle names)" for v
    using that by (auto simp: report_violation_def Let_def split: if_splits)
  have unfolds: "\<exists>m \<in> set (gf_members facts). def_shape (mf_definition m) = Some UnfoldShape"
    using check unfolding check_group_def by (metis component_rejection.distinct(1) sum.inject(1))
  obtain u where members: "check_members facts callable = Inr u"
  proof (cases "check_members facts callable")
    case (Inl v)
    then have "report_violation facts callable v = RecurrenceRejected name sp (SameStepCycle names)"
      using check unfolds by (simp add: check_group_def)
    then show ?thesis using report(1) check_members_reason [OF Inl] by blast
  qed (use that in blast)
  obtain accesses where acc: "classify_reads facts = Inr accesses"
  proof (cases "classify_reads facts")
    case (Inl v)
    then have "report_violation facts callable v = RecurrenceRejected name sp (SameStepCycle names)"
      using check unfolds members by (simp add: check_group_def)
    then show ?thesis using report(1) classify_reads_reason [OF Inl] by blast
  qed (use that in blast)
  obtain v where v: "order_members facts accesses = Inl v"
    using check unfolds members acc by (cases "order_members facts accesses") (simp_all add: check_group_def)
  have rep: "report_violation facts callable v = RecurrenceRejected name sp (SameStepCycle names)"
    using check unfolds members acc v by (simp add: check_group_def)
  from v obtain cycle where c: "greedy_or_cycle (step_graph facts accesses) = Inl cycle"
      "vi_member v = cycle ! 0" "vi_reason v = SameStepCycle (map (\<lambda>m. mf_name (gf_members facts ! m)) cycle)"
    by (rule order_members_Inl)
  have cyc: "dependency_cycle (same_step facts) cycle"
    using greedy.cycle_sound [OF step_graph_ok(1) [OF ok acc] c(1)] step_graph_ok(2) [OF ok acc] by simp
  then have "hd cycle = cycle ! 0" by (simp add: dependency_cycle_def hd_conv_nth)
  moreover have "names = map (\<lambda>m. mf_name (gf_members facts ! m)) cycle"
    using report(1) [OF rep] c(3) by simp
  ultimately show thesis using that [OF cyc] report(2) [OF rep] c(2) by simp
qed

section \<open>Element order\<close>

text \<open>The elements an element reads come before it: an earlier step, or the same step of an
  earlier member. So a step-by-step walk in plan order finds every dependency computed.\<close>

definition element_before :: "nat \<times> nat \<Rightarrow> nat \<times> nat \<Rightarrow> bool" where
  "element_before p q \<longleftrightarrow> snd p < snd q \<or> snd p = snd q \<and> fst p < fst q"

lemma set_element_dependencies:
  "set (element_dependencies plan member step) =
     (if length plan \<le> member then {}
      else {e. \<exists>read \<in> set (rm_reads (plan ! member)).
              read_element (rm_shape (plan ! member)) step read = Some e} \<union>
           (if rm_shape (plan ! member) = UnfoldShape \<and> step \<noteq> 0 then {(member, step - 1)} else {}))"
proof -
  have fold: "set (foldl (\<lambda>ds read. case f read of Some e \<Rightarrow> push_new ds e | None \<Rightarrow> ds) ds reads) =
      set ds \<union> {e. \<exists>read \<in> set reads. f read = Some e}"
    for f :: "group_read \<Rightarrow> (nat \<times> nat) option" and ds reads
    by (induction reads arbitrary: ds) (auto simp: push_new_def split: option.split)
  show ?thesis
    by (auto simp: element_dependencies_def Let_def fold push_new_def checked_pred_def)
qed

lemma read_element_before:
  assumes "read_element shape step read = Some e" "gr_access read = SameStep \<longrightarrow> gr_target read < member"
  shows "element_before e (member, step) \<and> fst e = gr_target read"
  using assms
  by (cases "gr_access read") (auto simp: read_element_def element_before_def checked_pred_def split: if_splits)

lemma element_dependencies_before:
  assumes plan: "plan_ok plan" and e: "e \<in> set (element_dependencies plan member step)"
  shows "element_before e (member, step) \<and> fst e < length plan"
proof -
  have m: "member < length plan" using e by (auto simp: set_element_dependencies split: if_splits)
  from e m consider read where "read \<in> set (rm_reads (plan ! member))"
      "read_element (rm_shape (plan ! member)) step read = Some e"
    | "e = (member, step - 1)" "step \<noteq> 0"
    by (auto simp: set_element_dependencies split: if_splits)
  then show ?thesis
  proof cases
    case 1
    then have "gr_target read < length plan" "gr_access read = SameStep \<longrightarrow> gr_target read < member"
      using plan m by (auto simp: plan_ok_def)
    then show ?thesis using read_element_before [OF 1(2)] by simp
  qed (use m in \<open>simp add: element_before_def\<close>)
qed

section \<open>Properties\<close>

text \<open>C1: a candidate group is accepted exactly when it satisfies the rules (an \<open>unfold\<close> member, one
  owner, one axis, only step-keyed reads, no self-read) and its same-step reads are acyclic;
  the callable the group is reported in does not matter.\<close>

theorem recurrence_acceptance:
  assumes "facts_ok facts"
  shows "is_ok (check_group facts callable) \<longleftrightarrow> group_rules facts \<and> (\<forall>a. \<not> (same_step facts)\<^sup>+\<^sup>+ a a)"
  by (rule check_group_ok_iff [OF assms])

text \<open>C2: the plan of an accepted group lists every member once, with its shape and exactly its
  classified reads; same-step reads go to earlier members of the plan, and only \<open>unfold\<close> members
  read the previous step.\<close>

theorem recurrence_plan_correct:
  assumes "facts_ok facts" "check_group facts callable = Inr plan"
  shows "plan_ok plan \<and> (\<exists>order. plan_represents facts order plan \<and>
    topo_ordered (same_step facts) {..<length (gf_members facts)} order)"
  using check_group_sound [OF assms] by blast

text \<open>C3: a same-step cycle reported by the check is one: the named members read each other at the
  same step in this order and back, and the first is the member the report is placed at.\<close>

theorem recurrence_cycle_genuine:
  assumes "facts_ok facts"
    "check_group facts callable = Inl (RecurrenceRejected name sp (SameStepCycle names))"
  shows "\<exists>cycle. dependency_cycle (same_step facts) cycle \<and>
    names = map (\<lambda>m. mf_name (gf_members facts ! m)) cycle \<and> name = mf_name (gf_members facts ! hd cycle)"
  using check_group_cycle [OF assms] by blast

text \<open>C4: in an accepted plan the dependencies of an element are elements of plan members at an
  earlier step, or at the same step and an earlier position, so a walk by steps and positions
  meets them first.\<close>

theorem recurrence_elements_ordered:
  assumes "facts_ok facts" "check_group facts callable = Inr plan"
    "e \<in> set (element_dependencies plan member step)"
  shows "element_before e (member, step) \<and> fst e < length plan"
  using check_group_sound [OF assms(1,2)] element_dependencies_before [OF _ assms(3)] by blast

text \<open>A group of two members, stepping over the same axis: \<open>y\<close> reads \<open>x\<close> at the previous step
  and \<open>x\<close> reads \<open>y\<close> at the same step.\<close>

definition sample_facts :: "leading_key \<Rightarrow> (nat, nat) group_facts" where
  "sample_facts key =
     (let owner = dag_new ''p'' [''m'']; axis = FiniteAxis [];
          member = (\<lambda>name d. \<lparr>mf_identity = ResolvedName owner name, mf_name = name, mf_span = 0, mf_definition = d\<rparr>)
      in \<lparr>gf_members = [member ''x'' (ForOver axis), member ''y'' (UnfoldOver axis)],
          gf_reads = [\<lparr>rd_source = 0, rd_target = 1, rd_form = ElementRead StepBinder, rd_span = 1\<rparr>,
                      \<lparr>rd_source = 1, rd_target = 0, rd_form = ElementRead key, rd_span = 2\<rparr>]\<rparr>)"

lemma sample_facts_ok: "facts_ok (sample_facts key)"
  by (simp add: sample_facts_def facts_ok_def Let_def)

theorem recurrence_acceptance_witness:
  "\<forall>a. \<not> (same_step (sample_facts PreviousBinder))\<^sup>+\<^sup>+ a a"
proof -
  have "is_ok (check_group (sample_facts PreviousBinder) (dag_new ''p'' [''m'']))" by code_simp
  then show ?thesis using recurrence_acceptance [OF sample_facts_ok] by blast
qed

theorem recurrence_plan_correct_witness:
  "\<exists>plan. check_group (sample_facts PreviousBinder) (dag_new ''p'' [''m'']) = Inr plan \<and> plan_ok plan"
proof -
  have "is_ok (check_group (sample_facts PreviousBinder) (dag_new ''p'' [''m'']))" by code_simp
  then show ?thesis using recurrence_plan_correct [OF sample_facts_ok] unfolding is_ok_iff by blast
qed

theorem recurrence_cycle_genuine_witness:
  "\<exists>cycle. dependency_cycle (same_step (sample_facts StepBinder)) cycle \<and>
    [''x'', ''y''] = map (\<lambda>m. mf_name (gf_members (sample_facts StepBinder) ! m)) cycle"
proof -
  have "check_group (sample_facts StepBinder) (dag_new ''p'' [''m'']) =
      Inl (RecurrenceRejected ''x'' 1 (SameStepCycle [''x'', ''y'']))" by code_simp
  from recurrence_cycle_genuine [OF sample_facts_ok this] show ?thesis
    by (rule ex_forward) (elim conjE, intro conjI)
qed

theorem recurrence_elements_ordered_witness:
  "\<exists>plan. check_group (sample_facts PreviousBinder) (dag_new ''p'' [''m'']) = Inr plan \<and>
    element_before (1, 1) (0, 2) \<and> 1 < length plan"
proof -
  let ?check = "check_group (sample_facts PreviousBinder) (dag_new ''p'' [''m''])"
  have "case ?check of Inl _ \<Rightarrow> False | Inr plan \<Rightarrow> (1, 1) \<in> set (element_dependencies plan 0 2)"
    by code_simp
  then obtain plan where plan: "?check = Inr plan" "(1, 1) \<in> set (element_dependencies plan 0 2)"
    by (cases ?check) simp_all
  show ?thesis using recurrence_elements_ordered [OF sample_facts_ok plan] plan(1) by auto
qed

end
