(* ===== verification/Checked_Type.thy ===== *)
theory Checked_Type
  imports Dimension Nat_Poly "HOL-Library.Option_ord"
begin

text \<open>
  Checked types: time scales (\<open>semantic/time_scale.rs\<close>), bounded index cardinalities
  (\<open>semantic/index_def.rs\<close>, \<open>tir/materialized_shape.rs\<close>), the formatting of dimensions
  through named aliases (\<open>semantic/dimension_table.rs\<close>) and the types themselves
  (\<open>semantic/checked_type.rs\<close>). The phantom parameter \<open>Concreteness\<close> is the pair of type
  parameters of axes and \<open>Nat\<close> arguments, and its trait methods are a record. The lemmas
  show that instantiation is the inverse of the symbolic view, that it agrees on equal types
  and that shapes are bounded by the allocation policy.
\<close>

section \<open>Time scales\<close>

datatype time_scale = UTC | TAI | TT | TDB | ET | GPST | GST | BDT | QZSST

definition all_time_scales :: "time_scale list" where
  "all_time_scales = [UTC, TAI, TT, TDB, ET, GPST, GST, BDT, QZSST]"

fun time_scale_name :: "time_scale \<Rightarrow> string" where
  "time_scale_name UTC = ''UTC''"
| "time_scale_name TAI = ''TAI''"
| "time_scale_name TT = ''TT''"
| "time_scale_name TDB = ''TDB''"
| "time_scale_name ET = ''ET''"
| "time_scale_name GPST = ''GPST''"
| "time_scale_name GST = ''GST''"
| "time_scale_name BDT = ''BDT''"
| "time_scale_name QZSST = ''QZSST''"

fun is_utc :: "time_scale \<Rightarrow> bool" where
  "is_utc scale = (scale = UTC)"

text \<open>The error carries the input.\<close>

definition time_scale_from_str :: "string \<Rightarrow> (time_scale, string) result" where
  "time_scale_from_str s = ok_or s (find (\<lambda>scale. time_scale_name scale = s) all_time_scales)"

lemma time_scale_name_inj: "time_scale_name a = time_scale_name b \<longleftrightarrow> a = b"
  by (cases a; cases b) simp_all

lemma time_scale_from_str_iff: "time_scale_from_str s = Inr scale \<longleftrightarrow> s = time_scale_name scale"
proof -
  have "s = time_scale_name scale" if "find (\<lambda>scale. time_scale_name scale = s) all_time_scales = Some scale"
    using that by (auto simp: find_Some_iff)
  moreover have "find (\<lambda>x. time_scale_name x = time_scale_name scale) all_time_scales = Some scale"
    by (cases scale) (simp_all add: all_time_scales_def)
  ultimately show ?thesis by (auto simp: time_scale_from_str_def ok_or_Inr_iff)
qed

section \<open>Cardinalities\<close>

text \<open>\<open>usize\<close> is 64 bits wide; \<open>DoesNotFitUsize\<close> belongs to narrower targets.\<close>

definition max_index_cardinality :: nat where
  "max_index_cardinality = 1000000"

datatype index_cardinality_error =
    EmptyIndex
  | DoesNotFitUsize u64
  | TooLarge u64 nat

definition usize_try_from :: "u64 \<Rightarrow> u64 option" where
  "usize_try_from v = Some v"

definition cardinality_try_from :: "u64 \<Rightarrow> (u64, index_cardinality_error) result" where
  "cardinality_try_from v =
     (if v = 0 then Inl EmptyIndex
      else res_bind (ok_or (DoesNotFitUsize v) (usize_try_from v)) (\<lambda>v.
        if max_index_cardinality < unat v then Inl (TooLarge v max_index_cardinality)
        else Inr v))"

datatype finite_index = FiniteIndex (fin_cardinality: u64)

definition finite_index_try_from :: "u64 \<Rightarrow> (finite_index, index_cardinality_error) result" where
  "finite_index_try_from n = res_map FiniteIndex (cardinality_try_from n)"

definition describe_finite_index :: "index_cardinality_error \<Rightarrow> string" where
  "describe_finite_index e =
     (case e of
        EmptyIndex \<Rightarrow> ''Fin(0) is not allowed; indexes must contain at least one element''
      | DoesNotFitUsize v \<Rightarrow> ''Fin cardinality '' @ show_nat (unat v) @ '' does not fit in usize on this target''
      | TooLarge v maximum \<Rightarrow> ''Fin cardinality '' @ show_nat (unat v) @
          '' exceeds the practical limit of '' @ show_nat maximum @ '' elements'')"

definition finite_index_ok :: "finite_index \<Rightarrow> bool" where
  "finite_index_ok i \<longleftrightarrow> 0 < unat (fin_cardinality i) \<and> unat (fin_cardinality i) \<le> max_index_cardinality"

lemma finite_index_try_from_iff:
  "finite_index_try_from n = Inr i \<longleftrightarrow> fin_cardinality i = n \<and> finite_index_ok i"
  by (cases i) (auto simp: finite_index_try_from_def cardinality_try_from_def usize_try_from_def
      finite_index_ok_def unat_gt_0)

section \<open>Materialized shapes\<close>

record materialized_shape =
  shape_axes :: "u64 list"
  shape_total :: u64

datatype materialized_shape_error = ExceedsLimit nat

text \<open>\<open>EagerCardinality::try_from_axes\<close>.\<close>

definition eager_step :: "u64 \<Rightarrow> u64 \<Rightarrow> (u64, materialized_shape_error) result" where
  "eager_step acc axis =
     ok_or (ExceedsLimit max_index_cardinality)
       (case u64_checked_mul acc axis of
          Some t \<Rightarrow> if unat t \<le> max_index_cardinality then Some t else None
        | None \<Rightarrow> None)"

definition eager_cardinality :: "u64 list \<Rightarrow> (u64, materialized_shape_error) result" where
  "eager_cardinality axes =
     res_bind (try_fold eager_step 1 axes) (\<lambda>acc.
       if acc = 0 then Inl (ExceedsLimit max_index_cardinality) else Inr acc)"

definition shape_try_new :: "u64 list \<Rightarrow> (materialized_shape, materialized_shape_error) result" where
  "shape_try_new axes = res_map (\<lambda>acc. \<lparr>shape_axes = axes, shape_total = acc\<rparr>) (eager_cardinality axes)"

lemma eager_step_iff:
  "eager_step acc axis = Inr t \<longleftrightarrow>
     unat t = unat acc * unat axis \<and> unat t \<le> max_index_cardinality"
proof (cases "u64_checked_mul acc axis")
  case None
  then have "2 ^ 64 \<le> unat acc * unat axis" by (simp add: u64_checked_None)
  moreover have "unat t < 2 ^ 64" by (rule unat_u64_less)
  ultimately show ?thesis using None by (simp add: eager_step_def)
next
  case (Some m)
  then have "unat m = unat acc * unat axis" by (simp add: u64_checked_mul_iff)
  then have "m = t \<longleftrightarrow> unat t = unat acc * unat axis" using unat_u64_inj [of m t] by auto
  then show ?thesis using Some by (auto simp: eager_step_def ok_or_Inr_iff)
qed

text \<open>The axes are positive, so a prefix never exceeds the product.\<close>

lemma eager_fold_iff:
  assumes "\<forall>a \<in> set axes. 0 < unat a" "0 < unat acc" "unat acc \<le> max_index_cardinality"
  shows "try_fold eager_step acc axes = Inr t \<longleftrightarrow>
    unat t = unat acc * prod_list (map unat axes) \<and> unat t \<le> max_index_cardinality"
  using assms
proof (induction axes arbitrary: acc)
  case Nil
  then show ?case by (auto simp: unat_u64_inj)
next
  case (Cons a axes)
  have pos: "0 < prod_list (map unat axes)" using Cons.prems(1) by (induction axes) auto
  show ?case
  proof (cases "unat acc * unat a \<le> max_index_cardinality")
    case True
    then have "unat acc * unat a < 2 ^ 64" by (simp add: max_index_cardinality_def)
    then obtain m :: u64 where m: "unat m = unat acc * unat a" by (metis unat_u64_rep)
    then have "eager_step acc a = Inr m" using True by (simp add: eager_step_iff)
    then show ?thesis using Cons.IH [of m] Cons.prems True m by (simp add: mult.assoc)
  next
    case False
    have "unat acc * unat a * 1 \<le> unat acc * unat a * prod_list (map unat axes)"
      using pos by (intro mult_le_mono2) linarith
    then have "max_index_cardinality < unat acc * unat a * prod_list (map unat axes)"
      using False by linarith
    then have "\<not> unat acc * prod_list (map unat (a # axes)) \<le> max_index_cardinality"
      using False by (simp add: mult.assoc)
    moreover have "\<not> is_ok (eager_step acc a)" using False by (auto simp: is_ok_iff eager_step_iff)
    ultimately show ?thesis by (cases "eager_step acc a") auto
  qed
qed

lemma eager_cardinality_iff:
  assumes "\<forall>a \<in> set axes. 0 < unat a"
  shows "eager_cardinality axes = Inr t \<longleftrightarrow>
    unat t = prod_list (map unat axes) \<and> unat t \<le> max_index_cardinality"
proof -
  have "0 < prod_list (map unat axes)" using assms by (induction axes) auto
  then have "unat t = prod_list (map unat axes) \<Longrightarrow> t \<noteq> 0" by auto
  then show ?thesis
    using eager_fold_iff [OF assms, of 1]
    by (auto simp: eager_cardinality_def res_bind_Inr_iff max_index_cardinality_def)
qed

section \<open>Formatting of dimensions\<close>

text \<open>A \<open>DimRef\<close> is an optional dotted owner with a leaf; \<open>Option\<close> orders \<open>None\<close> first.\<close>

type_synonym dim_ref = "string list option \<times> string"

definition dim_ref_local :: "string \<Rightarrow> dim_ref" where
  "dim_ref_local leaf = (None, leaf)"

fun dim_ref_display :: "dim_ref \<Rightarrow> string" where
  "dim_ref_display (None, leaf) = leaf"
| "dim_ref_display (Some owner, leaf) = join ''.'' owner @ ''::'' @ leaf"

record base_dimension_info =
  canonical_unit :: "string option"
  affine_prone :: bool

definition register_canonical_unit ::
  "base_dimension_info \<Rightarrow> string \<Rightarrow> (base_dimension_info, string) result" where
  "register_canonical_unit info unit =
     (case canonical_unit info of
        Some existing \<Rightarrow> Inl existing
      | None \<Rightarrow> Inr (info\<lparr>canonical_unit := Some unit\<rparr>))"

definition merge_missing :: "base_dimension_info \<Rightarrow> base_dimension_info \<Rightarrow> base_dimension_info" where
  "merge_missing info other =
     (let info = (if canonical_unit info = None then info\<lparr>canonical_unit := canonical_unit other\<rparr> else info)
      in info\<lparr>affine_prone := affine_prone info \<or> affine_prone other\<rparr>)"

record formatting_registry =
  fr_bases :: "(base_dim_id, base_dimension_info) btree"
  fr_aliases :: "(dim_ref, dimension) btree"

definition registry_new ::
  "(base_dim_id, base_dimension_info) btree \<Rightarrow> (dim_ref \<times> dimension) list \<Rightarrow> formatting_registry" where
  "registry_new bases aliases =
     \<lparr>fr_bases = bases, fr_aliases = foldl (\<lambda>m p. bt_insert (fst p) (snd p) m) [] aliases\<rparr>"

definition base_unit_symbols :: "formatting_registry \<Rightarrow> (base_dim_id \<times> string) list" where
  "base_unit_symbols r =
     List.map_filter (\<lambda>(i, info). map_option (Pair i) (canonical_unit info)) (fr_bases r)"

definition iter_min :: "'a::linorder list \<Rightarrow> 'a option" where
  "iter_min xs = (case xs of [] \<Rightarrow> None | x # xs \<Rightarrow> Some (foldl min x xs))"

definition format_dimension :: "formatting_registry \<Rightarrow> dimension \<Rightarrow> string" where
  "format_dimension r d =
     (if is_compound d
      then (case iter_min (map fst (filter (\<lambda>p. snd p = d) (fr_aliases r))) of
              Some alias \<Rightarrow> dim_ref_display alias
            | None \<Rightarrow> dim_display d)
      else dim_display d)"

definition register_rigid_dimension :: "formatting_registry \<Rightarrow> resolved_name \<Rightarrow> formatting_registry" where
  "register_rigid_dimension r name =
     (let base = UserDefined name in
      r\<lparr>fr_bases := bt_insert base \<lparr>canonical_unit = None, affine_prone = False\<rparr> (fr_bases r),
        fr_aliases := bt_insert (dim_ref_local (rn_leaf name)) (dim_base base) (fr_aliases r)\<rparr>)"

lemma iter_min_iff: "iter_min xs = Some x \<longleftrightarrow> x \<in> set xs \<and> (\<forall>y \<in> set xs. x \<le> y)"
proof -
  have fold: "foldl min a ys = Min (insert a (set ys))" for a :: 'a and ys
  proof (induction ys arbitrary: a)
    case (Cons b ys)
    have "Min (insert (min a b) (set ys)) = Min (insert a (insert b (set ys)))"
      by (cases "set ys = {}") (simp_all add: min.assoc)
    then show ?case using Cons.IH [of "min a b"] by simp
  qed simp
  show ?thesis
  proof (cases xs)
    case (Cons a ys)
    have "iter_min xs = Some x \<longleftrightarrow> Min (set xs) = x" by (simp add: iter_min_def Cons fold)
    also have "\<dots> \<longleftrightarrow> x \<in> set xs \<and> (\<forall>y \<in> set xs. x \<le> y)"
      by (subst Min_eq_iff) (simp_all add: Cons)
    finally show ?thesis .
  qed (simp add: iter_min_def)
qed

section \<open>Types\<close>

text \<open>A reference to a named entity: a display leaf with the canonical identity, which alone is
  compared.\<close>

record type_name_ref =
  tn_name :: string
  tn_resolved :: resolved_name

definition type_name_from_resolved :: "resolved_name \<Rightarrow> type_name_ref" where
  "type_name_from_resolved r = \<lparr>tn_name = rn_leaf r, tn_resolved = r\<rparr>"

definition type_name_with_display_leaf :: "string \<Rightarrow> resolved_name \<Rightarrow> type_name_ref" where
  "type_name_with_display_leaf name r = \<lparr>tn_name = name, tn_resolved = r\<rparr>"

definition type_name_matches :: "type_name_ref \<Rightarrow> type_name_ref \<Rightarrow> bool" where
  "type_name_matches a b \<longleftrightarrow> tn_resolved a = tn_resolved b"

datatype 'v finite_index_ref = ConcreteFin finite_index | SymbolicFin "'v nat_poly"

definition finite_ref_from_form :: "'v nat_poly \<Rightarrow> ('v finite_index_ref, index_cardinality_error) result" where
  "finite_ref_from_form form =
     (if is_constant form then res_map ConcreteFin (finite_index_try_from (poly_constant form))
      else Inr (SymbolicFin form))"

fun finite_ref_concrete :: "'v finite_index_ref \<Rightarrow> finite_index option" where
  "finite_ref_concrete (ConcreteFin i) = Some i"
| "finite_ref_concrete (SymbolicFin _) = None"

fun finite_ref_form :: "'v::linorder finite_index_ref \<Rightarrow> 'v nat_poly" where
  "finite_ref_form (ConcreteFin i) = from_constant (fin_cardinality i)"
| "finite_ref_form (SymbolicFin form) = form"

datatype ('t, 'f) index_ref = DeclaredIndex 't | FiniteAxis 'f

datatype ('t, 'f, 'n) checked_type =
    QuantityT dimension
  | ComplexT dimension
  | BoolT
  | IntT
  | DatetimeT time_scale
  | KeyT "('t, 'f) index_ref"
  | StructT 't "('t, 'f, 'n) generic_arg list"
  | IndexedT "('t, 'f, 'n) checked_type" "('t, 'f) index_ref"
and ('t, 'f, 'n) generic_arg =
    DimArg dimension
  | IndexArg "('t, 'f) index_ref"
  | NatArg 'n
  | TypeArg "('t, 'f, 'n) checked_type"

type_synonym concrete_index = "(type_name_ref, finite_index) index_ref"
type_synonym concrete_type = "(type_name_ref, finite_index, u64) checked_type"
type_synonym concrete_arg = "(type_name_ref, finite_index, u64) generic_arg"
type_synonym 'v symbolic_index = "(type_name_ref, 'v finite_index_ref) index_ref"
type_synonym 'v symbolic_type = "(type_name_ref, 'v finite_index_ref, 'v nat_poly) checked_type"
type_synonym 'v symbolic_arg = "(type_name_ref, 'v finite_index_ref, 'v nat_poly) generic_arg"

text \<open>The derived \<open>PartialEq\<close>: structural, with references compared by canonical identity.\<close>

definition same_type ::
  "(type_name_ref, 'f, 'n) checked_type \<Rightarrow> (type_name_ref, 'f, 'n) checked_type \<Rightarrow> bool" where
  "same_type a b \<longleftrightarrow>
     map_checked_type tn_resolved (\<lambda>f. f) (\<lambda>n. n) a = map_checked_type tn_resolved (\<lambda>f. f) (\<lambda>n. n) b"

definition index_matches :: "(type_name_ref, 'f) index_ref \<Rightarrow> (type_name_ref, 'f) index_ref \<Rightarrow> bool" where
  "index_matches a b =
     (case (a, b) of
        (DeclaredIndex l, DeclaredIndex r) \<Rightarrow> type_name_matches l r
      | (FiniteAxis l, FiniteAxis r) \<Rightarrow> l = r
      | _ \<Rightarrow> False)"

text \<open>The methods of \<open>FiniteAxis\<close> and \<open>NatArgument\<close> at a concreteness.\<close>

record ('f, 'n, 'v) concreteness =
  cv_concrete :: "'f \<Rightarrow> finite_index option"
  cv_form :: "'f \<Rightarrow> 'v nat_poly"
  cv_nat :: "'n \<Rightarrow> 'v nat_poly"

definition concrete_cv :: "(finite_index, u64, 'v::linorder) concreteness" where
  "concrete_cv =
     \<lparr>cv_concrete = Some, cv_form = (\<lambda>i. from_constant (fin_cardinality i)), cv_nat = from_constant\<rparr>"

definition symbolic_cv :: "('v::linorder finite_index_ref, 'v nat_poly, 'v) concreteness" where
  "symbolic_cv = \<lparr>cv_concrete = finite_ref_concrete, cv_form = finite_ref_form, cv_nat = (\<lambda>n. n)\<rparr>"

definition index_from_resolved :: "resolved_name \<Rightarrow> (type_name_ref, 'f) index_ref" where
  "index_from_resolved r = DeclaredIndex (type_name_from_resolved r)"

fun declared_resolved :: "(type_name_ref, 'f) index_ref \<Rightarrow> resolved_name option" where
  "declared_resolved (DeclaredIndex r) = Some (tn_resolved r)"
| "declared_resolved (FiniteAxis _) = None"

fun declared_name :: "(type_name_ref, 'f) index_ref \<Rightarrow> string option" where
  "declared_name (DeclaredIndex r) = Some (tn_name r)"
| "declared_name (FiniteAxis _) = None"

fun index_finite :: "('f, 'n, 'v) concreteness \<Rightarrow> ('t, 'f) index_ref \<Rightarrow> finite_index option" where
  "index_finite cv (FiniteAxis f) = cv_concrete cv f"
| "index_finite cv (DeclaredIndex _) = None"

fun index_form :: "('f, 'n, 'v) concreteness \<Rightarrow> ('t, 'f) index_ref \<Rightarrow> 'v nat_poly option" where
  "index_form cv (FiniteAxis f) = Some (cv_form cv f)"
| "index_form cv (DeclaredIndex _) = None"

definition index_from_form :: "'v nat_poly \<Rightarrow> ('v symbolic_index, index_cardinality_error) result" where
  "index_from_form form = res_map FiniteAxis (finite_ref_from_form form)"

section \<open>Instantiation\<close>

datatype 'e instantiation_error = BindingError 'e | CardinalityError index_cardinality_error

definition inst_nat ::
  "('v nat_poly \<Rightarrow> (u64, 'e) result) \<Rightarrow> 'v nat_poly \<Rightarrow> (u64, 'e instantiation_error) result" where
  "inst_nat close form = map_err BindingError (close form)"

definition inst_index ::
  "('v::linorder nat_poly \<Rightarrow> (u64, 'e) result) \<Rightarrow> 'v symbolic_index \<Rightarrow> (concrete_index, 'e instantiation_error) result" where
  "inst_index close ix =
     (case ix of
        DeclaredIndex r \<Rightarrow> Inr (DeclaredIndex r)
      | FiniteAxis f \<Rightarrow>
          (case finite_ref_concrete f of
             Some i \<Rightarrow> Inr (FiniteAxis i)
           | None \<Rightarrow> res_bind (inst_nat close (finite_ref_form f)) (\<lambda>n.
               map_err CardinalityError (res_map FiniteAxis (finite_index_try_from n)))))"

fun inst_type ::
  "('v::linorder nat_poly \<Rightarrow> (u64, 'e) result) \<Rightarrow> 'v symbolic_type \<Rightarrow> (concrete_type, 'e instantiation_error) result"
and inst_arg ::
  "('v nat_poly \<Rightarrow> (u64, 'e) result) \<Rightarrow> 'v symbolic_arg \<Rightarrow> (concrete_arg, 'e instantiation_error) result" where
  "inst_type close (QuantityT d) = Inr (QuantityT d)"
| "inst_type close (ComplexT d) = Inr (ComplexT d)"
| "inst_type close BoolT = Inr BoolT"
| "inst_type close IntT = Inr IntT"
| "inst_type close (DatetimeT scale) = Inr (DatetimeT scale)"
| "inst_type close (KeyT ix) = res_map KeyT (inst_index close ix)"
| "inst_type close (StructT name args) = res_map (StructT name) (try_map (inst_arg close) args)"
| "inst_type close (IndexedT element ix) =
     res_bind (inst_type close element) (\<lambda>element. res_map (IndexedT element) (inst_index close ix))"
| "inst_arg close (DimArg d) = Inr (DimArg d)"
| "inst_arg close (IndexArg ix) = res_map IndexArg (inst_index close ix)"
| "inst_arg close (NatArg form) = res_map NatArg (inst_nat close form)"
| "inst_arg close (TypeArg ty) = res_map TypeArg (inst_type close ty)"

definition constant_only :: "'v nat_poly \<Rightarrow> (u64, unit) result" where
  "constant_only form = ok_or () (constant_value form)"

definition result_ok :: "('a, 'e) result \<Rightarrow> 'a option" where
  "result_ok r = (case r of Inr x \<Rightarrow> Some x | Inl _ \<Rightarrow> None)"

definition index_to_concrete :: "'v::linorder symbolic_index \<Rightarrow> concrete_index option" where
  "index_to_concrete ix = result_ok (inst_index constant_only ix)"

definition type_to_concrete :: "'v::linorder symbolic_type \<Rightarrow> concrete_type option" where
  "type_to_concrete ty = result_ok (inst_type constant_only ty)"

definition arg_to_concrete :: "'v::linorder symbolic_arg \<Rightarrow> concrete_arg option" where
  "arg_to_concrete a = result_ok (inst_arg constant_only a)"

fun index_to_symbolic :: "concrete_index \<Rightarrow> 'v::linorder symbolic_index" where
  "index_to_symbolic (DeclaredIndex r) = DeclaredIndex r"
| "index_to_symbolic (FiniteAxis i) = FiniteAxis (ConcreteFin i)"

fun type_to_symbolic :: "concrete_type \<Rightarrow> 'v::linorder symbolic_type"
and arg_to_symbolic :: "concrete_arg \<Rightarrow> 'v symbolic_arg" where
  "type_to_symbolic (QuantityT d) = QuantityT d"
| "type_to_symbolic (ComplexT d) = ComplexT d"
| "type_to_symbolic BoolT = BoolT"
| "type_to_symbolic IntT = IntT"
| "type_to_symbolic (DatetimeT scale) = DatetimeT scale"
| "type_to_symbolic (KeyT ix) = KeyT (index_to_symbolic ix)"
| "type_to_symbolic (StructT name args) = StructT name (map arg_to_symbolic args)"
| "type_to_symbolic (IndexedT element ix) = IndexedT (type_to_symbolic element) (index_to_symbolic ix)"
| "arg_to_symbolic (DimArg d) = DimArg d"
| "arg_to_symbolic (IndexArg ix) = IndexArg (index_to_symbolic ix)"
| "arg_to_symbolic (NatArg n) = NatArg (from_constant n)"
| "arg_to_symbolic (TypeArg ty) = TypeArg (type_to_symbolic ty)"

section \<open>Projections\<close>

fun complex_dimension :: "('t, 'f, 'n) checked_type \<Rightarrow> dimension option" where
  "complex_dimension (ComplexT d) = Some d"
| "complex_dimension _ = None"

fun quantity_dimension :: "('t, 'f, 'n) checked_type \<Rightarrow> dimension option" where
  "quantity_dimension (QuantityT d) = Some d"
| "quantity_dimension _ = None"

text \<open>\<open>saturating_add\<close> cannot saturate on a type that fits in memory.\<close>

fun indexed_rank :: "('t, 'f, 'n) checked_type \<Rightarrow> nat" where
  "indexed_rank (IndexedT element _) = indexed_rank element + 1"
| "indexed_rank _ = 0"

fun peel_axes :: "('t, 'f, 'n) checked_type \<Rightarrow> ('t, 'f) index_ref list \<times> ('t, 'f, 'n) checked_type" where
  "peel_axes (IndexedT element ix) = (let (axes, base) = peel_axes element in (ix # axes, base))"
| "peel_axes ty = ([], ty)"

fun collect_indexes :: "('t, 'f, 'n) checked_type \<Rightarrow> ('t, 'f) index_ref list" where
  "collect_indexes (IndexedT element ix) = ix # collect_indexes element"
| "collect_indexes (KeyT ix) = [ix]"
| "collect_indexes (StructT _ args) =
     concat (map (\<lambda>a. case a of IndexArg ix \<Rightarrow> [ix] | TypeArg ty \<Rightarrow> collect_indexes ty
       | DimArg _ \<Rightarrow> [] | NatArg _ \<Rightarrow> []) args)"
| "collect_indexes _ = []"

definition type_materialized_shape ::
  "(materialized_shape_error \<Rightarrow> 'e) \<Rightarrow> (('t, 'f) index_ref \<Rightarrow> (u64 option, 'e) result) \<Rightarrow>
   ('t, 'f, 'n) checked_type \<Rightarrow> (materialized_shape option, 'e) result" where
  "type_materialized_shape from cardinality ty =
     res_bind (try_map cardinality (fst (peel_axes ty))) (\<lambda>sizes.
       (case collect_options sizes of
          None \<Rightarrow> Inr None
        | Some sizes \<Rightarrow> if sizes = [] then Inr None
                        else res_map Some (map_err from (shape_try_new sizes))))"

section \<open>Spelling\<close>

datatype qualification = LeafNames | OwnerQualified

definition format_dim_with :: "qualification \<Rightarrow> formatting_registry \<Rightarrow> dimension \<Rightarrow> string" where
  "format_dim_with q dims d = (case q of LeafNames \<Rightarrow> format_dimension dims d | OwnerQualified \<Rightarrow> owner_qualified d)"

definition fin_display :: "('v \<Rightarrow> string) \<Rightarrow> 'v nat_poly \<Rightarrow> string" where
  "fin_display show_var form = ''Fin('' @ poly_format show_var form @ '')''"

definition index_display :: "('v \<Rightarrow> string) \<Rightarrow> ('f, 'n, 'v) concreteness \<Rightarrow> (type_name_ref, 'f) index_ref \<Rightarrow> string" where
  "index_display show_var cv ix =
     (case ix of DeclaredIndex r \<Rightarrow> tn_name r | FiniteAxis f \<Rightarrow> fin_display show_var (cv_form cv f))"

definition format_index_with ::
  "('v \<Rightarrow> string) \<Rightarrow> ('f, 'n, 'v) concreteness \<Rightarrow> qualification \<Rightarrow> (type_name_ref, 'f) index_ref \<Rightarrow> string" where
  "format_index_with show_var cv q ix =
     (case (q, declared_resolved ix) of
        (OwnerQualified, Some r) \<Rightarrow> resolved_display r
      | _ \<Rightarrow> index_display show_var cv ix)"

definition format_struct_with :: "qualification \<Rightarrow> type_name_ref \<Rightarrow> string" where
  "format_struct_with q r = (case q of LeafNames \<Rightarrow> tn_name r | OwnerQualified \<Rightarrow> resolved_display (tn_resolved r))"

lemma peel_axes_size: "size (snd (peel_axes ty)) \<le> size ty"
  by (induction ty rule: peel_axes.induct) (auto split: prod.splits)

lemma peel_axes_less:
  "(axes, base) = (case peel_axes element of (as, b) \<Rightarrow> (ix # as, b)) \<Longrightarrow> size base \<le> size element"
  using peel_axes_size [of element] by (auto split: prod.splits)

lemma size_generic_arg: "a \<in> set args \<Longrightarrow> size a \<le> size_list size args"
  by (induction args) auto

function format_type ::
  "('v \<Rightarrow> string) \<Rightarrow> ('f, 'n, 'v) concreteness \<Rightarrow> formatting_registry \<Rightarrow> qualification \<Rightarrow>
   (type_name_ref, 'f, 'n) checked_type \<Rightarrow> string"
and format_arg ::
  "('v \<Rightarrow> string) \<Rightarrow> ('f, 'n, 'v) concreteness \<Rightarrow> formatting_registry \<Rightarrow> qualification \<Rightarrow>
   (type_name_ref, 'f, 'n) generic_arg \<Rightarrow> string" where
  "format_type sv cv dims q (QuantityT d) = format_dim_with q dims d"
| "format_type sv cv dims q (ComplexT d) = ''Complex<'' @ format_dim_with q dims d @ ''>''"
| "format_type sv cv dims q BoolT = ''Bool''"
| "format_type sv cv dims q IntT = ''Int''"
| "format_type sv cv dims q (DatetimeT scale) =
     (if is_utc scale then ''Datetime'' else ''Datetime<'' @ time_scale_name scale @ ''>'')"
| "format_type sv cv dims q (KeyT ix) = ''Key<'' @ format_index_with sv cv q ix @ ''>''"
| "format_type sv cv dims q (StructT name args) =
     (let name = format_struct_with q name in
      if args = [] then name
      else name @ ''<'' @ join '', '' (map (format_arg sv cv dims q) args) @ ''>'')"
| "format_type sv cv dims q (IndexedT element ix) =
     (let (axes, base) = peel_axes (IndexedT element ix)
      in format_type sv cv dims q base @ ''['' @ join '', '' (map (format_index_with sv cv q) axes) @ '']'')"
| "format_arg sv cv dims q (DimArg d) = format_dim_with q dims d"
| "format_arg sv cv dims q (IndexArg ix) = format_index_with sv cv q ix"
| "format_arg sv cv dims q (NatArg n) = poly_format sv (cv_nat cv n)"
| "format_arg sv cv dims q (TypeArg ty) = format_type sv cv dims q ty"
  by pat_completeness auto

termination
proof (relation "measure (case_sum (\<lambda>(_, _, _, _, ty). size ty) (\<lambda>(_, _, _, _, a). size a))")
  fix sv :: "'v \<Rightarrow> string" and cv :: "('f, 'n, 'v) concreteness" and dims q name
    and args :: "(type_name_ref, 'f, 'n) generic_arg list" and a :: "(type_name_ref, 'f, 'n) generic_arg"
  assume "a \<in> set args"
  from size_generic_arg [OF this]
  show "(Inr (sv, cv, dims, q, a), Inl (sv, cv, dims, q, StructT name args))
      \<in> measure (case_sum (\<lambda>(_, _, _, _, ty). size ty) (\<lambda>(_, _, _, _, a). size a))"
    by simp
qed (auto dest!: peel_axes_less)

definition type_format where
  "type_format sv cv dims ty = format_type sv cv dims LeafNames ty"

definition distinct_spellings where
  "distinct_spellings sv cv dims expected found =
     (let e = type_format sv cv dims expected; f = type_format sv cv dims found in
      if e \<noteq> f then (e, f)
      else (format_type sv cv dims OwnerQualified expected, format_type sv cv dims OwnerQualified found))"

section \<open>What instantiation does\<close>

text \<open>Axes: a concrete one is kept, a symbolic one is closed and validated.\<close>

fun axis_closes :: "('v::linorder nat_poly \<Rightarrow> (u64, 'e) result) \<Rightarrow> 'v finite_index_ref \<Rightarrow> finite_index \<Rightarrow> bool" where
  "axis_closes close (ConcreteFin j) i \<longleftrightarrow> i = j"
| "axis_closes close (SymbolicFin form) i \<longleftrightarrow> close form = Inr (fin_cardinality i) \<and> finite_index_ok i"

definition type_closes ::
  "('v::linorder nat_poly \<Rightarrow> (u64, 'e) result) \<Rightarrow> 'v symbolic_type \<Rightarrow> concrete_type \<Rightarrow> bool" where
  "type_closes close = rel_checked_type (=) (axis_closes close) (\<lambda>form n. close form = Inr n)"

definition arg_closes ::
  "('v::linorder nat_poly \<Rightarrow> (u64, 'e) result) \<Rightarrow> 'v symbolic_arg \<Rightarrow> concrete_arg \<Rightarrow> bool" where
  "arg_closes close = rel_generic_arg (=) (axis_closes close) (\<lambda>form n. close form = Inr n)"

lemma inst_nat_iff: "inst_nat close form = Inr n \<longleftrightarrow> close form = Inr n"
  by (simp add: inst_nat_def map_err_Inr_iff)

lemma inst_index_iff:
  "inst_index close ix = Inr c \<longleftrightarrow> rel_index_ref (=) (axis_closes close) ix c"
proof (cases ix)
  case (FiniteAxis f)
  have fin: "finite_index_try_from n = Inr i \<longleftrightarrow> n = fin_cardinality i \<and> finite_index_ok i" for n i
    by (auto simp: finite_index_try_from_iff)
  show ?thesis
    by (cases f; cases c) (auto simp: FiniteAxis inst_index_def inst_nat_iff result_iffs fin)
qed (cases c; auto simp: inst_index_def)

lemma try_map_list_all2:
  assumes "\<And>x y. x \<in> set xs \<Longrightarrow> f x = Inr y \<longleftrightarrow> R x y"
  shows "try_map f xs = Inr ys \<longleftrightarrow> list_all2 R xs ys"
  unfolding try_map_Inr_iff list_all2_conv_all_nth using assms by (metis nth_mem)

lemma type_closes_simps:
  "type_closes close (QuantityT d) c \<longleftrightarrow> c = QuantityT d"
  "type_closes close (ComplexT d) c \<longleftrightarrow> c = ComplexT d"
  "type_closes close BoolT c \<longleftrightarrow> c = BoolT"
  "type_closes close IntT c \<longleftrightarrow> c = IntT"
  "type_closes close (DatetimeT scale) c \<longleftrightarrow> c = DatetimeT scale"
  "type_closes close (KeyT ix) c \<longleftrightarrow> (\<exists>i. c = KeyT i \<and> rel_index_ref (=) (axis_closes close) ix i)"
  "type_closes close (StructT name args) c \<longleftrightarrow>
     (\<exists>ds. c = StructT name ds \<and> list_all2 (arg_closes close) args ds)"
  "type_closes close (IndexedT element ix) c \<longleftrightarrow>
     (\<exists>e i. c = IndexedT e i \<and> type_closes close element e \<and> rel_index_ref (=) (axis_closes close) ix i)"
  by (cases c; auto simp: type_closes_def arg_closes_def)+

lemma arg_closes_simps:
  "arg_closes close (DimArg q) d \<longleftrightarrow> d = DimArg q"
  "arg_closes close (IndexArg ix) d \<longleftrightarrow> (\<exists>i. d = IndexArg i \<and> rel_index_ref (=) (axis_closes close) ix i)"
  "arg_closes close (NatArg form) d \<longleftrightarrow> (\<exists>n. d = NatArg n \<and> close form = Inr n)"
  "arg_closes close (TypeArg ty) d \<longleftrightarrow> (\<exists>t. d = TypeArg t \<and> type_closes close ty t)"
  by (cases d; auto simp: type_closes_def arg_closes_def)+

lemma inst_closes:
  fixes close :: "'v::linorder nat_poly \<Rightarrow> (u64, 'e) result"
  shows "inst_type close ty = Inr c \<longleftrightarrow> type_closes close ty c"
    and "inst_arg close a = Inr d \<longleftrightarrow> arg_closes close a d"
proof (induction close ty and close a arbitrary: c and d rule: inst_type_inst_arg.induct)
  case (7 close name args)
  then have "try_map (inst_arg close) args = Inr ds \<longleftrightarrow> list_all2 (arg_closes close) args ds" for ds
    by (rule try_map_list_all2)
  then show ?case by (auto simp: type_closes_simps res_map_Inr_iff)
next
  case (8 close element ix)
  show ?case using 8 by (auto simp: type_closes_simps result_iffs inst_index_iff)
next
  case (12 close ty)
  show ?case using 12 by (auto simp: arg_closes_simps res_map_Inr_iff)
qed (auto simp: type_closes_simps arg_closes_simps inst_index_iff inst_nat_iff res_map_Inr_iff)

text \<open>The invariant of symbolic types: constant axes are concrete and validated, Nat forms are in
  normal form.\<close>

fun finite_ref_ok :: "'v::linorder finite_index_ref \<Rightarrow> bool" where
  "finite_ref_ok (ConcreteFin i) = finite_index_ok i"
| "finite_ref_ok (SymbolicFin form) = (poly_ok form \<and> \<not> is_constant form)"

definition symbolic_ok :: "'v::linorder symbolic_type \<Rightarrow> bool" where
  "symbolic_ok = pred_checked_type (\<lambda>_. True) finite_ref_ok poly_ok"

definition symbolic_arg_ok :: "'v::linorder symbolic_arg \<Rightarrow> bool" where
  "symbolic_arg_ok = pred_generic_arg (\<lambda>_. True) finite_ref_ok poly_ok"

lemma finite_ref_from_form_ok:
  "poly_ok form \<Longrightarrow> finite_ref_from_form form = Inr f \<Longrightarrow> finite_ref_ok f"
  by (auto simp: finite_ref_from_form_def res_map_Inr_iff finite_index_try_from_iff split: if_splits)

lemma finite_ref_from_form_form:
  assumes "poly_ok form" "finite_ref_from_form form = Inr f"
  shows "finite_ref_form f = form"
proof (cases "is_constant form")
  case True
  then have "form = from_constant (poly_constant form)"
    using constant_value_iff [OF assms(1), of "poly_constant form"] by (simp add: constant_value_def)
  then show ?thesis
    using True assms(2) by (auto simp: finite_ref_from_form_def res_map_Inr_iff finite_index_try_from_iff)
qed (use assms(2) in \<open>auto simp: finite_ref_from_form_def\<close>)

lemma constant_only_iff: "poly_ok form \<Longrightarrow> constant_only form = Inr n \<longleftrightarrow> form = from_constant n"
  by (simp add: constant_only_def ok_or_Inr_iff constant_value_iff)

lemma constant_only_symbolic: "\<not> is_constant form \<Longrightarrow> constant_only form \<noteq> Inr n"
  by (simp add: constant_only_def ok_or_Inr_iff constant_value_def)

lemma index_closes_constant:
  assumes "pred_index_ref (\<lambda>_. True) finite_ref_ok ix"
  shows "rel_index_ref (=) (axis_closes constant_only) ix c \<longleftrightarrow> ix = index_to_symbolic c"
proof (cases ix)
  case (FiniteAxis f)
  then show ?thesis
    using assms by (cases f; cases c) (auto simp: constant_only_symbolic)
qed (cases c; auto)

lemma closes_constant:
  fixes ty :: "'v::linorder symbolic_type" and a :: "'v symbolic_arg"
  shows "symbolic_ok ty \<Longrightarrow> type_closes constant_only ty c \<longleftrightarrow> ty = type_to_symbolic c"
    and "symbolic_arg_ok a \<Longrightarrow> arg_closes constant_only a d \<longleftrightarrow> a = arg_to_symbolic d"
proof (induction ty and a arbitrary: c and d)
  case (StructT name args)
  have ok: "symbolic_arg_ok x" if "x \<in> set args" for x
    using StructT(2) that by (auto simp: symbolic_ok_def symbolic_arg_ok_def list.pred_set)
  have "list_all2 (arg_closes constant_only) args ds \<longleftrightarrow> args = map arg_to_symbolic ds" for ds
    using StructT(1) ok by (auto simp: list_all2_conv_all_nth list_eq_iff_nth_eq)
  then show ?case by (cases c) (auto simp: type_closes_simps)
next
  case (IndexedT element ix)
  then have "symbolic_ok element" "pred_index_ref (\<lambda>_. True) finite_ref_ok ix"
    by (auto simp: symbolic_ok_def)
  then show ?case using IndexedT(1) index_closes_constant by (cases c) (auto simp: type_closes_simps)
next
  case (KeyT ix)
  then show ?case using index_closes_constant [of ix]
    by (cases c) (auto simp: type_closes_simps symbolic_ok_def)
next
  case (IndexArg ix)
  then show ?case using index_closes_constant [of ix]
    by (cases d) (auto simp: arg_closes_simps symbolic_arg_ok_def)
next
  case (NatArg form)
  then show ?case by (cases d) (auto simp: arg_closes_simps symbolic_arg_ok_def constant_only_iff)
next
  case (TypeArg ty)
  then have "symbolic_ok ty" by (simp add: symbolic_ok_def symbolic_arg_ok_def)
  then show ?case using TypeArg(1) by (cases d) (auto simp: arg_closes_simps)
next
  case (DimArg q)
  show ?case by (cases d) (auto simp: arg_closes_simps)
next
  case (QuantityT q)
  show ?case by (cases c) (auto simp: type_closes_simps)
next
  case (ComplexT q)
  show ?case by (cases c) (auto simp: type_closes_simps)
next
  case BoolT
  show ?case by (cases c) (auto simp: type_closes_simps)
next
  case IntT
  show ?case by (cases c) (auto simp: type_closes_simps)
next
  case (DatetimeT scale)
  show ?case by (cases c) (auto simp: type_closes_simps)
qed

lemma result_ok_iff: "result_ok r = Some x \<longleftrightarrow> r = Inr x"
  by (cases r) (simp_all add: result_ok_def)

lemma index_to_symbolic_ok:
  "pred_index_ref (\<lambda>_. True) finite_index_ok ix \<Longrightarrow> pred_index_ref (\<lambda>_. True) finite_ref_ok (index_to_symbolic ix)"
  by (cases ix) simp_all

lemma to_symbolic_ok:
  fixes c :: concrete_type and d :: concrete_arg
  shows "pred_checked_type (\<lambda>_. True) finite_index_ok (\<lambda>_. True) c \<Longrightarrow>
      symbolic_ok (type_to_symbolic c :: 'v::linorder symbolic_type)"
    and "pred_generic_arg (\<lambda>_. True) finite_index_ok (\<lambda>_. True) d \<Longrightarrow>
      symbolic_arg_ok (arg_to_symbolic d :: 'v symbolic_arg)"
proof (induction c and d)
  case (StructT name args)
  then show ?case by (auto simp: symbolic_ok_def symbolic_arg_ok_def list.pred_set)
qed (auto simp: symbolic_ok_def symbolic_arg_ok_def index_to_symbolic_ok)

lemma peel_axes_rank: "length (fst (peel_axes ty)) = indexed_rank ty"
  by (induction ty rule: peel_axes.induct) (auto split: prod.splits)

section \<open>Properties\<close>

text \<open>C31: instantiation keeps the structure of a type: it succeeds with \<open>c\<close> exactly when \<open>c\<close> is the
  type with every symbolic axis closed to a validated cardinality, every \<open>Nat\<close> argument closed
  to its number and everything else unchanged.\<close>

theorem type_instantiation:
  "inst_type close ty = Inr c \<longleftrightarrow>
     rel_checked_type (=) (axis_closes close) (\<lambda>form n. close form = Inr n) ty c"
  using inst_closes(1) unfolding type_closes_def .

text \<open>The concrete types are exactly the symbolic types without \<open>Nat\<close> variables: a well-formed
  symbolic type has the concrete form \<open>c\<close> exactly when it is the symbolic view of \<open>c\<close>.\<close>

theorem concrete_types_embed:
  fixes ty :: "'v::linorder symbolic_type"
  assumes "symbolic_ok ty"
  shows "type_to_concrete ty = Some c \<longleftrightarrow> ty = type_to_symbolic c"
  unfolding type_to_concrete_def result_ok_iff inst_closes closes_constant(1) [OF assms] by (rule refl)

theorem concrete_types_embed_witness:
  "type_to_concrete (IndexedT IntT (FiniteAxis (ConcreteFin (FiniteIndex 3))) :: nat symbolic_type) =
     Some (IndexedT IntT (FiniteAxis (FiniteIndex 3)))"
proof -
  let ?c = "IndexedT IntT (FiniteAxis (FiniteIndex 3)) :: concrete_type"
  have "symbolic_ok (type_to_symbolic ?c :: nat symbolic_type)"
    by (rule to_symbolic_ok) (simp add: finite_index_ok_def max_index_cardinality_def)
  from concrete_types_embed [OF this, of ?c] show ?thesis by simp
qed

text \<open>A shape is materialised exactly for indexed types whose axes all have a known cardinality
  and whose number of elements is at most the allocation limit; its total is that number, so
  nothing overflows.\<close>

theorem shapes_bounded:
  assumes "\<And>ix n. cardinality ix = Inr (Some n) \<Longrightarrow> 0 < unat n"
  shows "type_materialized_shape from cardinality ty = Inr (Some shape) \<longleftrightarrow>
    0 < indexed_rank ty \<and>
    map cardinality (fst (peel_axes ty)) = map (\<lambda>n. Inr (Some n)) (shape_axes shape) \<and>
    unat (shape_total shape) = prod_list (map unat (shape_axes shape)) \<and>
    unat (shape_total shape) \<le> max_index_cardinality"
proof -
  let ?axes = "fst (peel_axes ty)"
  have known: "map cardinality ?axes = map (\<lambda>n. Inr (Some n)) ns \<longleftrightarrow> try_map cardinality ?axes = Inr (map Some ns)" for ns
    unfolding try_map_Inr_iff by (auto simp: list_all2_conv_all_nth list_eq_iff_nth_eq)
  have pos: "\<forall>n \<in> set ns. 0 < unat n" if "map cardinality ?axes = map (\<lambda>n. Inr (Some n)) ns" for ns
    using that assms by (metis (no_types, lifting) in_set_conv_nth length_map nth_map)
  have len: "map cardinality ?axes = map (\<lambda>n. Inr (Some n)) ns \<Longrightarrow> ns = [] \<longleftrightarrow> indexed_rank ty = 0" for ns
    using peel_axes_rank [of ty] by (metis length_0_conv length_map)
  have "type_materialized_shape from cardinality ty = Inr (Some shape) \<longleftrightarrow>
      (\<exists>ns. try_map cardinality ?axes = Inr (map Some ns) \<and> ns \<noteq> [] \<and> shape_try_new ns = Inr shape)"
  proof (cases "try_map cardinality ?axes")
    case (Inr sizes)
    then show ?thesis
    proof (cases "collect_options sizes")
      case None
      then have "sizes \<noteq> map Some ns" for ns using collect_options_Some_iff [of sizes ns] by auto
      then show ?thesis using Inr None by (simp add: type_materialized_shape_def)
    next
      case (Some ns)
      then have "sizes = map Some ns" by (simp add: collect_options_Some_iff)
      moreover have "map Some ms = map Some ns \<longleftrightarrow> ms = ns" for ms by (simp add: inj_map_eq_map)
      ultimately show ?thesis
        using Inr Some by (auto simp: type_materialized_shape_def res_map_Inr_iff map_err_Inr_iff)
    qed
  qed (simp add: type_materialized_shape_def)
  also have "\<dots> \<longleftrightarrow>
      (\<exists>ns. map cardinality ?axes = map (\<lambda>n. Inr (Some n)) ns \<and> ns \<noteq> [] \<and> shape_try_new ns = Inr shape)"
    by (simp only: known)
  also have "\<dots> \<longleftrightarrow> (\<exists>ns. map cardinality ?axes = map (\<lambda>n. Inr (Some n)) ns \<and> 0 < indexed_rank ty \<and>
      shape_axes shape = ns \<and> unat (shape_total shape) = prod_list (map unat ns) \<and>
      unat (shape_total shape) \<le> max_index_cardinality)"
  proof (rule ex_cong1, rule conj_cong [OF refl])
    fix ns
    assume ns: "map cardinality ?axes = map (\<lambda>n. Inr (Some n)) ns"
    have "shape_try_new ns = Inr shape \<longleftrightarrow> shape_axes shape = ns \<and> eager_cardinality ns = Inr (shape_total shape)"
      by (cases shape) (auto simp: shape_try_new_def res_map_Inr_iff)
    then show "ns \<noteq> [] \<and> shape_try_new ns = Inr shape \<longleftrightarrow> 0 < indexed_rank ty \<and>
        shape_axes shape = ns \<and> unat (shape_total shape) = prod_list (map unat ns) \<and>
        unat (shape_total shape) \<le> max_index_cardinality"
      using eager_cardinality_iff [OF pos [OF ns]] len [OF ns] by auto
  qed
  finally show ?thesis by auto
qed

theorem shapes_bounded_witness:
  "type_materialized_shape id (\<lambda>_. Inr (Some 3))
     (IndexedT (IndexedT IntT (FiniteAxis (FiniteIndex 3))) (FiniteAxis (FiniteIndex 3)) :: concrete_type) =
   Inr (Some \<lparr>shape_axes = [3, 3], shape_total = 9\<rparr>)"
  by (subst shapes_bounded) (auto simp: max_index_cardinality_def)

end
