(* ===== verification/Operator_Typing.thy ===== *)
theory Operator_Typing
  imports Checked_Type Int_Kernels
begin

text \<open>
  The typing rules of the operators (\<open>tir/operator_typing.rs\<close>), with the diagnostics they report
  (\<open>semantic_error/dimension.rs\<close>, \<open>semantic_error/dimension_mismatch.rs\<close>, restricted to the
  constructors these rules build). Each operator group is a function over the operand types; the
  lemmas give a declarative typing relation, show that the rules decide it, and that key
  arithmetic is sound for every value of the \<open>Nat\<close> parameters.
\<close>

section \<open>Diagnostics\<close>

datatype non_quantity_value =
    ComplexValue | BoolValue | IntValue | DatetimeValue | KeyValue | StructValue | IndexedValue

datatype fin_key_arithmetic_rule =
    NamedOrCoordinateKey | KeySubtraction | IntegerAddend | RuntimeOffset | NegativeAddend

datatype operand_expectation =
    ExpectQuantityType | ExpectInt | ExpectBool | ExpectStaticNatConstant | ExpectOrderedQuantity
  | ExpectTimeQuantity | ExpectTime | ExpectNonNegativeIntExponent
  | ExpectNonNegativeExactIntExponent | ExpectDimensionlessExponent | ExpectIntOrQuantity

datatype mismatch_operand =
    SpelledType string
  | SpelledDimension string
  | Expected operand_expectation
  | IntExponent int
  | ModuloOperands string string

datatype mismatch_rule =
    ExpectedQuantity non_quantity_value
  | ToFloatInt
  | IntDivisionOperands int_division_fn
  | FinKeyArithmetic fin_key_arithmetic_rule
  | BooleanOperands
  | EqualitySameType
  | ComplexUnordered
  | ComparisonSameType
  | DatetimeComparisonScales
  | ComparisonSameDimension
  | FinKeyArithmeticKeyFirst
  | ComplexAdditionSameDimension
  | NoImplicitComplexPromotion
  | DatetimeSubtractionScales
  | DatetimeAddition
  | DurationAddSubtract
  | DurationAdd
  | DatetimeFromQuantity
  | AdditionSameDimension
  | ModuloInt
  | NonNegativeExponent
  | ExactIntegerExponent
  | DimensionlessExponent
  | LogicalNot
  | Negation
  | IfConditionBool
  | IfBranchesSameDimension

datatype utc_arithmetic = UtcDifference | UtcShift

datatype typing_error =
    DimensionMismatch mismatch_operand mismatch_operand mismatch_rule
  | IndexedComparisonOperand string
  | UtcDatetimeArithmetic utc_arithmetic
  | DimensionOverflow
  | IntOperandDivision
  | FloatPowerExponent "string option"
  | RuntimeExponentForDimensionedBase
  | NatOverflow nat_overflow
  | InvalidFiniteIndexCardinality index_cardinality_error

record ('src, 's) semantic_error =
  se_source :: 'src
  se_span :: 's
  se_kind :: typing_error

section \<open>Operands\<close>

text \<open>The formatting registry, the source and the rendering of generic parameters.\<close>

record ('v, 'src) typing_context =
  tc_show :: "'v \<Rightarrow> string"
  tc_dims :: formatting_registry
  tc_source :: 'src

record ('v, 's) operand =
  op_type :: "'v symbolic_type"
  op_span :: 's

datatype power_exponent = is_ExactExponent: ExactExponent ratio | FloatSyntax "ratio option" | RuntimeExponent

datatype bin_op =
    AddBin | SubBin | MulBin | DivBin | ModBin | is_PowBin: PowBin power_exponent
  | EqBin | NeBin | LtBin | GtBin | LeBin | GeBin | AndBin | OrBin

datatype unary_op = NegOp | NotOp

definition located :: "('v, 'src) typing_context \<Rightarrow> 's \<Rightarrow> typing_error \<Rightarrow> ('a, ('src, 's) semantic_error) result" where
  "located cx sp kind = Inl \<lparr>se_source = tc_source cx, se_span = sp, se_kind = kind\<rparr>"

definition located_err :: "('v, 'src) typing_context \<Rightarrow> 's \<Rightarrow> typing_error \<Rightarrow> ('src, 's) semantic_error" where
  "located_err cx sp kind = \<lparr>se_source = tc_source cx, se_span = sp, se_kind = kind\<rparr>"

definition spelling :: "('v::linorder, 'src) typing_context \<Rightarrow> 'v symbolic_type \<Rightarrow> mismatch_operand" where
  "spelling cx ty = SpelledType (type_format (tc_show cx) symbolic_cv (tc_dims cx) ty)"

definition dim_spelling :: "('v, 'src) typing_context \<Rightarrow> dimension \<Rightarrow> mismatch_operand" where
  "dim_spelling cx d = SpelledDimension (format_dimension (tc_dims cx) d)"

definition not_a_quantity ::
  "non_quantity_value \<Rightarrow> ('v::linorder, 'src) typing_context \<Rightarrow> 'v symbolic_type \<Rightarrow> 's \<Rightarrow> ('src, 's) semantic_error" where
  "not_a_quantity found cx ty sp =
     located_err cx sp (DimensionMismatch (Expected ExpectQuantityType) (spelling cx ty) (ExpectedQuantity found))"

definition expect_quantity ::
  "('v::linorder, 'src) typing_context \<Rightarrow> 'v symbolic_type \<Rightarrow> 's \<Rightarrow> (dimension, ('src, 's) semantic_error) result" where
  "expect_quantity cx ty sp =
     (let reject = (\<lambda>found. Inl (not_a_quantity found cx ty sp)) in
      case ty of
        QuantityT d \<Rightarrow> Inr d
      | ComplexT _ \<Rightarrow> reject ComplexValue
      | BoolT \<Rightarrow> reject BoolValue
      | IntT \<Rightarrow> reject IntValue
      | DatetimeT _ \<Rightarrow> reject DatetimeValue
      | KeyT _ \<Rightarrow> reject KeyValue
      | StructT _ _ \<Rightarrow> reject StructValue
      | IndexedT _ _ \<Rightarrow> reject IndexedValue)"

definition comparison_operand_type ::
  "('v::linorder, 'src) typing_context \<Rightarrow> ('v, 's) operand \<Rightarrow> ('v symbolic_type, ('src, 's) semantic_error) result" where
  "comparison_operand_type cx operand =
     (case op_type operand of
        IndexedT _ _ \<Rightarrow> located cx (op_span operand)
          (IndexedComparisonOperand (type_format (tc_show cx) symbolic_cv (tc_dims cx) (op_type operand)))
      | ty \<Rightarrow> Inr ty)"

definition exact_float_replacement :: "ratio option \<Rightarrow> string option" where
  "exact_float_replacement exact =
     Option.bind exact (\<lambda>e. case ratio_narrow e of Inr r \<Rightarrow> Some (source_syntax r) | Inl _ \<Rightarrow> None)"

definition u64_try_from_i64 :: "i64 \<Rightarrow> u64 option" where
  "u64_try_from_i64 a = (if sint a < 0 then None else Some a)"

text \<open>Every scale but UTC is a continuous count of seconds.\<close>

fun reject_utc_arithmetic ::
  "('v, 'src) typing_context \<Rightarrow> time_scale \<Rightarrow> utc_arithmetic \<Rightarrow> 's \<Rightarrow> (unit, ('src, 's) semantic_error) result" where
  "reject_utc_arithmetic cx UTC operation sp = located cx sp (UtcDatetimeArithmetic operation)"
| "reject_utc_arithmetic cx _ operation sp = Inr ()"

definition product_operand ::
  "('v::linorder, 'src) typing_context \<Rightarrow> ('v, 's) operand \<Rightarrow> (dimension \<times> bool, ('src, 's) semantic_error) result" where
  "product_operand cx operand =
     (case op_type operand of
        ComplexT d \<Rightarrow> Inr (d, True)
      | IntT \<Rightarrow> Inr (dimensionless, False)
      | other \<Rightarrow> res_bind (expect_quantity cx other (op_span operand)) (\<lambda>d. Inr (d, False)))"

definition time_dimension :: dimension where
  "time_dimension = dim_base (Prelude Time)"

section \<open>Key arithmetic\<close>

definition fin_key_additive_rule ::
  "('v::linorder, 'src) typing_context \<Rightarrow> bin_op \<Rightarrow> 'v symbolic_index \<Rightarrow> ('v, 's) operand \<Rightarrow> i64 option \<Rightarrow>
   ('v symbolic_type, ('src, 's) semantic_error) result" where
  "fin_key_additive_rule cx op key_index rhs rhs_const_int =
     (let reject = (\<lambda>help. located cx (op_span rhs)
        (DimensionMismatch (Expected ExpectStaticNatConstant) (spelling cx (op_type rhs)) (FinKeyArithmetic help)))
      in case index_form symbolic_cv key_index of
           None \<Rightarrow> reject NamedOrCoordinateKey
         | Some bound \<Rightarrow>
             if op \<noteq> AddBin then reject KeySubtraction
             else if op_type rhs \<noteq> IntT then reject IntegerAddend
             else (case rhs_const_int of
               None \<Rightarrow> reject RuntimeOffset
             | Some addend \<Rightarrow> (case u64_try_from_i64 addend of
                 None \<Rightarrow> reject NegativeAddend
               | Some addend \<Rightarrow>
                   res_bind (map_err (\<lambda>err. located_err cx (op_span rhs) (NatOverflow err))
                     (poly_add bound (from_constant addend))) (\<lambda>shifted.
                   map_err (\<lambda>err. located_err cx (op_span rhs) (InvalidFiniteIndexCardinality err))
                     (res_map KeyT (index_from_form shifted))))))"

section \<open>Binary operators\<close>

definition logical_rule ::
  "('v::linorder, 'src) typing_context \<Rightarrow> ('v, 's) operand \<Rightarrow> ('v, 's) operand \<Rightarrow>
   ('v symbolic_type, ('src, 's) semantic_error) result" where
  "logical_rule cx lhs rhs =
     (if op_type lhs \<noteq> BoolT then located cx (op_span lhs)
        (DimensionMismatch (Expected ExpectBool) (spelling cx (op_type lhs)) BooleanOperands)
      else if op_type rhs \<noteq> BoolT then located cx (op_span rhs)
        (DimensionMismatch (Expected ExpectBool) (spelling cx (op_type rhs)) BooleanOperands)
      else Inr BoolT)"

definition equality_rule ::
  "('v::linorder, 'src) typing_context \<Rightarrow> ('v, 's) operand \<Rightarrow> ('v, 's) operand \<Rightarrow>
   ('v symbolic_type, ('src, 's) semantic_error) result" where
  "equality_rule cx lhs rhs =
     res_bind (comparison_operand_type cx lhs) (\<lambda>l.
     res_bind (comparison_operand_type cx rhs) (\<lambda>r.
       if same_type l r then Inr BoolT
       else if quantity_dimension l \<noteq> None \<and> quantity_dimension l = quantity_dimension r then Inr BoolT
       else located cx (op_span rhs) (DimensionMismatch (spelling cx l) (spelling cx r) EqualitySameType)))"

definition ordering_rule ::
  "('v::linorder, 'src) typing_context \<Rightarrow> ('v, 's) operand \<Rightarrow> ('v, 's) operand \<Rightarrow>
   ('v symbolic_type, ('src, 's) semantic_error) result" where
  "ordering_rule cx lhs rhs =
     res_bind (comparison_operand_type cx lhs) (\<lambda>l.
     res_bind (comparison_operand_type cx rhs) (\<lambda>r.
       let mismatch = (\<lambda>rule. located cx (op_span rhs) (DimensionMismatch (spelling cx l) (spelling cx r) rule)) in
       if complex_dimension l \<noteq> None \<or> complex_dimension r \<noteq> None
       then located cx (if complex_dimension l \<noteq> None then op_span lhs else op_span rhs)
              (DimensionMismatch (Expected ExpectOrderedQuantity)
                (spelling cx (if complex_dimension l \<noteq> None then l else r)) ComplexUnordered)
       else if l = IntT \<or> r = IntT then
         (if l \<noteq> IntT \<or> r \<noteq> IntT then mismatch ComparisonSameType else Inr BoolT)
       else (case (l, r) of
         (DatetimeT ls, DatetimeT rs) \<Rightarrow> if ls \<noteq> rs then mismatch DatetimeComparisonScales else Inr BoolT
       | _ \<Rightarrow>
         res_bind (expect_quantity cx l (op_span lhs)) (\<lambda>lhs_dim.
         res_bind (expect_quantity cx r (op_span rhs)) (\<lambda>rhs_dim.
           if lhs_dim \<noteq> rhs_dim then located cx (op_span rhs)
             (DimensionMismatch (dim_spelling cx lhs_dim) (dim_spelling cx rhs_dim) ComparisonSameDimension)
           else Inr BoolT)))))"

text \<open>A datetime on the left: a difference of datetimes, or a shift by a duration.\<close>

definition datetime_lhs_rule ::
  "('v::linorder, 'src) typing_context \<Rightarrow> 's \<Rightarrow> bin_op \<Rightarrow> time_scale \<Rightarrow> ('v, 's) operand \<Rightarrow> ('v, 's) operand \<Rightarrow>
   ('v symbolic_type, ('src, 's) semantic_error) result" where
  "datetime_lhs_rule cx expr_span op ls lhs rhs =
     (case op_type rhs of
        DatetimeT rs \<Rightarrow>
          if op = SubBin then
            (if ls \<noteq> rs then located cx (op_span rhs)
               (DimensionMismatch (spelling cx (op_type lhs)) (spelling cx (op_type rhs)) DatetimeSubtractionScales)
             else res_bind (reject_utc_arithmetic cx ls UtcDifference expr_span) (\<lambda>_.
               Inr (QuantityT time_dimension)))
          else located cx (op_span rhs)
            (DimensionMismatch (Expected ExpectTimeQuantity) (spelling cx (op_type rhs)) DatetimeAddition)
      | other \<Rightarrow>
          res_bind (expect_quantity cx other (op_span rhs)) (\<lambda>rhs_dim.
            if rhs_dim \<noteq> time_dimension then located cx (op_span rhs)
              (DimensionMismatch (Expected ExpectTime) (dim_spelling cx rhs_dim) DurationAddSubtract)
            else res_bind (reject_utc_arithmetic cx ls UtcShift expr_span) (\<lambda>_. Inr (DatetimeT ls))))"

definition datetime_rhs_rule ::
  "('v::linorder, 'src) typing_context \<Rightarrow> 's \<Rightarrow> bin_op \<Rightarrow> time_scale \<Rightarrow> ('v, 's) operand \<Rightarrow> ('v, 's) operand \<Rightarrow>
   ('v symbolic_type, ('src, 's) semantic_error) result" where
  "datetime_rhs_rule cx expr_span op rs lhs rhs =
     (if op = AddBin then
        res_bind (expect_quantity cx (op_type lhs) (op_span lhs)) (\<lambda>lhs_dim.
          if lhs_dim \<noteq> time_dimension then located cx (op_span lhs)
            (DimensionMismatch (Expected ExpectTime) (dim_spelling cx lhs_dim) DurationAdd)
          else res_bind (reject_utc_arithmetic cx rs UtcShift expr_span) (\<lambda>_. Inr (DatetimeT rs)))
      else located cx (op_span rhs)
        (DimensionMismatch (spelling cx (op_type lhs)) (spelling cx (op_type rhs)) DatetimeFromQuantity))"

definition additive_rule ::
  "('v::linorder, 'src) typing_context \<Rightarrow> 's \<Rightarrow> bin_op \<Rightarrow> ('v, 's) operand \<Rightarrow> ('v, 's) operand \<Rightarrow> i64 option \<Rightarrow>
   ('v symbolic_type, ('src, 's) semantic_error) result" where
  "additive_rule cx expr_span op lhs rhs rhs_const_int =
     (let mismatch = (\<lambda>rule. located cx (op_span rhs)
            (DimensionMismatch (spelling cx (op_type lhs)) (spelling cx (op_type rhs)) rule)) in
      case (op_type lhs, op_type rhs) of
        (KeyT key_index, _) \<Rightarrow> fin_key_additive_rule cx op key_index rhs rhs_const_int
      | (_, KeyT _) \<Rightarrow> mismatch FinKeyArithmeticKeyFirst
      | (IntT, IntT) \<Rightarrow> Inr IntT
      | (ComplexT lhs_dim, ComplexT rhs_dim) \<Rightarrow>
          if lhs_dim \<noteq> rhs_dim then mismatch ComplexAdditionSameDimension else Inr (ComplexT lhs_dim)
      | (ComplexT _, _) \<Rightarrow> mismatch NoImplicitComplexPromotion
      | (_, ComplexT _) \<Rightarrow> mismatch NoImplicitComplexPromotion
      | (DatetimeT ls, _) \<Rightarrow> datetime_lhs_rule cx expr_span op ls lhs rhs
      | (_, DatetimeT rs) \<Rightarrow> datetime_rhs_rule cx expr_span op rs lhs rhs
      | (l, r) \<Rightarrow>
          res_bind (expect_quantity cx l (op_span lhs)) (\<lambda>lhs_dim.
          res_bind (expect_quantity cx r (op_span rhs)) (\<lambda>rhs_dim.
            if lhs_dim \<noteq> rhs_dim then located cx (op_span rhs)
              (DimensionMismatch (dim_spelling cx lhs_dim) (dim_spelling cx rhs_dim) AdditionSameDimension)
            else Inr (QuantityT lhs_dim))))"

definition product_type :: "bool \<Rightarrow> dimension \<Rightarrow> 'v symbolic_type" where
  "product_type is_complex d = (if is_complex then ComplexT d else QuantityT d)"

definition multiplication_rule ::
  "('v::linorder, 'src) typing_context \<Rightarrow> 's \<Rightarrow> ('v, 's) operand \<Rightarrow> ('v, 's) operand \<Rightarrow>
   ('v symbolic_type, ('src, 's) semantic_error) result" where
  "multiplication_rule cx expr_span lhs rhs =
     (if op_type lhs = IntT \<and> op_type rhs = IntT then Inr IntT
      else res_bind (product_operand cx lhs) (\<lambda>(lhs_dim, lhs_complex).
        res_bind (product_operand cx rhs) (\<lambda>(rhs_dim, rhs_complex).
        res_bind (map_err (\<lambda>_. located_err cx expr_span DimensionOverflow) (dim_mul lhs_dim rhs_dim)) (\<lambda>d.
          Inr (product_type (lhs_complex \<or> rhs_complex) d)))))"

definition division_rule ::
  "('v::linorder, 'src) typing_context \<Rightarrow> 's \<Rightarrow> ('v, 's) operand \<Rightarrow> ('v, 's) operand \<Rightarrow>
   ('v symbolic_type, ('src, 's) semantic_error) result" where
  "division_rule cx expr_span lhs rhs =
     (if op_type lhs = IntT \<and> op_type rhs = IntT then located cx expr_span IntOperandDivision
      else res_bind (product_operand cx lhs) (\<lambda>(lhs_dim, lhs_complex).
        res_bind (product_operand cx rhs) (\<lambda>(rhs_dim, rhs_complex).
        res_bind (map_err (\<lambda>_. located_err cx expr_span DimensionOverflow) (dim_div lhs_dim rhs_dim)) (\<lambda>d.
          Inr (product_type (lhs_complex \<or> rhs_complex) d)))))"

definition modulo_rule ::
  "('v::linorder, 'src) typing_context \<Rightarrow> 's \<Rightarrow> ('v, 's) operand \<Rightarrow> ('v, 's) operand \<Rightarrow>
   ('v symbolic_type, ('src, 's) semantic_error) result" where
  "modulo_rule cx expr_span lhs rhs =
     (if op_type lhs = IntT \<and> op_type rhs = IntT then Inr IntT
      else located cx expr_span (DimensionMismatch (Expected ExpectInt)
        (ModuloOperands (type_format (tc_show cx) symbolic_cv (tc_dims cx) (op_type lhs))
          (type_format (tc_show cx) symbolic_cv (tc_dims cx) (op_type rhs))) ModuloInt))"


text \<open>An exact integer exponent of an \<open>Int\<close> base, or the folded value of a runtime expression.\<close>

definition int_exponent :: "power_exponent \<Rightarrow> i64 option \<Rightarrow> int option" where
  "int_exponent exponent rhs_const_int =
     (case exponent of
        ExactExponent exact \<Rightarrow> if ratio_is_integer exact then Some (r_num exact) else None
      | RuntimeExponent \<Rightarrow> map_option sint rhs_const_int
      | FloatSyntax _ \<Rightarrow> None)"

definition power_rule ::
  "('v::linorder, 'src) typing_context \<Rightarrow> 's \<Rightarrow> power_exponent \<Rightarrow> ('v, 's) operand \<Rightarrow> ('v, 's) operand \<Rightarrow>
   i64 option \<Rightarrow> ('v symbolic_type, ('src, 's) semantic_error) result" where
  "power_rule cx expr_span exponent lhs rhs rhs_const_int =
     (if op_type lhs = IntT then
        (case int_exponent exponent rhs_const_int of
           Some n \<Rightarrow>
             if 0 \<le> n then Inr IntT
             else located cx (op_span rhs)
               (DimensionMismatch (Expected ExpectNonNegativeIntExponent) (IntExponent n) NonNegativeExponent)
         | None \<Rightarrow> located cx (op_span rhs)
             (DimensionMismatch (Expected ExpectNonNegativeExactIntExponent) (spelling cx (op_type rhs))
               ExactIntegerExponent))
      else res_bind (expect_quantity cx (op_type lhs) (op_span lhs)) (\<lambda>lhs_dim.
        res_bind
          (if \<not> is_ExactExponent exponent \<and> op_type rhs \<noteq> IntT then
             res_bind (expect_quantity cx (op_type rhs) (op_span rhs)) (\<lambda>rhs_dim.
               if is_dimensionless rhs_dim then Inr ()
               else located cx (op_span rhs)
                 (DimensionMismatch (Expected ExpectDimensionlessExponent) (dim_spelling cx rhs_dim)
                   DimensionlessExponent))
           else Inr ())
          (\<lambda>_. if is_dimensionless lhs_dim then Inr (QuantityT dimensionless)
            else (case exponent of
              ExactExponent exact \<Rightarrow>
                res_bind (map_err (\<lambda>_. located_err cx (op_span rhs) DimensionOverflow) (ratio_narrow exact)) (\<lambda>r.
                res_bind (map_err (\<lambda>_. located_err cx expr_span DimensionOverflow) (dim_pow lhs_dim r)) (\<lambda>d.
                  Inr (QuantityT d)))
            | FloatSyntax exact \<Rightarrow>
                located cx (op_span rhs) (FloatPowerExponent (exact_float_replacement exact))
            | RuntimeExponent \<Rightarrow> located cx (op_span rhs) RuntimeExponentForDimensionedBase))))"

definition binop_rule ::
  "('v::linorder, 'src) typing_context \<Rightarrow> 's \<Rightarrow> bin_op \<Rightarrow> ('v, 's) operand \<Rightarrow> ('v, 's) operand \<Rightarrow> i64 option \<Rightarrow>
   ('v symbolic_type, ('src, 's) semantic_error) result" where
  "binop_rule cx expr_span op lhs rhs rhs_const_int =
     (case op of
        AndBin \<Rightarrow> logical_rule cx lhs rhs
      | OrBin \<Rightarrow> logical_rule cx lhs rhs
      | EqBin \<Rightarrow> equality_rule cx lhs rhs
      | NeBin \<Rightarrow> equality_rule cx lhs rhs
      | LtBin \<Rightarrow> ordering_rule cx lhs rhs
      | GtBin \<Rightarrow> ordering_rule cx lhs rhs
      | LeBin \<Rightarrow> ordering_rule cx lhs rhs
      | GeBin \<Rightarrow> ordering_rule cx lhs rhs
      | AddBin \<Rightarrow> additive_rule cx expr_span op lhs rhs rhs_const_int
      | SubBin \<Rightarrow> additive_rule cx expr_span op lhs rhs rhs_const_int
      | MulBin \<Rightarrow> multiplication_rule cx expr_span lhs rhs
      | DivBin \<Rightarrow> division_rule cx expr_span lhs rhs
      | ModBin \<Rightarrow> modulo_rule cx expr_span lhs rhs
      | PowBin exponent \<Rightarrow> power_rule cx expr_span exponent lhs rhs rhs_const_int)"

section \<open>Unary operators, conditionals and conversions\<close>

definition unary_rule ::
  "('v::linorder, 'src) typing_context \<Rightarrow> unary_op \<Rightarrow> ('v, 's) operand \<Rightarrow>
   ('v symbolic_type, ('src, 's) semantic_error) result" where
  "unary_rule cx op operand =
     (case op of
        NotOp \<Rightarrow>
          if op_type operand \<noteq> BoolT then located cx (op_span operand)
            (DimensionMismatch (Expected ExpectBool) (spelling cx (op_type operand)) LogicalNot)
          else Inr BoolT
      | NegOp \<Rightarrow> (case op_type operand of
            QuantityT _ \<Rightarrow> Inr (op_type operand)
          | ComplexT _ \<Rightarrow> Inr (op_type operand)
          | IntT \<Rightarrow> Inr (op_type operand)
          | other \<Rightarrow> located cx (op_span operand)
              (DimensionMismatch (Expected ExpectIntOrQuantity) (spelling cx other) Negation)))"

definition if_rule ::
  "('v::linorder, 'src) typing_context \<Rightarrow> ('v, 's) operand \<Rightarrow> ('v, 's) operand \<Rightarrow> ('v, 's) operand \<Rightarrow>
   ('v symbolic_type, ('src, 's) semantic_error) result" where
  "if_rule cx c then_branch else_branch =
     (if op_type c \<noteq> BoolT then located cx (op_span c)
        (DimensionMismatch (Expected ExpectBool) (spelling cx (op_type c)) IfConditionBool)
      else if \<not> same_type (op_type then_branch) (op_type else_branch) then
        located cx (op_span else_branch)
          (DimensionMismatch (spelling cx (op_type then_branch)) (spelling cx (op_type else_branch))
            IfBranchesSameDimension)
      else Inr (op_type then_branch))"

definition to_float_rule ::
  "('v::linorder, 'src) typing_context \<Rightarrow> ('v, 's) operand \<Rightarrow> ('v symbolic_type, ('src, 's) semantic_error) result" where
  "to_float_rule cx arg =
     (if op_type arg \<noteq> IntT then located cx (op_span arg)
        (DimensionMismatch (Expected ExpectInt) (spelling cx (op_type arg)) ToFloatInt)
      else Inr (QuantityT dimensionless))"

definition int_division_operand_rule ::
  "('v::linorder, 'src) typing_context \<Rightarrow> int_division_fn \<Rightarrow> ('v, 's) operand \<Rightarrow> (unit, ('src, 's) semantic_error) result" where
  "int_division_operand_rule cx function arg =
     (if op_type arg = IntT then Inr ()
      else located cx (op_span arg)
        (DimensionMismatch (Expected ExpectInt) (spelling cx (op_type arg)) (IntDivisionOperands function)))"


section \<open>The typing relation\<close>

text \<open>What an operand contributes to a product: its dimension and whether it is complex.\<close>

inductive factor_of :: "('a, 'f, 'n) checked_type \<Rightarrow> dimension \<Rightarrow> bool \<Rightarrow> bool" where
  factor_int: "factor_of IntT dimensionless False"
| factor_quantity: "factor_of (QuantityT d) d False"
| factor_complex: "factor_of (ComplexT d) d True"

inductive_simps factor_of_simps:
  "factor_of IntT d c"
  "factor_of (QuantityT q) d c"
  "factor_of (ComplexT q) d c"
  "factor_of BoolT d c"
  "factor_of (DatetimeT s) d c"
  "factor_of (KeyT ix) d c"
  "factor_of (StructT name args) d c"
  "factor_of (IndexedT ty ix) d c"

text \<open>The typings of a binary operator, with the constant value of an \<open>Int\<close> right operand.\<close>

inductive binop_typed ::
  "bin_op \<Rightarrow> 'v::linorder symbolic_type \<Rightarrow> 'v symbolic_type \<Rightarrow> i64 option \<Rightarrow> 'v symbolic_type \<Rightarrow> bool" where
  logical: "op = AndBin \<or> op = OrBin \<Longrightarrow> binop_typed op BoolT BoolT k BoolT"
| equality: "op = EqBin \<or> op = NeBin \<Longrightarrow> indexed_rank l = 0 \<Longrightarrow> same_type l r \<Longrightarrow> binop_typed op l r k BoolT"
| ordered_int: "op \<in> {LtBin, GtBin, LeBin, GeBin} \<Longrightarrow> binop_typed op IntT IntT k BoolT"
| ordered_datetime: "op \<in> {LtBin, GtBin, LeBin, GeBin} \<Longrightarrow> binop_typed op (DatetimeT s) (DatetimeT s) k BoolT"
| ordered_quantity: "op \<in> {LtBin, GtBin, LeBin, GeBin} \<Longrightarrow> binop_typed op (QuantityT d) (QuantityT d) k BoolT"
| add_int: "op = AddBin \<or> op = SubBin \<Longrightarrow> binop_typed op IntT IntT k IntT"
| add_quantity: "op = AddBin \<or> op = SubBin \<Longrightarrow> binop_typed op (QuantityT d) (QuantityT d) k (QuantityT d)"
| add_complex: "op = AddBin \<or> op = SubBin \<Longrightarrow> binop_typed op (ComplexT d) (ComplexT d) k (ComplexT d)"
| datetime_difference:
    "s \<noteq> UTC \<Longrightarrow> binop_typed SubBin (DatetimeT s) (DatetimeT s) k (QuantityT time_dimension)"
| datetime_shift: "op = AddBin \<or> op = SubBin \<Longrightarrow> s \<noteq> UTC \<Longrightarrow>
    binop_typed op (DatetimeT s) (QuantityT time_dimension) k (DatetimeT s)"
| shift_datetime: "s \<noteq> UTC \<Longrightarrow> binop_typed AddBin (QuantityT time_dimension) (DatetimeT s) k (DatetimeT s)"
| key_offset: "index_form symbolic_cv ix = Some bound \<Longrightarrow> 0 \<le> sint a \<Longrightarrow>
    poly_add bound (from_constant a) = Inr shifted \<Longrightarrow> index_from_form shifted = Inr ix' \<Longrightarrow>
    binop_typed AddBin (KeyT ix) IntT (Some a) (KeyT ix')"
| mul_int: "binop_typed MulBin IntT IntT k IntT"
| mul: "factor_of l a c \<Longrightarrow> factor_of r b c' \<Longrightarrow> l \<noteq> IntT \<or> r \<noteq> IntT \<Longrightarrow> dim_mul a b = Inr d \<Longrightarrow>
    binop_typed MulBin l r k (product_type (c \<or> c') d)"
| divide: "factor_of l a c \<Longrightarrow> factor_of r b c' \<Longrightarrow> l \<noteq> IntT \<or> r \<noteq> IntT \<Longrightarrow> dim_div a b = Inr d \<Longrightarrow>
    binop_typed DivBin l r k (product_type (c \<or> c') d)"
| modulo: "binop_typed ModBin IntT IntT k IntT"
| power_int: "int_exponent exponent k = Some n \<Longrightarrow> 0 \<le> n \<Longrightarrow> binop_typed (PowBin exponent) IntT r k IntT"
| power_exact: "d \<noteq> dimensionless \<Longrightarrow> ratio_narrow e = Inr q \<Longrightarrow> dim_pow d q = Inr d' \<Longrightarrow>
    binop_typed (PowBin (ExactExponent e)) (QuantityT d) r k (QuantityT d')"
| power_dimensionless: "is_ExactExponent exponent \<or> r = IntT \<or> r = QuantityT dimensionless \<Longrightarrow>
    binop_typed (PowBin exponent) (QuantityT dimensionless) r k (QuantityT dimensionless)"

inductive_cases binop_typedE: "binop_typed op l r k t"

lemma expect_quantity_iff [simp]: "expect_quantity cx ty sp = Inr d \<longleftrightarrow> ty = QuantityT d"
  by (cases ty) (simp_all add: expect_quantity_def)

lemma product_operand_iff [simp]: "product_operand cx operand = Inr (d, c) \<longleftrightarrow> factor_of (op_type operand) d c"
  by (cases "op_type operand") (auto simp: product_operand_def factor_of_simps res_bind_Inr_iff)

lemma located_not_Inr [simp]: "located cx sp kind \<noteq> Inr x" "Inr x \<noteq> located cx sp kind"
  by (simp_all add: located_def)

lemma reject_utc_iff [simp]: "reject_utc_arithmetic cx s operation sp = Inr u \<longleftrightarrow> s \<noteq> UTC"
  by (cases s) simp_all

lemma comparison_operand_iff [simp]:
  "comparison_operand_type cx operand = Inr ty \<longleftrightarrow> ty = op_type operand \<and> indexed_rank ty = 0"
  by (cases "op_type operand") (auto simp: comparison_operand_type_def)

lemma same_type_quantity [simp]:
  "same_type (QuantityT d) ty \<longleftrightarrow> ty = QuantityT d" "same_type ty (QuantityT d) \<longleftrightarrow> ty = QuantityT d"
  by (cases ty; auto simp: same_type_def)+

lemma quantity_dimension_iff [simp]:
  "quantity_dimension ty = Some d \<longleftrightarrow> ty = QuantityT d" "Some d = quantity_dimension ty \<longleftrightarrow> ty = QuantityT d"
  by (cases ty; auto)+

lemma complex_dimension_iff [simp]: "complex_dimension ty = Some d \<longleftrightarrow> ty = ComplexT d"
  by (cases ty) simp_all

lemma same_type_rank: "same_type a b \<Longrightarrow> indexed_rank a = 0 \<longleftrightarrow> indexed_rank b = 0"
  by (cases a; cases b) (simp_all add: same_type_def)

lemma logical_rule_iff: "logical_rule cx lhs rhs = Inr t \<longleftrightarrow> op_type lhs = BoolT \<and> op_type rhs = BoolT \<and> t = BoolT"
  by (auto simp: logical_rule_def)

lemma equality_rule_iff:
  "equality_rule cx lhs rhs = Inr t \<longleftrightarrow>
     indexed_rank (op_type lhs) = 0 \<and> same_type (op_type lhs) (op_type rhs) \<and> t = BoolT"
  using same_type_rank [of "op_type lhs" "op_type rhs"]
  by (auto simp: equality_rule_def res_bind_Inr_iff split: if_splits)

lemma ordering_rule_iff:
  "ordering_rule cx lhs rhs = Inr t \<longleftrightarrow>
     t = BoolT \<and> (op_type lhs = IntT \<and> op_type rhs = IntT \<or>
       (\<exists>s. op_type lhs = DatetimeT s \<and> op_type rhs = DatetimeT s) \<or>
       (\<exists>d. op_type lhs = QuantityT d \<and> op_type rhs = QuantityT d))"
  by (cases "op_type lhs"; cases "op_type rhs")
    (auto simp: ordering_rule_def res_bind_Inr_iff Let_def split: if_splits)

lemma datetime_lhs_rule_iff:
  assumes "op = AddBin \<or> op = SubBin"
  shows "datetime_lhs_rule cx sp op s lhs rhs = Inr t \<longleftrightarrow> s \<noteq> UTC \<and>
     (op = SubBin \<and> op_type rhs = DatetimeT s \<and> t = QuantityT time_dimension \<or>
      op_type rhs = QuantityT time_dimension \<and> t = DatetimeT s)"
  using assms by (cases "op_type rhs") (auto simp: datetime_lhs_rule_def res_bind_Inr_iff split: if_splits)

lemma datetime_rhs_rule_iff:
  "datetime_rhs_rule cx sp op s lhs rhs = Inr t \<longleftrightarrow>
     s \<noteq> UTC \<and> op = AddBin \<and> op_type lhs = QuantityT time_dimension \<and> t = DatetimeT s"
  by (auto simp: datetime_rhs_rule_def res_bind_Inr_iff split: if_splits)

lemma fin_key_additive_rule_iff:
  "fin_key_additive_rule cx op ix rhs k = Inr t \<longleftrightarrow>
     op = AddBin \<and> op_type rhs = IntT \<and>
     (\<exists>bound a shifted ix'. index_form symbolic_cv ix = Some bound \<and> k = Some a \<and> 0 \<le> sint a \<and>
        poly_add bound (from_constant a) = Inr shifted \<and> index_from_form shifted = Inr ix' \<and> t = KeyT ix')"
  by (auto simp: fin_key_additive_rule_def Let_def res_bind_Inr_iff map_err_Inr_iff res_map_Inr_iff
      u64_try_from_i64_def split: option.splits if_splits)

lemma additive_typed_iff:
  assumes "op = AddBin \<or> op = SubBin"
  shows "binop_typed op l r k t \<longleftrightarrow>
    (case (l, r) of
       (KeyT ix, _) \<Rightarrow> op = AddBin \<and> r = IntT \<and>
         (\<exists>bound a shifted ix'. index_form symbolic_cv ix = Some bound \<and> k = Some a \<and> 0 \<le> sint a \<and>
            poly_add bound (from_constant a) = Inr shifted \<and> index_from_form shifted = Inr ix' \<and> t = KeyT ix')
     | (IntT, IntT) \<Rightarrow> t = IntT
     | (QuantityT d, QuantityT e) \<Rightarrow> d = e \<and> t = QuantityT d
     | (ComplexT d, ComplexT e) \<Rightarrow> d = e \<and> t = ComplexT d
     | (DatetimeT s, _) \<Rightarrow> s \<noteq> UTC \<and> (op = SubBin \<and> r = DatetimeT s \<and> t = QuantityT time_dimension \<or>
         r = QuantityT time_dimension \<and> t = DatetimeT s)
     | (QuantityT d, DatetimeT s) \<Rightarrow> s \<noteq> UTC \<and> op = AddBin \<and> d = time_dimension \<and> t = DatetimeT s
     | _ \<Rightarrow> False)"
  using assms by (cases l; cases r) (auto intro: binop_typed.intros elim!: binop_typedE)

lemma additive_rule_iff:
  assumes "op = AddBin \<or> op = SubBin"
  shows "additive_rule cx sp op lhs rhs k = Inr t \<longleftrightarrow> binop_typed op (op_type lhs) (op_type rhs) k t"
  unfolding additive_typed_iff [OF assms]
  by (cases "op_type lhs"; cases "op_type rhs")
    (auto simp: additive_rule_def res_bind_Inr_iff fin_key_additive_rule_iff
      datetime_lhs_rule_iff [OF assms] datetime_rhs_rule_iff split: if_splits)

lemma power_rule_iff:
  "power_rule cx sp exponent lhs rhs k = Inr t \<longleftrightarrow> binop_typed (PowBin exponent) (op_type lhs) (op_type rhs) k t"
proof -
  have "power_rule cx sp exponent lhs rhs k = Inr t \<longleftrightarrow>
      op_type lhs = IntT \<and> t = IntT \<and> (\<exists>n. int_exponent exponent k = Some n \<and> 0 \<le> n) \<or>
      (\<exists>d. op_type lhs = QuantityT d \<and>
        (d = dimensionless \<and> t = QuantityT dimensionless \<and>
           (is_ExactExponent exponent \<or> op_type rhs = IntT \<or> op_type rhs = QuantityT dimensionless) \<or>
         d \<noteq> dimensionless \<and> (\<exists>e q d'. exponent = ExactExponent e \<and> ratio_narrow e = Inr q \<and>
           dim_pow d q = Inr d' \<and> t = QuantityT d')))"
    by (cases exponent)
      (auto simp: power_rule_def res_bind_Inr_iff map_err_Inr_iff is_dimensionless_iff
        split: option.splits if_splits)
  also have "\<dots> \<longleftrightarrow> binop_typed (PowBin exponent) (op_type lhs) (op_type rhs) k t"
    by (auto intro: binop_typed.intros elim!: binop_typedE)
  finally show ?thesis .
qed

lemma multiplication_rule_iff:
  "multiplication_rule cx sp lhs rhs = Inr t \<longleftrightarrow> binop_typed MulBin (op_type lhs) (op_type rhs) k t"
  by (auto simp: multiplication_rule_def res_bind_Inr_iff map_err_Inr_iff
      intro: binop_typed.intros elim!: binop_typedE split: if_splits) blast+

lemma division_rule_iff:
  "division_rule cx sp lhs rhs = Inr t \<longleftrightarrow> binop_typed DivBin (op_type lhs) (op_type rhs) k t"
  by (auto simp: division_rule_def res_bind_Inr_iff map_err_Inr_iff
      intro: binop_typed.intros elim!: binop_typedE split: if_splits) blast+

lemma modulo_rule_iff:
  "modulo_rule cx sp lhs rhs = Inr t \<longleftrightarrow> binop_typed ModBin (op_type lhs) (op_type rhs) k t"
  by (auto simp: modulo_rule_def intro: binop_typed.intros elim!: binop_typedE)

lemma logical_typed_iff:
  "op = AndBin \<or> op = OrBin \<Longrightarrow> binop_typed op l r k t \<longleftrightarrow> l = BoolT \<and> r = BoolT \<and> t = BoolT"
  by (auto intro: binop_typed.intros elim!: binop_typedE)

lemma equality_typed_iff:
  "op = EqBin \<or> op = NeBin \<Longrightarrow> binop_typed op l r k t \<longleftrightarrow> indexed_rank l = 0 \<and> same_type l r \<and> t = BoolT"
  by (auto intro: binop_typed.intros elim!: binop_typedE)

lemma ordered_typed_iff:
  "op \<in> {LtBin, GtBin, LeBin, GeBin} \<Longrightarrow> binop_typed op l r k t \<longleftrightarrow>
     t = BoolT \<and> (l = IntT \<and> r = IntT \<or> (\<exists>s. l = DatetimeT s \<and> r = DatetimeT s) \<or>
       (\<exists>d. l = QuantityT d \<and> r = QuantityT d))"
  by (auto intro: binop_typed.intros elim!: binop_typedE)

section \<open>Change of units\<close>

text \<open>
  The factor by which the number of a quantity changes when every base dimension \<open>b\<close> is measured
  in a unit \<open>u b\<close> times smaller, and the operators on real numbers.
\<close>

definition unit_factor :: "(base_dim_id \<Rightarrow> real) \<Rightarrow> dimension \<Rightarrow> real" where
  "unit_factor u d = (\<Prod>k \<in> fst ` set d. u k powr of_rat (dim_exponent d k))"

fun real_op :: "bin_op \<Rightarrow> real \<Rightarrow> real \<Rightarrow> real" where
  "real_op AddBin x y = x + y"
| "real_op SubBin x y = x - y"
| "real_op MulBin x y = x * y"
| "real_op DivBin x y = x / y"
| "real_op (PowBin (ExactExponent e)) x y = x powr of_rat (ratio_rat e)"
| "real_op (PowBin _) x y = x powr y"
| "real_op _ x y = 0"

fun real_rel :: "bin_op \<Rightarrow> real \<Rightarrow> real \<Rightarrow> bool" where
  "real_rel EqBin x y = (x = y)"
| "real_rel NeBin x y = (x \<noteq> y)"
| "real_rel LtBin x y = (x < y)"
| "real_rel GtBin x y = (x > y)"
| "real_rel LeBin x y = (x \<le> y)"
| "real_rel GeBin x y = (x \<ge> y)"
| "real_rel _ x y = False"

lemma dim_exponent_notin: "k \<notin> fst ` set d \<Longrightarrow> dim_exponent d k = 0"
  by (force simp: dim_exponent_def mono_val_def split: option.split dest: map_of_SomeD)

lemma unit_factor_superset:
  assumes "\<And>k. 0 < u k" "finite K" "fst ` set d \<subseteq> K"
  shows "unit_factor u d = (\<Prod>k \<in> K. u k powr of_rat (dim_exponent d k))"
  unfolding unit_factor_def
  using assms(1) by (intro prod.mono_neutral_left assms(2,3)) (auto simp: dim_exponent_notin less_imp_neq [symmetric])

lemma unit_factor_pos: "(\<And>k. 0 < u k) \<Longrightarrow> 0 < unit_factor u d"
  by (auto simp: unit_factor_def less_imp_neq [symmetric] intro!: prod_pos)

lemma unit_factor_dimensionless [simp]: "unit_factor u dimensionless = 1"
  by (simp add: unit_factor_def dimensionless_def mono_one_def)

lemma unit_factor_mul:
  assumes "\<And>k. 0 < u k" "dim_ok a" "dim_ok b" "dim_mul a b = Inr c"
  shows "unit_factor u c = unit_factor u a * unit_factor u b"
proof -
  let ?K = "fst ` (set a \<union> set b \<union> set c)"
  have f: "unit_factor u d = (\<Prod>k \<in> ?K. u k powr of_rat (dim_exponent d k))" if "d \<in> {a, b, c}" for d
    by (rule unit_factor_superset) (use assms(1) that in auto)
  show ?thesis
    using assms(4) unfolding dim_mul_iff [OF assms(2,3)]
    by (simp add: f of_rat_add powr_add prod.distrib)
qed

lemma unit_factor_div:
  assumes "\<And>k. 0 < u k" "dim_ok a" "dim_ok b" "dim_div a b = Inr c"
  shows "unit_factor u c = unit_factor u a / unit_factor u b"
proof -
  have "dim_ok c" by (rule dim_ops_ok(2) [OF assms(2-4)])
  then have "unit_factor u a = unit_factor u c * unit_factor u b"
    using assms(3) dim_div_mul [OF assms(2-4)] by (intro unit_factor_mul assms(1))
  moreover have "0 < unit_factor u b" by (rule unit_factor_pos) (rule assms(1))
  ultimately show ?thesis by simp
qed

lemma powr_prod:
  "(\<And>k. 0 < u k) \<Longrightarrow> (\<Prod>k \<in> K. u k powr e k) powr r = (\<Prod>k \<in> K. u k powr (e k * r))"
  for u e :: "'k \<Rightarrow> real"
  by (induction K rule: infinite_finite_induct) (simp_all add: powr_mult powr_powr prod_nonneg)

lemma unit_factor_pow:
  assumes "\<And>k. 0 < u k" "dim_ok a" "ratio_ok I32 e" "dim_pow a e = Inr c"
  shows "unit_factor u c = unit_factor u a powr of_rat (ratio_rat e)"
proof -
  let ?K = "fst ` (set a \<union> set c)"
  have f: "unit_factor u d = (\<Prod>k \<in> ?K. u k powr of_rat (dim_exponent d k))" if "d \<in> {a, c}" for d
    by (rule unit_factor_superset) (use assms(1) that in auto)
  show ?thesis
    using assms(4) unfolding dim_pow_iff [OF assms(2,3)]
    by (simp add: f of_rat_mult powr_prod assms(1))
qed

section \<open>Properties\<close>

text \<open>C20: the typing rules of the binary operators decide the typing relation, independently of the
  source positions and of how types are spelled in diagnostics.\<close>

theorem binop_rule_decides:
  "binop_rule cx sp op lhs rhs k = Inr t \<longleftrightarrow> binop_typed op (op_type lhs) (op_type rhs) k t"
  by (cases op)
    (simp_all add: binop_rule_def logical_rule_iff logical_typed_iff equality_rule_iff equality_typed_iff
      ordering_rule_iff ordered_typed_iff additive_rule_iff multiplication_rule_iff division_rule_iff
      modulo_rule_iff power_rule_iff)


text \<open>C26: adding a constant to a finite key moves the axis bound with it: for every value of the
  \<open>Nat\<close> parameters, the offset of a key that is in range is in range of the resulting axis, and
  no smaller axis would do.\<close>

theorem key_offset_in_range:
  assumes "binop_rule cx sp AddBin lhs rhs (Some a) = Inr t" "op_type lhs = KeyT ix"
    and "index_form symbolic_cv ix = Some bound" "poly_ok bound"
  shows "\<exists>ix' form. t = KeyT ix' \<and> index_form symbolic_cv ix' = Some form \<and>
    (\<forall>\<rho> i. int i < int (poly_eval \<rho> bound) \<longleftrightarrow> int i + sint a < int (poly_eval \<rho> form))"
proof -
  obtain shifted ix' where a: "0 \<le> sint a" and shifted: "poly_add bound (from_constant a) = Inr shifted"
    and ix': "index_from_form shifted = Inr ix'" and t: "t = KeyT ix'"
    using assms(1-3) unfolding binop_rule_decides by (auto elim!: binop_typedE simp: factor_of_simps)
  have "poly_ok shifted" by (rule poly_add_ok [OF assms(4) from_constant_ok shifted])
  with ix' have form: "index_form symbolic_cv ix' = Some shifted"
    by (auto simp: index_from_form_def res_map_Inr_iff symbolic_cv_def finite_ref_from_form_form)
  have "sint a = int (unat a)"
    using a sint_i64 [of a] by (simp add: uint_sint take_bit_int_eq_self in_i64_def flip: uint_nat)
  then have "int (poly_eval \<rho> shifted) = int (poly_eval \<rho> bound) + sint a" for \<rho>
    using poly_add_eval [OF assms(4) from_constant_ok shifted, of \<rho>] by simp
  with t form show ?thesis by auto
qed

theorem key_offset_in_range_witness:
  "\<exists>ix' form. binop_rule \<lparr>tc_show = (\<lambda>v :: nat. []), tc_dims = registry_new [] [], tc_source = ()\<rparr> () AddBin
      \<lparr>op_type = KeyT (FiniteAxis (SymbolicFin (from_var 0))), op_span = ()\<rparr> \<lparr>op_type = IntT, op_span = ()\<rparr>
      (Some 2) = Inr (KeyT ix') \<and>
    index_form symbolic_cv ix' = Some form \<and> 4 + sint (2 :: i64) < poly_eval (\<lambda>_. 5) form"
proof -
  let ?cx = "\<lparr>tc_show = (\<lambda>v :: nat. []), tc_dims = registry_new [] [], tc_source = ()\<rparr>"
  let ?l = "\<lparr>op_type = KeyT (FiniteAxis (SymbolicFin (from_var 0))), op_span = ()\<rparr>"
  let ?r = "\<lparr>op_type = IntT, op_span = ()\<rparr>"
  let ?shifted = "[([], 2), ([(0, 1)], 1)] :: nat nat_poly"
  have shifted: "poly_add (from_var 0) (from_constant 2) = Inr ?shifted"
    by (simp add: from_var_eq from_constant_def poly_add_def add_term_def u64_ops mono_one_def retain_nonzero_def)
  have ix: "index_from_form ?shifted = Inr (FiniteAxis (SymbolicFin ?shifted))"
    by (simp add: index_from_form_def finite_ref_from_form_def is_constant_def mono_is_empty_def)
  have form: "index_form symbolic_cv (FiniteAxis (SymbolicFin (from_var (0 :: nat)))) = Some (from_var 0)"
    by (simp add: symbolic_cv_def)
  have t: "binop_rule ?cx () AddBin ?l ?r (Some 2) = Inr (KeyT (FiniteAxis (SymbolicFin ?shifted)))"
    using key_offset [OF form _ shifted ix] by (simp add: binop_rule_decides)
  have "\<exists>ix' form. KeyT (FiniteAxis (SymbolicFin ?shifted)) = (KeyT ix' :: nat symbolic_type) \<and>
      index_form symbolic_cv ix' = Some form \<and>
      (\<forall>\<rho> i. int i < int (poly_eval \<rho> (from_var (0 :: nat))) \<longleftrightarrow> int i + sint (2 :: i64) < int (poly_eval \<rho> form))"
    by (rule key_offset_in_range [OF t _ form from_var_ok]) simp
  then show ?thesis
  proof (elim exE conjE)
    fix ix' form
    assume ix': "KeyT (FiniteAxis (SymbolicFin ?shifted)) = (KeyT ix' :: nat symbolic_type)"
      "index_form symbolic_cv ix' = Some form"
      and "\<forall>\<rho> i. int i < int (poly_eval \<rho> (from_var (0 :: nat))) \<longleftrightarrow> int i + sint (2 :: i64) < int (poly_eval \<rho> form)"
    from this(3) [rule_format, of 4 "\<lambda>_. 5"] have "4 + sint (2 :: i64) < int (poly_eval (\<lambda>_. 5) form)" by simp
    then show ?thesis using ix'(2) t unfolding ix'(1) by (intro exI conjI)
  qed
qed

text \<open>C21: the dimension rules are sound for measurement: whenever a binary operator is typed on two
  quantities, changing the units of all base dimensions and rescaling the operands accordingly
  rescales the result by the factor of its dimension, and leaves every comparison as it was (for
  powers, of a positive base).\<close>

theorem change_of_units:
  fixes u :: "base_dim_id \<Rightarrow> real"
  assumes "\<And>k. 0 < u k" "dim_ok a" "dim_ok b" "\<And>e. op = PowBin (ExactExponent e) \<Longrightarrow> ratio_ok I64 e"
    and "op_type lhs = QuantityT a" "op_type rhs = QuantityT b" "binop_rule cx sp op lhs rhs k = Inr t"
    and "is_PowBin op \<Longrightarrow> 0 < x"
  shows "(\<forall>d. t = QuantityT d \<longrightarrow>
      real_op op (unit_factor u a * x) (unit_factor u b * y) = unit_factor u d * real_op op x y) \<and>
    (t = BoolT \<longrightarrow> real_rel op (unit_factor u a * x) (unit_factor u b * y) = real_rel op x y)"
proof -
  have pos: "0 < unit_factor u d" for d by (rule unit_factor_pos) (rule assms(1))
  have "binop_typed op (QuantityT a) (QuantityT b) k t" using assms(5-7) by (simp add: binop_rule_decides)
  then show ?thesis
  proof (cases rule: binop_typed.cases)
    case (mul c c' d)
    then show ?thesis
      using unit_factor_mul [OF assms(1-3)] by (auto simp: factor_of_simps product_type_def)
  next
    case (divide c c' d)
    then show ?thesis
      using unit_factor_div [OF assms(1-3)] by (auto simp: factor_of_simps product_type_def)
  next
    case (power_exact e q d')
    have "ratio_ok I32 q" "ratio_rat q = ratio_rat e"
      using power_exact assms(4) by (auto simp: ratio_narrow_iff)
    with power_exact assms(2) have "unit_factor u d' = unit_factor u a powr of_rat (ratio_rat e)"
      using unit_factor_pow [OF assms(1), of a q d'] by simp
    with power_exact pos [of a] assms(8) show ?thesis by (simp add: powr_mult)
  next
    case (power_dimensionless exponent)
    then show ?thesis by (cases exponent) auto
  qed (use pos [of a] in \<open>auto simp: distrib_left right_diff_distrib\<close>)
qed

theorem change_of_units_witness:
  "\<exists>area. dim_mul (dim_base (Prelude Length)) (dim_base (Prelude Length)) = Inr area \<and>
    unit_factor (\<lambda>_. 1000) area = 1000000"
proof -
  let ?m = "dim_base (Prelude Length)"
  let ?cx = "\<lparr>tc_show = (\<lambda>v :: nat. []), tc_dims = registry_new [] [], tc_source = ()\<rparr>"
  let ?q = "\<lparr>op_type = QuantityT ?m, op_span = ()\<rparr>"
  obtain area where area: "dim_mul ?m ?m = Inr area"
  proof -
    have "is_ok (dim_mul ?m ?m)" by code_simp
    then show thesis using that by (auto simp: is_ok_iff)
  qed
  have "binop_typed MulBin (QuantityT ?m) (QuantityT ?m) None (product_type (False \<or> False) area :: nat symbolic_type)"
    by (rule binop_typed.mul [OF _ _ _ area]) (simp_all add: factor_of_simps)
  then have typed: "binop_rule ?cx () MulBin ?q ?q None = Inr (QuantityT area)"
    by (simp add: binop_rule_decides product_type_def)
  have "unit_factor (\<lambda>_. 1000) ?m = 1000"
    by (simp add: unit_factor_def dim_exponent_base) (simp add: dim_base_eq)
  with change_of_units [of "\<lambda>_. 1000" ?m ?m MulBin ?q ?q ?cx "()" None "QuantityT area" 1 1, OF _ _ _ _ _ _ typed] area
  show ?thesis by auto
qed

end
