(* ===== verification/Index_Axis.thy ===== *)
theory Index_Axis
  imports Checked_Type
begin

text \<open>
  Concrete indexes and what runtime values see of them: coordinate axes, index kinds and binding
  contracts (\<open>semantic/index_def.rs\<close>), axes with their keys (\<open>semantic/index_axis.rs\<close>) and
  index keys with the shift of \<open>Fin\<close> keys (\<open>semantic/key_value.rs\<close>). Binary64 is a parameter: a
  record of the operations the code uses. The lemmas show that axes enumerate their keys, that
  keys and entries correspond, that shifted keys exist, that coordinate axes keep their invariant
  and when binding contracts survive forwarding.
\<close>

section \<open>Floating-point operations\<close>

record 'f floats =
  fl_finite :: "'f \<Rightarrow> bool"
  fl_lt :: "'f \<Rightarrow> 'f \<Rightarrow> bool"
  fl_le :: "'f \<Rightarrow> 'f \<Rightarrow> bool"
  fl_eq :: "'f \<Rightarrow> 'f \<Rightarrow> bool"
  fl_add :: "'f \<Rightarrow> 'f \<Rightarrow> 'f"
  fl_sub :: "'f \<Rightarrow> 'f \<Rightarrow> 'f"
  fl_mul :: "'f \<Rightarrow> 'f \<Rightarrow> 'f"
  fl_div :: "'f \<Rightarrow> 'f \<Rightarrow> 'f"
  fl_mul_add :: "'f \<Rightarrow> 'f \<Rightarrow> 'f \<Rightarrow> 'f"
  fl_abs :: "'f \<Rightarrow> 'f"
  fl_max :: "'f \<Rightarrow> 'f \<Rightarrow> 'f"
  fl_round :: "'f \<Rightarrow> 'f"
  fl_of_nat :: "nat \<Rightarrow> 'f"
  fl_to_u64 :: "'f \<Rightarrow> u64"
  fl_epsilon :: 'f
  fl_tiny :: 'f

section \<open>Coordinate axes\<close>

datatype 'f coordinate_spacing = StepSpacing 'f | LinspaceSpacing

record 'f coordinate_display =
  cd_label :: "string option"
  cd_scale :: 'f

record 'f coordinate_index =
  ci_start :: 'f
  ci_end :: 'f
  ci_spacing :: "'f coordinate_spacing"
  ci_cardinality :: u64
  ci_dimension :: dimension
  ci_display :: "'f coordinate_display"

datatype 'f coordinate_index_error =
    NonFiniteParameter
  | ZeroStep
  | StepAwayFromEndpoint 'f 'f
  | NonFiniteIntervalCount
  | StepMissesEndpoint 'f 'f
  | RangeTooLarge 'f
  | EmptyLinspace
  | LinspacePointCount index_cardinality_error
  | SingletonLinspaceWithDistinctEndpoints
  | LinspaceWithIdenticalEndpoints
  | NonMonotonicCoordinates nat nat

definition coordinate_help :: "'f coordinate_index_error \<Rightarrow> string" where
  "coordinate_help e =
     (case e of
        NonFiniteParameter \<Rightarrow> ''choose finite bounds and a finite nonzero step with matching direction''
      | NonFiniteIntervalCount \<Rightarrow> ''choose finite bounds and a finite nonzero step with matching direction''
      | ZeroStep \<Rightarrow> ''use an explicitly positive or negative quantity step''
      | StepAwayFromEndpoint _ _ \<Rightarrow>
          ''use a positive step for an ascending range and a negative step for a descending range''
      | StepMissesEndpoint _ _ \<Rightarrow>
          ''change the endpoint or use `linspace(start, end, points: N)` when the point count is authoritative''
      | RangeTooLarge _ \<Rightarrow> ''reduce the index to at most '' @ show_nat max_index_cardinality @ '' points''
      | EmptyLinspace \<Rightarrow> ''use `points: 1` or greater''
      | LinspacePointCount _ \<Rightarrow> ''use a point count from 1 through '' @ show_nat max_index_cardinality
      | SingletonLinspaceWithDistinctEndpoints \<Rightarrow> ''set end equal to start or request at least two points''
      | LinspaceWithIdenticalEndpoints \<Rightarrow> ''use `points: 1` for a singleton or choose distinct endpoints''
      | NonMonotonicCoordinates _ _ \<Rightarrow>
          ''reduce the cardinality or increase the spacing between adjacent coordinates'')"

definition concerns_point_count :: "'f coordinate_index_error \<Rightarrow> bool" where
  "concerns_point_count e =
     (case e of EmptyLinspace \<Rightarrow> True | LinspacePointCount _ \<Rightarrow> True | _ \<Rightarrow> False)"

definition u64_saturating_add :: "u64 \<Rightarrow> u64 \<Rightarrow> u64" where
  "u64_saturating_add a b = (case u64_checked_add a b of Some c \<Rightarrow> c | None \<Rightarrow> - 1)"

definition coordinate_values_equal :: "'f floats \<Rightarrow> 'f \<Rightarrow> 'f \<Rightarrow> 'f \<Rightarrow> bool" where
  "coordinate_values_equal F actual expected scale_hint =
     (let scale = fl_max F (fl_max F (fl_abs F actual) (fl_abs F expected)) (fl_abs F scale_hint);
          tolerance = fl_max F (fl_mul F scale (fl_mul F (fl_of_nat F 32) (fl_epsilon F))) (fl_tiny F)
      in fl_le F (fl_abs F (fl_sub F actual expected)) tolerance)"

definition range_cardinality :: "'f floats \<Rightarrow> 'f \<Rightarrow> 'f \<Rightarrow> 'f \<Rightarrow> (u64, 'f coordinate_index_error) result" where
  "range_cardinality F start end step =
     (let zero = fl_of_nat F 0 in
      if fl_eq F step zero then Inl ZeroStep
      else if fl_lt F start end \<and> fl_lt F step zero \<or> fl_lt F end start \<and> fl_lt F zero step
      then Inl (StepAwayFromEndpoint step end)
      else if fl_eq F start end then Inr 1
      else
        let raw_intervals = fl_div F (fl_sub F end start) step in
        if \<not> fl_finite F raw_intervals \<or> fl_lt F raw_intervals zero then Inl NonFiniteIntervalCount
        else
          let intervals = fl_round F raw_intervals;
              reconstructed_end = fl_mul_add F intervals step start in
          if fl_lt F intervals (fl_of_nat F 1) \<or>
             \<not> coordinate_values_equal F reconstructed_end end (fl_mul F intervals step)
          then Inl (StepMissesEndpoint step end)
          else if fl_le F (fl_of_nat F max_index_cardinality) intervals
          then Inl (RangeTooLarge (fl_add F intervals (fl_of_nat F 1)))
          else Inr (u64_saturating_add 1 (fl_to_u64 F intervals)))"

definition coordinate_value :: "'f floats \<Rightarrow> 'f coordinate_index \<Rightarrow> nat \<Rightarrow> 'f" where
  "coordinate_value F d i =
     (let count = unat (ci_cardinality d) in
      case ci_spacing d of
        StepSpacing step \<Rightarrow>
          if i = count - 1 then ci_end d else fl_mul_add F (fl_of_nat F i) step (ci_start d)
      | LinspaceSpacing \<Rightarrow>
          if i = 0 then ci_start d
          else if i + 1 = count then ci_end d
          else
            let t = fl_div F (fl_of_nat F i) (fl_of_nat F (count - 1))
            in fl_mul_add F (fl_sub F (fl_of_nat F 1) t) (ci_start d) (fl_mul F t (ci_end d)))"

definition monotonic_step ::
  "'f floats \<Rightarrow> 'f coordinate_index \<Rightarrow> 'f \<Rightarrow> nat \<Rightarrow> ('f, 'f coordinate_index_error) result" where
  "monotonic_step F d previous position =
     (let current = coordinate_value F d position;
          monotonic = (if fl_lt F (ci_start d) (ci_end d) then fl_lt F previous current
                       else fl_lt F current previous)
      in if \<not> monotonic then Inl (NonMonotonicCoordinates (position - 1) position) else Inr current)"

definition coordinate_validated ::
  "'f floats \<Rightarrow> 'f coordinate_index \<Rightarrow> ('f coordinate_index, 'f coordinate_index_error) result" where
  "coordinate_validated F d =
     res_bind (try_fold (monotonic_step F d) (coordinate_value F d 0) [1..<unat (ci_cardinality d)]) (\<lambda>_. Inr d)"

definition try_range ::
  "'f floats \<Rightarrow> 'f \<Rightarrow> 'f \<Rightarrow> 'f \<Rightarrow> dimension \<Rightarrow> 'f coordinate_display \<Rightarrow>
   ('f coordinate_index, 'f coordinate_index_error) result" where
  "try_range F start end step dimension display =
     (if \<not> (fl_finite F start \<and> fl_finite F end \<and> fl_finite F step) then Inl NonFiniteParameter
      else res_bind (range_cardinality F start end step) (\<lambda>cardinality.
        coordinate_validated F
          \<lparr>ci_start = start, ci_end = end, ci_spacing = StepSpacing step, ci_cardinality = cardinality,
           ci_dimension = dimension, ci_display = display\<rparr>))"

definition try_linspace ::
  "'f floats \<Rightarrow> 'f \<Rightarrow> 'f \<Rightarrow> u64 \<Rightarrow> dimension \<Rightarrow> 'f coordinate_display \<Rightarrow>
   ('f coordinate_index, 'f coordinate_index_error) result" where
  "try_linspace F start end points dimension display =
     (if \<not> (fl_finite F start \<and> fl_finite F end) then Inl NonFiniteParameter
      else res_bind (map_err (\<lambda>e. case e of EmptyIndex \<Rightarrow> EmptyLinspace | _ \<Rightarrow> LinspacePointCount e)
        (cardinality_try_from points)) (\<lambda>cardinality.
        if cardinality = 1 \<and> \<not> fl_eq F start end then Inl SingletonLinspaceWithDistinctEndpoints
        else if 2 \<le> unat cardinality \<and> fl_eq F start end then Inl LinspaceWithIdenticalEndpoints
        else coordinate_validated F
          \<lparr>ci_start = start, ci_end = end, ci_spacing = LinspaceSpacing, ci_cardinality = cardinality,
           ci_dimension = dimension, ci_display = display\<rparr>))"

section \<open>Index kinds and binding contracts\<close>

datatype index_category = NamedCategory | CoordinateCategory | FiniteCategory

datatype index_binding_category = NamedBinding | DiscreteBinding | CoordinateBinding

datatype index_binding_contract = NamedContract | DiscreteContract | CoordinateContract dimension

datatype index_contract_error =
    KindMismatch index_binding_category index_category
  | ContractDimensionMismatch dimension dimension

datatype entry_key = NamedKey string | PositionKey u64

datatype 'f concrete_kind =
    NamedKind "string list"
  | CoordinateKind "'f coordinate_index"
  | FiniteKind finite_index

datatype required_kind = RequiredNamed | RequiredCoordinate dimension

datatype 'f index_kind = ConcreteIndex "'f concrete_kind" | RequiredIndex required_kind

datatype index_binding_target = DeclaredTarget string | FiniteTarget finite_index

record 'f index_def =
  id_name :: index_binding_target
  id_kind :: "'f index_kind"

fun category_name :: "index_category \<Rightarrow> string" where
  "category_name NamedCategory = ''named''"
| "category_name CoordinateCategory = ''coordinate''"
| "category_name FiniteCategory = ''finite''"

fun binding_category_name :: "index_binding_category \<Rightarrow> string" where
  "binding_category_name NamedBinding = ''named''"
| "binding_category_name DiscreteBinding = ''named or finite''"
| "binding_category_name CoordinateBinding = ''coordinate''"

fun contract_category :: "index_binding_contract \<Rightarrow> index_binding_category" where
  "contract_category NamedContract = NamedBinding"
| "contract_category DiscreteContract = DiscreteBinding"
| "contract_category (CoordinateContract _) = CoordinateBinding"

fun kind_cardinality :: "'f concrete_kind \<Rightarrow> nat" where
  "kind_cardinality (NamedKind variants) = length variants"
| "kind_cardinality (CoordinateKind d) = unat (ci_cardinality d)"
| "kind_cardinality (FiniteKind i) = unat (fin_cardinality i)"

fun kind_entry_keys :: "'f concrete_kind \<Rightarrow> entry_key list" where
  "kind_entry_keys (NamedKind variants) = map NamedKey variants"
| "kind_entry_keys kind = map (\<lambda>p. PositionKey (of_nat p)) [0..<kind_cardinality kind]"

fun concrete_category :: "'f concrete_kind \<Rightarrow> index_category" where
  "concrete_category (NamedKind _) = NamedCategory"
| "concrete_category (CoordinateKind _) = CoordinateCategory"
| "concrete_category (FiniteKind _) = FiniteCategory"

fun required_category :: "required_kind \<Rightarrow> index_category" where
  "required_category RequiredNamed = NamedCategory"
| "required_category (RequiredCoordinate _) = CoordinateCategory"

fun index_category_of :: "'f index_kind \<Rightarrow> index_category" where
  "index_category_of (ConcreteIndex kind) = concrete_category kind"
| "index_category_of (RequiredIndex kind) = required_category kind"

definition finite_index_def :: "finite_index \<Rightarrow> 'f index_def" where
  "finite_index_def i = \<lparr>id_name = FiniteTarget i, id_kind = ConcreteIndex (FiniteKind i)\<rparr>"

fun index_concrete :: "'f index_kind \<Rightarrow> 'f concrete_kind option" where
  "index_concrete (ConcreteIndex kind) = Some kind"
| "index_concrete (RequiredIndex _) = None"

definition index_entry_keys :: "'f index_def \<Rightarrow> entry_key list" where
  "index_entry_keys d = (case index_concrete (id_kind d) of Some kind \<Rightarrow> kind_entry_keys kind | None \<Rightarrow> [])"

definition concrete_cardinality :: "'f index_def \<Rightarrow> nat option" where
  "concrete_cardinality d = map_option kind_cardinality (index_concrete (id_kind d))"

fun coordinate_dimension :: "'f index_kind \<Rightarrow> dimension option" where
  "coordinate_dimension (ConcreteIndex (CoordinateKind d)) = Some (ci_dimension d)"
| "coordinate_dimension (RequiredIndex (RequiredCoordinate dimension)) = Some dimension"
| "coordinate_dimension _ = None"

fun finite_index_size :: "'f index_kind \<Rightarrow> u64 option" where
  "finite_index_size (ConcreteIndex (FiniteKind i)) = Some (fin_cardinality i)"
| "finite_index_size _ = None"

fun is_required :: "'f index_kind \<Rightarrow> bool" where
  "is_required (RequiredIndex _) = True"
| "is_required (ConcreteIndex _) = False"

fun category_admits :: "index_binding_category \<Rightarrow> index_category \<Rightarrow> bool" where
  "category_admits NamedBinding found = (found = NamedCategory)"
| "category_admits DiscreteBinding found = (found = NamedCategory \<or> found = FiniteCategory)"
| "category_admits CoordinateBinding found = (found = CoordinateCategory)"

definition contract_validate ::
  "index_binding_contract \<Rightarrow> 'f index_kind \<Rightarrow> (unit, index_contract_error) result" where
  "contract_validate contract candidate =
     (let found = index_category_of candidate in
      if \<not> category_admits (contract_category contract) found
      then Inl (KindMismatch (contract_category contract) found)
      else (case (contract, coordinate_dimension candidate) of
        (CoordinateContract expected, Some found) \<Rightarrow>
          if expected \<noteq> found then Inl (ContractDimensionMismatch expected found) else Inr ()
      | _ \<Rightarrow> Inr ()))"

text \<open>The contract of a port (\<open>effective_index_binding_contract\<close>): the dimension of a required
  coordinate port is evaluated under the bindings of the include.\<close>

fun port_contract :: "(dimension, 'e) result \<Rightarrow> 'e \<Rightarrow> 'f index_kind \<Rightarrow> (index_binding_contract, 'e) result" where
  "port_contract effective structural (ConcreteIndex (NamedKind _)) = Inr NamedContract"
| "port_contract effective structural (RequiredIndex RequiredNamed) = Inr DiscreteContract"
| "port_contract effective structural (ConcreteIndex (CoordinateKind d)) = Inr (CoordinateContract (ci_dimension d))"
| "port_contract effective structural (RequiredIndex (RequiredCoordinate _)) = res_map CoordinateContract effective"
| "port_contract effective structural (ConcreteIndex (FiniteKind _)) = Inl structural"

section \<open>Axes\<close>

text \<open>\<open>HashMap\<close> of positions: built from the enumerated keys, a later duplicate would win.\<close>

record 'f index_axis =
  ax_index :: concrete_index
  ax_kind :: "'f concrete_kind"
  ax_keys :: "entry_key list"
  ax_positions :: "entry_key \<Rightarrow> nat option"
  ax_coordinates :: "'f list"

fun insert_positions :: "(entry_key \<Rightarrow> nat option) \<Rightarrow> nat \<Rightarrow> entry_key list \<Rightarrow> entry_key \<Rightarrow> nat option" where
  "insert_positions m n [] = m"
| "insert_positions m n (key # keys) = insert_positions (m(key \<mapsto> n)) (Suc n) keys"

definition axis_coordinates :: "'f floats \<Rightarrow> 'f concrete_kind \<Rightarrow> 'f list option" where
  "axis_coordinates F kind =
     (case kind of
        CoordinateKind d \<Rightarrow>
          collect_options (map (\<lambda>p. let c = coordinate_value F d p in if fl_finite F c then Some c else None)
            [0..<length (kind_entry_keys kind)])
      | _ \<Rightarrow> Some [])"

definition axis_from_concrete :: "'f floats \<Rightarrow> concrete_index \<Rightarrow> 'f concrete_kind \<Rightarrow> 'f index_axis option" where
  "axis_from_concrete F index kind =
     (let keys = kind_entry_keys kind in
      if keys = [] then None
      else
        map_option (\<lambda>coordinates.
            \<lparr>ax_index = index, ax_kind = kind, ax_keys = keys,
             ax_positions = insert_positions Map.empty 0 keys, ax_coordinates = coordinates\<rparr>)
          (axis_coordinates F kind))"

definition axis_len :: "'f index_axis \<Rightarrow> nat" where
  "axis_len axis = length (ax_keys axis)"

definition axis_matches :: "'f index_axis \<Rightarrow> 'f index_axis \<Rightarrow> bool" where
  "axis_matches a b = index_matches (ax_index a) (ax_index b)"

fun is_finite_kind :: "'f concrete_kind \<Rightarrow> bool" where
  "is_finite_kind (FiniteKind _) = True"
| "is_finite_kind _ = False"

definition axis_admits :: "'f index_axis \<Rightarrow> 'f index_axis \<Rightarrow> bool" where
  "axis_admits axis key_axis =
     (if is_finite_kind (ax_kind axis) \<and> is_finite_kind (ax_kind key_axis)
      then axis_len key_axis \<le> axis_len axis
      else axis_matches axis key_axis)"

section \<open>Keys\<close>

record 'f key_value =
  kv_axis :: "'f index_axis"
  kv_position :: nat

datatype 'f key_element =
    NamedElement string
  | CoordinateElement 'f "'f coordinate_index"
  | FiniteElement nat

definition key_at :: "'f index_axis \<Rightarrow> nat \<Rightarrow> 'f key_value option" where
  "key_at axis position =
     (if position < axis_len axis then Some \<lparr>kv_axis = axis, kv_position = position\<rparr> else None)"

definition key_for_entry :: "'f index_axis \<Rightarrow> entry_key \<Rightarrow> 'f key_value option" where
  "key_for_entry axis entry =
     map_option (\<lambda>position. \<lparr>kv_axis = axis, kv_position = position\<rparr>) (ax_positions axis entry)"

text \<open>\<open>NonEmpty::new(key(0), (1..len).map(key))\<close>.\<close>

definition key_all :: "'f index_axis \<Rightarrow> 'f key_value list" where
  "key_all axis =
     (let key = (\<lambda>position. \<lparr>kv_axis = axis, kv_position = position\<rparr>)
      in key 0 # map key [1..<axis_len axis])"

definition key_entry :: "'f key_value \<Rightarrow> entry_key" where
  "key_entry k = ax_keys (kv_axis k) ! kv_position k"

definition key_element_of :: "'f key_value \<Rightarrow> 'f key_element" where
  "key_element_of k =
     (case ax_kind (kv_axis k) of
        NamedKind variants \<Rightarrow> NamedElement (variants ! kv_position k)
      | CoordinateKind d \<Rightarrow> CoordinateElement (ax_coordinates (kv_axis k) ! kv_position k) d
      | FiniteKind _ \<Rightarrow> FiniteElement (kv_position k))"

text \<open>The derived equality of keys: axis identity and position.\<close>

definition key_eq :: "'f key_value \<Rightarrow> 'f key_value \<Rightarrow> bool" where
  "key_eq a b \<longleftrightarrow> axis_matches (kv_axis a) (kv_axis b) \<and> kv_position a = kv_position b"

record 'f fin_key_shift =
  fs_source :: "'f index_axis"
  fs_target :: "'f index_axis"
  fs_distance :: nat

definition shift_try_new :: "'f index_axis \<Rightarrow> 'f index_axis \<Rightarrow> 'f fin_key_shift option" where
  "shift_try_new source target =
     (if \<not> (is_finite_kind (ax_kind source) \<and> is_finite_kind (ax_kind target)) then None
      else if axis_len target < axis_len source then None
      else Some \<lparr>fs_source = source, fs_target = target, fs_distance = axis_len target - axis_len source\<rparr>)"

definition key_shift :: "'f fin_key_shift \<Rightarrow> 'f key_value \<Rightarrow> ('f key_value, 'f key_value) result" where
  "key_shift s k =
     (if \<not> axis_admits (fs_source s) (kv_axis k) then Inl k
      else Inr \<lparr>kv_axis = fs_target s, kv_position = kv_position k + fs_distance s\<rparr>)"

section \<open>What axes and keys promise\<close>

text \<open>The representation invariant of index kinds: the variants of a named index are distinct and
  not empty, and cardinalities are within the policy.\<close>

fun kind_ok :: "'f concrete_kind \<Rightarrow> bool" where
  "kind_ok (NamedKind variants) = (variants \<noteq> [] \<and> distinct variants)"
| "kind_ok (CoordinateKind d) =
    (0 < unat (ci_cardinality d) \<and> unat (ci_cardinality d) \<le> max_index_cardinality)"
| "kind_ok (FiniteKind i) = finite_index_ok i"

text \<open>A structural kind belongs to the structural index of its cardinality, and the axis is the one
  built from its index and kind.\<close>

fun kind_of_index :: "concrete_index \<Rightarrow> 'f concrete_kind \<Rightarrow> bool" where
  "kind_of_index index (FiniteKind i) = (index = FiniteAxis i)"
| "kind_of_index index _ = (\<exists>r. index = DeclaredIndex r)"

definition axis_ok :: "'f floats \<Rightarrow> 'f index_axis \<Rightarrow> bool" where
  "axis_ok F axis \<longleftrightarrow> kind_ok (ax_kind axis) \<and> kind_of_index (ax_index axis) (ax_kind axis) \<and>
     axis_from_concrete F (ax_index axis) (ax_kind axis) = Some axis"

definition key_ok :: "'f floats \<Rightarrow> 'f key_value \<Rightarrow> bool" where
  "key_ok F k \<longleftrightarrow> axis_ok F (kv_axis k) \<and> kv_position k < axis_len (kv_axis k)"

lemma length_entry_keys: "length (kind_entry_keys kind) = kind_cardinality kind"
  by (cases kind) simp_all

lemma distinct_position_keys:
  assumes "n \<le> max_index_cardinality"
  shows "distinct (map (\<lambda>p. PositionKey (of_nat p)) [0..<n])"
proof -
  have "(of_nat p :: u64) \<noteq> of_nat q" if "p < n" "q < n" "p \<noteq> q" for p q
  proof
    assume "(of_nat p :: u64) = of_nat q"
    moreover have "p < 2 ^ 64" "q < 2 ^ 64" using that assms by (auto simp: max_index_cardinality_def)
    ultimately have "p = q" using unat_of_nat_u64 by metis
    with that show False by blast
  qed
  then show ?thesis by (auto simp: distinct_conv_nth)
qed

lemma distinct_entry_keys: "kind_ok kind \<Longrightarrow> distinct (kind_entry_keys kind)"
  using distinct_position_keys
  by (cases kind) (auto simp: distinct_map inj_on_def finite_index_ok_def)

lemma insert_positions_iff:
  "distinct keys \<Longrightarrow> insert_positions m n keys k = Some p \<longleftrightarrow>
     (\<exists>i < length keys. keys ! i = k \<and> p = n + i) \<or> k \<notin> set keys \<and> m k = Some p"
proof (induction keys arbitrary: n m)
  case (Cons key keys)
  have split: "(\<exists>i < length (key # keys). (key # keys) ! i = k \<and> p = n + i) \<longleftrightarrow>
      key = k \<and> p = n \<or> (\<exists>i < length keys. keys ! i = k \<and> p = Suc n + i)"
    by (auto simp: less_Suc_eq_0_disj)
  show ?case
    unfolding split using Cons by (cases "k = key") (auto simp: in_set_conv_nth)
qed simp

lemma axis_from_concrete_iff:
  "axis_from_concrete F index kind = Some axis \<longleftrightarrow>
     kind_entry_keys kind \<noteq> [] \<and> ax_index axis = index \<and> ax_kind axis = kind \<and>
     ax_keys axis = kind_entry_keys kind \<and> ax_positions axis = insert_positions Map.empty 0 (kind_entry_keys kind) \<and>
     axis_coordinates F kind = Some (ax_coordinates axis)"
  by (cases axis) (auto simp: axis_from_concrete_def Let_def)

lemma axis_okD:
  assumes "axis_ok F axis"
  shows "ax_keys axis = kind_entry_keys (ax_kind axis)" "ax_keys axis \<noteq> []" "distinct (ax_keys axis)"
    "axis_len axis = kind_cardinality (ax_kind axis)"
    "ax_positions axis k = Some p \<longleftrightarrow> p < axis_len axis \<and> ax_keys axis ! p = k"
proof -
  have keys: "ax_keys axis = kind_entry_keys (ax_kind axis)" and ne: "ax_keys axis \<noteq> []"
    and positions: "ax_positions axis = insert_positions Map.empty 0 (ax_keys axis)"
    and kind: "kind_ok (ax_kind axis)" using assms by (simp_all add: axis_ok_def axis_from_concrete_iff)
  show "ax_keys axis = kind_entry_keys (ax_kind axis)" "ax_keys axis \<noteq> []" by (fact keys, fact ne)
  show distinct: "distinct (ax_keys axis)" using distinct_entry_keys [OF kind] keys by simp
  show "axis_len axis = kind_cardinality (ax_kind axis)"
    using keys by (simp add: axis_len_def length_entry_keys)
  show "ax_positions axis k = Some p \<longleftrightarrow> p < axis_len axis \<and> ax_keys axis ! p = k"
    by (auto simp: positions insert_positions_iff [OF distinct] axis_len_def)
qed

lemma axis_from_concrete_ok:
  "kind_ok kind \<Longrightarrow> kind_of_index index kind \<Longrightarrow> axis_from_concrete F index kind = Some axis \<Longrightarrow>
     axis_ok F axis \<and> ax_index axis = index \<and> ax_kind axis = kind"
  by (auto simp: axis_ok_def axis_from_concrete_iff)

lemma key_all_eq: "axis_ok F axis \<Longrightarrow> key_all axis = map (\<lambda>p. \<lparr>kv_axis = axis, kv_position = p\<rparr>) [0..<axis_len axis]"
proof -
  assume "axis_ok F axis"
  then have "0 < axis_len axis" using axis_okD(2) [of F axis] by (simp add: axis_len_def)
  then show ?thesis by (simp add: key_all_def upt_rec)
qed

lemma finite_kind_iff: "axis_ok F axis \<Longrightarrow> is_finite_kind (ax_kind axis) \<longleftrightarrow> (\<exists>i. ax_index axis = FiniteAxis i)"
  by (cases "ax_kind axis") (auto simp: axis_ok_def)

lemma matches_finite_kind:
  assumes "axis_ok F a" "axis_ok F b" "axis_matches a b"
  shows "is_finite_kind (ax_kind a) \<longleftrightarrow> is_finite_kind (ax_kind b)"
  using assms(3) unfolding finite_kind_iff [OF assms(1)] finite_kind_iff [OF assms(2)]
  by (auto simp: axis_matches_def index_matches_def split: index_ref.splits)

lemma key_shift_Inr_iff:
  "key_shift s k = Inr k' \<longleftrightarrow>
     axis_admits (fs_source s) (kv_axis k) \<and> k' = \<lparr>kv_axis = fs_target s, kv_position = kv_position k + fs_distance s\<rparr>"
  by (auto simp: key_shift_def)

section \<open>Coordinates\<close>

lemma monotonic_fold:
  assumes "try_fold (monotonic_step F d) (coordinate_value F d n) [Suc n..<m] = Inr x" "n < i" "i < m"
  shows "if fl_lt F (ci_start d) (ci_end d)
    then fl_lt F (coordinate_value F d (i - 1)) (coordinate_value F d i)
    else fl_lt F (coordinate_value F d i) (coordinate_value F d (i - 1))"
  using assms
proof (induction "m - n" arbitrary: n)
  case (Suc k)
  then have upt: "[Suc n..<m] = Suc n # [Suc (Suc n)..<m]" by (simp add: upt_rec)
  have step: "monotonic_step F d (coordinate_value F d n) (Suc n) = Inr (coordinate_value F d (Suc n))"
    and rest: "try_fold (monotonic_step F d) (coordinate_value F d (Suc n)) [Suc (Suc n)..<m] = Inr x"
    using Suc.prems(1) unfolding upt by (auto simp: res_bind_Inr_iff monotonic_step_def Let_def split: if_splits)
  show ?case
  proof (cases "i = Suc n")
    case True
    then show ?thesis using step by (simp add: monotonic_step_def Let_def split: if_splits)
  next
    case False
    have "k = m - Suc n" "Suc n < i" using Suc.hyps(2) Suc.prems(2) False by simp_all
    then show ?thesis using Suc.hyps(1) [OF _ rest] Suc.prems(3) by blast
  qed
qed simp

lemma monotonic_pairs:
  fixes c :: "nat \<Rightarrow> 'c"
  assumes step: "\<And>i. 0 < i \<Longrightarrow> i < m \<Longrightarrow> lt (c (i - 1)) (c i)"
    and trans: "\<And>x y z. lt x y \<Longrightarrow> lt y z \<Longrightarrow> lt x z" and "i < j" "j < m"
  shows "lt (c i) (c j)"
  using assms(3,4)
proof (induction "j - Suc i" arbitrary: j)
  case 0
  then have "j = Suc i" by simp
  then show ?case using step [of j] 0 by simp
next
  case (Suc k)
  then have "lt (c i) (c (j - 1))" by simp
  then show ?case using step [of j] Suc.prems trans by fastforce
qed

text \<open>What the code relies on of binary64: comparison is transitive, and a float that is not at least
  the cardinality limit converts to an integer below it.\<close>

definition fl_transitive :: "'f floats \<Rightarrow> bool" where
  "fl_transitive F \<longleftrightarrow> (\<forall>x y z. fl_lt F x y \<longrightarrow> fl_lt F y z \<longrightarrow> fl_lt F x z)"

definition fl_truncates :: "'f floats \<Rightarrow> bool" where
  "fl_truncates F \<longleftrightarrow>
     (\<forall>x. \<not> fl_le F (fl_of_nat F max_index_cardinality) x \<longrightarrow> unat (fl_to_u64 F x) < max_index_cardinality)"

lemma coordinate_validated_pairs:
  assumes "coordinate_validated F d = Inr d'" "fl_transitive F"
    and "i < j" "j < unat (ci_cardinality d)"
  shows "d' = d \<and> (if fl_lt F (ci_start d) (ci_end d)
    then fl_lt F (coordinate_value F d i) (coordinate_value F d j)
    else fl_lt F (coordinate_value F d j) (coordinate_value F d i))"
proof -
  obtain x where fold: "try_fold (monotonic_step F d) (coordinate_value F d 0) [Suc 0..<unat (ci_cardinality d)] = Inr x"
    and d': "d' = d"
    using assms(1) unfolding coordinate_validated_def res_bind_Inr_iff One_nat_def by blast
  note step = monotonic_fold [OF fold]
  let ?up = "fl_lt F (ci_start d) (ci_end d)"
  define lt where "lt = (\<lambda>x y. if ?up then fl_lt F x y else fl_lt F y x)"
  have trans: "lt x z" if "lt x y" "lt y z" for x y z
    using that assms(2) unfolding lt_def fl_transitive_def by (auto split: if_splits)
  have adjacent: "lt (coordinate_value F d (p - 1)) (coordinate_value F d p)"
    if "0 < p" "p < unat (ci_cardinality d)" for p
    unfolding lt_def by (rule step [OF that])
  have "lt (coordinate_value F d i) (coordinate_value F d j)"
    by (rule monotonic_pairs [where m = "unat (ci_cardinality d)" and lt = lt and c = "coordinate_value F d"])
      (fact adjacent, fact trans, fact assms(3), fact assms(4))
  with d' show ?thesis by (simp add: lt_def)
qed

lemma coordinate_validated_same: "coordinate_validated F d = Inr d' \<Longrightarrow> d' = d"
  unfolding coordinate_validated_def res_bind_Inr_iff by blast

lemma cardinality_try_from_iff:
  "cardinality_try_from n = Inr c \<longleftrightarrow> c = n \<and> 0 < unat n \<and> unat n \<le> max_index_cardinality"
  by (auto simp: cardinality_try_from_def usize_try_from_def unat_gt_0)

lemma range_cardinality_bounds:
  assumes "range_cardinality F start end step = Inr n"
    and "fl_truncates F"
  shows "0 < unat n \<and> unat n \<le> max_index_cardinality"
proof -
  have small: "unat (u64_saturating_add 1 x) = Suc (unat x)" if "unat x < max_index_cardinality" for x
  proof -
    have "\<exists>c. unat (c :: u64) = unat (1 :: u64) + unat x"
      unfolding unat_u64_rep using that by (simp add: max_index_cardinality_def)
    then obtain c where "u64_checked_add 1 x = Some c" "unat c = Suc (unat x)"
      by (auto simp: u64_checked_add_iff)
    then show ?thesis by (simp add: u64_saturating_add_def)
  qed
  show ?thesis
    using assms(1) assms(2) [unfolded fl_truncates_def, rule_format, of "fl_round F (fl_div F (fl_sub F end start) step)"]
    by (auto simp: range_cardinality_def Let_def small max_index_cardinality_def split: if_splits)
qed

section \<open>Properties\<close>

text \<open>Keys and entries of an axis correspond: looking up an entry gives the key whose entry it
  is, every entry of the axis is found, entries outside it are not, and \<open>all\<close> lists each key of
  the axis once, in the order of its entries.\<close>

theorem key_lookup:
  assumes "axis_ok F axis"
  shows "(key_for_entry axis e = Some k \<longleftrightarrow> key_ok F k \<and> kv_axis k = axis \<and> key_entry k = e) \<and>
    (key_at axis p = Some k \<longleftrightarrow> key_ok F k \<and> kv_axis k = axis \<and> kv_position k = p) \<and>
    map key_entry (key_all axis) = ax_keys axis \<and> distinct (ax_keys axis) \<and>
    (k \<in> set (key_all axis) \<longleftrightarrow> key_ok F k \<and> kv_axis k = axis)"
proof (intro conjI)
  show "key_for_entry axis e = Some k \<longleftrightarrow> key_ok F k \<and> kv_axis k = axis \<and> key_entry k = e"
    using assms by (cases k) (auto simp: key_for_entry_def axis_okD(5) [OF assms] key_ok_def key_entry_def)
  show "key_at axis p = Some k \<longleftrightarrow> key_ok F k \<and> kv_axis k = axis \<and> kv_position k = p"
    using assms by (cases k) (auto simp: key_at_def key_ok_def)
  show "map key_entry (key_all axis) = ax_keys axis"
    unfolding key_all_eq [OF assms] by (simp add: key_entry_def comp_def axis_len_def map_nth)
  show "distinct (ax_keys axis)" by (rule axis_okD(3) [OF assms])
  show "k \<in> set (key_all axis) \<longleftrightarrow> key_ok F k \<and> kv_axis k = axis"
    unfolding key_all_eq [OF assms] using assms by (cases k) (auto simp: key_ok_def)
qed

text \<open>The shift of \<open>Fin\<close> keys is total on the keys its source admits and stays in range: a
  shifted key exists on the target axis, at the key's position plus the difference of the axis
  lengths.\<close>

theorem key_shift_in_range:
  assumes "axis_ok F source" "axis_ok F target" "shift_try_new source target = Some s" "key_ok F k"
  shows "(axis_admits source (kv_axis k) \<longleftrightarrow> is_ok (key_shift s k)) \<and>
    (key_shift s k = Inr k' \<longrightarrow> key_ok F k' \<and> kv_axis k' = target \<and>
       kv_position k' + axis_len source = kv_position k + axis_len target)"
proof (intro conjI impI)
  have s: "is_finite_kind (ax_kind source)" "is_finite_kind (ax_kind target)"
      "fs_source s = source" "fs_target s = target" "fs_distance s + axis_len source = axis_len target"
    using assms(3) by (auto simp: shift_try_new_def split: if_splits)
  show "axis_admits source (kv_axis k) \<longleftrightarrow> is_ok (key_shift s k)"
    by (simp add: key_shift_def s)
  assume "key_shift s k = Inr k'"
  then have adm: "axis_admits source (kv_axis k)"
    and k': "k' = \<lparr>kv_axis = target, kv_position = kv_position k + fs_distance s\<rparr>"
    by (simp_all add: key_shift_Inr_iff s)
  have axis: "axis_ok F (kv_axis k)" "kv_position k < axis_len (kv_axis k)"
    using assms(4) by (simp_all add: key_ok_def)
  have "axis_len (kv_axis k) \<le> axis_len source"
    using adm matches_finite_kind [OF assms(1) axis(1)] s(1) by (auto simp: axis_admits_def split: if_splits)
  with k' axis(2) s(5) assms(2) show "key_ok F k'" "kv_axis k' = target"
      "kv_position k' + axis_len source = kv_position k + axis_len target"
    by (simp_all add: key_ok_def)
qed

text \<open>Every coordinate axis that \<open>range\<close> or \<open>linspace\<close> accepts has between one and the maximal
  number of coordinates, ends exactly at its declared end (unless it is a \<open>linspace\<close> of one
  point) and is strictly monotonic over all pairs of positions, given that float comparison is
  transitive and that a float below the limit converts to an integer below it.\<close>

theorem coordinate_axes_valid:
  assumes "fl_transitive F" "fl_truncates F"
    and "try_range F start end step dimension display = Inr d \<or>
      try_linspace F start end points dimension display = Inr d"
  shows "0 < unat (ci_cardinality d) \<and> unat (ci_cardinality d) \<le> max_index_cardinality \<and>
    (ci_spacing d \<noteq> LinspaceSpacing \<or> ci_cardinality d \<noteq> 1 \<longrightarrow>
       coordinate_value F d (unat (ci_cardinality d) - 1) = end) \<and>
    (\<forall>i j. i < j \<and> j < unat (ci_cardinality d) \<longrightarrow>
      (if fl_lt F (ci_start d) (ci_end d)
       then fl_lt F (coordinate_value F d i) (coordinate_value F d j)
       else fl_lt F (coordinate_value F d j) (coordinate_value F d i)))"
proof -
  have valid: "coordinate_validated F d = Inr d \<and> 0 < unat (ci_cardinality d) \<and>
      unat (ci_cardinality d) \<le> max_index_cardinality \<and> ci_end d = end"
    using assms(3)
  proof
    assume "try_range F start end step dimension display = Inr d"
    then obtain n where n: "range_cardinality F start end step = Inr n"
      and v: "coordinate_validated F \<lparr>ci_start = start, ci_end = end, ci_spacing = StepSpacing step,
        ci_cardinality = n, ci_dimension = dimension, ci_display = display\<rparr> = Inr d"
      unfolding try_range_def res_bind_Inr_iff by (auto split: if_splits simp: res_bind_Inr_iff)
    show ?thesis
      using v range_cardinality_bounds [OF n assms(2)] coordinate_validated_same [OF v] by simp
  next
    assume "try_linspace F start end points dimension display = Inr d"
    then obtain n where n: "cardinality_try_from points = Inr n"
      and v: "coordinate_validated F \<lparr>ci_start = start, ci_end = end, ci_spacing = LinspaceSpacing,
        ci_cardinality = n, ci_dimension = dimension, ci_display = display\<rparr> = Inr d"
      by (auto simp: try_linspace_def res_bind_Inr_iff map_err_Inr_iff split: if_splits)
    show ?thesis
      using v n coordinate_validated_same [OF v] by (simp add: cardinality_try_from_iff)
  qed
  have "coordinate_value F d (unat (ci_cardinality d) - 1) = end"
    if "ci_spacing d \<noteq> LinspaceSpacing \<or> ci_cardinality d \<noteq> 1"
  proof -
    have "1 < unat (ci_cardinality d)" if "ci_cardinality d \<noteq> 1"
      using that valid unat_u64_inj [of "ci_cardinality d" 1] by (cases "unat (ci_cardinality d)") auto
    then show ?thesis
      using that valid by (auto simp: coordinate_value_def Let_def split: coordinate_spacing.split)
  qed
  moreover have "if fl_lt F (ci_start d) (ci_end d)
       then fl_lt F (coordinate_value F d i) (coordinate_value F d j)
       else fl_lt F (coordinate_value F d j) (coordinate_value F d i)"
    if "i < j" "j < unat (ci_cardinality d)" for i j
    by (rule conjunct2 [OF coordinate_validated_pairs [OF conjunct1 [OF valid] assms(1) that]])
  ultimately show ?thesis using valid by blast
qed


section \<open>Concrete inputs\<close>

text \<open>Exact arithmetic on integers in place of binary64.\<close>

definition int_floats :: "int floats" where
  "int_floats = \<lparr>fl_finite = (\<lambda>_. True), fl_lt = (<), fl_le = (\<le>), fl_eq = (=), fl_add = (+), fl_sub = (-),
     fl_mul = (*), fl_div = (div), fl_mul_add = (\<lambda>a b c. a * b + c), fl_abs = abs, fl_max = max,
     fl_round = (\<lambda>x. x), fl_of_nat = int, fl_to_u64 = (\<lambda>x. of_nat (nat (min x 18446744073709551615))),
     fl_epsilon = 0, fl_tiny = 0\<rparr>"

definition sample_axis :: "int index_axis" where
  "sample_axis = \<lparr>ax_index = FiniteAxis (FiniteIndex 3), ax_kind = FiniteKind (FiniteIndex 3),
     ax_keys = kind_entry_keys (FiniteKind (FiniteIndex 3) :: int concrete_kind),
     ax_positions = insert_positions Map.empty 0 (kind_entry_keys (FiniteKind (FiniteIndex 3) :: int concrete_kind)),
     ax_coordinates = []\<rparr>"

lemma sample_axis_ok: "axis_ok int_floats sample_axis"
  by (simp add: axis_ok_def axis_from_concrete_iff sample_axis_def axis_coordinates_def finite_index_ok_def
      max_index_cardinality_def)

lemma int_floats_laws: "fl_transitive int_floats" "fl_truncates int_floats"
proof -
  show "fl_transitive int_floats" by (auto simp: fl_transitive_def int_floats_def)
  have "unat (of_nat (nat (min x 18446744073709551615)) :: u64) < max_index_cardinality"
    if "x < int max_index_cardinality" for x
  proof -
    have "nat (min x 18446744073709551615) < max_index_cardinality"
      using that by (auto simp: max_index_cardinality_def min_def)
    then show ?thesis
      using unat_of_nat_u64 [of "nat (min x 18446744073709551615)"] by (simp add: max_index_cardinality_def)
  qed
  then show "fl_truncates int_floats" by (auto simp: fl_truncates_def int_floats_def not_le)
qed

theorem key_lookup_witness:
  "map key_entry (key_all sample_axis) = [PositionKey 0, PositionKey 1, PositionKey 2]"
proof -
  have "ax_keys sample_axis = [PositionKey 0, PositionKey 1, PositionKey 2]"
    by (simp add: sample_axis_def upt_rec)
  then show ?thesis using key_lookup [OF sample_axis_ok] by simp
qed

theorem key_shift_in_range_witness:
  "\<exists>s k'. shift_try_new sample_axis sample_axis = Some s \<and>
    key_shift s \<lparr>kv_axis = sample_axis, kv_position = 2\<rparr> = Inr k' \<and> kv_position k' = 2"
proof -
  obtain s where s: "shift_try_new sample_axis sample_axis = Some s"
    by (simp add: shift_try_new_def sample_axis_def)
  have len: "axis_len sample_axis = 3" by (simp add: axis_len_def sample_axis_def)
  have key: "key_ok int_floats \<lparr>kv_axis = sample_axis, kv_position = 2\<rparr>"
    using sample_axis_ok len by (simp add: key_ok_def)
  have "axis_admits sample_axis sample_axis"
    by (simp add: axis_admits_def sample_axis_def)
  then obtain k' where "key_shift s \<lparr>kv_axis = sample_axis, kv_position = 2\<rparr> = Inr k'"
    using key_shift_in_range [OF sample_axis_ok sample_axis_ok s key] by (auto simp: is_ok_iff)
  then show ?thesis using key_shift_in_range [OF sample_axis_ok sample_axis_ok s key, of k'] s len by auto
qed

theorem coordinate_axes_valid_witness:
  "\<exists>d. try_range int_floats 0 4 2 dimensionless \<lparr>cd_label = None, cd_scale = 1\<rparr> = Inr d \<and>
    coordinate_value int_floats d 2 = 4"
proof -
  let ?d = "\<lparr>ci_start = 0, ci_end = 4, ci_spacing = StepSpacing 2, ci_cardinality = 3,
    ci_dimension = dimensionless, ci_display = \<lparr>cd_label = None, cd_scale = 1\<rparr>\<rparr> :: int coordinate_index"
  have "range_cardinality int_floats 0 4 2 = Inr 3"
    by (simp add: range_cardinality_def int_floats_def Let_def coordinate_values_equal_def
        max_index_cardinality_def u64_saturating_add_def u64_checked_add_def)
  moreover have "coordinate_validated int_floats ?d = Inr ?d"
    by (simp add: coordinate_validated_def upt_rec monotonic_step_def coordinate_value_def Let_def int_floats_def)
  ultimately have d: "try_range int_floats 0 4 2 dimensionless \<lparr>cd_label = None, cd_scale = 1\<rparr> = Inr ?d"
    by (simp add: try_range_def) (simp add: int_floats_def)
  have "ci_spacing ?d \<noteq> LinspaceSpacing" by simp
  with coordinate_axes_valid [OF int_floats_laws, where points = 0, OF disjI1 [OF d]]
  have "coordinate_value int_floats ?d (unat (ci_cardinality ?d) - 1) = 4" by blast
  with d show ?thesis by (intro exI [of _ ?d]) simp
qed


end
