(* ===== verification/Runtime_Value.thy ===== *)
theory Runtime_Value
  imports Index_Axis
begin

text \<open>
  Runtime values (\<open>runtime_value.rs\<close>): struct values with the fields of their constructor
  (\<open>semantic/struct_value.rs\<close>), indexed values with one entry per key (\<open>runtime_value/indexed.rs\<close>),
  rectangular arrays (\<open>runtime_value/dense_array.rs\<close>) and values carried with their presentation
  (\<open>runtime_presentation.rs\<close>). The lemmas show that flattening and rebuilding an array are inverse,
  that a constructor receives exactly its fields, and that presenting a value never changes it.
\<close>

section \<open>Values\<close>

record applied_constructor =
  ac_type :: resolved_name
  ac_constructor :: string
  ac_args :: "concrete_arg list"
  ac_fields :: "(string \<times> concrete_type) list"

text \<open>Quantities and the components of complex values are finite floats \<open>'f\<close>; a datetime is an
  opaque instant \<open>'t\<close>.\<close>

datatype ('f, 't) runtime_value =
    QuantityV 'f
  | ComplexV 'f 'f
  | BoolV bool
  | IntV i64
  | KeyV "'f key_value"
  | StructV applied_constructor "('f, 't) runtime_value list"
  | IndexedV "'f index_axis" "('f, 't) runtime_value list"
  | DatetimeV 't

text \<open>\<open>PartialEq\<close> of applications compares nominal types by their canonical identity.\<close>

definition same_arg :: "concrete_arg \<Rightarrow> concrete_arg \<Rightarrow> bool" where
  "same_arg a b \<longleftrightarrow>
     map_generic_arg tn_resolved (\<lambda>f. f) (\<lambda>n. n) a = map_generic_arg tn_resolved (\<lambda>f. f) (\<lambda>n. n) b"

definition same_application :: "applied_constructor \<Rightarrow> applied_constructor \<Rightarrow> bool" where
  "same_application a b \<longleftrightarrow>
     ac_type a = ac_type b \<and> ac_constructor a = ac_constructor b \<and>
     list_all2 same_arg (ac_args a) (ac_args b) \<and>
     list_all2 (\<lambda>(n, t) (m, u). n = m \<and> same_type t u) (ac_fields a) (ac_fields b)"

section \<open>Struct values\<close>

datatype struct_fields_error =
    MissingField string string
  | UnexpectedField string string
  | DuplicateField string string

record 'v struct_value =
  sv_application :: applied_constructor
  sv_values :: "'v list"

text \<open>The provided fields are an insertion-ordered map, and taking a field out swaps the last entry
  into its place (\<open>IndexMap::swap_remove\<close>).\<close>

definition swap_remove :: "'k \<Rightarrow> ('k \<times> 'v) list \<Rightarrow> ('v \<times> ('k \<times> 'v) list) option" where
  "swap_remove key m =
     (case find (\<lambda>i. fst (m ! i) = key) [0..<length m] of
        None \<Rightarrow> None
      | Some i \<Rightarrow> Some (snd (m ! i), butlast (m[i := last m])))"

definition provide_field ::
  "string \<Rightarrow> (string \<times> 'v) list \<Rightarrow> string \<times> 'v \<Rightarrow> ((string \<times> 'v) list, struct_fields_error) result" where
  "provide_field constructor provided fv =
     (if fst fv \<in> fst ` set provided then Inl (DuplicateField constructor (fst fv))
      else Inr (provided @ [fv]))"

definition take_field ::
  "string \<Rightarrow> (string \<times> 'v) list \<times> 'v list \<Rightarrow> string \<times> concrete_type \<Rightarrow>
   ((string \<times> 'v) list \<times> 'v list, struct_fields_error) result" where
  "take_field constructor s field =
     (case swap_remove (fst field) (fst s) of
        None \<Rightarrow> Inl (MissingField constructor (fst field))
      | Some (v, rest) \<Rightarrow> Inr (rest, snd s @ [v]))"

definition struct_try_new ::
  "applied_constructor \<Rightarrow> (string \<times> 'v) list \<Rightarrow> ('v struct_value, struct_fields_error) result" where
  "struct_try_new app given =
     res_bind (try_fold (provide_field (ac_constructor app)) [] given) (\<lambda>provided.
     res_bind (try_fold (take_field (ac_constructor app)) (provided, []) (ac_fields app)) (\<lambda>(rest, values).
       case rest of
         (field, _) # _ \<Rightarrow> Inl (UnexpectedField (ac_constructor app) field)
       | [] \<Rightarrow> Inr \<lparr>sv_application = app, sv_values = values\<rparr>))"

definition field_position :: "applied_constructor \<Rightarrow> string \<Rightarrow> nat option" where
  "field_position app field = find (\<lambda>i. fst (ac_fields app ! i) = field) [0..<length (ac_fields app)]"

definition struct_field :: "'v struct_value \<Rightarrow> string \<Rightarrow> 'v option" where
  "struct_field s field =
     Option.bind (field_position (sv_application s) field) (\<lambda>i.
       if i < length (sv_values s) then Some (sv_values s ! i) else None)"

definition struct_fields :: "'v struct_value \<Rightarrow> (string \<times> 'v) list" where
  "struct_fields s = zip (map fst (ac_fields (sv_application s))) (sv_values s)"

definition struct_into_field :: "'v struct_value \<Rightarrow> string \<Rightarrow> ('v, 'v struct_value) result" where
  "struct_into_field s field =
     (case field_position (sv_application s) field of
        Some i \<Rightarrow> Inr (sv_values s ! i)
      | None \<Rightarrow> Inl s)"

definition struct_zip :: "'v struct_value \<Rightarrow> 'u struct_value \<Rightarrow> (('v \<times> 'u) struct_value, 'v struct_value) result" where
  "struct_zip s other =
     (if \<not> same_application (sv_application s) (sv_application other) then Inl s
      else Inr \<lparr>sv_application = sv_application s, sv_values = zip (sv_values s) (sv_values other)\<rparr>)"

section \<open>Indexed values\<close>

record ('f, 'v) indexed_value =
  iv_axis :: "'f index_axis"
  iv_entries :: "'v list"

record entry_count_error =
  ec_expected :: nat
  ec_found :: nat

definition try_from_entries ::
  "'f index_axis \<Rightarrow> 'v list \<Rightarrow> (('f, 'v) indexed_value, entry_count_error) result" where
  "try_from_entries axis entries =
     (let e = \<lparr>ec_expected = axis_len axis, ec_found = length entries\<rparr> in
      if ec_expected e \<noteq> ec_found e then Inl e
      else if entries = [] then Inl e
      else Inr \<lparr>iv_axis = axis, iv_entries = entries\<rparr>)"

definition try_from_axis ::
  "'f index_axis \<Rightarrow> ('f key_value \<Rightarrow> ('v, 'e) result) \<Rightarrow> (('f, 'v) indexed_value, 'e) result" where
  "try_from_axis axis entry =
     res_map (\<lambda>entries. \<lparr>iv_axis = axis, iv_entries = entries\<rparr>) (try_map entry (key_all axis))"

definition indexed_map :: "('v \<Rightarrow> 'u) \<Rightarrow> ('f, 'v) indexed_value \<Rightarrow> ('f, 'u) indexed_value" where
  "indexed_map g v = \<lparr>iv_axis = iv_axis v, iv_entries = map g (iv_entries v)\<rparr>"

definition indexed_try_map ::
  "(entry_key \<Rightarrow> 'v \<Rightarrow> ('u, 'e) result) \<Rightarrow> ('f, 'v) indexed_value \<Rightarrow> (('f, 'u) indexed_value, 'e) result" where
  "indexed_try_map g v =
     res_map (\<lambda>entries. \<lparr>iv_axis = iv_axis v, iv_entries = entries\<rparr>)
       (try_map (\<lambda>(key, x). g key x) (zip (ax_keys (iv_axis v)) (iv_entries v)))"

definition indexed_get :: "('f, 'v) indexed_value \<Rightarrow> entry_key \<Rightarrow> 'v option" where
  "indexed_get v key =
     Option.bind (ax_positions (iv_axis v) key) (\<lambda>p. if p < length (iv_entries v) then Some (iv_entries v ! p) else None)"

definition indexed_get_key :: "('f, 'v) indexed_value \<Rightarrow> 'f key_value \<Rightarrow> 'v option" where
  "indexed_get_key v key =
     (if axis_admits (iv_axis v) (kv_axis key)
      then (if kv_position key < length (iv_entries v) then Some (iv_entries v ! kv_position key) else None)
      else None)"

definition indexed_iter :: "('f, 'v) indexed_value \<Rightarrow> (entry_key \<times> 'v) list" where
  "indexed_iter v = zip (ax_keys (iv_axis v)) (iv_entries v)"

text \<open>Axes of one index have the same keys, so matching values align; \<open>others[position]\<close> would panic
  otherwise.\<close>

definition indexed_zip ::
  "('f, 'v) indexed_value \<Rightarrow> ('f, 'u) indexed_value \<Rightarrow> (('f, 'v \<times> 'u) indexed_value, ('f, 'v) indexed_value) result" where
  "indexed_zip v other =
     (if \<not> axis_matches (iv_axis v) (iv_axis other) then Inl v
      else Inr \<lparr>iv_axis = iv_axis v, iv_entries = zip (iv_entries v) (iv_entries other)\<rparr>)"

section \<open>Rectangular arrays\<close>

record ('f, 'x) dense_array =
  da_axes :: "'f index_axis list"
  da_data :: "'x list"

datatype 'e dense_array_error = Ragged | ElementError 'e

record dense_shape_error =
  ds_expected :: nat
  ds_actual :: nat

definition usize_max :: nat where
  "usize_max = 18446744073709551615"

definition usize_checked_mul :: "nat \<Rightarrow> nat \<Rightarrow> nat option" where
  "usize_checked_mul a b = (if a * b \<le> usize_max then Some (a * b) else None)"

definition dense_try_new ::
  "'f index_axis list \<Rightarrow> 'x list \<Rightarrow> (('f, 'x) dense_array, dense_shape_error) result" where
  "dense_try_new axes data =
     (case foldl (\<lambda>acc axis. Option.bind acc (\<lambda>n. usize_checked_mul n (axis_len axis))) (Some 1) axes of
        Some expected \<Rightarrow>
          if expected = length data then Inr \<lparr>da_axes = axes, da_data = data\<rparr>
          else Inl \<lparr>ds_expected = expected, ds_actual = length data\<rparr>
      | None \<Rightarrow> Inl \<lparr>ds_expected = usize_max, ds_actual = length data\<rparr>)"

text \<open>The axes along the first entries.\<close>

fun inner_shape :: "('f, 't) runtime_value \<Rightarrow> 'f index_axis list" where
  "inner_shape (IndexedV axis (first # _)) = axis # inner_shape first"
| "inner_shape _ = []"

fun shape_of :: "('f, ('f, 't) runtime_value) indexed_value \<Rightarrow> 'f index_axis list" where
  "shape_of v = iv_axis v # (case iv_entries v of first # _ \<Rightarrow> inner_shape first | [] \<Rightarrow> [])"

fun fill ::
  "(('f, 't) runtime_value \<Rightarrow> ('x, 'e) result) \<Rightarrow> 'f index_axis list \<Rightarrow> 'x list \<Rightarrow> ('f, 't) runtime_value \<Rightarrow>
   ('x list, 'e dense_array_error) result"
where
  "fill element (expected # inner_axes) data (IndexedV axis entries) =
     (if axis_matches axis expected then try_fold (fill element inner_axes) data entries else Inl Ragged)"
| "fill element [] data (IndexedV axis entries) = Inl Ragged"
| "fill element (expected # inner_axes) data leaf = Inl Ragged"
| "fill element [] data leaf = res_map (\<lambda>x. data @ [x]) (map_err ElementError (element leaf))"

definition dense_try_from_indexed ::
  "(('f, 't) runtime_value \<Rightarrow> ('x, 'e) result) \<Rightarrow> ('f, ('f, 't) runtime_value) indexed_value \<Rightarrow>
   (('f, 'x) dense_array, 'e dense_array_error) result" where
  "dense_try_from_indexed element v =
     (let axes = shape_of v in
      res_map (\<lambda>data. \<lparr>da_axes = axes, da_data = data\<rparr>) (try_fold (fill element (tl axes)) [] (iv_entries v)))"

definition dense_try_map :: "('x \<Rightarrow> ('y, 'e) result) \<Rightarrow> ('f, 'x) dense_array \<Rightarrow> (('f, 'y) dense_array, 'e) result" where
  "dense_try_map element a = res_map (\<lambda>data. \<lparr>da_axes = da_axes a, da_data = data\<rparr>) (try_map element (da_data a))"

text \<open>Chunk \<open>p\<close> of \<open>chunks_exact(n)\<close>.\<close>

definition chunk :: "nat \<Rightarrow> 'x list \<Rightarrow> nat \<Rightarrow> 'x list" where
  "chunk n data p = take n (drop (p * n) data)"

fun build_indexed ::
  "('x \<Rightarrow> (('f, 't) runtime_value, 'e) result) \<Rightarrow> 'f index_axis list \<Rightarrow> 'f index_axis \<Rightarrow> 'x list \<Rightarrow>
   (('f, ('f, 't) runtime_value) indexed_value, 'e) result"
where
  "build_indexed leaf [] axis data =
     try_from_axis axis (\<lambda>key. leaf (chunk 1 data (kv_position key) ! 0))"
| "build_indexed leaf (inner # rest) axis data =
     (let chunk_len = prod_list (map axis_len (inner # rest)) in
      try_from_axis axis (\<lambda>key.
        res_map (\<lambda>v. IndexedV (iv_axis v) (iv_entries v))
          (build_indexed leaf rest inner (chunk chunk_len data (kv_position key)))))"

definition dense_try_to_indexed ::
  "('x \<Rightarrow> (('f, 't) runtime_value, 'e) result) \<Rightarrow> ('f, 'x) dense_array \<Rightarrow>
   (('f, ('f, 't) runtime_value) indexed_value, 'e) result" where
  "dense_try_to_indexed leaf a = build_indexed leaf (tl (da_axes a)) (hd (da_axes a)) (da_data a)"


section \<open>Equality\<close>

text \<open>The derived \<open>PartialEq\<close> of runtime values, given the numeric equality of finite floats and the
  equality of instants.\<close>

fun value_eq ::
  "('f \<Rightarrow> 'f \<Rightarrow> bool) \<Rightarrow> ('t \<Rightarrow> 't \<Rightarrow> bool) \<Rightarrow> ('f, 't) runtime_value \<Rightarrow> ('f, 't) runtime_value \<Rightarrow> bool"
where
  "value_eq feq teq (QuantityV a) (QuantityV b) = feq a b"
| "value_eq feq teq (ComplexV a b) (ComplexV c d) = (feq a c \<and> feq b d)"
| "value_eq feq teq (BoolV a) (BoolV b) = (a = b)"
| "value_eq feq teq (IntV a) (IntV b) = (a = b)"
| "value_eq feq teq (KeyV a) (KeyV b) = key_eq a b"
| "value_eq feq teq (StructV a xs) (StructV b ys) = (same_application a b \<and> list_all2 (value_eq feq teq) xs ys)"
| "value_eq feq teq (IndexedV a xs) (IndexedV b ys) = (axis_matches a b \<and> list_all2 (value_eq feq teq) xs ys)"
| "value_eq feq teq (DatetimeV a) (DatetimeV b) = teq a b"
| "value_eq feq teq _ _ = False"

section \<open>Equality is an equivalence\<close>

lemma equivp_on: "equivp (\<lambda>a b. g a = g b)"
  by (rule equivpI) (auto simp: reflp_def symp_def transp_def)

lemma list_all2_on: "list_all2 (\<lambda>a b. g a = g b) xs ys \<longleftrightarrow> map g xs = map g ys"
  by (auto simp: list_all2_conv_all_nth list_eq_iff_nth_eq)

lemma list_all2_flip_on:
  "list_all2 P xs ys \<Longrightarrow> (\<And>x y. x \<in> set xs \<Longrightarrow> y \<in> set ys \<Longrightarrow> P x y \<Longrightarrow> Q y x) \<Longrightarrow> list_all2 Q ys xs"
  by (simp add: list_all2_conv_all_nth)

lemma list_all2_trans_on:
  "list_all2 P xs ys \<Longrightarrow> list_all2 Q ys zs \<Longrightarrow>
    (\<And>x y z. x \<in> set xs \<Longrightarrow> P x y \<Longrightarrow> Q y z \<Longrightarrow> R x z) \<Longrightarrow> list_all2 R xs zs"
  unfolding list_all2_conv_all_nth using nth_mem by auto

lemma index_matches_eq:
  "index_matches a b \<longleftrightarrow> map_index_ref tn_resolved (\<lambda>f. f) a = map_index_ref tn_resolved (\<lambda>f. f) b"
  by (cases a; cases b) (simp_all add: index_matches_def type_name_matches_def)

lemma axis_matches_equivp: "equivp axis_matches"
proof -
  have eq: "axis_matches =
      (\<lambda>a b. map_index_ref tn_resolved (\<lambda>f. f) (ax_index a) = map_index_ref tn_resolved (\<lambda>f. f) (ax_index b))"
    by (rule ext)+ (simp add: axis_matches_def index_matches_eq)
  show ?thesis unfolding eq by (rule equivp_on)
qed

lemma same_application_equivp: "equivp same_application"
proof -
  let ?arg = "map_generic_arg tn_resolved (\<lambda>f. f) (\<lambda>n. n) :: concrete_arg \<Rightarrow> _"
  let ?field = "\<lambda>(n, t :: concrete_type). (n, map_checked_type tn_resolved (\<lambda>f. f) (\<lambda>n. n) t)"
  let ?key = "\<lambda>a. (ac_type a, ac_constructor a, map ?arg (ac_args a), map ?field (ac_fields a))"
  have field: "(\<lambda>(n, t) (m, u). n = m \<and> same_type t u) = (\<lambda>a b :: string \<times> concrete_type. ?field a = ?field b)"
    by (rule ext)+ (auto simp: same_type_def)
  have arg: "same_arg = (\<lambda>a b. ?arg a = ?arg b)" by (rule ext)+ (simp add: same_arg_def)
  have eq: "same_application = (\<lambda>a b. ?key a = ?key b)"
    by (rule ext)+ (simp add: same_application_def field arg list_all2_on)
  show ?thesis unfolding eq by (rule equivp_on)
qed

lemma key_eq_equivp: "equivp key_eq"
  by (rule equivpI) (auto simp: reflp_def symp_def transp_def key_eq_def
      intro: equivp_reflp [OF axis_matches_equivp] equivp_symp [OF axis_matches_equivp]
        equivp_transp [OF axis_matches_equivp])

lemmas identity_refl = equivp_reflp [OF key_eq_equivp] equivp_reflp [OF same_application_equivp]
  equivp_reflp [OF axis_matches_equivp]
lemmas identity_sym = equivp_symp [OF key_eq_equivp] equivp_symp [OF same_application_equivp]
  equivp_symp [OF axis_matches_equivp]
lemmas identity_trans = equivp_transp [OF key_eq_equivp] equivp_transp [OF same_application_equivp]
  equivp_transp [OF axis_matches_equivp]

lemma value_eq_refl:
  assumes "equivp feq" "equivp teq"
  shows "value_eq feq teq v v"
  using assms
  by (induction v) (auto simp: equivp_reflp identity_refl intro!: list.rel_refl_strong)

lemma value_eq_sym:
  assumes "equivp feq" "equivp teq"
  shows "value_eq feq teq v w \<Longrightarrow> value_eq feq teq w v"
proof (induction v arbitrary: w)
  case (StructV app xs)
  then show ?case by (cases w) (auto intro: identity_sym list_all2_flip_on)
next
  case (IndexedV axis xs)
  then show ?case by (cases w) (auto intro: identity_sym list_all2_flip_on)
next
  case (KeyV k)
  then show ?case by (cases w) (auto intro: identity_sym)
qed (case_tac w; use assms in \<open>auto intro: equivp_symp\<close>)+

lemma value_eq_trans:
  assumes "equivp feq" "equivp teq"
  shows "value_eq feq teq v w \<Longrightarrow> value_eq feq teq w u \<Longrightarrow> value_eq feq teq v u"
proof (induction v arbitrary: w u)
  case (StructV app xs)
  from StructV.prems obtain b ys c zs where w: "w = StructV b ys" and u: "u = StructV c zs"
    by (cases w; cases u) auto
  with StructV show ?case by (auto intro: identity_trans list_all2_trans_on)
next
  case (IndexedV axis xs)
  from IndexedV.prems obtain b ys c zs where w: "w = IndexedV b ys" and u: "u = IndexedV c zs"
    by (cases w; cases u) auto
  with IndexedV show ?case by (auto intro: identity_trans list_all2_trans_on)
next
  case (KeyV k)
  then show ?case by (cases w; cases u) (auto intro: identity_trans)
qed (case_tac w; case_tac u; use assms in \<open>auto intro: equivp_transp\<close>)+


section \<open>Well-formed values\<close>

text \<open>The representation invariants: a constructor has one value per declared field and an indexed
  value one entry per key. Keys are functions of the index identity within one program, so
  equal indexes have one length, given by \<open>L\<close>.\<close>

definition lengths_by_identity :: "(concrete_index \<Rightarrow> nat) \<Rightarrow> bool" where
  "lengths_by_identity L \<longleftrightarrow> (\<forall>a b. index_matches a b \<longrightarrow> L a = L b)"

definition axis_sized :: "(concrete_index \<Rightarrow> nat) \<Rightarrow> 'f index_axis \<Rightarrow> bool" where
  "axis_sized L axis \<longleftrightarrow> axis_len axis = L (ax_index axis) \<and> 0 < axis_len axis"

fun value_ok :: "(concrete_index \<Rightarrow> nat) \<Rightarrow> ('f, 't) runtime_value \<Rightarrow> bool" where
  "value_ok L (StructV app vs) = (length vs = length (ac_fields app) \<and> list_all (value_ok L) vs)"
| "value_ok L (IndexedV axis vs) = (axis_sized L axis \<and> length vs = axis_len axis \<and> list_all (value_ok L) vs)"
| "value_ok L _ = True"

lemma matches_sized:
  "lengths_by_identity L \<Longrightarrow> axis_sized L a \<Longrightarrow> axis_sized L b \<Longrightarrow> axis_matches a b \<Longrightarrow> axis_len a = axis_len b"
  by (auto simp: lengths_by_identity_def axis_sized_def axis_matches_def)

lemma key_all_sized: "axis_sized L axis \<Longrightarrow> key_all axis = map (\<lambda>p. \<lparr>kv_axis = axis, kv_position = p\<rparr>) [0..<axis_len axis]"
  by (simp add: axis_sized_def key_all_def upt_rec)

section \<open>Flattening and rebuilding\<close>

text \<open>A rectangular value has the same axes along every path; its leaves in row-major order.\<close>

fun has_shape :: "'f index_axis list \<Rightarrow> ('f, 't) runtime_value \<Rightarrow> bool" where
  "has_shape (expected # axes) (IndexedV axis entries) =
     (axis_matches axis expected \<and> list_all (has_shape axes) entries)"
| "has_shape [] (IndexedV axis entries) = False"
| "has_shape (expected # axes) _ = False"
| "has_shape [] _ = True"

fun leaves :: "('f, 't) runtime_value \<Rightarrow> ('f, 't) runtime_value list" where
  "leaves (IndexedV axis entries) = concat (map leaves entries)"
| "leaves v = [v]"

definition dense_ok :: "(concrete_index \<Rightarrow> nat) \<Rightarrow> ('f, 'x) dense_array \<Rightarrow> bool" where
  "dense_ok L a \<longleftrightarrow> da_axes a \<noteq> [] \<and> list_all (axis_sized L) (da_axes a) \<and>
     length (da_data a) = prod_list (map axis_len (da_axes a))"

lemma try_map_append:
  "try_map f (xs @ ys) = res_bind (try_map f xs) (\<lambda>us. res_map (\<lambda>vs. us @ vs) (try_map f ys))"
proof (induction xs)
  case Nil
  show ?case by (cases "try_map f ys") simp_all
next
  case (Cons x xs)
  show ?case
    by (cases "f x"; cases "try_map f xs"; cases "try_map f ys") (simp_all add: Cons)
qed

lemma fill_entries:
  assumes "\<And>data v. v \<in> set entries \<Longrightarrow> fill element axes data v =
      res_map (\<lambda>ys. data @ ys) (map_err ElementError (try_map element (leaves v)))"
  shows "try_fold (fill element axes) data entries =
      res_map (\<lambda>ys. data @ ys) (map_err ElementError (try_map element (concat (map leaves entries))))"
  using assms
proof (induction entries arbitrary: data)
  case (Cons v entries)
  show ?case
    by (cases "try_map element (leaves v)"; cases "try_map element (concat (map leaves entries))")
      (simp_all add: Cons try_map_append)
qed simp

lemma fill_has_shape:
  "has_shape axes v \<Longrightarrow> fill element axes data v =
     res_map (\<lambda>ys. data @ ys) (map_err ElementError (try_map element (leaves v)))"
proof (induction axes v arbitrary: data rule: has_shape.induct)
  case (1 expected axes axis entries)
  then have "try_fold (fill element axes) data entries =
      res_map (\<lambda>ys. data @ ys) (map_err ElementError (try_map element (concat (map leaves entries))))"
    by (intro fill_entries) (auto simp: list_all_iff)
  with 1 show ?case by simp
qed (simp_all add: res_map_def map_err_def split: sum.splits)

lemma fill_ragged:
  "\<not> has_shape axes v \<Longrightarrow> \<exists>e. fill element axes data v = Inl e"
proof (induction axes v arbitrary: data rule: has_shape.induct)
  case (1 expected axes axis entries)
  show ?case
  proof (cases "axis_matches axis expected")
    case True
    with 1 obtain v where v: "v \<in> set entries" "\<not> has_shape axes v" by (auto simp: list_all_iff)
    have "\<exists>e. try_fold (fill element axes) data entries = Inl e"
    proof (cases "try_fold (fill element axes) data entries")
      case (Inr y)
      from split_list [OF v(1)] obtain pre post where "entries = pre @ v # post" by blast
      with Inr obtain s t where "fill element axes s v = Inr t"
        by (auto simp: try_fold_append result_iffs)
      moreover obtain e where "fill element axes s v = Inl e" using 1(1) [OF v] by blast
      ultimately show ?thesis by simp
    qed simp
    with True show ?thesis by simp
  qed simp
qed simp_all


lemma leaves_length:
  assumes "lengths_by_identity L"
  shows "has_shape axes v \<Longrightarrow> value_ok L v \<Longrightarrow> list_all (axis_sized L) axes \<Longrightarrow>
    length (leaves v) = prod_list (map axis_len axes)"
proof (induction axes v rule: has_shape.induct)
  case (1 expected axes axis entries)
  have "length (leaves v) = prod_list (map axis_len axes)" if "v \<in> set entries" for v
    using 1 that by (auto simp: list_all_iff)
  then have eq: "map (\<lambda>v. length (leaves v)) entries = map (\<lambda>v. prod_list (map axis_len axes)) entries" by simp
  have "length (concat (map leaves entries)) = length entries * prod_list (map axis_len axes)"
    unfolding length_concat map_map comp_def eq by (simp add: sum_list_triv)
  moreover have "axis_len axis = axis_len expected"
    using 1 matches_sized [OF assms, of axis expected] by simp
  ultimately show ?case using 1(3) by simp
qed simp_all

lemma chunk_concat:
  "(\<And>xs. xs \<in> set xss \<Longrightarrow> length xs = n) \<Longrightarrow> p < length xss \<Longrightarrow> chunk n (concat xss) p = xss ! p"
proof (induction xss arbitrary: p)
  case (Cons xs xss)
  show ?case
  proof (cases p)
    case 0
    then show ?thesis using Cons.prems by (simp add: chunk_def)
  next
    case (Suc q)
    have "chunk n (concat (xs # xss)) p = chunk n (concat xss) q"
      using Cons.prems(1) [of xs] Suc by (simp add: chunk_def)
    then show ?thesis using Cons Suc by simp
  qed
qed simp

lemma list_all2_chunk: "list_all2 P xs ys \<Longrightarrow> list_all2 P (chunk n xs p) (chunk n ys p)"
  unfolding chunk_def by (intro list_all2_takeI list_all2_dropI)

lemma try_from_axis_entries:
  assumes "axis_sized L axis" "length vs = axis_len axis"
    and "\<And>p. p < axis_len axis \<Longrightarrow> \<exists>w. entry \<lparr>kv_axis = axis, kv_position = p\<rparr> = Inr w \<and> R w (vs ! p)"
  shows "\<exists>iv. try_from_axis axis entry = Inr iv \<and> iv_axis iv = axis \<and> list_all2 R (iv_entries iv) vs"
proof -
  define key where "key p = \<lparr>kv_axis = axis, kv_position = p\<rparr>" for p
  define pick where "pick p = (SOME w. entry (key p) = Inr w \<and> R w (vs ! p))" for p
  have pick: "entry (key p) = Inr (pick p) \<and> R (pick p) (vs ! p)" if "p < axis_len axis" for p
    unfolding pick_def using assms(3) [OF that] unfolding key_def by (rule someI_ex)
  let ?ws = "map pick [0..<axis_len axis]"
  have "try_map entry (map key [0..<axis_len axis]) = Inr ?ws"
    by (simp add: try_map_Inr_iff list_all2_conv_all_nth pick)
  moreover have "key_all axis = map key [0..<axis_len axis]"
    unfolding key_def by (rule key_all_sized [OF assms(1)])
  moreover have "list_all2 R ?ws vs" by (simp add: list_all2_conv_all_nth assms(2) pick)
  ultimately show ?thesis by (simp add: try_from_axis_def)
qed

lemma build_indexed_eq:
  assumes "lengths_by_identity L"
  shows "has_shape (axis # inner) (IndexedV a vs) \<Longrightarrow> value_ok L (IndexedV a vs) \<Longrightarrow>
    list_all (axis_sized L) (axis # inner) \<Longrightarrow>
    list_all2 (\<lambda>x w. \<exists>u. leaf x = Inr u \<and> value_eq feq teq u w) data (leaves (IndexedV a vs)) \<Longrightarrow>
    \<exists>iv. build_indexed leaf inner axis data = Inr iv \<and> iv_axis iv = axis \<and>
      list_all2 (value_eq feq teq) (iv_entries iv) vs"
proof (induction inner arbitrary: axis a vs data)
  case Nil
  have len: "length vs = axis_len axis"
    using Nil matches_sized [OF assms, of a axis] by simp
  have leaf: "leaves (vs ! p) = [vs ! p]" if "p < axis_len axis" for p
    using Nil(1) that len by (cases "vs ! p") (auto simp: list_all_length)
  show ?case unfolding build_indexed.simps
  proof (rule try_from_axis_entries)
    fix p assume p: "p < axis_len axis"
    have "chunk 1 (concat (map leaves vs)) p = map leaves vs ! p"
      using p len leaf by (intro chunk_concat) (auto simp: in_set_conv_nth)
    then have "chunk 1 (leaves (IndexedV a vs)) p = [vs ! p]" using p len leaf by simp
    with list_all2_chunk [OF Nil(4), of 1 p]
    have "list_all2 (\<lambda>x w. \<exists>u. leaf x = Inr u \<and> value_eq feq teq u w) (chunk 1 data p) [vs ! p]" by simp
    then show "\<exists>w. leaf (chunk 1 data (kv_position \<lparr>kv_axis = axis, kv_position = p\<rparr>) ! 0) = Inr w \<and>
        value_eq feq teq w (vs ! p)"
      by (auto simp: list_all2_Cons2)
  qed (use Nil len in auto)
next
  case (Cons inner rest)
  have len: "length vs = axis_len axis"
    using Cons.prems matches_sized [OF assms, of a axis] by simp
  let ?n = "prod_list (map axis_len (inner # rest))"
  show ?case unfolding build_indexed.simps Let_def
  proof (rule try_from_axis_entries)
    fix p assume p: "p < axis_len axis"
    with Cons.prems len have v: "has_shape (inner # rest) (vs ! p)" "value_ok L (vs ! p)"
      by (auto simp: list_all_length)
    then obtain b ws where b: "vs ! p = IndexedV b ws" by (cases "vs ! p") auto
    have "chunk ?n (concat (map leaves vs)) p = map leaves vs ! p"
    proof (rule chunk_concat)
      fix xs assume "xs \<in> set (map leaves vs)"
      then show "length xs = ?n"
        using Cons.prems leaves_length [OF assms, of "inner # rest"] by (auto simp: list_all_iff)
    qed (use p len in simp)
    then have "chunk ?n (leaves (IndexedV a vs)) p = leaves (vs ! p)" using p len by simp
    with list_all2_chunk [OF Cons.prems(4), of ?n p]
    have "list_all2 (\<lambda>x w. \<exists>u. leaf x = Inr u \<and> value_eq feq teq u w) (chunk ?n data p) (leaves (IndexedV b ws))"
      by (simp add: b)
    with Cons.IH [of inner b ws "chunk ?n data p"] v b Cons.prems(3)
    obtain iv where "build_indexed leaf rest inner (chunk ?n data p) = Inr iv" "iv_axis iv = inner"
      "list_all2 (value_eq feq teq) (iv_entries iv) ws" by auto
    then show "\<exists>w. res_map (\<lambda>v. IndexedV (iv_axis v) (iv_entries v)) (build_indexed leaf rest inner
        (chunk ?n data (kv_position \<lparr>kv_axis = axis, kv_position = p\<rparr>))) = Inr w \<and> value_eq feq teq w (vs ! p)"
      using v(1) b by (auto intro: identity_sym)
  qed (use Cons.prems len in auto)
qed


lemma inner_shape_sized: "value_ok L v \<Longrightarrow> list_all (axis_sized L) (inner_shape v)"
  by (induction v rule: inner_shape.induct) simp_all

lemma shape_of_eq: "shape_of v = iv_axis v # tl (shape_of v)"
  by (cases v) simp

lemma shape_of_sized:
  "value_ok L (IndexedV (iv_axis v) (iv_entries v)) \<Longrightarrow> list_all (axis_sized L) (shape_of v)"
  by (cases v) (auto simp: inner_shape_sized split: list.split)

lemma has_shape_of:
  "has_shape (shape_of v) (IndexedV (iv_axis v) (iv_entries v)) \<longleftrightarrow> list_all (has_shape (tl (shape_of v))) (iv_entries v)"
  by (subst shape_of_eq) (simp add: identity_refl)

lemma from_indexed_rectangular:
  assumes "has_shape (shape_of v) (IndexedV (iv_axis v) (iv_entries v))"
  shows "dense_try_from_indexed element v =
    (case try_map element (leaves (IndexedV (iv_axis v) (iv_entries v))) of
       Inl e \<Rightarrow> Inl (ElementError e)
     | Inr data \<Rightarrow> Inr \<lparr>da_axes = shape_of v, da_data = data\<rparr>)"
proof -
  have "try_fold (fill element (tl (shape_of v))) [] (iv_entries v) =
      res_map (\<lambda>ys. [] @ ys) (map_err ElementError (try_map element (concat (map leaves (iv_entries v)))))"
    using assms by (intro fill_entries fill_has_shape) (auto simp: has_shape_of list_all_iff)
  then show ?thesis
    by (simp add: dense_try_from_indexed_def Let_def split: sum.split)
qed

lemma from_indexed_ragged:
  assumes "\<not> has_shape (shape_of v) (IndexedV (iv_axis v) (iv_entries v))"
  shows "\<exists>e. dense_try_from_indexed element v = Inl e"
proof -
  have "\<not> has_shape (iv_axis v # tl (shape_of v)) (IndexedV (iv_axis v) (iv_entries v))"
    using assms shape_of_eq [of v] by simp
  from fill_ragged [OF this, of element "[]"] show ?thesis
    by (auto simp: dense_try_from_indexed_def Let_def identity_refl)
qed

lemma to_indexed_from_indexed:
  assumes "lengths_by_identity L" "value_ok L (IndexedV (iv_axis v) (iv_entries v))"
    and "dense_try_from_indexed element v = Inr a"
    and "\<And>x y. element x = Inr y \<Longrightarrow> \<exists>u. leaf y = Inr u \<and> value_eq feq teq u x"
  shows "dense_ok L a \<and> (\<exists>w. dense_try_to_indexed leaf a = Inr w \<and> iv_axis w = iv_axis v \<and>
    list_all2 (value_eq feq teq) (iv_entries w) (iv_entries v))"
proof -
  let ?v = "IndexedV (iv_axis v) (iv_entries v)"
  have shape: "has_shape (shape_of v) ?v"
  proof (rule ccontr)
    assume "\<not> has_shape (shape_of v) ?v"
    from from_indexed_ragged [OF this, of element] assms(3) show False by simp
  qed
  then obtain data where data: "try_map element (leaves ?v) = Inr data"
    and a: "a = \<lparr>da_axes = shape_of v, da_data = data\<rparr>"
    using assms(3) unfolding from_indexed_rectangular [OF shape] by (auto split: sum.splits)
  have sized: "list_all (axis_sized L) (shape_of v)" by (rule shape_of_sized [OF assms(2)])
  have "list_all2 (\<lambda>x w. \<exists>u. leaf x = Inr u \<and> value_eq feq teq u w) data (leaves ?v)"
    using data assms(4) by (auto simp: try_map_Inr_iff list_all2_conv_all_nth)
  with build_indexed_eq [OF assms(1), of "iv_axis v" "tl (shape_of v)" "iv_axis v" "iv_entries v"]
    shape sized assms(2) shape_of_eq [of v]
  have "\<exists>w. dense_try_to_indexed leaf a = Inr w \<and> iv_axis w = iv_axis v \<and>
      list_all2 (value_eq feq teq) (iv_entries w) (iv_entries v)"
    by (simp add: a dense_try_to_indexed_def)
  moreover have "dense_ok L a"
    using leaves_length [OF assms(1) shape assms(2) sized] sized try_map_length [OF data] shape_of_eq [of v]
    by (simp add: dense_ok_def a)
  ultimately show ?thesis by blast
qed


text \<open>The language's equality of values is an equivalence relation, given that the numeric
  equality of finite floats and the equality of instants are.\<close>

theorem value_equality:
  assumes "equivp feq" "equivp teq"
  shows "equivp (value_eq feq teq)"
  using value_eq_refl [OF assms] value_eq_sym [OF assms] value_eq_trans [OF assms]
  by (intro equivpI reflpI sympI transpI) blast+

text \<open>C28: flattening a nested indexed value into a rectangular array. A ragged value is rejected; a
  rectangular one fails only with the first error of its leaves and otherwise yields one element
  per leaf, in row-major order, as many as the product of the axis lengths. When \<open>leaf\<close> undoes
  \<open>element\<close> up to equality, rebuilding the array returns a value equal to the original.\<close>

theorem dense_round_trip:
  assumes "lengths_by_identity L" "value_ok L (IndexedV (iv_axis v) (iv_entries v))"
    and "\<And>x y. element x = Inr y \<Longrightarrow> \<exists>u. leaf y = Inr u \<and> value_eq feq teq u x"
  shows "if has_shape (shape_of v) (IndexedV (iv_axis v) (iv_entries v))
    then (case try_map element (leaves (IndexedV (iv_axis v) (iv_entries v))) of
       Inl e \<Rightarrow> dense_try_from_indexed element v = Inl (ElementError e)
     | Inr data \<Rightarrow>
         dense_try_from_indexed element v = Inr \<lparr>da_axes = shape_of v, da_data = data\<rparr> \<and>
         length data = prod_list (map axis_len (shape_of v)) \<and>
         (\<exists>w. dense_try_to_indexed leaf \<lparr>da_axes = shape_of v, da_data = data\<rparr> = Inr w \<and>
           value_eq feq teq (IndexedV (iv_axis w) (iv_entries w)) (IndexedV (iv_axis v) (iv_entries v))))
    else \<exists>e. dense_try_from_indexed element v = Inl e"
proof (cases "has_shape (shape_of v) (IndexedV (iv_axis v) (iv_entries v))")
  case True
  show ?thesis
  proof (cases "try_map element (leaves (IndexedV (iv_axis v) (iv_entries v)))")
    case (Inl e)
    with True show ?thesis by (simp add: from_indexed_rectangular)
  next
    case (Inr data)
    let ?a = "\<lparr>da_axes = shape_of v, da_data = data\<rparr>"
    from True Inr have a: "dense_try_from_indexed element v = Inr ?a" by (simp add: from_indexed_rectangular)
    have "dense_ok L ?a \<and> (\<exists>w. dense_try_to_indexed leaf ?a = Inr w \<and> iv_axis w = iv_axis v \<and>
        list_all2 (value_eq feq teq) (iv_entries w) (iv_entries v))"
      by (rule to_indexed_from_indexed [OF assms(1,2) a]) (rule assms(3))
    then obtain w where w: "dense_ok L ?a" "dense_try_to_indexed leaf ?a = Inr w"
      "value_eq feq teq (IndexedV (iv_axis w) (iv_entries w)) (IndexedV (iv_axis v) (iv_entries v))"
      by (auto simp: identity_refl)
    then have "length data = prod_list (map axis_len (shape_of v))" by (simp add: dense_ok_def)
    with a w(2,3) show ?thesis unfolding if_P [OF True] Inr sum.case by blast
  qed
next
  case False
  show ?thesis unfolding if_not_P [OF False] by (rule from_indexed_ragged [OF False])
qed

section \<open>Concrete inputs\<close>

definition sample_indexed :: "(int, (int, int) runtime_value) indexed_value" where
  "sample_indexed = \<lparr>iv_axis = sample_axis,
     iv_entries = map (\<lambda>i. IndexedV sample_axis [QuantityV i, QuantityV (i + 1), QuantityV (i + 2)]) [0, 10, 20]\<rparr>"

fun quantity_element :: "(int, int) runtime_value \<Rightarrow> (int, unit) result" where
  "quantity_element (QuantityV q) = Inr q"
| "quantity_element _ = Inl ()"

theorem value_equality_witness: "equivp (value_eq (=) (=) :: (int, int) runtime_value \<Rightarrow> _)"
  by (rule value_equality) (rule identity_equivp)+

theorem dense_round_trip_witness:
  "\<exists>w. dense_try_to_indexed (\<lambda>q. Inr (QuantityV q) :: ((int, int) runtime_value, unit) result)
      \<lparr>da_axes = [sample_axis, sample_axis], da_data = [0, 1, 2, 10, 11, 12, 20, 21, 22]\<rparr> = Inr w \<and>
    value_eq (=) (=) (IndexedV (iv_axis w) (iv_entries w)) (IndexedV sample_axis (iv_entries sample_indexed))"
proof -
  define L :: "concrete_index \<Rightarrow> nat" where "L i = (case i of FiniteAxis f \<Rightarrow> unat (fin_cardinality f) | _ \<Rightarrow> 1)" for i
  have law: "lengths_by_identity L"
    by (auto simp: lengths_by_identity_def L_def index_matches_def split: index_ref.splits)
  have len: "axis_len sample_axis = 3" by (simp add: axis_len_def sample_axis_def)
  have sized: "axis_sized L sample_axis" by (simp add: axis_sized_def len L_def) (simp add: sample_axis_def)
  have ok: "value_ok L (IndexedV (iv_axis sample_indexed) (iv_entries sample_indexed))"
    by (simp add: sample_indexed_def sized len)
  have shape: "shape_of sample_indexed = [sample_axis, sample_axis]" by (simp add: sample_indexed_def)
  have rect: "has_shape (shape_of sample_indexed) (IndexedV (iv_axis sample_indexed) (iv_entries sample_indexed))"
    by (simp add: shape) (simp add: sample_indexed_def identity_refl)
  have data: "try_map quantity_element (leaves (IndexedV (iv_axis sample_indexed) (iv_entries sample_indexed))) =
      Inr [0, 1, 2, 10, 11, 12, 20, 21, 22]"
    by (simp add: sample_indexed_def)
  have inverse: "\<exists>u. Inr (QuantityV y) = Inr u \<and> value_eq (=) (=) u x" if "quantity_element x = Inr y" for x y
    using that by (cases x) auto
  have axis: "iv_axis sample_indexed = sample_axis" by (simp add: sample_indexed_def)
  from dense_round_trip [OF law ok, of quantity_element "\<lambda>q. Inr (QuantityV q) :: ((int, int) runtime_value, unit) result", OF inverse]
    rect data show ?thesis unfolding shape axis by simp
qed

end
