(* ===== verification/Struct_Value.thy ===== *)
theory Struct_Value
  imports Runtime_Value
begin

text \<open>
  What struct values promise (\<open>semantic/struct_value.rs\<close>): a constructor is applied to exactly its
  declared fields, whatever the order they are given in, and a field that is read back is the
  value given for it. The operations are those of theory \<open>Runtime_Value\<close>.
\<close>

section \<open>Struct fields\<close>

lemma find_position_iff:
  "distinct (map fst m) \<Longrightarrow> find (\<lambda>i. fst (m ! i) = k) [0..<length m] = Some i \<longleftrightarrow> i < length m \<and> fst (m ! i) = k"
  by (auto simp: find_Some_iff distinct_conv_nth)

lemma find_position_None: "find (\<lambda>i. fst (m ! i) = k) [0..<length m] = None \<longleftrightarrow> k \<notin> fst ` set m"
  by (auto simp: find_None_iff set_conv_nth [of m])

lemma set_butlast_update:
  assumes "distinct xs" "i < length xs"
  shows "distinct (butlast (xs[i := last xs])) \<and> set (butlast (xs[i := last xs])) = set xs - {xs ! i}"
proof -
  obtain ys y where xs: "xs = ys @ [y]" using assms(2) by (metis append_butlast_last_id list.size(3) not_less0)
  show ?thesis
  proof (cases "i = length ys")
    case True
    with xs show ?thesis using assms(1) by simp
  next
    case False
    with xs assms(2) have i: "i < length ys" by simp
    with xs have "butlast (xs[i := last xs]) = ys[i := y]" by (simp add: list_update_append butlast_append)
    then show ?thesis
      using assms(1) i xs by (auto simp: distinct_list_update set_update_distinct nth_append)
  qed
qed


lemma swap_remove_None: "swap_remove k m = None \<longleftrightarrow> k \<notin> fst ` set m"
  by (auto simp: swap_remove_def find_position_None [symmetric] split: option.split)

lemma swap_remove_Some:
  assumes "distinct (map fst m)" "swap_remove k m = Some (v, rest)"
  shows "(k, v) \<in> set m \<and> distinct (map fst rest) \<and> set rest = set m - {(k, v)}"
proof -
  obtain i where i: "i < length m" "fst (m ! i) = k" "v = snd (m ! i)" "rest = butlast (m[i := last m])"
    using assms by (auto simp: swap_remove_def find_position_iff split: option.splits)
  then have mi: "m ! i = (k, v)" by (simp add: prod_eq_iff)
  have "distinct m" using assms(1) by (simp add: distinct_map)
  from set_butlast_update [OF this i(1)] mi i(4)
  have rest: "distinct rest" "set rest = set m - {(k, v)}" by simp_all
  moreover have "inj_on fst (set rest)"
    using assms(1) rest(2) by (auto simp: distinct_map intro: inj_on_subset)
  ultimately show ?thesis using i(1) mi by (auto simp: distinct_map in_set_conv_nth)
qed

lemma provide_fold_Inr:
  "distinct (map fst acc) \<Longrightarrow> try_fold (provide_field c) acc given = Inr p \<longleftrightarrow>
     p = acc @ given \<and> distinct (map fst (acc @ given))"
  by (induction given arbitrary: acc) (auto simp: provide_field_def result_iffs)

lemma provide_fold_Inl:
  "try_fold (provide_field c) [] given = Inl e \<longleftrightarrow>
     (\<exists>pre f v post. given = pre @ (f, v) # post \<and> distinct (map fst pre) \<and> f \<in> fst ` set pre \<and> e = DuplicateField c f)"
  unfolding try_fold_Inl_iff by (auto simp: provide_fold_Inr provide_field_def split: if_splits)

lemma take_field_iff:
  "take_field c s field = Inr s' \<longleftrightarrow>
     (\<exists>v mid. swap_remove (fst field) (fst s) = Some (v, mid) \<and> s' = (mid, snd s @ [v]))"
  "take_field c s field = Inl e \<longleftrightarrow> fst field \<notin> fst ` set (fst s) \<and> e = MissingField c (fst field)"
  by (auto simp: take_field_def swap_remove_None [symmetric] split: option.splits)

lemma take_fold_Inr:
  assumes "distinct (map fst provided)" "distinct (map fst declared)"
    and "try_fold (take_field c) (provided, vals) declared = Inr (rest, out)"
  shows "fst ` set declared \<subseteq> fst ` set provided \<and> distinct (map fst rest) \<and>
    set rest = {p \<in> set provided. fst p \<notin> fst ` set declared} \<and>
    (\<exists>ws. out = vals @ ws \<and> list_all2 (\<lambda>field w. (fst field, w) \<in> set provided) declared ws)"
  using assms
proof (induction declared arbitrary: provided vals)
  case (Cons field declared)
  from Cons.prems(3) obtain v mid where mid: "swap_remove (fst field) provided = Some (v, mid)"
    and fold: "try_fold (take_field c) (mid, vals @ [v]) declared = Inr (rest, out)"
    by (auto simp: take_field_iff result_iffs)
  note removed = swap_remove_Some [OF Cons.prems(1) mid]
  have IH: "fst ` set declared \<subseteq> fst ` set mid" "distinct (map fst rest)"
      "set rest = {p \<in> set mid. fst p \<notin> fst ` set declared}"
      "\<exists>ws. out = (vals @ [v]) @ ws \<and> list_all2 (\<lambda>field w. (fst field, w) \<in> set mid) declared ws"
    using Cons.IH [OF _ _ fold] removed Cons.prems(2) by simp_all
  from IH(4) obtain ws where ws: "out = vals @ v # ws"
    "list_all2 (\<lambda>field w. (fst field, w) \<in> set mid) declared ws" by auto
  have "list_all2 (\<lambda>field w. (fst field, w) \<in> set provided) declared ws"
    by (rule list_all2_mono [OF ws(2)]) (simp add: removed)
  with ws(1) removed have out: "\<exists>ws. out = vals @ ws \<and>
      list_all2 (\<lambda>field w. (fst field, w) \<in> set provided) (field # declared) ws"
    by (intro exI [of _ "v # ws"]) simp
  have rest: "set rest = {p \<in> set provided. fst p \<notin> fst ` set (field # declared)}"
  proof (rule set_eqI)
    fix p
    have key: "fst p = fst field \<longleftrightarrow> p = (fst field, v)" if "p \<in> set provided"
    proof
      assume "fst p = fst field"
      then have "fst p = fst (fst field, v)" by simp
      then show "p = (fst field, v)"
        using Cons.prems(1) that conjunct1 [OF removed] by (intro inj_onD [of fst "set provided"]) (simp_all add: distinct_map)
    qed simp
    have "p \<in> set rest \<longleftrightarrow> p \<in> set provided \<and> p \<noteq> (fst field, v) \<and> fst p \<notin> fst ` set declared"
      unfolding IH(3) using removed by simp
    also have "\<dots> \<longleftrightarrow> p \<in> set provided \<and> fst p \<noteq> fst field \<and> fst p \<notin> fst ` set declared"
      using key by blast
    finally show "p \<in> set rest \<longleftrightarrow> p \<in> {p \<in> set provided. fst p \<notin> fst ` set (field # declared)}"
      by simp
  qed
  have "fst ` set mid \<subseteq> fst ` set provided" using removed by (intro image_mono) simp
  moreover have "fst field \<in> fst ` set provided" using removed by (intro image_eqI [of _ _ "(fst field, v)"]) simp_all
  ultimately have "fst ` set (field # declared) \<subseteq> fst ` set provided" using IH(1) by simp
  with out rest IH(2) show ?case by simp
qed simp

lemma take_fold_Inl:
  assumes "distinct (map fst provided)" "distinct (map fst declared)"
  shows "try_fold (take_field c) (provided, []) declared = Inl e \<longleftrightarrow>
    (\<exists>pre f t post. declared = pre @ (f, t) # post \<and> fst ` set pre \<subseteq> fst ` set provided \<and>
      f \<notin> fst ` set provided \<and> e = MissingField c f)" (is "_ \<longleftrightarrow> ?rhs")
proof
  assume "try_fold (take_field c) (provided, []) declared = Inl e"
  then obtain pre f t post rest out where d: "declared = pre @ (f, t) # post"
    and fold: "try_fold (take_field c) (provided, []) pre = Inr (rest, out)"
    and fail: "take_field c (rest, out) (f, t) = Inl e"
    unfolding try_fold_Inl_iff by auto
  have "distinct (map fst pre)" "f \<notin> fst ` set pre" using assms(2) d by auto
  with take_fold_Inr [OF assms(1) _ fold] fail d show ?rhs
    by (auto simp: take_field_iff)
next
  assume ?rhs
  then obtain pre f t post where d: "declared = pre @ (f, t) # post" "fst ` set pre \<subseteq> fst ` set provided"
      "f \<notin> fst ` set provided" "e = MissingField c f" by blast
  have "distinct (map fst pre)" using assms(2) d by auto
  show "try_fold (take_field c) (provided, []) declared = Inl e"
  proof (cases "try_fold (take_field c) (provided, []) pre")
    case (Inl e')
    then obtain pre' g u post' rest out where e': "pre = pre' @ (g, u) # post'"
      "try_fold (take_field c) (provided, []) pre' = Inr (rest, out)" "take_field c (rest, out) (g, u) = Inl e'"
      unfolding try_fold_Inl_iff by auto
    have "distinct (map fst pre')" "g \<notin> fst ` set pre'" using \<open>distinct (map fst pre)\<close> e'(1) by auto
    with take_fold_Inr [OF assms(1) _ e'(2)] e'(3) have "g \<notin> fst ` set provided"
      by (auto simp: take_field_iff)
    with d(2) e'(1) show ?thesis by auto
  next
    case (Inr s)
    then obtain rest out where s: "s = (rest, out)" by (cases s)
    with take_fold_Inr [OF assms(1) \<open>distinct (map fst pre)\<close>] Inr d(3)
    have "swap_remove f rest = None" by (auto simp: swap_remove_None)
    with Inr s d(1,4) show ?thesis by (simp add: try_fold_append take_field_def)
  qed
qed


lemma struct_try_new_Inr:
  assumes "distinct (map fst (ac_fields app))"
  shows "struct_try_new app given = Inr s \<longleftrightarrow>
    distinct (map fst given) \<and> fst ` set given = fst ` set (ac_fields app) \<and> sv_application s = app \<and>
    list_all2 (\<lambda>field w. (fst field, w) \<in> set given) (ac_fields app) (sv_values s)"
proof (cases "distinct (map fst given)")
  case dist: True
  then have provided: "try_fold (provide_field (ac_constructor app)) [] given = Inr given"
    by (simp add: provide_fold_Inr)
  let ?take = "try_fold (take_field (ac_constructor app)) (given, []) (ac_fields app)"
  show ?thesis
  proof (cases ?take)
    case (Inl e)
    then have "\<not> fst ` set (ac_fields app) \<subseteq> fst ` set given"
      unfolding take_fold_Inl [OF dist assms] by (auto simp: image_subset_iff)
    with provided Inl show ?thesis by (auto simp: struct_try_new_def)
  next
    case (Inr r)
    obtain rest out where r: "r = (rest, out)" by (cases r)
    note taken = take_fold_Inr [OF dist assms Inr [unfolded r]]
    have out: "list_all2 (\<lambda>field w. (fst field, w) \<in> set given) (ac_fields app) out" using taken by auto
    have unique: "ws = out"
      if "list_all2 (\<lambda>field w. (fst field, w) \<in> set given) (ac_fields app) ws" for ws
      using that out eq_key_imp_eq_value [OF dist]
      by (auto simp: list_all2_conv_all_nth list_eq_iff_nth_eq)
    have "rest = [] \<longleftrightarrow> {p \<in> set given. fst p \<notin> fst ` set (ac_fields app)} = {}"
      using taken by (metis set_empty)
    then have rest: "rest = [] \<longleftrightarrow> fst ` set given \<subseteq> fst ` set (ac_fields app)" by blast
    have "struct_try_new app given = Inr s \<longleftrightarrow> rest = [] \<and> s = \<lparr>sv_application = app, sv_values = out\<rparr>"
      using provided Inr r by (auto simp: struct_try_new_def split: list.splits)
    also have "\<dots> \<longleftrightarrow> rest = [] \<and> sv_application s = app \<and> sv_values s = out" by (cases s) auto
    also have "\<dots> \<longleftrightarrow> fst ` set given = fst ` set (ac_fields app) \<and> sv_application s = app \<and>
        list_all2 (\<lambda>field w. (fst field, w) \<in> set given) (ac_fields app) (sv_values s)"
      using taken rest unique [of "sv_values s"] by auto
    finally show ?thesis using dist by simp
  qed
next
  case False
  then have "try_fold (provide_field (ac_constructor app)) [] given \<noteq> Inr p" for p
    by (simp add: provide_fold_Inr)
  then show ?thesis using False by (cases "try_fold (provide_field (ac_constructor app)) [] given")
      (auto simp: struct_try_new_def)
qed

lemma struct_try_new_Inl:
  assumes "distinct (map fst (ac_fields app))" "struct_try_new app given = Inl e"
  shows "(\<exists>f. e = DuplicateField (ac_constructor app) f \<and>
      (\<exists>pre v post. given = pre @ (f, v) # post \<and> distinct (map fst pre) \<and> f \<in> fst ` set pre)) \<or>
    (\<exists>f. e = MissingField (ac_constructor app) f \<and> distinct (map fst given) \<and>
      f \<in> fst ` set (ac_fields app) - fst ` set given) \<or>
    (\<exists>f. e = UnexpectedField (ac_constructor app) f \<and> distinct (map fst given) \<and>
      fst ` set (ac_fields app) \<subseteq> fst ` set given \<and> f \<in> fst ` set given - fst ` set (ac_fields app))"
proof (cases "try_fold (provide_field (ac_constructor app)) [] given")
  case (Inl e')
  with assms(2) have "try_fold (provide_field (ac_constructor app)) [] given = Inl e" by (simp add: struct_try_new_def)
  then have "\<exists>f. e = DuplicateField (ac_constructor app) f \<and>
      (\<exists>pre v post. given = pre @ (f, v) # post \<and> distinct (map fst pre) \<and> f \<in> fst ` set pre)"
    unfolding provide_fold_Inl by blast
  then show ?thesis by (rule disjI1)
next
  case (Inr provided)
  then have dist: "distinct (map fst given)" and provided: "provided = given" by (simp_all add: provide_fold_Inr)
  show ?thesis
  proof (cases "try_fold (take_field (ac_constructor app)) (given, []) (ac_fields app)")
    case (Inl e')
    with assms(2) Inr provided
    have "try_fold (take_field (ac_constructor app)) (given, []) (ac_fields app) = Inl e" by (simp add: struct_try_new_def)
    then obtain pre f t post where d: "ac_fields app = pre @ (f, t) # post" "f \<notin> fst ` set given"
        "e = MissingField (ac_constructor app) f"
      unfolding take_fold_Inl [OF dist assms(1)] by blast
    then have "f \<in> fst ` set (ac_fields app)" by simp
    with d dist show ?thesis by blast
  next
    case (Inr r)
    obtain rest out where r: "r = (rest, out)" by (cases r)
    note taken = take_fold_Inr [OF dist assms(1) Inr [unfolded r]]
    obtain f v rest' where rest: "rest = (f, v) # rest'" "e = UnexpectedField (ac_constructor app) f"
      using assms(2) Inr r \<open>try_fold (provide_field (ac_constructor app)) [] given = Inr provided\<close> provided
      by (auto simp: struct_try_new_def split: list.splits)
    then have "(f, v) \<in> {p \<in> set given. fst p \<notin> fst ` set (ac_fields app)}"
      using taken by (metis list.set_intros(1))
    then have "f \<in> fst ` set given - fst ` set (ac_fields app)" by (auto simp: image_iff) force+
    with rest dist taken show ?thesis by blast
  qed
qed

lemma struct_field_lookup:
  assumes "distinct (map fst (ac_fields app))" "struct_try_new app given = Inr s"
  shows "struct_field s f = map_of given f"
proof -
  have s: "distinct (map fst given)" "fst ` set given = fst ` set (ac_fields app)" "sv_application s = app"
      "list_all2 (\<lambda>field w. (fst field, w) \<in> set given) (ac_fields app) (sv_values s)"
    using assms(2) by (simp_all add: struct_try_new_Inr [OF assms(1)])
  show ?thesis
  proof (cases "field_position app f")
    case None
    then have "f \<notin> fst ` set given" by (simp add: field_position_def find_position_None s)
    with None s show ?thesis using map_of_eq_None_iff [of given f] by (simp add: struct_field_def)
  next
    case (Some i)
    then have i: "i < length (ac_fields app)" "fst (ac_fields app ! i) = f"
      by (simp_all add: field_position_def find_position_iff [OF assms(1)])
    with s(4) have "(f, sv_values s ! i) \<in> set given" "i < length (sv_values s)"
      by (auto simp: list_all2_conv_all_nth)
    with Some s(1,3) show ?thesis by (simp add: struct_field_def)
  qed
qed


text \<open>C30: applying a constructor to fields. It succeeds exactly when every declared field is given
  exactly once and no other one, the value then holds the given values in declaration order and
  reading a field returns what was given for it. Otherwise the error names, in this order of
  precedence, the first field given twice, a declared field that is missing, or a given field
  that is not declared.\<close>

theorem struct_construction:
  assumes "distinct (map fst (ac_fields app))"
  shows "case struct_try_new app given of
      Inr s \<Rightarrow> distinct (map fst given) \<and> fst ` set given = fst ` set (ac_fields app) \<and>
        sv_application s = app \<and> length (sv_values s) = length (ac_fields app) \<and>
        (\<forall>f. struct_field s f = map_of given f) \<and>
        map Some (sv_values s) = map (\<lambda>(f, t). map_of given f) (ac_fields app)
    | Inl (DuplicateField c f) \<Rightarrow> c = ac_constructor app \<and>
        (\<exists>pre v post. given = pre @ (f, v) # post \<and> distinct (map fst pre) \<and> f \<in> fst ` set pre)
    | Inl (MissingField c f) \<Rightarrow> c = ac_constructor app \<and> distinct (map fst given) \<and>
        f \<in> fst ` set (ac_fields app) - fst ` set given
    | Inl (UnexpectedField c f) \<Rightarrow> c = ac_constructor app \<and> distinct (map fst given) \<and>
        fst ` set (ac_fields app) \<subseteq> fst ` set given \<and> f \<in> fst ` set given - fst ` set (ac_fields app)"
proof (cases "struct_try_new app given")
  case (Inl e)
  from struct_try_new_Inl [OF assms Inl] Inl show ?thesis by (cases e) simp_all
next
  case (Inr s)
  have s: "distinct (map fst given)" "fst ` set given = fst ` set (ac_fields app)" "sv_application s = app"
      "list_all2 (\<lambda>field w. (fst field, w) \<in> set given) (ac_fields app) (sv_values s)"
    using Inr by (simp_all add: struct_try_new_Inr [OF assms])
  have "map Some (sv_values s) = map (\<lambda>(f, t). map_of given f) (ac_fields app)"
    using s(1,4) by (auto simp: list_all2_conv_all_nth list_eq_iff_nth_eq case_prod_beta)
  with Inr s list_all2_lengthD [OF s(4)] struct_field_lookup [OF assms Inr] show ?thesis by simp
qed

section \<open>Concrete inputs\<close>

definition sample_application :: applied_constructor where
  "sample_application = \<lparr>ac_type = ResolvedName (root_in_package ''p'' ''main'') ''Point'', ac_constructor = ''Point'', ac_args = [],
     ac_fields = [(''x'', BoolT), (''y'', BoolT)]\<rparr>"

theorem struct_construction_witness:
  "struct_try_new sample_application [(''y'', 2 :: nat), (''x'', 1)] =
     Inr \<lparr>sv_application = sample_application, sv_values = [1, 2]\<rparr> \<and>
   struct_field \<lparr>sv_application = sample_application, sv_values = [1 :: nat, 2]\<rparr> ''y'' = Some 2"
proof -
  have built: "struct_try_new sample_application [(''y'', 2 :: nat), (''x'', 1)] =
     Inr \<lparr>sv_application = sample_application, sv_values = [1, 2]\<rparr>"
    by (simp add: struct_try_new_def sample_application_def provide_field_def take_field_def swap_remove_def upt_rec)
  moreover have "distinct (map fst (ac_fields sample_application))" by (simp add: sample_application_def)
  ultimately show ?thesis
    using struct_construction [of sample_application "[(''y'', 2 :: nat), (''x'', 1)]"] by simp
qed

end
