(* ===== verification/Presented_Value.thy ===== *)
theory Presented_Value
  imports Runtime_Value
begin

text \<open>
  Values carried with their presentation (\<open>runtime_presentation.rs\<close>). The lemmas show the invariant
  of presented values (a leaf presentation presents leaves of its own kind, and a node whose
  parts are all plain is whole) and that no operation on presentations changes the value.
\<close>

section \<open>Presented values\<close>

datatype leaf_kind = QuantityLeaf | DatetimeLeaf

datatype ('f, 't, 'l) presented =
    WholeP "('f, 't) runtime_value" "'l option"
  | StructP applied_constructor "('f, 't, 'l) presented list"
  | IndexedP "'f index_axis" "('f, 't, 'l) presented list"

fun leaves_are :: "('f, 't) runtime_value \<Rightarrow> leaf_kind \<Rightarrow> bool" where
  "leaves_are (IndexedV axis entries) kind = list_all (\<lambda>entry. leaves_are entry kind) entries"
| "leaves_are (QuantityV _) QuantityLeaf = True"
| "leaves_are (ComplexV _ _) QuantityLeaf = True"
| "leaves_are (DatetimeV _) DatetimeLeaf = True"
| "leaves_are _ _ = False"

definition plain :: "('f, 't) runtime_value \<Rightarrow> ('f, 't, 'l) presented" where
  "plain v = WholeP v None"

definition with_leaf ::
  "('l \<Rightarrow> leaf_kind) \<Rightarrow> ('f, 't) runtime_value \<Rightarrow> 'l \<Rightarrow> (('f, 't, 'l) presented, ('f, 't) runtime_value) result" where
  "with_leaf kind v leaf = (if leaves_are v (kind leaf) then Inr (WholeP v (Some leaf)) else Inl v)"

fun is_plain :: "('f, 't, 'l) presented \<Rightarrow> bool" where
  "is_plain (WholeP _ None) = True"
| "is_plain _ = False"

fun into_value :: "('f, 't, 'l) presented \<Rightarrow> ('f, 't) runtime_value" where
  "into_value (WholeP v _) = v"
| "into_value (StructP app children) = StructV app (map into_value children)"
| "into_value (IndexedP axis entries) = IndexedV axis (map into_value entries)"

definition from_struct :: "('f, 't, 'l) presented struct_value \<Rightarrow> ('f, 't, 'l) presented" where
  "from_struct s =
     (if list_all (\<lambda>(_, field). is_plain field) (struct_fields s)
      then plain (StructV (sv_application s) (map into_value (sv_values s)))
      else StructP (sv_application s) (sv_values s))"

definition from_indexed :: "('f, ('f, 't, 'l) presented) indexed_value \<Rightarrow> ('f, 't, 'l) presented" where
  "from_indexed v =
     (if list_all is_plain (iv_entries v) then plain (IndexedV (iv_axis v) (map into_value (iv_entries v)))
      else IndexedP (iv_axis v) (iv_entries v))"

fun into_fields :: "('f, 't, 'l) presented \<Rightarrow> (('f, 't, 'l) presented struct_value, ('f, 't, 'l) presented) result" where
  "into_fields (WholeP (StructV app values) leaf) =
     Inr \<lparr>sv_application = app, sv_values = map (\<lambda>v. WholeP v leaf) values\<rparr>"
| "into_fields (StructP app children) = Inr \<lparr>sv_application = app, sv_values = children\<rparr>"
| "into_fields p = Inl p"

fun into_entries ::
  "('f, 't, 'l) presented \<Rightarrow> (('f, ('f, 't, 'l) presented) indexed_value, ('f, 't, 'l) presented) result" where
  "into_entries (WholeP (IndexedV axis values) leaf) =
     Inr \<lparr>iv_axis = axis, iv_entries = map (\<lambda>v. WholeP v leaf) values\<rparr>"
| "into_entries (IndexedP axis entries) = Inr \<lparr>iv_axis = axis, iv_entries = entries\<rparr>"
| "into_entries p = Inl p"

lemma zip_size: "(x, y) \<in> set (zip xs ys) \<Longrightarrow> size y < Suc (size_list size ys)"
  by (drule set_zip_rightD) (simp add: less_Suc_eq_le size_list_estimation')

text \<open>Pairs of a value and the template it is presented like; the recursion is on the template.\<close>

function present_alike ::
  "('l \<Rightarrow> leaf_kind) \<Rightarrow> ('f, 't, 'l) presented \<Rightarrow> ('f, 't) runtime_value \<Rightarrow>
   (('f, 't, 'l) presented, ('f, 't) runtime_value) result"
where
  "present_alike kind (WholeP _ None) v = Inr (plain v)"
| "present_alike kind (WholeP _ (Some leaf)) v = with_leaf kind v leaf"
| "present_alike kind (StructP app templates) (StructV app' values) =
     (if ac_type app = ac_type app' \<and> list_all2 same_arg (ac_args app) (ac_args app') then
        if ac_constructor app \<noteq> ac_constructor app' then Inr (plain (StructV app' values))
        else
          (case struct_zip \<lparr>sv_application = app', sv_values = values\<rparr> \<lparr>sv_application = app, sv_values = templates\<rparr> of
             Inr pairs \<Rightarrow>
               res_map (\<lambda>children. from_struct \<lparr>sv_application = sv_application pairs, sv_values = children\<rparr>)
                 (try_map (\<lambda>(field, template). present_alike kind template field) (sv_values pairs))
           | Inl _ \<Rightarrow> Inl (StructV app' values))
      else Inl (StructV app' values))"
| "present_alike kind (IndexedP axis templates) (IndexedV axis' values) =
     (case indexed_zip \<lparr>iv_axis = axis', iv_entries = values\<rparr> \<lparr>iv_axis = axis, iv_entries = templates\<rparr> of
        Inr pairs \<Rightarrow>
          res_map (\<lambda>entries. from_indexed \<lparr>iv_axis = iv_axis pairs, iv_entries = entries\<rparr>)
            (try_map (\<lambda>(entry, template). present_alike kind template entry) (iv_entries pairs))
      | Inl _ \<Rightarrow> Inl (IndexedV axis' values))"
| "(\<And>app' values. v \<noteq> StructV app' values) \<Longrightarrow> present_alike kind (StructP app templates) v = Inl v"
| "(\<And>axis' values. v \<noteq> IndexedV axis' values) \<Longrightarrow> present_alike kind (IndexedP axis templates) v = Inl v"
  by (atomize_elim, auto) (metis option.exhaust presented.exhaust)+
termination
  by (relation "measure (\<lambda>(kind, template, v). size template)")
    (auto simp: struct_zip_def indexed_zip_def zip_size split: if_splits)

definition with_default_presentation ::
  "('l \<Rightarrow> leaf_kind) \<Rightarrow> ('f, 't, 'l) presented \<Rightarrow> ('f, 't, 'l) presented \<Rightarrow>
   (('f, 't, 'l) presented, ('f, 't) runtime_value) result" where
  "with_default_presentation kind initial p =
     (if is_plain p then present_alike kind initial (into_value p) else Inr p)"

fun try_map_leaves :: "('l \<Rightarrow> ('m, 'e) result) \<Rightarrow> ('f, 't, 'l) presented \<Rightarrow> (('f, 't, 'm) presented, 'e) result" where
  "try_map_leaves leaf (WholeP v None) = Inr (WholeP v None)"
| "try_map_leaves leaf (WholeP v (Some presented)) = res_map (\<lambda>l. WholeP v (Some l)) (leaf presented)"
| "try_map_leaves leaf (StructP app children) = res_map (StructP app) (try_map (try_map_leaves leaf) children)"
| "try_map_leaves leaf (IndexedP axis entries) = res_map (IndexedP axis) (try_map (try_map_leaves leaf) entries)"


section \<open>The invariant\<close>

text \<open>A leaf presentation presents leaves of its own kind, and a value is presented part by part only
  if a part is presented at all.\<close>

fun presented_ok ::
  "('l \<Rightarrow> leaf_kind) \<Rightarrow> (concrete_index \<Rightarrow> nat) \<Rightarrow> ('f, 't, 'l) presented \<Rightarrow> bool" where
  "presented_ok kind L (WholeP v leaf) =
     (value_ok L v \<and> (case leaf of None \<Rightarrow> True | Some l \<Rightarrow> leaves_are v (kind l)))"
| "presented_ok kind L (StructP app children) =
     (length children = length (ac_fields app) \<and> \<not> list_all is_plain children \<and>
      list_all (presented_ok kind L) children)"
| "presented_ok kind L (IndexedP axis children) =
     (axis_sized L axis \<and> length children = axis_len axis \<and> \<not> list_all is_plain children \<and>
      list_all (presented_ok kind L) children)"

lemma plain_iff: "is_plain p \<longleftrightarrow> (\<exists>v. p = WholeP v None)"
  by (cases p rule: is_plain.cases) auto

lemma presented_value_ok: "presented_ok kind L p \<Longrightarrow> value_ok L (into_value p)"
  by (induction p) (auto simp: list_all_iff)

lemma map_plain: "list_all is_plain ps \<Longrightarrow> map (\<lambda>v. WholeP v None) (map into_value ps) = ps"
  by (induction ps) (auto simp: plain_iff)

lemma from_struct_eq:
  assumes "length (sv_values s) = length (ac_fields (sv_application s))"
  shows "from_struct s =
    (if list_all is_plain (sv_values s) then plain (StructV (sv_application s) (map into_value (sv_values s)))
     else StructP (sv_application s) (sv_values s))"
proof -
  have "list_all (\<lambda>(_, child). is_plain child) (struct_fields s) \<longleftrightarrow> list_all is_plain (sv_values s)"
    using assms by (auto simp: struct_fields_def list_all_length)
  then show ?thesis by (simp add: from_struct_def)
qed

lemma from_struct_ok:
  assumes "length (sv_values s) = length (ac_fields (sv_application s))"
    and "list_all (presented_ok kind L) (sv_values s)"
  shows "presented_ok kind L (from_struct s) \<and>
    into_value (from_struct s) = StructV (sv_application s) (map into_value (sv_values s))"
  using assms by (auto simp: from_struct_eq plain_def list_all_iff presented_value_ok)

lemma from_indexed_ok:
  assumes "axis_sized L (iv_axis v)" "length (iv_entries v) = axis_len (iv_axis v)"
    and "list_all (presented_ok kind L) (iv_entries v)"
  shows "presented_ok kind L (from_indexed v) \<and>
    into_value (from_indexed v) = IndexedV (iv_axis v) (map into_value (iv_entries v))"
  using assms by (auto simp: from_indexed_def plain_def list_all_iff presented_value_ok)

lemma with_leaf_iff: "with_leaf kind v leaf = Inr p \<longleftrightarrow> leaves_are v (kind leaf) \<and> p = WholeP v (Some leaf)"
  by (auto simp: with_leaf_def)

text \<open>The parts of a value presented like the parts of a template.\<close>

lemma present_children:
  assumes "length values = length templates"
    and "try_map (\<lambda>(v, t). present_alike kind t v) (zip values templates) = Inr children"
    and "\<And>v t p. (v, t) \<in> set (zip values templates) \<Longrightarrow> present_alike kind t v = Inr p \<Longrightarrow>
      presented_ok kind L p \<and> into_value p = v"
  shows "length children = length values \<and> list_all (presented_ok kind L) children \<and> map into_value children = values"
proof -
  have each: "length children = length values"
    "\<And>i. i < length values \<Longrightarrow> present_alike kind (templates ! i) (values ! i) = Inr (children ! i)"
    using assms(1,2) by (auto simp: try_map_Inr_iff list_all2_conv_all_nth)
  have "presented_ok kind L (children ! i) \<and> into_value (children ! i) = values ! i" if i: "i < length values" for i
  proof (rule assms(3) [OF _ each(2) [OF i]])
    show "(values ! i, templates ! i) \<in> set (zip values templates)"
      using i assms(1) by (auto simp: set_zip)
  qed
  with each(1) show ?thesis by (auto simp: list_all_length list_eq_iff_nth_eq)
qed

lemma same_application_length: "same_application a b \<Longrightarrow> length (ac_fields a) = length (ac_fields b)"
  by (auto simp: same_application_def dest: list_all2_lengthD)

lemma present_alike_ok:
  assumes "lengths_by_identity L"
  shows "presented_ok kind L t \<Longrightarrow> value_ok L v \<Longrightarrow> present_alike kind t v = Inr p \<Longrightarrow>
    presented_ok kind L p \<and> into_value p = v"
proof (induction kind t v arbitrary: p rule: present_alike.induct)
  case (1 kind w v)
  then show ?case by (auto simp: plain_def)
next
  case (2 kind w leaf v)
  then show ?case by (auto simp: with_leaf_iff)
next
  case (3 kind app templates app' vs)
  show ?case
  proof (cases "ac_constructor app = ac_constructor app'")
    case False
    with 3 show ?thesis by (auto simp: plain_def split: if_splits)
  next
    case ctor: True
    have guard: "ac_type app = ac_type app'" "list_all2 same_arg (ac_args app) (ac_args app')"
      "same_application app' app"
      using 3(4) ctor by (auto simp: struct_zip_def split: if_splits)
    have zip: "struct_zip \<lparr>sv_application = app', sv_values = vs\<rparr> \<lparr>sv_application = app, sv_values = templates\<rparr> =
        Inr \<lparr>sv_application = app', sv_values = zip vs templates\<rparr>"
      using guard by (simp add: struct_zip_def)
    have len: "length vs = length templates"
      using 3(2,3) same_application_length [OF guard(3)] by simp
    obtain children where children:
        "try_map (\<lambda>(v, t). present_alike kind t v) (zip vs templates) = Inr children"
      and p: "p = from_struct \<lparr>sv_application = app', sv_values = children\<rparr>"
      using 3(4) ctor guard zip by (auto simp: result_iffs)
    have "length children = length vs \<and> list_all (presented_ok kind L) children \<and> map into_value children = vs"
    proof (rule present_children [OF len children])
      fix v t q assume "(v, t) \<in> set (zip vs templates)" "present_alike kind t v = Inr q"
      then show "presented_ok kind L q \<and> into_value q = v"
        using 3(1) [OF _ _ zip, of "(v, t)" v t q] 3(2,3) guard ctor
        by (auto simp: list_all_iff dest: set_zip_leftD set_zip_rightD)
    qed
    then show ?thesis
      using from_struct_ok [of "\<lparr>sv_application = app', sv_values = children\<rparr>" kind L] 3(3) by (simp add: p)
  qed
next
  case (4 kind axis templates axis' vs)
  have matches: "axis_matches axis' axis"
    using 4(4) by (auto simp: indexed_zip_def split: if_splits)
  then have zip: "indexed_zip \<lparr>iv_axis = axis', iv_entries = vs\<rparr> \<lparr>iv_axis = axis, iv_entries = templates\<rparr> =
      Inr \<lparr>iv_axis = axis', iv_entries = zip vs templates\<rparr>"
    by (simp add: indexed_zip_def)
  have len: "length vs = length templates"
    using 4(2,3) matches_sized [OF assms, of axis' axis] matches by simp
  obtain children where children:
      "try_map (\<lambda>(v, t). present_alike kind t v) (zip vs templates) = Inr children"
    and p: "p = from_indexed \<lparr>iv_axis = axis', iv_entries = children\<rparr>"
    using 4(4) zip by (auto simp: result_iffs)
  have "length children = length vs \<and> list_all (presented_ok kind L) children \<and> map into_value children = vs"
  proof (rule present_children [OF len children])
    fix v t q assume "(v, t) \<in> set (zip vs templates)" "present_alike kind t v = Inr q"
    then show "presented_ok kind L q \<and> into_value q = v"
      using 4(1) [OF zip, of "(v, t)" v t q] 4(2,3)
      by (auto simp: list_all_iff dest: set_zip_leftD set_zip_rightD)
  qed
  then show ?case
    using from_indexed_ok [of L "\<lparr>iv_axis = axis', iv_entries = children\<rparr>" kind] 4(3) by (simp add: p)
qed simp_all


lemma try_map_zip_same:
  "(\<And>t. t \<in> set ts \<Longrightarrow> f (g t, t) = Inr t) \<Longrightarrow> try_map f (zip (map g ts) ts) = Inr ts"
  by (induction ts) simp_all

lemma present_alike_same: "presented_ok kind L p \<Longrightarrow> present_alike kind p (into_value p) = Inr p"
proof (induction p)
  case (WholeP v leaf)
  then show ?case by (cases leaf) (simp_all add: plain_def with_leaf_iff)
next
  case (StructP app children)
  have "try_map (\<lambda>(v, t). present_alike kind t v) (zip (map into_value children) children) = Inr children"
    using StructP by (intro try_map_zip_same) (simp add: list_all_iff)
  moreover have "from_struct \<lparr>sv_application = app, sv_values = children\<rparr> = StructP app children"
    using StructP.prems by (simp add: from_struct_eq)
  ultimately show ?case by (simp add: struct_zip_def identity_refl same_arg_def list.rel_refl)
next
  case (IndexedP axis children)
  have "try_map (\<lambda>(v, t). present_alike kind t v) (zip (map into_value children) children) = Inr children"
    using IndexedP by (intro try_map_zip_same) (simp add: list_all_iff)
  moreover have "from_indexed \<lparr>iv_axis = axis, iv_entries = children\<rparr> = IndexedP axis children"
    using IndexedP.prems by (simp add: from_indexed_def)
  ultimately show ?case by (simp add: indexed_zip_def identity_refl)
qed

lemma into_fields_from_struct:
  assumes "presented_ok kind L p" "into_fields p = Inr s"
  shows "from_struct s = p \<and> length (sv_values s) = length (ac_fields (sv_application s)) \<and>
    list_all (presented_ok kind L) (sv_values s) \<and> into_value p = StructV (sv_application s) (map into_value (sv_values s))"
proof (cases p)
  case (WholeP v leaf)
  with assms obtain app vs where v: "v = StructV app vs" by (cases v) auto
  with assms WholeP have "leaf = None" by (auto split: option.splits)
  with assms WholeP v show ?thesis
    by (auto simp: from_struct_eq plain_def list_all_iff comp_def)
next
  case (StructP app children)
  with assms show ?thesis by (auto simp: from_struct_eq)
qed (use assms in auto)

lemma into_entries_from_indexed:
  assumes "presented_ok kind L p" "into_entries p = Inr e"
  shows "presented_ok kind L (from_indexed e) \<and> into_value (from_indexed e) = into_value p"
proof (cases p)
  case (WholeP v leaf)
  with assms obtain axis vs where v: "v = IndexedV axis vs" by (cases v) auto
  with assms WholeP have e: "e = \<lparr>iv_axis = axis, iv_entries = map (\<lambda>v. WholeP v leaf) vs\<rparr>" by simp
  have "presented_ok kind L (from_indexed e) \<and>
      into_value (from_indexed e) = IndexedV (iv_axis e) (map into_value (iv_entries e))"
    using assms(1) WholeP v by (intro from_indexed_ok) (auto simp: e list_all_iff split: option.splits)
  then show ?thesis using WholeP v by (simp add: e comp_def)
next
  case (IndexedP axis children)
  with assms show ?thesis by (auto simp: from_indexed_def)
qed (use assms in auto)

lemma try_map_leaves_ok:
  assumes "\<And>l m. leaf l = Inr m \<Longrightarrow> kind' m = kind l"
  shows "presented_ok kind L p \<Longrightarrow> try_map_leaves leaf p = Inr q \<Longrightarrow>
    presented_ok kind' L q \<and> into_value q = into_value p \<and> (is_plain q \<longleftrightarrow> is_plain p)"
proof (induction p arbitrary: q)
  case (WholeP v l)
  then show ?case using assms by (cases l) (auto simp: result_iffs)
next
  case (StructP app children)
  then obtain cs where cs: "list_all2 (\<lambda>c d. try_map_leaves leaf c = Inr d) children cs" and q: "q = StructP app cs"
    by (auto simp: result_iffs try_map_Inr_iff)
  have "presented_ok kind' L (cs ! i) \<and> into_value (cs ! i) = into_value (children ! i) \<and>
      (is_plain (cs ! i) \<longleftrightarrow> is_plain (children ! i))" if "i < length children" for i
    using StructP(1) [of "children ! i" "cs ! i"] StructP(2) cs that
    by (auto simp: list_all2_conv_all_nth list_all_length)
  with StructP(2) list_all2_lengthD [OF cs] show ?case
    unfolding q by (auto simp: list_all_length list_eq_iff_nth_eq)
next
  case (IndexedP axis children)
  then obtain cs where cs: "list_all2 (\<lambda>c d. try_map_leaves leaf c = Inr d) children cs" and q: "q = IndexedP axis cs"
    by (auto simp: result_iffs try_map_Inr_iff)
  have "presented_ok kind' L (cs ! i) \<and> into_value (cs ! i) = into_value (children ! i) \<and>
      (is_plain (cs ! i) \<longleftrightarrow> is_plain (children ! i))" if "i < length children" for i
    using IndexedP(1) [of "children ! i" "cs ! i"] IndexedP(2) cs that
    by (auto simp: list_all2_conv_all_nth list_all_length)
  with IndexedP(2) list_all2_lengthD [OF cs] show ?case
    unfolding q by (auto simp: list_all_length list_eq_iff_nth_eq)
qed

text \<open>C29: presentations never change values. Presenting a value like a template, taking over the
  presentation of an initial value, splitting a presented value into its parts and joining them
  again, and replacing leaf presentations by ones of the same kind all keep the underlying value
  and the invariant; presenting a value like itself, and splitting a struct and joining its
  fields, give back the very same presentation.\<close>

theorem presentation_keeps_values:
  assumes "lengths_by_identity L" "presented_ok kind L t" "presented_ok kind L p" "value_ok L v"
    and "\<And>l m. leaf l = Inr m \<Longrightarrow> kind' m = kind l"
  shows "present_alike kind t (into_value t) = Inr t \<and>
    (present_alike kind t v = Inr q \<longrightarrow> presented_ok kind L q \<and> into_value q = v) \<and>
    (with_default_presentation kind t p = Inr q \<longrightarrow> presented_ok kind L q \<and> into_value q = into_value p) \<and>
    (into_fields p = Inr s \<longrightarrow> from_struct s = p) \<and>
    (into_entries p = Inr e \<longrightarrow> presented_ok kind L (from_indexed e) \<and> into_value (from_indexed e) = into_value p) \<and>
    (try_map_leaves leaf p = Inr r \<longrightarrow> presented_ok kind' L r \<and> into_value r = into_value p)"
proof (intro conjI impI)
  show "present_alike kind t (into_value t) = Inr t" by (rule present_alike_same [OF assms(2)])
  show "presented_ok kind L q" "into_value q = v" if "present_alike kind t v = Inr q"
    using present_alike_ok [OF assms(1,2,4) that] by simp_all
  show "presented_ok kind L q" "into_value q = into_value p" if "with_default_presentation kind t p = Inr q"
    using that assms(3) present_alike_ok [OF assms(1,2) presented_value_ok [OF assms(3)], of q]
    by (auto simp: with_default_presentation_def split: if_splits)
  show "from_struct s = p" if "into_fields p = Inr s"
    using into_fields_from_struct [OF assms(3) that] by simp
  show "presented_ok kind L (from_indexed e)" "into_value (from_indexed e) = into_value p"
    if "into_entries p = Inr e" using into_entries_from_indexed [OF assms(3) that] by simp_all
  show "presented_ok kind' L r" "into_value r = into_value p" if "try_map_leaves leaf p = Inr r"
    using try_map_leaves_ok [OF assms(5) assms(3) that] by simp_all
qed

section \<open>Concrete inputs\<close>

definition sample_presented :: "(int, int, string) presented" where
  "sample_presented = IndexedP sample_axis
     [WholeP (QuantityV 1) (Some ''km''), WholeP (QuantityV 2) None, WholeP (QuantityV 3) (Some ''m'')]"

theorem presentation_keeps_values_witness:
  "present_alike (\<lambda>_. QuantityLeaf) sample_presented (IndexedV sample_axis [QuantityV 4, QuantityV 5, QuantityV 6]) =
     Inr (IndexedP sample_axis
       [WholeP (QuantityV 4) (Some ''km''), WholeP (QuantityV 5) None, WholeP (QuantityV 6) (Some ''m'')]) \<and>
   into_value (IndexedP sample_axis
     [WholeP (QuantityV 4) (Some ''km''), WholeP (QuantityV 5) None, WholeP (QuantityV 6) (Some ''m'')]) =
     (IndexedV sample_axis [QuantityV 4, QuantityV 5, QuantityV 6] :: (int, int) runtime_value)"
proof -
  define L :: "concrete_index \<Rightarrow> nat" where "L i = (case i of FiniteAxis f \<Rightarrow> unat (fin_cardinality f) | _ \<Rightarrow> 1)" for i
  let ?v = "IndexedV sample_axis [QuantityV 4, QuantityV 5, QuantityV 6] :: (int, int) runtime_value"
  let ?q = "IndexedP sample_axis
       [WholeP (QuantityV 4) (Some ''km''), WholeP (QuantityV 5) None, WholeP (QuantityV 6) (Some ''m'')]
       :: (int, int, string) presented"
  have law: "lengths_by_identity L"
    by (auto simp: lengths_by_identity_def L_def index_matches_def split: index_ref.splits)
  have len: "axis_len sample_axis = 3" by (simp add: axis_len_def sample_axis_def)
  have sized: "axis_sized L sample_axis" by (simp add: axis_sized_def len L_def) (simp add: sample_axis_def)
  have t: "presented_ok (\<lambda>_. QuantityLeaf) L sample_presented" and v: "value_ok L ?v"
    by (simp_all add: sample_presented_def sized len)
  have built: "present_alike (\<lambda>_. QuantityLeaf) sample_presented ?v = Inr ?q"
    by (simp add: sample_presented_def indexed_zip_def identity_refl with_leaf_def plain_def from_indexed_def)
  moreover have "into_value ?q = ?v"
    using presentation_keeps_values [OF law t t v, where leaf = "\<lambda>l. Inr l" and kind' = "\<lambda>_. QuantityLeaf"] built
    by blast
  ultimately show ?thesis by blast
qed

end
