(* ===== verification/Execution_Plan.thy ===== *)
theory Execution_Plan
  imports Recurrence_Group Index_Axis
begin

text \<open>
  Execution plans (\<open>graphcal-eval/src/execution_plan.rs\<close>): the steps of a callable with their
  dependencies, its recurrence groups and the units it runs. Everything the plan only carries
  along (scopes, expression roots, unit expressions, binders, domain constraints) is of an opaque
  type \<open>'x\<close>. The lemmas show what an indexed callable promises: distinct declarations, dependencies
  that are exactly the reads outside the own group and lie earlier, units that run every step
  once and in order, and groups that step along one axis.
\<close>

type_synonym decl_key = resolved_name

section \<open>Bodies\<close>

record ('f, 'x) for_binding =
  fb_local :: 'x
  fb_axis :: "'f index_axis"

text \<open>The kinds of checked nodes that a recurrence body distinguishes.\<close>

datatype ('f, 'x) scoped_node =
    ConvertNode "('f, 'x) scoped_node" 'x
  | DisplayTimezoneNode "('f, 'x) scoped_node" string
  | ForNode "('f, 'x) for_binding" "('f, 'x) for_binding list" "('f, 'x) scoped_node"
  | UnfoldNode 'x "('f, 'x) scoped_node" "('f, 'x) scoped_node" "'f index_axis"
  | OtherNode 'x

datatype 'x recurrence_display = PlainDisplay | UnitDisplay 'x | TimezoneDisplay string

datatype ('f, 'x) recurrence_body =
    ForBody "('f, 'x) for_binding" "('f, 'x) for_binding list" "('f, 'x) scoped_node"
  | UnfoldBody 'x "('f, 'x) scoped_node" "('f, 'x) scoped_node" "'f index_axis"

definition body_under_display ::
  "('f, 'x) scoped_node \<Rightarrow> 'x recurrence_display \<times> ('f, 'x) scoped_node" where
  "body_under_display node =
     (case node of
        ConvertNode expr target \<Rightarrow> (UnitDisplay target, expr)
      | DisplayTimezoneNode expr timezone \<Rightarrow> (TimezoneDisplay timezone, expr)
      | _ \<Rightarrow> (PlainDisplay, node))"

definition recurrence_body_of ::
  "('f, 'x) scoped_node \<Rightarrow> ('x recurrence_display \<times> ('f, 'x) recurrence_body) option" where
  "recurrence_body_of node =
     (case body_under_display node of (display, body) \<Rightarrow>
        (case body of
           ForNode first remaining body \<Rightarrow> Some (display, ForBody first remaining body)
         | UnfoldNode recurrence init body axis \<Rightarrow> Some (display, UnfoldBody recurrence init body axis)
         | _ \<Rightarrow> None))"

fun recurrence_body_axis :: "('f, 'x) recurrence_body \<Rightarrow> 'f index_axis" where
  "recurrence_body_axis (ForBody first _ _) = fb_axis first"
| "recurrence_body_axis (UnfoldBody _ _ _ axis) = axis"

section \<open>Declarations, steps and groups\<close>

datatype ('f, 'x) computed_body =
    TodoBody
  | BlockedInGroup "decl_key list"
  | ExpressionBody 'x "(('f, 'x) scoped_node, 'x) result"

datatype ('f, 'x) planned_body = ComputedB "('f, 'x) computed_body" | SuppliedB

record ('f, 'x) planned_declaration =
  pd_key :: decl_key
  pd_scope :: 'x
  pd_body :: "('f, 'x) planned_body"
  pd_reads :: "decl_key list"
  pd_domain :: "'x option"

record ('f, 'x) step =
  st_declaration :: "('f, 'x) planned_declaration"
  st_body :: "('f, 'x) computed_body"
  st_deps :: "nat list"

record ('f, 'x) member_plan =
  mp_step :: nat
  mp_root :: "('f, 'x) scoped_node"
  mp_display :: "'x recurrence_display"
  mp_body :: "('f, 'x) recurrence_body"

record ('f, 'x) planned_group =
  pg_plan :: recurrence_plan
  pg_members :: "('f, 'x) member_plan list"
  pg_axis :: "'f index_axis"

datatype run_unit = StepUnit nat | GroupUnit nat

datatype ('f, 'x) planned_unit =
    DeclarationUnit "('f, 'x) planned_declaration"
  | RecurrenceUnit recurrence_plan "('f, 'x) planned_declaration list"

datatype step_index_error =
    DuplicateStep decl_key
  | UnorderedStep decl_key decl_key
  | NotAFormulaMember decl_key
  | NotARecurrenceBody decl_key
  | AxisMismatchMember decl_key

text \<open>The indexed part of a callable; its scope, its instances and its imports are carried along.\<close>

record ('f, 'x) callable =
  cl_steps :: "('f, 'x) step list"
  cl_groups :: "('f, 'x) planned_group list"
  cl_units :: "run_unit list"

text \<open>A computed declaration and its body, with the schedule position of its recurrence group and,
  when the group runs as one unit, the position of the group.\<close>

type_synonym ('f, 'x) computed_entry =
  "('f, 'x) planned_declaration \<times> ('f, 'x) computed_body \<times> (nat \<times> nat option) option"

section \<open>Planning a recurrence group\<close>

definition is_todo :: "('f, 'x) planned_declaration \<Rightarrow> bool" where
  "is_todo d = (case pd_body d of ComputedB TodoBody \<Rightarrow> True | _ \<Rightarrow> False)"

definition unfinished_member ::
  "decl_key list \<Rightarrow> nat \<Rightarrow> ('f, 'x) computed_entry list \<Rightarrow> ('f, 'x) planned_declaration \<Rightarrow>
   (('f, 'x) computed_entry list, step_index_error) result" where
  "unfinished_member unfinished membership computed d =
     (case pd_body d of
        ComputedB TodoBody \<Rightarrow> Inr (computed @ [(d, TodoBody, Some (membership, None))])
      | ComputedB (ExpressionBody _ _) \<Rightarrow>
          Inr (computed @ [(d, BlockedInGroup unfinished, Some (membership, None))])
      | _ \<Rightarrow> Inl (NotAFormulaMember (pd_key d)))"

text \<open>The state of the loop over the members: the entries, the planned members and the axis.\<close>

definition plan_member ::
  "nat \<Rightarrow> ('f, 'x) computed_entry list \<times> ('f, 'x) member_plan list \<times> 'f index_axis option \<Rightarrow>
   ('f, 'x) planned_declaration \<Rightarrow>
   (('f, 'x) computed_entry list \<times> ('f, 'x) member_plan list \<times> 'f index_axis option, step_index_error) result" where
  "plan_member membership s d =
     (case s of (computed, planned, axis) \<Rightarrow>
        (case pd_body d of
           ComputedB (ExpressionBody hir tree) \<Rightarrow>
             (let entry = (d, ExpressionBody hir tree, Some (membership, None)) in
              case tree of
                Inl _ \<Rightarrow> Inr (computed @ [entry], planned, axis)
              | Inr node \<Rightarrow>
                  (case recurrence_body_of node of
                     None \<Rightarrow> Inl (NotARecurrenceBody (pd_key d))
                   | Some (display, body) \<Rightarrow>
                       res_bind
                         (case axis of
                            None \<Rightarrow> Inr (recurrence_body_axis body)
                          | Some first \<Rightarrow>
                              if axis_len first = axis_len (recurrence_body_axis body) then Inr first
                              else Inl (AxisMismatchMember (pd_key d)))
                         (\<lambda>axis. Inr (computed @ [entry],
                            planned @ [\<lparr>mp_step = length computed, mp_root = node, mp_display = display, mp_body = body\<rparr>],
                            Some axis))))
         | _ \<Rightarrow> Inl (NotAFormulaMember (pd_key d))))"

definition run_as_group :: "nat \<Rightarrow> nat \<Rightarrow> ('f, 'x) computed_entry \<Rightarrow> ('f, 'x) computed_entry" where
  "run_as_group membership pos e = (fst e, fst (snd e), Some (membership, Some pos))"

definition plan_recurrence ::
  "recurrence_plan \<Rightarrow> ('f, 'x) planned_declaration list \<Rightarrow> nat \<Rightarrow>
   ('f, 'x) computed_entry list \<times> ('f, 'x) planned_group list \<Rightarrow>
   (('f, 'x) computed_entry list \<times> ('f, 'x) planned_group list, step_index_error) result" where
  "plan_recurrence plan members membership s =
     (case s of (computed, groups) \<Rightarrow>
        let unfinished = map pd_key (filter is_todo members) in
        if unfinished \<noteq> [] then
          res_map (\<lambda>computed. (computed, groups)) (try_fold (unfinished_member unfinished membership) computed members)
        else
          res_bind (try_fold (plan_member membership) (computed, [], None) members) (\<lambda>(all, planned, axis).
            let first_step = length computed; added = drop first_step all in
            case axis of
              Some axis \<Rightarrow>
                if length planned = length added then
                  Inr (take first_step all @ map (run_as_group membership (length groups)) added,
                       groups @ [\<lparr>pg_plan = plan, pg_members = planned, pg_axis = axis\<rparr>])
                else Inr (all, groups)
            | None \<Rightarrow> Inr (all, groups)))"

section \<open>Indexing a callable\<close>

definition plan_unit ::
  "('f, 'x) computed_entry list \<times> ('f, 'x) planned_group list \<times> nat \<Rightarrow> ('f, 'x) planned_unit \<Rightarrow>
   (('f, 'x) computed_entry list \<times> ('f, 'x) planned_group list \<times> nat, step_index_error) result" where
  "plan_unit s unit =
     (case s of (computed, groups, scheduled) \<Rightarrow>
        (case unit of
           DeclarationUnit d \<Rightarrow>
             (case pd_body d of
                ComputedB body \<Rightarrow> Inr (computed @ [(d, body, None)], groups, scheduled)
              | SuppliedB \<Rightarrow> Inr (computed, groups, scheduled))
         | RecurrenceUnit plan members \<Rightarrow>
             res_map (\<lambda>(computed, groups). (computed, groups, scheduled + 1))
               (plan_recurrence plan members scheduled (computed, groups))))"

definition entry_key_of :: "('f, 'x) computed_entry \<Rightarrow> decl_key" where
  "entry_key_of e = pd_key (fst e)"

definition membership_of :: "('f, 'x) computed_entry \<Rightarrow> nat option" where
  "membership_of e = map_option fst (snd (snd e))"

definition runnable_of :: "('f, 'x) computed_entry \<Rightarrow> nat option" where
  "runnable_of e = Option.bind (snd (snd e)) snd"

definition insert_step ::
  "(decl_key \<Rightarrow> (nat \<times> nat option) option) \<Rightarrow> nat \<times> ('f, 'x) computed_entry \<Rightarrow>
   (decl_key \<Rightarrow> (nat \<times> nat option) option, step_index_error) result" where
  "insert_step positions p =
     (case p of (pos, e) \<Rightarrow>
        if positions (entry_key_of e) \<noteq> None then Inl (DuplicateStep (entry_key_of e))
        else Inr (positions(entry_key_of e \<mapsto> (pos, membership_of e))))"

text \<open>The reads with a step outside the own group.\<close>

definition outside_reads ::
  "(decl_key \<Rightarrow> (nat \<times> nat option) option) \<Rightarrow> ('f, 'x) computed_entry \<Rightarrow> (decl_key \<times> nat) list" where
  "outside_reads positions e =
     List.map_filter (\<lambda>read.
         case positions read of
           None \<Rightarrow> None
         | Some (step, read_group) \<Rightarrow>
             if membership_of e = None \<or> read_group \<noteq> membership_of e then Some (read, step) else None)
       (pd_reads (fst e))"

definition step_deps ::
  "(decl_key \<Rightarrow> (nat \<times> nat option) option) \<Rightarrow> nat \<Rightarrow> ('f, 'x) computed_entry \<Rightarrow> (nat list, step_index_error) result" where
  "step_deps positions pos e =
     try_map (\<lambda>(read, step). if step < pos then Inr step else Inl (UnorderedStep (entry_key_of e) read))
       (outside_reads positions e)"

definition push_unit :: "run_unit list \<Rightarrow> nat \<Rightarrow> ('f, 'x) computed_entry \<Rightarrow> run_unit list" where
  "push_unit units pos e =
     (case runnable_of e of
        Some g \<Rightarrow> if units \<noteq> [] \<and> last units = GroupUnit g then units else units @ [GroupUnit g]
      | None \<Rightarrow> units @ [StepUnit pos])"

definition index_step ::
  "(decl_key \<Rightarrow> (nat \<times> nat option) option) \<Rightarrow> run_unit list \<times> ('f, 'x) step list \<Rightarrow>
   nat \<times> ('f, 'x) computed_entry \<Rightarrow> (run_unit list \<times> ('f, 'x) step list, step_index_error) result" where
  "index_step positions s p =
     (case s of (units, steps) \<Rightarrow> case p of (pos, e) \<Rightarrow>
        res_map (\<lambda>deps. (push_unit units pos e,
            steps @ [\<lparr>st_declaration = fst e, st_body = fst (snd e), st_deps = deps\<rparr>]))
          (step_deps positions pos e))"

definition callable_new :: "('f, 'x) planned_unit list \<Rightarrow> (('f, 'x) callable, step_index_error) result" where
  "callable_new scheduled =
     res_bind (try_fold plan_unit ([], [], 0) scheduled) (\<lambda>(computed, groups, _).
     res_bind (try_fold insert_step Map.empty (enumerate 0 computed)) (\<lambda>positions.
     res_map (\<lambda>(units, steps). \<lparr>cl_steps = steps, cl_groups = groups, cl_units = units\<rparr>)
       (try_fold (index_step positions) ([], []) (enumerate 0 computed))))"


section \<open>What an indexed callable promises\<close>

definition computed_body_of :: "('f, 'x) planned_declaration \<Rightarrow> ('f, 'x) computed_body" where
  "computed_body_of d = (case pd_body d of ComputedB body \<Rightarrow> body | SuppliedB \<Rightarrow> TodoBody)"

text \<open>The steps of the callable a unit runs.\<close>

fun unit_steps :: "('f, 'x) planned_group list \<Rightarrow> run_unit \<Rightarrow> nat list" where
  "unit_steps groups (StepUnit i) = [i]"
| "unit_steps groups (GroupUnit g) = map mp_step (pg_members (groups ! g))"

text \<open>A declaration and the plan of its member: the body is the executable one that was planned.\<close>

definition planned_as :: "nat \<Rightarrow> ('f, 'x) planned_declaration \<Rightarrow> ('f, 'x) member_plan \<Rightarrow> bool" where
  "planned_as steps d m \<longleftrightarrow>
     (\<exists>hir. pd_body d = ComputedB (ExpressionBody hir (Inr (mp_root m)))) \<and>
     recurrence_body_of (mp_root m) = Some (mp_display m, mp_body m) \<and>
     axis_len (recurrence_body_axis (mp_body m)) = steps"

text \<open>Where the members of a group are among the entries.\<close>

definition group_placed ::
  "('f, 'x) planned_unit set \<Rightarrow> ('f, 'x) computed_entry list \<Rightarrow> nat \<Rightarrow> ('f, 'x) planned_group \<Rightarrow> nat \<Rightarrow>
   ('f, 'x) planned_declaration list \<Rightarrow> bool" where
  "group_placed units computed g G a members \<longleftrightarrow>
     RecurrenceUnit (pg_plan G) members \<in> units \<and> members \<noteq> [] \<and>
     a + length members \<le> length computed \<and>
     map mp_step (pg_members G) = [a..<a + length members] \<and>
     list_all2 (planned_as (axis_len (pg_axis G))) members (pg_members G) \<and>
     (\<forall>i < length members. fst (computed ! (a + i)) = members ! i \<and>
        fst (snd (computed ! (a + i))) = computed_body_of (members ! i)) \<and>
     (\<exists>m. \<forall>i < length members. membership_of (computed ! (a + i)) = Some m) \<and>
     (\<forall>p < length computed. runnable_of (computed ! p) = Some g \<longleftrightarrow> a \<le> p \<and> p < a + length members)"

text \<open>Entries of one membership belong to one scheduled recurrence.\<close>

definition memberships_ok ::
  "('f, 'x) planned_unit set \<Rightarrow> ('f, 'x) computed_entry list \<Rightarrow> nat \<Rightarrow> bool" where
  "memberships_ok units computed scheduled \<longleftrightarrow>
     (\<forall>e \<in> set computed. \<forall>m. membership_of e = Some m \<longrightarrow> m < scheduled) \<and>
     (\<forall>m < scheduled. \<exists>plan members. RecurrenceUnit plan members \<in> units \<and>
        (\<forall>e \<in> set computed. membership_of e = Some m \<longrightarrow> fst e \<in> set members))"

definition placed ::
  "('f, 'x) planned_unit set \<Rightarrow> ('f, 'x) computed_entry list \<Rightarrow> ('f, 'x) planned_group list \<Rightarrow> bool" where
  "placed units computed groups \<longleftrightarrow>
     (\<forall>g < length groups. \<exists>a members. group_placed units computed g (groups ! g) a members) \<and>
     (\<forall>e \<in> set computed. \<forall>g. runnable_of e = Some g \<longrightarrow> g < length groups)"

lemma plan_member_iff:
  "plan_member m (computed, planned, axis) d = Inr s \<longleftrightarrow>
     (\<exists>hir tree. pd_body d = ComputedB (ExpressionBody hir tree) \<and>
       (case tree of
          Inl _ \<Rightarrow> s = (computed @ [(d, computed_body_of d, Some (m, None))], planned, axis)
        | Inr node \<Rightarrow> (\<exists>display body a. recurrence_body_of node = Some (display, body) \<and>
            axis_len a = axis_len (recurrence_body_axis body) \<and>
            (axis = Some a \<or> axis = None \<and> a = recurrence_body_axis body) \<and>
            s = (computed @ [(d, computed_body_of d, Some (m, None))],
              planned @ [\<lparr>mp_step = length computed, mp_root = node, mp_display = display, mp_body = body\<rparr>],
              Some a))))"
  by (auto simp: plan_member_def computed_body_of_def result_iffs Let_def
      split: planned_body.splits computed_body.splits sum.splits option.splits if_splits)

lemma plan_members:
  "try_fold (plan_member m) (computed, planned, axis) ds = Inr (all, planned', axis') \<Longrightarrow>
    \<exists>new. all = computed @ map (\<lambda>d. (d, computed_body_of d, Some (m, None))) ds \<and> planned' = planned @ new \<and>
      length new \<le> length ds \<and> (\<forall>a. axis = Some a \<longrightarrow> axis' = Some a) \<and>
      (length new = length ds \<longrightarrow> map mp_step new = [length computed..<length computed + length ds] \<and>
        (\<forall>a. axis' = Some a \<longrightarrow> list_all2 (planned_as (axis_len a)) ds new))"
proof (induction ds arbitrary: computed planned axis)
  case (Cons d ds)
  from Cons.prems obtain s where s: "plan_member m (computed, planned, axis) d = Inr s"
    and rest: "try_fold (plan_member m) s ds = Inr (all, planned', axis')" by (auto simp: result_iffs)
  from s obtain hir tree where body: "pd_body d = ComputedB (ExpressionBody hir tree)"
    unfolding plan_member_iff by blast
  let ?entry = "(d, computed_body_of d, Some (m, None))"
  show ?case
  proof (cases tree)
    case (Inl e)
    with s body have s_eq: "s = (computed @ [?entry], planned, axis)" by (simp add: plan_member_iff)
    from Cons.IH [OF rest [unfolded s_eq]] obtain new where
      "all = (computed @ [?entry]) @ map (\<lambda>d. (d, computed_body_of d, Some (m, None))) ds"
      "planned' = planned @ new" "length new \<le> length ds" "\<forall>a. axis = Some a \<longrightarrow> axis' = Some a" by blast
    then show ?thesis by (intro exI [of _ new]) simp
  next
    case (Inr node)
    with s body obtain display rbody a where
      rb: "recurrence_body_of node = Some (display, rbody)" "axis_len a = axis_len (recurrence_body_axis rbody)"
        "axis = Some a \<or> axis = None \<and> a = recurrence_body_axis rbody"
      and s_eq: "s = (computed @ [?entry],
        planned @ [\<lparr>mp_step = length computed, mp_root = node, mp_display = display, mp_body = rbody\<rparr>], Some a)"
      by (auto simp: plan_member_iff)
    let ?mp = "\<lparr>mp_step = length computed, mp_root = node, mp_display = display, mp_body = rbody\<rparr>"
    from Cons.IH [OF rest [unfolded s_eq]] obtain new where new:
      "all = (computed @ [?entry]) @ map (\<lambda>d. (d, computed_body_of d, Some (m, None))) ds"
      "planned' = (planned @ [?mp]) @ new" "length new \<le> length ds" "axis' = Some a"
      "length new = length ds \<Longrightarrow> map mp_step new = [Suc (length computed)..<Suc (length computed) + length ds]"
      "length new = length ds \<Longrightarrow> list_all2 (planned_as (axis_len a)) ds new" by auto
    have "planned_as (axis_len a) d ?mp" using body Inr rb by (simp add: planned_as_def)
    with new rb(3) show ?thesis
      by (intro exI [of _ "?mp # new"]) (auto simp: upt_rec)
  qed
qed simp


lemma entry_simps [simp]:
  "entry_key_of (d, b, m) = pd_key d"
  "membership_of (d, b, m) = map_option fst m"
  "runnable_of (d, b, m) = Option.bind m snd"
  by (simp_all add: entry_key_of_def membership_of_def runnable_of_def)

lemma unfinished_members:
  "try_fold (unfinished_member u m) computed ds = Inr all \<Longrightarrow>
    \<exists>new. all = computed @ new \<and>
      (\<forall>e \<in> set new. fst e \<in> set ds \<and> membership_of e = Some m \<and> runnable_of e = None)"
proof (induction ds arbitrary: computed)
  case (Cons d ds)
  from Cons.prems obtain s where s: "unfinished_member u m computed d = Inr s"
    and rest: "try_fold (unfinished_member u m) s ds = Inr all" by (auto simp: result_iffs)
  from s obtain b where b: "s = computed @ [(d, b, Some (m, None))]"
    by (auto simp: unfinished_member_def split: planned_body.splits computed_body.splits)
  from Cons.IH [OF rest] obtain new where "all = s @ new"
    "\<forall>e \<in> set new. fst e \<in> set ds \<and> membership_of e = Some m \<and> runnable_of e = None" by blast
  with b show ?case by (intro exI [of _ "(d, b, Some (m, None)) # new"]) auto
qed simp

lemma group_placed_append:
  assumes "group_placed units computed g G a members" "\<forall>e \<in> set new. runnable_of e \<noteq> Some g"
  shows "group_placed units (computed @ new) g G a members"
proof -
  have "runnable_of ((computed @ new) ! p) = Some g \<longleftrightarrow> a \<le> p \<and> p < a + length members"
    if "p < length (computed @ new)" for p
  proof (cases "p < length computed")
    case True
    then show ?thesis using assms(1) by (simp add: group_placed_def nth_append)
  next
    case False
    then have "(computed @ new) ! p \<in> set new" using that by (simp add: nth_append)
    with assms False show ?thesis by (auto simp: group_placed_def)
  qed
  with assms(1) show ?thesis by (auto simp: group_placed_def nth_append)
qed

lemma placed_append:
  assumes "placed units computed groups" "\<forall>e \<in> set new. runnable_of e = None"
  shows "placed units (computed @ new) groups"
  unfolding placed_def
proof (intro conjI allI impI)
  fix g assume "g < length groups"
  with assms(1) obtain a members where "group_placed units computed g (groups ! g) a members"
    by (auto simp: placed_def)
  then have "group_placed units (computed @ new) g (groups ! g) a members"
    by (rule group_placed_append) (simp add: assms(2))
  then show "\<exists>a members. group_placed units (computed @ new) g (groups ! g) a members" by blast
next
  show "\<forall>e \<in> set (computed @ new). \<forall>g. runnable_of e = Some g \<longrightarrow> g < length groups"
    using assms by (auto simp: placed_def)
qed

lemma memberships_append:
  assumes "memberships_ok units computed n" "RecurrenceUnit plan members \<in> units"
    and "\<forall>e \<in> set new. membership_of e = Some n \<and> fst e \<in> set members"
  shows "memberships_ok units (computed @ new) (Suc n)"
  unfolding memberships_ok_def
proof (intro conjI allI impI)
  show "\<forall>e \<in> set (computed @ new). \<forall>m. membership_of e = Some m \<longrightarrow> m < Suc n"
    using assms(1,3) by (auto simp: memberships_ok_def less_Suc_eq)
  fix m assume "m < Suc n"
  then consider "m < n" | "m = n" by linarith
  then show "\<exists>plan members. RecurrenceUnit plan members \<in> units \<and>
      (\<forall>e \<in> set (computed @ new). membership_of e = Some m \<longrightarrow> fst e \<in> set members)"
  proof cases
    case 1
    with assms(1) obtain plan' members' where "RecurrenceUnit plan' members' \<in> units"
      "\<forall>e \<in> set computed. membership_of e = Some m \<longrightarrow> fst e \<in> set members'"
      unfolding memberships_ok_def by blast
    with 1 assms(3) show ?thesis by (intro exI [of _ plan'] exI [of _ members']) auto
  next
    case 2
    have "membership_of e \<noteq> Some n" if "e \<in> set computed" for e
      using assms(1) that by (auto simp: memberships_ok_def)
    with 2 assms(2,3) show ?thesis by (intro exI [of _ plan] exI [of _ members]) auto
  qed
qed

lemma placed_group:
  assumes "placed units computed groups" "RecurrenceUnit plan members \<in> units" "members \<noteq> []"
    and "map mp_step planned = [length computed..<length computed + length members]"
    and "list_all2 (planned_as (axis_len axis)) members planned"
  shows "placed units (computed @ map (\<lambda>d. (d, computed_body_of d, Some (m, Some (length groups)))) members)
    (groups @ [\<lparr>pg_plan = plan, pg_members = planned, pg_axis = axis\<rparr>])"
    (is "placed units (computed @ ?new) (groups @ [?G])")
  unfolding placed_def
proof (intro conjI allI impI)
  have runnable: "\<forall>e \<in> set computed. \<forall>g. runnable_of e = Some g \<longrightarrow> g < length groups"
    using assms(1) by (simp add: placed_def)
  then show "\<forall>e \<in> set (computed @ ?new). \<forall>g. runnable_of e = Some g \<longrightarrow> g < length (groups @ [?G])"
    by (auto simp: less_Suc_eq)
  fix g assume "g < length (groups @ [?G])"
  then consider "g < length groups" | "g = length groups" by (auto simp: less_Suc_eq)
  then show "\<exists>a members. group_placed units (computed @ ?new) g ((groups @ [?G]) ! g) a members"
  proof cases
    case 1
    with assms(1) obtain a members' where "group_placed units computed g (groups ! g) a members'"
      by (auto simp: placed_def)
    then have "group_placed units (computed @ ?new) g (groups ! g) a members'"
      by (rule group_placed_append) (use 1 in auto)
    with 1 show ?thesis by (auto simp: nth_append)
  next
    case 2
    have "runnable_of ((computed @ ?new) ! p) = Some g \<longleftrightarrow> length computed \<le> p \<and> p < length computed + length members"
      if "p < length (computed @ ?new)" for p
    proof (cases "p < length computed")
      case True
      then have "computed ! p \<in> set computed" by simp
      with runnable 2 have "runnable_of (computed ! p) \<noteq> Some g" by (metis less_irrefl)
      with True show ?thesis by (simp add: nth_append)
    next
      case False
      with that show ?thesis by (simp add: nth_append 2)
    qed
    then have "group_placed units (computed @ ?new) g ?G (length computed) members"
      using assms(2-5) by (simp add: group_placed_def nth_append)
    with 2 show ?thesis by (auto simp: nth_append)
  qed
qed

lemma plan_recurrence_placed:
  assumes "plan_recurrence plan members n (computed, groups) = Inr (computed', groups')"
    and "placed units computed groups" "memberships_ok units computed n" "RecurrenceUnit plan members \<in> units"
  shows "placed units computed' groups' \<and> memberships_ok units computed' (Suc n)"
proof (cases "map pd_key (filter is_todo members) = []")
  case False
  with assms(1) have "try_fold (unfinished_member (map pd_key (filter is_todo members)) n) computed members = Inr computed'"
      "groups' = groups"
    by (auto simp: plan_recurrence_def Let_def result_iffs)
  with unfinished_members [OF this(1)] placed_append [OF assms(2)] memberships_append [OF assms(3,4)]
  show ?thesis by fastforce
next
  case True
  with assms(1) obtain all planned axis where
    fold: "try_fold (plan_member n) (computed, [], None) members = Inr (all, planned, axis)"
    and result: "(case axis of
        Some axis \<Rightarrow>
          if length planned = length all - length computed then
            Inr (take (length computed) all @ map (run_as_group n (length groups)) (drop (length computed) all),
                 groups @ [\<lparr>pg_plan = plan, pg_members = planned, pg_axis = axis\<rparr>])
          else Inr (all, groups)
      | None \<Rightarrow> Inr (all, groups)) = (Inr (computed', groups') :: (_, step_index_error) result)"
    unfolding plan_recurrence_def Let_def by (auto simp: result_iffs)
  let ?new = "map (\<lambda>d. (d, computed_body_of d, Some (n, None))) members"
  let ?run = "map (\<lambda>d. (d, computed_body_of d, Some (n, Some (length groups)))) members"
  from plan_members [OF fold] have all: "all = computed @ ?new"
    and steps: "length planned = length members \<Longrightarrow>
      map mp_step planned = [length computed..<length computed + length members] \<and>
      (\<forall>a. axis = Some a \<longrightarrow> list_all2 (planned_as (axis_len a)) members planned)" by auto
  have plain: "placed units all groups \<and> memberships_ok units all (Suc n)"
    unfolding all using placed_append [OF assms(2), of ?new] memberships_append [OF assms(3,4), of ?new] by auto
  show ?thesis
  proof (cases "axis \<noteq> None \<and> length planned = length members")
    case False
    with result all plain show ?thesis by (auto split: option.splits)
  next
    case True
    then obtain a where a: "axis = Some a" and len: "length planned = length members" by auto
    have "map (run_as_group n (length groups)) ?new = ?run" by (simp add: run_as_group_def)
    with result all a len have eqs: "computed' = computed @ ?run"
      "groups' = groups @ [\<lparr>pg_plan = plan, pg_members = planned, pg_axis = a\<rparr>]" by auto
    have "members \<noteq> []"
    proof
      assume "members = []"
      with fold a show False by simp
    qed
    with placed_group [OF assms(2,4)] steps [OF len] a memberships_append [OF assms(3,4), of ?run]
    show ?thesis unfolding eqs by auto
  qed
qed


lemma plan_unit_placed:
  assumes "plan_unit (computed, groups, n) unit = Inr (computed', groups', n')" "unit \<in> units"
    and "placed units computed groups" "memberships_ok units computed n"
  shows "placed units computed' groups' \<and> memberships_ok units computed' n'"
proof (cases unit)
  case (DeclarationUnit d)
  show ?thesis
  proof (cases "pd_body d")
    case (ComputedB body)
    with assms(1) DeclarationUnit have eqs: "computed' = computed @ [(d, body, None)]" "groups' = groups" "n' = n"
      by (simp_all add: plan_unit_def)
    have "memberships_ok units (computed @ [(d, body, None)]) n"
      using assms(4) unfolding memberships_ok_def by fastforce
    with placed_append [OF assms(3), of "[(d, body, None)]"] show ?thesis by (simp add: eqs)
  qed (use assms DeclarationUnit in \<open>simp add: plan_unit_def\<close>)
next
  case (RecurrenceUnit plan members)
  with assms(1) have "plan_recurrence plan members n (computed, groups) = Inr (computed', groups')" "n' = Suc n"
    by (auto simp: plan_unit_def result_iffs)
  with plan_recurrence_placed [OF this(1) assms(3,4)] assms(2) RecurrenceUnit show ?thesis by simp
qed

lemma plan_units_placed:
  assumes "try_fold plan_unit ([], [], 0) scheduled = Inr (computed, groups, n)"
  shows "placed (set scheduled) computed groups \<and> memberships_ok (set scheduled) computed n"
proof -
  let ?P = "\<lambda>(computed, groups, n). placed (set scheduled) computed groups \<and> memberships_ok (set scheduled) computed n"
  have "?P (computed, groups, n)"
  proof (rule try_fold_invariant [OF assms])
    show "?P ([], [], 0)" by (simp add: placed_def memberships_ok_def)
    fix s unit s' assume "?P s" "unit \<in> set scheduled" "plan_unit s unit = Inr s'"
    then show "?P s'" using plan_unit_placed by (cases s; cases s') blast
  qed
  then show ?thesis by simp
qed

section \<open>Positions and dependencies\<close>

lemma enumerate_keys:
  "map fst (map (\<lambda>(i, e). (entry_key_of e, i, membership_of e)) (enumerate n es)) = map entry_key_of es"
proof -
  have "map fst (map (\<lambda>(i, e). (entry_key_of e, i, membership_of e)) (enumerate n es)) =
      map entry_key_of (map snd (enumerate n es))"
    by (simp add: comp_def case_prod_beta del: map_snd_enumerate)
  then show ?thesis by simp
qed

lemma in_map_filter: "y \<in> set (List.map_filter f xs) \<longleftrightarrow> (\<exists>x \<in> set xs. f x = Some y)"
  by (force simp: List.map_filter_def)

lemma insert_step_iff:
  "insert_step positions (i, e) = Inr positions' \<longleftrightarrow>
     positions (entry_key_of e) = None \<and> positions' = positions(entry_key_of e \<mapsto> (i, membership_of e))"
  by (cases "positions (entry_key_of e)") (auto simp: insert_step_def)

lemma index_step_iff:
  "index_step positions (units, steps) (i, e) = Inr s \<longleftrightarrow>
     (\<exists>deps. step_deps positions i e = Inr deps \<and>
       s = (push_unit units i e, steps @ [\<lparr>st_declaration = fst e, st_body = fst (snd e), st_deps = deps\<rparr>]))"
  by (auto simp: index_step_def result_iffs)

lemma insert_steps:
  "try_fold insert_step positions (enumerate n es) = Inr positions' \<Longrightarrow>
    distinct (map entry_key_of es) \<and> (\<forall>e \<in> set es. positions (entry_key_of e) = None) \<and>
    (\<forall>k. positions' k = (case map_of (map (\<lambda>(i, e). (entry_key_of e, i, membership_of e)) (enumerate n es)) k of
       Some p \<Rightarrow> Some p | None \<Rightarrow> positions k))"
proof (induction es arbitrary: n positions)
  case (Cons e es)
  let ?p = "positions(entry_key_of e \<mapsto> (n, membership_of e))"
  from Cons.prems have new: "positions (entry_key_of e) = None"
    and rest: "try_fold insert_step ?p (enumerate (Suc n) es) = Inr positions'"
    by (auto simp: insert_step_iff result_iffs)
  note IH = Cons.IH [OF rest]
  have fresh: "entry_key_of e \<notin> entry_key_of ` set es" using IH by auto
  have others: "positions (entry_key_of x) = None" if "x \<in> set es" for x
  proof -
    have "entry_key_of x \<noteq> entry_key_of e" using fresh that by (metis image_eqI)
    moreover have "?p (entry_key_of x) = None" using conjunct1 [OF conjunct2 [OF IH]] that by blast
    ultimately show ?thesis by simp
  qed
  have "positions' k = (case map_of (map (\<lambda>(i, e). (entry_key_of e, i, membership_of e)) (enumerate n (e # es))) k of
       Some p \<Rightarrow> Some p | None \<Rightarrow> positions k)" for k
  proof (cases "k = entry_key_of e")
    case True
    have "map_of (map (\<lambda>(i, e). (entry_key_of e, i, membership_of e)) (enumerate (Suc n) es)) k = None"
      unfolding map_of_eq_None_iff set_map [symmetric] enumerate_keys using fresh True by simp
    with IH True show ?thesis by simp
  next
    case False
    with IH show ?thesis by (auto split: option.split)
  qed
  moreover have "distinct (map entry_key_of (e # es))" using IH fresh by simp
  ultimately show ?case using new others by simp
qed simp

lemma positions_of:
  assumes "try_fold insert_step Map.empty (enumerate 0 es) = Inr positions"
  shows "distinct (map entry_key_of es) \<and>
    (positions k = Some (i, m) \<longleftrightarrow> i < length es \<and> entry_key_of (es ! i) = k \<and> m = membership_of (es ! i))"
proof -
  note facts = insert_steps [OF assms]
  let ?l = "map (\<lambda>(i, e). (entry_key_of e, i, membership_of e)) (enumerate 0 es)"
  have "map fst ?l = map entry_key_of es" by (rule enumerate_keys)
  then have "distinct (map fst ?l)" using facts by simp
  then have "map_of ?l k = Some (i, m) \<longleftrightarrow> (k, i, m) \<in> set ?l" by simp
  also have "\<dots> \<longleftrightarrow> i < length es \<and> entry_key_of (es ! i) = k \<and> m = membership_of (es ! i)"
    by (auto simp: in_set_enumerate_eq image_iff intro!: bexI [of _ "(i, es ! i)"])
  finally show ?thesis using facts by (auto split: option.splits)
qed

lemma index_steps:
  "try_fold (index_step positions) (units, steps) (enumerate n es) = Inr (units', steps') \<Longrightarrow>
    \<exists>new. steps' = steps @ new \<and> length new = length es \<and>
      units' = foldl (\<lambda>us (p, e). push_unit us p e) units (enumerate n es) \<and>
      (\<forall>i < length es. st_declaration (new ! i) = fst (es ! i) \<and> st_body (new ! i) = fst (snd (es ! i)) \<and>
         step_deps positions (n + i) (es ! i) = Inr (st_deps (new ! i)))"
proof (induction es arbitrary: n units steps)
  case (Cons e es)
  from Cons.prems obtain deps where deps: "step_deps positions n e = Inr deps"
    and rest: "try_fold (index_step positions)
      (push_unit units n e, steps @ [\<lparr>st_declaration = fst e, st_body = fst (snd e), st_deps = deps\<rparr>])
      (enumerate (Suc n) es) = Inr (units', steps')"
    by (auto simp: index_step_iff result_iffs)
  from Cons.IH [OF rest] obtain new where new:
    "steps' = (steps @ [\<lparr>st_declaration = fst e, st_body = fst (snd e), st_deps = deps\<rparr>]) @ new"
    "length new = length es" "units' = foldl (\<lambda>us (p, e). push_unit us p e) (push_unit units n e) (enumerate (Suc n) es)"
    "\<forall>i < length es. st_declaration (new ! i) = fst (es ! i) \<and> st_body (new ! i) = fst (snd (es ! i)) \<and>
         step_deps positions (Suc n + i) (es ! i) = Inr (st_deps (new ! i))" by blast
  then show ?case
    by (intro exI [of _ "\<lparr>st_declaration = fst e, st_body = fst (snd e), st_deps = deps\<rparr> # new"])
      (auto simp: nth_Cons deps split: nat.splits)
qed simp

lemma outside_reads_iff:
  "(read, j) \<in> set (outside_reads positions e) \<longleftrightarrow> read \<in> set (pd_reads (fst e)) \<and>
     (\<exists>g. positions read = Some (j, g) \<and> (membership_of e = None \<or> g \<noteq> membership_of e))"
proof -
  have "(case positions x of None \<Rightarrow> None
      | Some (step, read_group) \<Rightarrow>
          if membership_of e = None \<or> read_group \<noteq> membership_of e then Some (x, step) else None) = Some (read, j) \<longleftrightarrow>
      x = read \<and> (\<exists>g. positions read = Some (j, g) \<and> (membership_of e = None \<or> g \<noteq> membership_of e))" for x
    by (cases "positions x") (auto split: if_splits)
  note eq = this
  show ?thesis unfolding outside_reads_def in_map_filter eq by blast
qed

lemma step_deps_iff:
  assumes "step_deps positions i e = Inr deps"
  shows "j \<in> set deps \<longleftrightarrow>
    (\<exists>read \<in> set (pd_reads (fst e)). \<exists>g. positions read = Some (j, g) \<and> (membership_of e = None \<or> g \<noteq> membership_of e))"
    and "j \<in> set deps \<Longrightarrow> j < i"
proof -
  have deps: "list_all2 (\<lambda>(read, step) y. step < i \<and> step = y) (outside_reads positions e) deps"
    using assms by (auto simp: step_deps_def try_map_Inr_iff elim!: list_all2_mono split: if_splits)
  then have "deps = map snd (outside_reads positions e)"
    by (auto simp: list_all2_conv_all_nth list_eq_iff_nth_eq case_prod_beta)
  then show "j \<in> set deps \<longleftrightarrow>
      (\<exists>read \<in> set (pd_reads (fst e)). \<exists>g. positions read = Some (j, g) \<and> (membership_of e = None \<or> g \<noteq> membership_of e))"
    by (simp add: image_iff Bex_def outside_reads_iff)
  show "j \<in> set deps \<Longrightarrow> j < i"
    using deps by (auto simp: list_all2_conv_all_nth in_set_conv_nth case_prod_beta)
qed


section \<open>Units\<close>

definition units_upto :: "('f, 'x) computed_entry list \<Rightarrow> nat \<Rightarrow> run_unit list" where
  "units_upto es n = foldl (\<lambda>us (p, e). push_unit us p e) [] (take n (enumerate 0 es))"

lemma units_upto_Suc:
  "n < length es \<Longrightarrow> units_upto es (Suc n) = push_unit (units_upto es n) n (es ! n)"
  by (simp add: units_upto_def take_Suc_conv_app_nth nth_enumerate_eq)

text \<open>The steps covered by the units of the first \<open>n\<close> entries: up to \<open>n\<close>, or up to the end of the
  group that the last of them belongs to.\<close>

lemma units_cover:
  assumes "placed units es groups"
  shows "n \<le> length es \<Longrightarrow>
    (\<exists>m. concat (map (unit_steps groups) (units_upto es n)) = [0..<m] \<and>
      (if 0 < n then case runnable_of (es ! (n - 1)) of
          None \<Rightarrow> m = n
        | Some g \<Rightarrow> \<exists>a members. group_placed units es g (groups ! g) a members \<and> m = a + length members
       else m = n)) \<and>
    (\<forall>g. units_upto es n \<noteq> [] \<and> last (units_upto es n) = GroupUnit g \<longleftrightarrow> 0 < n \<and> runnable_of (es ! (n - 1)) = Some g) \<and>
    (\<forall>g. GroupUnit g \<in> set (units_upto es n) \<longrightarrow> g < length groups)"
proof (induction n)
  case 0
  then show ?case by (simp add: units_upto_def)
next
  case (Suc n)
  then have n: "n < length es" by simp
  from Suc obtain m where m: "concat (map (unit_steps groups) (units_upto es n)) = [0..<m]"
    and ends: "if 0 < n then case runnable_of (es ! (n - 1)) of
          None \<Rightarrow> m = n
        | Some g \<Rightarrow> \<exists>a members. group_placed units es g (groups ! g) a members \<and> m = a + length members
       else m = n"
    and last: "\<And>g. units_upto es n \<noteq> [] \<and> last (units_upto es n) = GroupUnit g \<longleftrightarrow> 0 < n \<and> runnable_of (es ! (n - 1)) = Some g"
    and bound: "\<And>g. GroupUnit g \<in> set (units_upto es n) \<Longrightarrow> g < length groups"
    by auto
  have at_n: "m = n" if "runnable_of (es ! (n - 1)) \<noteq> runnable_of (es ! n) \<or> runnable_of (es ! n) = None"
  proof (cases "0 < n \<and> runnable_of (es ! (n - 1)) \<noteq> None")
    case False
    then show ?thesis using ends by (auto split: if_splits)
  next
    case True
    then obtain g where g: "runnable_of (es ! (n - 1)) = Some g" by auto
    with ends True obtain a members where group: "group_placed units es g (groups ! g) a members" "m = a + length members"
      by auto
    have runs: "runnable_of (es ! p) = Some g \<longleftrightarrow> a \<le> p \<and> p < a + length members" if "p < length es" for p
      using group(1) that by (simp add: group_placed_def)
    have "a \<le> n - 1 \<and> n - 1 < a + length members" "\<not> (a \<le> n \<and> n < a + length members)"
      using runs [of n] runs [of "n - 1"] g n that by auto
    with group(2) True show ?thesis by linarith
  qed
  show ?case
  proof (cases "runnable_of (es ! n)")
    case None
    have "units_upto es (Suc n) = units_upto es n @ [StepUnit n]"
      using None by (simp add: units_upto_Suc [OF n] push_unit_def)
    with m at_n None bound show ?thesis by (auto intro!: exI [of _ "Suc n"])
  next
    case (Some g)
    then have "g < length groups" using assms n unfolding placed_def by (metis nth_mem)
    with assms obtain a members where group: "group_placed units es g (groups ! g) a members"
      unfolding placed_def by blast
    have range: "a \<le> n \<and> n < a + length members" and steps: "map mp_step (pg_members (groups ! g)) = [a..<a + length members]"
      using group n Some unfolding group_placed_def by auto
    show ?thesis
    proof (cases "0 < n \<and> runnable_of (es ! (n - 1)) = Some g")
      case True
      then have "units_upto es (Suc n) = units_upto es n"
        using last [of g] Some by (simp add: units_upto_Suc [OF n] push_unit_def)
      with m ends True Some last bound show ?thesis by auto
    next
      case False
      then have push: "units_upto es (Suc n) = units_upto es n @ [GroupUnit g]"
        using last [of g] Some by (auto simp: units_upto_Suc [OF n] push_unit_def)
      have "m = n"
      proof (cases "n = 0")
        case False
        with \<open>\<not> (0 < n \<and> runnable_of (es ! (n - 1)) = Some g)\<close> Some show ?thesis by (intro at_n) auto
      qed (use ends in simp)
      moreover have "a = n"
      proof (rule ccontr)
        assume "a \<noteq> n"
        then have "0 < n" "a \<le> n - 1" "n - 1 < a + length members" using range by auto
        then have "runnable_of (es ! (n - 1)) = Some g" using group n unfolding group_placed_def by auto
        with False \<open>0 < n\<close> show False by simp
      qed
      ultimately have "m = a" by simp
      moreover have "[0..<a + length members] = [0..<a] @ [a..<a + length members]"
        by (rule upt_add_eq_append) simp
      ultimately have "concat (map (unit_steps groups) (units_upto es (Suc n))) = [0..<a + length members]"
        by (simp only: push map_append concat_append m list.map concat.simps unit_steps.simps steps append_Nil2)
      moreover have "\<forall>h. GroupUnit h \<in> set (units_upto es (Suc n)) \<longrightarrow> h < length groups"
        using bound \<open>g < length groups\<close> by (auto simp: push)
      moreover have "(if 0 < Suc n then case runnable_of (es ! (Suc n - 1)) of
          None \<Rightarrow> a + length members = Suc n
        | Some g \<Rightarrow> \<exists>a' members'. group_placed units es g (groups ! g) a' members' \<and>
            a + length members = a' + length members'
       else a + length members = Suc n)" using group Some by auto
      moreover have "\<forall>h. units_upto es (Suc n) \<noteq> [] \<and> last (units_upto es (Suc n)) = GroupUnit h \<longleftrightarrow>
          0 < Suc n \<and> runnable_of (es ! (Suc n - 1)) = Some h"
        unfolding push using Some by simp
      ultimately show ?thesis by blast
    qed
  qed
qed


section \<open>Indexed callables\<close>

definition step_key :: "('f, 'x) callable \<Rightarrow> nat \<Rightarrow> decl_key" where
  "step_key c i = pd_key (st_declaration (cl_steps c ! i))"

text \<open>A group's members are consecutive steps with the bodies that were planned, none of which waits
  for another step of the group.\<close>

definition group_ok :: "('f, 'x) callable \<Rightarrow> ('f, 'x) planned_group \<Rightarrow> bool" where
  "group_ok c G \<longleftrightarrow> pg_members G \<noteq> [] \<and> (\<exists>a. map mp_step (pg_members G) = [a..<a + length (pg_members G)]) \<and>
     (\<forall>m \<in> set (pg_members G). mp_step m < length (cl_steps c) \<and>
        planned_as (axis_len (pg_axis G)) (st_declaration (cl_steps c ! mp_step m)) m \<and>
        st_body (cl_steps c ! mp_step m) = computed_body_of (st_declaration (cl_steps c ! mp_step m)) \<and>
        (\<forall>d \<in> set (st_deps (cl_steps c ! mp_step m)). d \<notin> mp_step ` set (pg_members G)))"

definition callable_ok :: "('f, 'x) callable \<Rightarrow> bool" where
  "callable_ok c \<longleftrightarrow>
     distinct (map (\<lambda>s. pd_key (st_declaration s)) (cl_steps c)) \<and>
     concat (map (unit_steps (cl_groups c)) (cl_units c)) = [0..<length (cl_steps c)] \<and>
     (\<forall>g. GroupUnit g \<in> set (cl_units c) \<longrightarrow> g < length (cl_groups c)) \<and>
     (\<forall>i < length (cl_steps c). \<forall>d \<in> set (st_deps (cl_steps c ! i)).
        d < i \<and> step_key c d \<in> set (pd_reads (st_declaration (cl_steps c ! i)))) \<and>
     (\<forall>G \<in> set (cl_groups c). group_ok c G)"

text \<open>The declarations two steps of one scheduled recurrence belong to.\<close>

definition same_recurrence :: "('f, 'x) planned_unit list \<Rightarrow> ('f, 'x) callable \<Rightarrow> nat \<Rightarrow> nat \<Rightarrow> bool" where
  "same_recurrence scheduled c i j \<longleftrightarrow>
     (\<exists>plan members. RecurrenceUnit plan members \<in> set scheduled \<and>
        st_declaration (cl_steps c ! i) \<in> set members \<and> st_declaration (cl_steps c ! j) \<in> set members)"

lemma callable_new_parts:
  assumes "callable_new scheduled = Inr c"
  obtains es n positions where "try_fold plan_unit ([], [], 0) scheduled = Inr (es, cl_groups c, n)"
    "try_fold insert_step Map.empty (enumerate 0 es) = Inr positions" "length (cl_steps c) = length es"
    "cl_units c = units_upto es (length es)"
    "\<And>i. i < length es \<Longrightarrow> st_declaration (cl_steps c ! i) = fst (es ! i) \<and> st_body (cl_steps c ! i) = fst (snd (es ! i)) \<and>
       step_deps positions i (es ! i) = Inr (st_deps (cl_steps c ! i))"
proof -
  from assms obtain es groups n positions units steps where
    es: "try_fold plan_unit ([], [], 0) scheduled = Inr (es, groups, n)"
    and positions: "try_fold insert_step Map.empty (enumerate 0 es) = Inr positions"
    and fold: "try_fold (index_step positions) ([], []) (enumerate 0 es) = Inr (units, steps)"
    and c: "c = \<lparr>cl_steps = steps, cl_groups = groups, cl_units = units\<rparr>"
    unfolding callable_new_def by (auto simp: result_iffs)
  from index_steps [OF fold] have "length steps = length es" "units = units_upto es (length es)"
    "\<forall>i < length es. st_declaration (steps ! i) = fst (es ! i) \<and> st_body (steps ! i) = fst (snd (es ! i)) \<and>
       step_deps positions i (es ! i) = Inr (st_deps (steps ! i))"
    by (auto simp: units_upto_def)
  with es positions that [of es n positions] show thesis unfolding c by simp
qed

lemma callable_deps:
  assumes "callable_new scheduled = Inr c" "i < length (cl_steps c)"
  shows "d \<in> set (st_deps (cl_steps c ! i)) \<Longrightarrow> d < i \<and> step_key c d \<in> set (pd_reads (st_declaration (cl_steps c ! i)))"
    and "j < length (cl_steps c) \<Longrightarrow> step_key c j \<in> set (pd_reads (st_declaration (cl_steps c ! i))) \<Longrightarrow>
      j \<in> set (st_deps (cl_steps c ! i)) \<or> same_recurrence scheduled c i j"
proof -
  from callable_new_parts [OF assms(1)] obtain es n positions where
    es: "try_fold plan_unit ([], [], 0) scheduled = Inr (es, cl_groups c, n)"
    and positions: "try_fold insert_step Map.empty (enumerate 0 es) = Inr positions"
    and len: "length (cl_steps c) = length es"
    and step: "\<And>i. i < length es \<Longrightarrow> st_declaration (cl_steps c ! i) = fst (es ! i) \<and>
       step_deps positions i (es ! i) = Inr (st_deps (cl_steps c ! i))" by metis
  note pos = conjunct2 [OF positions_of [OF positions]]
  note member = plan_units_placed [OF es]
  have i: "i < length es" using assms(2) len by simp
  note deps = step_deps_iff [OF conjunct2 [OF step [OF i]]]
  show "d \<in> set (st_deps (cl_steps c ! i)) \<Longrightarrow> d < i \<and> step_key c d \<in> set (pd_reads (st_declaration (cl_steps c ! i)))"
    using deps(1) [of d] deps(2) [of d] pos step i by (auto simp: step_key_def entry_key_of_def)
  assume j: "j < length (cl_steps c)" "step_key c j \<in> set (pd_reads (st_declaration (cl_steps c ! i)))"
  then have "positions (step_key c j) = Some (j, membership_of (es ! j))"
    using pos step len by (simp add: step_key_def entry_key_of_def)
  with j(2) deps(1) [of j] step i
  have "j \<in> set (st_deps (cl_steps c ! i)) \<or> (membership_of (es ! i) \<noteq> None \<and> membership_of (es ! j) = membership_of (es ! i))"
    by metis
  then show "j \<in> set (st_deps (cl_steps c ! i)) \<or> same_recurrence scheduled c i j"
  proof
    assume "membership_of (es ! i) \<noteq> None \<and> membership_of (es ! j) = membership_of (es ! i)"
    then obtain m where m: "membership_of (es ! i) = Some m" "membership_of (es ! j) = Some m" by auto
    have mem: "es ! i \<in> set es" "es ! j \<in> set es" using i j(1) len by simp_all
    with member m obtain plan members where "RecurrenceUnit plan members \<in> set scheduled"
      "fst (es ! i) \<in> set members" "fst (es ! j) \<in> set members"
      unfolding memberships_ok_def by metis
    with step i j(1) len have "same_recurrence scheduled c i j" unfolding same_recurrence_def by metis
    then show ?thesis by blast
  qed blast
qed

lemma group_membership:
  assumes "group_placed units es g G a members" "i < length members" "j < length members"
  shows "membership_of (es ! (a + i)) \<noteq> None \<and> membership_of (es ! (a + i)) = membership_of (es ! (a + j))"
proof -
  from assms(1) obtain m where "\<forall>i < length members. membership_of (es ! (a + i)) = Some m"
    unfolding group_placed_def by blast
  with assms(2,3) show ?thesis by simp
qed

lemma callable_groups:
  assumes "callable_new scheduled = Inr c" "G \<in> set (cl_groups c)"
  shows "group_ok c G \<and>
    RecurrenceUnit (pg_plan G) (map (\<lambda>m. st_declaration (cl_steps c ! mp_step m)) (pg_members G)) \<in> set scheduled"
proof -
  from callable_new_parts [OF assms(1)] obtain es n positions where
    es: "try_fold plan_unit ([], [], 0) scheduled = Inr (es, cl_groups c, n)"
    and positions: "try_fold insert_step Map.empty (enumerate 0 es) = Inr positions"
    and len: "length (cl_steps c) = length es"
    and step: "\<And>i. i < length es \<Longrightarrow> st_declaration (cl_steps c ! i) = fst (es ! i) \<and> st_body (cl_steps c ! i) = fst (snd (es ! i)) \<and>
       step_deps positions i (es ! i) = Inr (st_deps (cl_steps c ! i))" by metis
  note pos = conjunct2 [OF positions_of [OF positions]]
  from assms(2) obtain g where g: "g < length (cl_groups c)" "G = cl_groups c ! g" by (auto simp: in_set_conv_nth)
  with plan_units_placed [OF es] obtain a members where G: "group_placed (set scheduled) es g G a members"
    unfolding placed_def by blast
  have unit: "RecurrenceUnit (pg_plan G) members \<in> set scheduled" "members \<noteq> []" "a + length members \<le> length es"
    and steps: "map mp_step (pg_members G) = [a..<a + length members]"
    and planned: "list_all2 (planned_as (axis_len (pg_axis G))) members (pg_members G)"
    and entries: "\<And>i. i < length members \<Longrightarrow> fst (es ! (a + i)) = members ! i \<and> fst (snd (es ! (a + i))) = computed_body_of (members ! i)"
    and runs: "\<And>p. p < length es \<Longrightarrow> runnable_of (es ! p) = Some g \<longleftrightarrow> a \<le> p \<and> p < a + length members"
    using G unfolding group_placed_def by blast+
  have len_members: "length (pg_members G) = length members" using planned by (simp add: list_all2_lengthD)
  have mp: "mp_step (pg_members G ! i) = a + i" if "i < length members" for i
    using arg_cong [OF steps, of "\<lambda>l. l ! i"] that len_members by simp
  have image: "mp_step ` set (pg_members G) = {a..<a + length members}"
    using arg_cong [OF steps, of set] by simp
  have "mp_step m < length (cl_steps c) \<and>
      planned_as (axis_len (pg_axis G)) (st_declaration (cl_steps c ! mp_step m)) m \<and>
      st_body (cl_steps c ! mp_step m) = computed_body_of (st_declaration (cl_steps c ! mp_step m)) \<and>
      (\<forall>d \<in> set (st_deps (cl_steps c ! mp_step m)). d \<notin> mp_step ` set (pg_members G))"
    if m: "m \<in> set (pg_members G)" for m
  proof -
    from m len_members obtain i where i: "i < length members" "m = pg_members G ! i"
      by (auto simp: in_set_conv_nth)
    have at: "mp_step m = a + i" "a + i < length es" using i mp unit(3) by auto
    have "d \<notin> {a..<a + length members}" if d: "d \<in> set (st_deps (cl_steps c ! (a + i)))" for d
    proof
      assume "d \<in> {a..<a + length members}"
      then have "d - a < length members" "a + (d - a) = d" by auto
      with group_membership [OF G i(1), of "d - a"]
      have "membership_of (es ! (a + i)) \<noteq> None" "membership_of (es ! d) = membership_of (es ! (a + i))" by metis+
      moreover obtain read k where "positions read = Some (d, k)"
        "membership_of (es ! (a + i)) = None \<or> k \<noteq> membership_of (es ! (a + i))"
        using step_deps_iff(1) [of positions "a + i" "es ! (a + i)"] step [OF at(2)] d by blast
      ultimately show False using pos by auto
    qed
    with planned i at step [OF at(2)] entries [OF i(1)] len show ?thesis
      by (auto simp: image list_all2_conv_all_nth)
  qed
  moreover have "map (\<lambda>m. st_declaration (cl_steps c ! mp_step m)) (pg_members G) = members"
  proof (rule nth_equalityI)
    fix i assume "i < length (map (\<lambda>m. st_declaration (cl_steps c ! mp_step m)) (pg_members G))"
    then show "map (\<lambda>m. st_declaration (cl_steps c ! mp_step m)) (pg_members G) ! i = members ! i"
      using len_members mp step entries unit(3) by simp
  qed (simp add: len_members)
  ultimately show ?thesis using unit steps len_members by (auto simp: group_ok_def)
qed

lemma callable_new_sound:
  assumes "callable_new scheduled = Inr c"
  shows "callable_ok c \<and>
    (\<forall>i < length (cl_steps c). \<forall>j < length (cl_steps c).
       step_key c j \<in> set (pd_reads (st_declaration (cl_steps c ! i))) \<longrightarrow>
       j \<in> set (st_deps (cl_steps c ! i)) \<or> same_recurrence scheduled c i j) \<and>
    (\<forall>G \<in> set (cl_groups c).
       RecurrenceUnit (pg_plan G) (map (\<lambda>m. st_declaration (cl_steps c ! mp_step m)) (pg_members G)) \<in> set scheduled)"
proof -
  from callable_new_parts [OF assms] obtain es n positions where
    es: "try_fold plan_unit ([], [], 0) scheduled = Inr (es, cl_groups c, n)"
    and positions: "try_fold insert_step Map.empty (enumerate 0 es) = Inr positions"
    and len: "length (cl_steps c) = length es" and units: "cl_units c = units_upto es (length es)"
    and step: "\<And>i. i < length es \<Longrightarrow> st_declaration (cl_steps c ! i) = fst (es ! i)" by metis
  have "map (\<lambda>s. pd_key (st_declaration s)) (cl_steps c) = map entry_key_of es"
    using len step by (auto simp: list_eq_iff_nth_eq entry_key_of_def)
  then have distinct: "distinct (map (\<lambda>s. pd_key (st_declaration s)) (cl_steps c))"
    using positions_of [OF positions] by simp
  from plan_units_placed [OF es] have placed: "placed (set scheduled) es (cl_groups c)" by blast
  from units_cover [OF placed order_refl] obtain m where
    m: "concat (map (unit_steps (cl_groups c)) (cl_units c)) = [0..<m]"
    "if 0 < length es then case runnable_of (es ! (length es - 1)) of
          None \<Rightarrow> m = length es
        | Some g \<Rightarrow> \<exists>a members. group_placed (set scheduled) es g (cl_groups c ! g) a members \<and> m = a + length members
       else m = length es"
    and bound: "\<forall>g. GroupUnit g \<in> set (cl_units c) \<longrightarrow> g < length (cl_groups c)" unfolding units by blast
  have "m = length es"
  proof (cases "0 < length es \<and> runnable_of (es ! (length es - 1)) \<noteq> None")
    case True
    then obtain g a members where "runnable_of (es ! (length es - 1)) = Some g"
      "group_placed (set scheduled) es g (cl_groups c ! g) a members" "m = a + length members"
      using m(2) by auto
    then show ?thesis using True unfolding group_placed_def by auto
  qed (use m(2) in \<open>auto split: if_splits\<close>)
  with m(1) len distinct bound callable_deps [OF assms] callable_groups [OF assms]
  show ?thesis by (auto simp: callable_ok_def)
qed



section \<open>Concrete inputs\<close>

text \<open>A constant-free node, then a group of a \<open>for\<close> and an \<open>unfold\<close> that reads it.\<close>

definition sample_key :: "string \<Rightarrow> decl_key" where
  "sample_key name = ResolvedName (root_in_package ''p'' ''m'') name"

definition sample_declaration :: "string \<Rightarrow> (int, nat) scoped_node \<Rightarrow> string list \<Rightarrow> (int, nat) planned_declaration" where
  "sample_declaration name node reads =
     \<lparr>pd_key = sample_key name, pd_scope = 0, pd_body = ComputedB (ExpressionBody 0 (Inr node)),
      pd_reads = map sample_key reads, pd_domain = None\<rparr>"

definition sample_recurrence :: recurrence_plan where
  "sample_recurrence =
     [\<lparr>rm_declaration = sample_key ''y'', rm_shape = UnfoldShape, rm_reads = [\<lparr>gr_target = 1, gr_access = PreviousStep\<rparr>]\<rparr>,
      \<lparr>rm_declaration = sample_key ''x'', rm_shape = ForShape, rm_reads = [\<lparr>gr_target = 0, gr_access = SameStep\<rparr>]\<rparr>]"

definition sample_scheduled :: "(int, nat) planned_unit list" where
  "sample_scheduled =
     [DeclarationUnit (sample_declaration ''a'' (OtherNode 0) []),
      RecurrenceUnit sample_recurrence
        [sample_declaration ''y'' (UnfoldNode 0 (OtherNode 0) (OtherNode 1) sample_axis) [''x'', ''a''],
         sample_declaration ''x'' (ConvertNode (ForNode \<lparr>fb_local = 0, fb_axis = sample_axis\<rparr> [] (OtherNode 2)) 7) [''y'']]]"

lemma sample_callable:
  "\<exists>c. callable_new sample_scheduled = Inr c \<and> cl_units c = [StepUnit 0, GroupUnit 0] \<and>
     map st_deps (cl_steps c) = [[], [0], []] \<and> map pg_plan (cl_groups c) = [sample_recurrence] \<and>
     map pg_axis (cl_groups c) = [sample_axis]"
  by (simp add: callable_new_def sample_scheduled_def plan_unit_def sample_declaration_def plan_recurrence_def
      is_todo_def plan_member_def Let_def recurrence_body_of_def body_under_display_def run_as_group_def
      insert_step_def sample_key_def index_step_def step_deps_def outside_reads_def List.map_filter_def push_unit_def)

fun body_shape :: "('f, 'x) recurrence_body \<Rightarrow> recurrence_shape" where
  "body_shape (ForBody _ _ _) = ForShape"
| "body_shape (UnfoldBody _ _ _ _) = UnfoldShape"

lemma sample_parts:
  "\<exists>c. callable_new sample_scheduled = Inr c \<and> map pg_plan (cl_groups c) = [sample_recurrence] \<and>
     map pg_axis (cl_groups c) = [sample_axis] \<and>
     map (\<lambda>G. map (\<lambda>m. body_shape (mp_body m)) (pg_members G)) (cl_groups c) = [[UnfoldShape, ForShape]] \<and>
     map st_body (cl_steps c) =
       [ExpressionBody 0 (Inr (OtherNode 0)),
        ExpressionBody 0 (Inr (UnfoldNode 0 (OtherNode 0) (OtherNode 1) sample_axis)),
        ExpressionBody 0 (Inr (ConvertNode (ForNode \<lparr>fb_local = 0, fb_axis = sample_axis\<rparr> [] (OtherNode 2)) 7))]"
  by (simp add: callable_new_def sample_scheduled_def plan_unit_def sample_declaration_def plan_recurrence_def
      is_todo_def plan_member_def Let_def recurrence_body_of_def body_under_display_def run_as_group_def
      insert_step_def sample_key_def index_step_def step_deps_def outside_reads_def List.map_filter_def push_unit_def)


end
