(* ===== verification/Node_Unavailable.thy ===== *)
theory Node_Unavailable
  imports Dag_Id
begin

text \<open>
  Why a declaration has no value (\<open>graphcal-compiler/src/node_unavailable.rs\<close>): reasons, what they
  name, their text, and the reason a declaration gets from its unavailable dependencies.
\<close>

section \<open>Why a declaration has no value\<close>

datatype 'k unavailable =
    EvalFailed string
  | DependencyFailed "'k list"
  | TodoReason 'k
  | BlockedReason "'k list" "'k list"

type_synonym reason = "resolved_name unavailable"

fun has_failure :: "'k unavailable \<Rightarrow> bool" where
  "has_failure (EvalFailed _) = True"
| "has_failure (DependencyFailed _) = True"
| "has_failure (TodoReason _) = False"
| "has_failure (BlockedReason _ failed_deps) = (failed_deps \<noteq> [])"

fun unfinished :: "'k unavailable \<Rightarrow> 'k list" where
  "unfinished (TodoReason declaration) = [declaration]"
| "unfinished (BlockedReason declarations _) = declarations"
| "unfinished _ = []"

definition is_incomplete :: "'k unavailable \<Rightarrow> bool" where
  "is_incomplete r = (unfinished r \<noteq> [])"

fun map_names :: "('k \<Rightarrow> 'm) \<Rightarrow> 'k unavailable \<Rightarrow> 'm unavailable" where
  "map_names rename (EvalFailed message) = EvalFailed message"
| "map_names rename (DependencyFailed failed_deps) = DependencyFailed (map rename failed_deps)"
| "map_names rename (TodoReason declaration) = TodoReason (rename declaration)"
| "map_names rename (BlockedReason declarations failed_deps) =
     BlockedReason (map rename declarations) (map rename failed_deps)"

text \<open>\<open>collect::<BTreeSet<_>>().into_iter().collect::<Vec<_>>()\<close> is the sorted list of the set.\<close>

definition blocked_by :: "('k::linorder \<times> 'k unavailable) list \<Rightarrow> 'k unavailable option" where
  "blocked_by dependencies =
     (let declarations = sorted_list_of_set (set (concat (map (\<lambda>(_, reason). unfinished reason) dependencies)));
          failed_deps = sorted_list_of_set (fst ` set (filter (\<lambda>(_, reason). has_failure reason) dependencies))
      in if declarations \<noteq> [] then Some (BlockedReason declarations failed_deps)
         else if failed_deps \<noteq> [] then Some (DependencyFailed failed_deps)
         else None)"

text \<open>Reasons as text; a declaration is shown by a function. The dash is a character of three bytes.\<close>

definition dash :: string where
  "dash = [CHR 0xE2, CHR 0x80, CHR 0x94]"

definition names_text :: "('k \<Rightarrow> string) \<Rightarrow> 'k list \<Rightarrow> string" where
  "names_text show_name declarations = join '', '' (map show_name declarations)"

fun reason_text :: "('k \<Rightarrow> string) \<Rightarrow> 'k unavailable \<Rightarrow> string" where
  "reason_text show_name (EvalFailed message) = message"
| "reason_text show_name (DependencyFailed failed_deps) = ''dependency failed: '' @ names_text show_name failed_deps"
| "reason_text show_name (TodoReason _) = ''TODO '' @ dash @ '' formula unfinished''"
| "reason_text show_name (BlockedReason declarations failed_deps) =
     ''BLOCKED '' @ dash @ '' unfinished dependencies: '' @ names_text show_name declarations @
     (if failed_deps \<noteq> [] then ''; dependency failed: '' @ names_text show_name failed_deps else [])"

fun summary_text :: "'k unavailable \<Rightarrow> string" where
  "summary_text (EvalFailed message) = message"
| "summary_text (DependencyFailed _) = ''dependency failed''"
| "summary_text (TodoReason _) = ''TODO '' @ dash @ '' formula unfinished''"
| "summary_text (BlockedReason _ failed_deps) =
     ''BLOCKED '' @ dash @ '' unfinished dependencies'' @ (if failed_deps \<noteq> [] then ''; dependency failed'' else [])"

section \<open>Reasons\<close>

text \<open>The lists of declarations that the code keeps as \<open>NonEmpty\<close>.\<close>

fun reason_ok :: "'k unavailable \<Rightarrow> bool" where
  "reason_ok (DependencyFailed failed_deps) = (failed_deps \<noteq> [])"
| "reason_ok (BlockedReason declarations _) = (declarations \<noteq> [])"
| "reason_ok _ = True"

lemma reason_ok_iff: "reason_ok r \<Longrightarrow> has_failure r \<or> unfinished r \<noteq> []"
  by (cases r) auto

lemma sorted_set_Nil_iff: "sorted_list_of_set (set xs) = [] \<longleftrightarrow> xs = []"
  by (simp add: sorted_list_of_set_eq_Nil_iff)

lemma blocked_by_cases:
  "blocked_by ds =
     (if concat (map (\<lambda>(_, reason). unfinished reason) ds) \<noteq> []
      then Some (BlockedReason (sorted_list_of_set (set (concat (map (\<lambda>(_, reason). unfinished reason) ds))))
        (sorted_list_of_set (set (map fst (filter (\<lambda>(_, reason). has_failure reason) ds)))))
      else if filter (\<lambda>(_, reason). has_failure reason) ds \<noteq> []
      then Some (DependencyFailed (sorted_list_of_set (set (map fst (filter (\<lambda>(_, reason). has_failure reason) ds)))))
      else None)"
  unfolding blocked_by_def Let_def set_map [symmetric] sorted_set_Nil_iff map_is_Nil_conv by (rule refl)

lemma blocked_by_None:
  assumes "\<And>k r. (k, r) \<in> set ds \<Longrightarrow> reason_ok r"
  shows "blocked_by ds = None \<longleftrightarrow> ds = []"
proof
  assume "blocked_by ds = None"
  then have none: "concat (map (\<lambda>(_, reason). unfinished reason) ds) = []"
      "filter (\<lambda>(_, reason). has_failure reason) ds = []"
    unfolding blocked_by_cases by (simp_all split: if_splits del: concat_eq_Nil_conv filter_empty_conv)
  have "(k, r) \<notin> set ds" for k r
  proof
    assume kr: "(k, r) \<in> set ds"
    then have "unfinished r = []" "\<not> has_failure r"
      using none unfolding concat_eq_Nil_conv filter_empty_conv by auto
    with assms [OF kr] reason_ok_iff show False by blast
  qed
  then show "ds = []" by (cases ds) auto
qed (simp add: blocked_by_def)

lemma blocked_by_ok: "blocked_by ds = Some r \<Longrightarrow> reason_ok r"
  unfolding blocked_by_cases
  by (auto simp: sorted_set_Nil_iff split: if_splits simp del: set_map set_concat concat_eq_Nil_conv)

text \<open>What \<open>blocked_by\<close> reports: the unfinished origins of all dependencies, and a failure when a
  dependency failed.\<close>

lemma blocked_by_content:
  assumes "blocked_by ds = Some r"
  shows "set (unfinished r) = (\<Union>(k, q) \<in> set ds. set (unfinished q)) \<and>
    (has_failure r \<longleftrightarrow> (\<exists>(k, q) \<in> set ds. has_failure q))"
proof -
  have "set (unfinished r) = set (concat (map (\<lambda>(_, reason). unfinished reason) ds)) \<and>
      (has_failure r \<longleftrightarrow> filter (\<lambda>(_, reason). has_failure reason) ds \<noteq> [])"
    using assms unfolding blocked_by_cases
    by (auto simp: sorted_set_Nil_iff split: if_splits simp del: set_map set_concat concat_eq_Nil_conv filter_empty_conv)
  then show ?thesis by (auto simp: filter_empty_conv)
qed

text \<open>Renaming keeps the kind of a reason and renames what it names.\<close>

lemma map_names_keeps:
  "unfinished (map_names rename r) = map rename (unfinished r)"
  "has_failure (map_names rename r) \<longleftrightarrow> has_failure r"
  "is_incomplete (map_names rename r) \<longleftrightarrow> is_incomplete r"
  "reason_ok (map_names rename r) \<longleftrightarrow> reason_ok r"
  "summary_text (map_names rename r) = summary_text r"
  "reason_text show_name (map_names rename r) = reason_text (show_name \<circ> rename) r"
  by (cases r; simp add: is_incomplete_def names_text_def)+

text \<open>Deriving a reason from renamed dependencies: origins and failures are the same, since an
  injective renaming keeps the sets.\<close>

lemma blocked_by_set:
  assumes "set ds = set ds'"
  shows "blocked_by ds = blocked_by ds'"
  using assms by (simp add: blocked_by_def Let_def)

end
