(* ===== verification/Schedule.thy ===== *)
theory Schedule
  imports Dep_Graph Recurrence_Group
begin

text \<open>
  Evaluation schedules (\<open>graphcal-compiler/src/tir/schedule.rs\<close>): the order of the constants of a
  file's DAGs, and the schedule units of a callable with its closure of instances. Declarations are
  identified by their resolved names; the site a cycle is reported at is looked up among the
  scheduled declarations.
\<close>

section \<open>Scheduled declarations\<close>

text \<open>\<open>into_iter().flatten()\<close> of an optional collection.\<close>

definition flat_option :: "'a list option \<Rightarrow> 'a list" where
  "flat_option xs = (case xs of Some xs \<Rightarrow> xs | None \<Rightarrow> [])"

lemma in_flat_option: "y \<in> set (flat_option d) \<longleftrightarrow> (\<exists>xs. d = Some xs \<and> y \<in> set xs)"
  by (cases d) (simp_all add: flat_option_def)

record 's scheduled_decl =
  sd_identity :: resolved_name
  sd_name :: string
  sd_span :: 's

text \<open>The declaration with an identity: graphs are keyed by identity alone and keep the declaration
  that was added first.\<close>

definition site_of :: "'s scheduled_decl list \<Rightarrow> resolved_name \<Rightarrow> 's scheduled_decl" where
  "site_of nodes k = the (find (\<lambda>node. sd_identity node = k) nodes)"

text \<open>A graph with the given nodes, and the edges among them.\<close>

definition graph_of :: "'k list \<Rightarrow> ('k \<times> 'k) list \<Rightarrow> ('k, unit) dep_graph" where
  "graph_of nodes edges =
     foldl (\<lambda>g (a, b). snd (add_labelled_dependency_between g a b ())) (foldl add_node graph_new nodes) edges"

section \<open>Constants\<close>

text \<open>The constants of a DAG in source order and what each reads.\<close>

record 's const_dag =
  cd_id :: dag_id
  cd_consts :: "'s scheduled_decl list"
  cd_deps :: "resolved_name \<Rightarrow> resolved_name list option"

record const_schedule =
  cs_dags :: "nat list"
  cs_order :: "resolved_name list"

definition const_edges :: "'s const_dag \<Rightarrow> (resolved_name \<times> resolved_name) list" where
  "const_edges dag =
     concat (map (\<lambda>entry. map (Pair (sd_identity entry)) (flat_option (cd_deps dag (sd_identity entry))))
       (cd_consts dag))"

definition const_schedule_build ::
  "(nat \<times> 's const_dag) list \<Rightarrow> (const_schedule, ('s scheduled_decl, unit) cycle) result" where
  "const_schedule_build dags =
     (let dags = sort_key (\<lambda>(_, dag). cd_id dag) dags;
          nodes = concat (map (\<lambda>(_, dag). cd_consts dag) dags);
          edges = concat (map (\<lambda>(_, dag). const_edges dag) dags)
      in res_map (\<lambda>order. \<lparr>cs_dags = map fst dags, cs_order = order\<rparr>)
           (map_err (cycle_map (site_of nodes)) (into_topo_order (graph_of (map sd_identity nodes) edges))))"

section \<open>Graphs from lists\<close>

lemma foldl_add_node:
  assumes "graph_ok g"
  shows "graph_ok (foldl add_node g ks) \<and> set (g_keys (foldl add_node g ks)) = set ks \<union> set (g_keys g) \<and>
    (depends (foldl add_node g ks) x y \<longleftrightarrow> depends g x y)"
  using assms
proof (induction ks arbitrary: g)
  case (Cons k ks)
  note step = add_node_ok [OF Cons.prems, of k]
  from Cons.IH [OF step(1)] step(2,3) show ?case by auto
qed simp

lemma foldl_add_edges:
  fixes g :: "('k, unit) dep_graph"
  assumes "graph_ok g"
  defines "add \<equiv> \<lambda>(g :: ('k, unit) dep_graph) (a, b). snd (add_labelled_dependency_between g a b ())"
  shows "graph_ok (foldl add g es) \<and> g_keys (foldl add g es) = g_keys g \<and>
    (depends (foldl add g es) x y \<longleftrightarrow> depends g x y \<or> (x, y) \<in> set es \<and> x \<in> set (g_keys g) \<and> y \<in> set (g_keys g))"
  using assms(1)
proof (induction es arbitrary: g)
  case (Cons e es)
  obtain a b where e: "e = (a, b)" by (cases e)
  obtain r g' where g': "add_labelled_dependency_between g a b () = (r, g')" by (cases "add_labelled_dependency_between g a b ()")
  note step = add_labelled_dependency_between_ok [OF Cons.prems g']
  have "add g e = g'" by (simp add: add_def e g')
  moreover have "depends g' x y \<longleftrightarrow> depends g x y \<or> r \<and> x = a \<and> y = b" by (rule step(4))
  ultimately show ?case using Cons.IH [OF step(1)] step(2,3) by (auto simp: e)
qed simp

lemma graph_of_ok:
  "graph_ok (graph_of nodes edges)"
  "set (g_keys (graph_of nodes edges)) = set nodes"
  "depends (graph_of nodes edges) x y \<longleftrightarrow> (x, y) \<in> set edges \<and> x \<in> set nodes \<and> y \<in> set nodes"
proof -
  let ?g = "foldl add_node (graph_new :: ('a, unit) dep_graph) nodes"
  have none: "\<not> depends (graph_new :: ('a, unit) dep_graph) x y" by (simp add: depends_def graph_new_def)
  have "g_keys (graph_new :: ('a, unit) dep_graph) = []" by (simp add: graph_new_def)
  then have g: "graph_ok ?g" "set (g_keys ?g) = set nodes" "\<not> depends ?g x y"
    using foldl_add_node [OF graph_ok_new, where 'b = unit and ks = nodes and x = x and y = y] none by auto
  from foldl_add_edges [OF g(1), of edges x y] g(2,3)
  show "graph_ok (graph_of nodes edges)" "set (g_keys (graph_of nodes edges)) = set nodes"
    "depends (graph_of nodes edges) x y \<longleftrightarrow> (x, y) \<in> set edges \<and> x \<in> set nodes \<and> y \<in> set nodes"
    unfolding graph_of_def by auto
qed

lemma topo_order_of:
  "into_topo_order (graph_of nodes edges) = Inr xs \<Longrightarrow>
    topo_ordered (\<lambda>x y. (x, y) \<in> set edges \<and> x \<in> set nodes \<and> y \<in> set nodes) (set nodes) xs"
proof -
  assume order: "into_topo_order (graph_of nodes edges) = Inr xs"
  have dep: "depends (graph_of nodes edges) = (\<lambda>x y. (x, y) \<in> set edges \<and> x \<in> set nodes \<and> y \<in> set nodes)"
    by (intro ext) (rule graph_of_ok(3))
  from kahn.order_sound [OF graph_of_ok(1) order] show ?thesis unfolding dep graph_of_ok(2) .
qed

section \<open>The order of the constants\<close>

definition const_keys :: "(nat \<times> 's const_dag) list \<Rightarrow> resolved_name set" where
  "const_keys dags = (\<Union>(p, dag) \<in> set dags. sd_identity ` set (cd_consts dag))"

definition const_reads :: "(nat \<times> 's const_dag) list \<Rightarrow> resolved_name \<Rightarrow> resolved_name \<Rightarrow> bool" where
  "const_reads dags x y \<longleftrightarrow>
     (\<exists>(p, dag) \<in> set dags. \<exists>entry \<in> set (cd_consts dag). sd_identity entry = x \<and>
        (\<exists>deps. cd_deps dag x = Some deps \<and> y \<in> set deps)) \<and> y \<in> const_keys dags"

lemma const_schedule_sound:
  assumes "const_schedule_build dags = Inr schedule"
  shows "topo_ordered (const_reads dags) (const_keys dags) (cs_order schedule) \<and>
    mset (cs_dags schedule) = mset (map fst dags)"
proof -
  let ?dags = "sort_key (\<lambda>(_, dag). cd_id dag) dags"
  let ?nodes = "concat (map (\<lambda>(_, dag). cd_consts dag) ?dags)" and ?edges = "concat (map (\<lambda>(_, dag). const_edges dag) ?dags)"
  from assms have order: "into_topo_order (graph_of (map sd_identity ?nodes) ?edges) = Inr (cs_order schedule)"
    and dags: "cs_dags schedule = map fst ?dags"
    by (auto simp: const_schedule_build_def Let_def result_iffs)
  have nodes: "set (map sd_identity ?nodes) = const_keys dags"
    by (auto simp: const_keys_def)
  have edge: "(x, y) \<in> set (const_edges dag) \<longleftrightarrow>
      (\<exists>entry \<in> set (cd_consts dag). sd_identity entry = x \<and> (\<exists>deps. cd_deps dag x = Some deps \<and> y \<in> set deps))" for x y dag
    by (simp add: const_edges_def image_iff in_flat_option) blast
  have reads: "const_reads dags x y \<longleftrightarrow> (x, y) \<in> set ?edges \<and> y \<in> const_keys dags" for x y
    by (simp add: const_reads_def edge split_beta)
  have "x \<in> const_keys dags" if "const_reads dags x y" for x y
    using that unfolding const_reads_def const_keys_def by blast
  then have edges: "(x, y) \<in> set ?edges \<and> x \<in> set (map sd_identity ?nodes) \<and> y \<in> set (map sd_identity ?nodes) \<longleftrightarrow> const_reads dags x y" for x y
    unfolding nodes using reads by blast
  have fun_eq: "(\<lambda>x y. (x, y) \<in> set ?edges \<and> x \<in> set (map sd_identity ?nodes) \<and> y \<in> set (map sd_identity ?nodes)) =
      const_reads dags" by (intro ext) (rule edges)
  from topo_order_of [OF order] have "topo_ordered (const_reads dags) (const_keys dags) (cs_order schedule)"
    unfolding fun_eq unfolding nodes .
  moreover have "mset (map fst ?dags) = mset (map fst dags)" unfolding mset_map mset_sort ..
  ultimately show ?thesis by (simp add: dags)
qed

end
