(* ===== verification/Constant_Pools.thy ===== *)
theory Constant_Pools
  imports Node_Unavailable Schedule
begin

text \<open>
  Constant pools (\<open>graphcal-eval/src/constant_pools.rs\<close>): the evaluated constants of every DAG of a
  checked program, and why an unfinished constant has no value. The evaluation of one constant is an
  argument that threads a world, so that its calls and their order stay visible.
\<close>

section \<open>Unfinished constants\<close>

datatype unfinished_constant = TodoConstant | BlockedConstant "resolved_name list"

fun origins :: "unfinished_constant \<Rightarrow> resolved_name \<Rightarrow> resolved_name list" where
  "origins TodoConstant key = [key]"
| "origins (BlockedConstant us) key = us"

fun constant_reason :: "unfinished_constant \<Rightarrow> resolved_name \<Rightarrow> reason" where
  "constant_reason TodoConstant key = TodoReason key"
| "constant_reason (BlockedConstant us) key = BlockedReason us []"

section \<open>Pools\<close>

datatype 'x formula_body = FormulaBody 'x | UnfinishedBody 'x

datatype 'x body_kind =
    ConstBody "'x formula_body"
  | ParamBody "'x option"
  | NodeBody "'x formula_body"
  | AssertBody 'x
  | PlotBody 'x
  | FigureBody 'x
  | LayerBody 'x

text \<open>The checked program: its DAGs in registry order, the body of a declaration, and the constants a
  constant reads in the DAG that contains it.\<close>

record 'x const_tir =
  ct_dags :: "dag_id list"
  ct_body :: "resolved_name \<Rightarrow> 'x body_kind option"
  ct_deps :: "resolved_name \<Rightarrow> resolved_name list option"

type_synonym 'v value_map = "resolved_name \<Rightarrow> 'v option"

record 'v const_pool =
  cp_by_dag :: "dag_id \<Rightarrow> 'v value_map option"
  cp_unfinished :: "resolved_name \<Rightarrow> unfinished_constant option"

datatype constant_pool_error =
    UncoveredDag dag_id
  | RescheduledDag dag_id
  | MissingDeclaration resolved_name

datatype 'e pool_build_error = EvaluationError 'e | InvalidPool constant_pool_error

definition blocked_constant ::
  "'x const_tir \<Rightarrow> resolved_name \<Rightarrow> (resolved_name \<Rightarrow> unfinished_constant option) \<Rightarrow> unfinished_constant option" where
  "blocked_constant tir key holes =
     (let us = sorted_list_of_set (set (concat (List.map_filter
          (\<lambda>dependency. map_option (\<lambda>reason. origins reason dependency) (holes dependency))
          (flat_option (ct_deps tir key)))))
      in if us \<noteq> [] then Some (BlockedConstant us) else None)"

text \<open>Every DAG is either scheduled or inherited: the inherited pools, and the DAGs with a fresh one.\<close>

definition cover_dag ::
  "nat list \<Rightarrow> 'v const_pool \<Rightarrow> (dag_id \<Rightarrow> 'v value_map option) \<times> (dag_id \<Rightarrow> 'v value_map option) \<Rightarrow> nat \<times> dag_id \<Rightarrow>
   ((dag_id \<Rightarrow> 'v value_map option) \<times> (dag_id \<Rightarrow> 'v value_map option), constant_pool_error) result" where
  "cover_dag scheduled inherited s p =
     (case s of (by_dag, fresh) \<Rightarrow> case p of (pos, dag) \<Rightarrow>
        (case (pos \<in> set scheduled, cp_by_dag inherited dag) of
           (True, None) \<Rightarrow> Inr (by_dag, fresh(dag \<mapsto> Map.empty))
         | (False, Some pool) \<Rightarrow> Inr (by_dag(dag \<mapsto> pool), fresh)
         | (True, Some _) \<Rightarrow> Inl (RescheduledDag dag)
         | (False, None) \<Rightarrow> Inl (UncoveredDag dag)))"

text \<open>The state of the evaluation: fresh pools, everything visible, unfinished constants, the world.\<close>

type_synonym ('v, 'w) pool_state =
  "(dag_id \<Rightarrow> 'v value_map option) \<times> 'v value_map \<times> (resolved_name \<Rightarrow> unfinished_constant option) \<times> 'w"

definition evaluate_constant ::
  "'x const_tir \<Rightarrow> (resolved_name \<Rightarrow> 'x \<Rightarrow> 'v value_map \<Rightarrow> 'w \<Rightarrow> ('v, 'e) result \<times> 'w) \<Rightarrow> ('v, 'w) pool_state \<Rightarrow>
   resolved_name \<Rightarrow> (('v, 'w) pool_state, 'e pool_build_error) result" where
  "evaluate_constant tir evaluate s key =
     (case s of (fresh, visible, holes, w) \<Rightarrow>
        (case (ct_body tir key, fresh (rn_owner key)) of
           (Some (ConstBody (UnfinishedBody _)), Some pool) \<Rightarrow>
             Inr (fresh, visible, holes(key \<mapsto> TodoConstant), w)
         | (Some (ConstBody (FormulaBody expression)), Some pool) \<Rightarrow>
             (case blocked_constant tir key holes of
                Some blocked \<Rightarrow> Inr (fresh, visible, holes(key \<mapsto> blocked), w)
              | None \<Rightarrow>
                  (case evaluate key expression visible w of
                     (Inl e, _) \<Rightarrow> Inl (EvaluationError e)
                   | (Inr v, w) \<Rightarrow>
                       Inr (fresh(rn_owner key \<mapsto> pool(key \<mapsto> v)), visible(key \<mapsto> v), holes, w)))
         | _ \<Rightarrow> Inl (InvalidPool (MissingDeclaration key))))"

definition pool_build ::
  "'x const_tir \<Rightarrow> const_schedule \<Rightarrow> (resolved_name \<Rightarrow> 'x \<Rightarrow> 'v value_map \<Rightarrow> 'w \<Rightarrow> ('v, 'e) result \<times> 'w) \<Rightarrow>
   'v const_pool \<Rightarrow> 'w \<Rightarrow> (('v const_pool \<times> 'v value_map list) \<times> 'w, 'e pool_build_error) result" where
  "pool_build tir schedule evaluate inherited w =
     res_bind (map_err InvalidPool
         (try_fold (cover_dag (cs_dags schedule) inherited) (Map.empty, Map.empty) (enumerate 0 (ct_dags tir))))
       (\<lambda>(by_dag, fresh).
          let visible = foldl (\<lambda>m dag. case by_dag dag of Some pool \<Rightarrow> m ++ pool | None \<Rightarrow> m) Map.empty (ct_dags tir)
          in res_map (\<lambda>(fresh, visible, holes, w).
                 ((\<lparr>cp_by_dag = by_dag ++ fresh, cp_unfinished = holes\<rparr>,
                   map (\<lambda>dag. the ((by_dag ++ fresh) dag)) (ct_dags tir)), w))
               (try_fold (evaluate_constant tir evaluate) (fresh, visible, cp_unfinished inherited, w)
                 (cs_order schedule)))"

section \<open>References\<close>

datatype 'v reference_target = ValueTarget "'v value_map" | UnfinishedTarget unfinished_constant

record 'v constant_reference =
  cref_key :: resolved_name
  cref_target :: "'v reference_target"

definition pool_reference :: "'v const_pool \<Rightarrow> resolved_name \<Rightarrow> 'v constant_reference option" where
  "pool_reference P key =
     Option.bind (cp_by_dag P (rn_owner key)) (\<lambda>pool.
       if pool key \<noteq> None then Some \<lparr>cref_key = key, cref_target = ValueTarget pool\<rparr>
       else map_option (\<lambda>u. \<lparr>cref_key = key, cref_target = UnfinishedTarget u\<rparr>) (cp_unfinished P key))"

text \<open>Indexing a pool without the key would panic; references resolve by construction.\<close>

definition reference_value :: "'v constant_reference \<Rightarrow> ('v, unfinished_constant) result" where
  "reference_value r =
     (case cref_target r of
        ValueTarget pool \<Rightarrow> Inr (the (pool (cref_key r)))
      | UnfinishedTarget u \<Rightarrow> Inl u)"

section \<open>What a pool promises\<close>

definition pool_value :: "'v const_pool \<Rightarrow> resolved_name \<Rightarrow> 'v option" where
  "pool_value P k = Option.bind (cp_by_dag P (rn_owner k)) (\<lambda>pool. pool k)"

text \<open>Pools hold their own constants; what blocks a constant is unfinished by itself.\<close>

definition pool_ok :: "'v const_pool \<Rightarrow> bool" where
  "pool_ok P \<longleftrightarrow>
     (\<forall>dag pool k. cp_by_dag P dag = Some pool \<and> pool k \<noteq> None \<longrightarrow> rn_owner k = dag) \<and>
     (\<forall>k. pool_value P k \<noteq> None \<longrightarrow> cp_unfinished P k = None) \<and>
     (\<forall>k us. cp_unfinished P k = Some (BlockedConstant us) \<longrightarrow>
        us \<noteq> [] \<and> sorted_wrt (<) us \<and> (\<forall>u \<in> set us. cp_unfinished P u = Some TodoConstant))"

text \<open>Why a scheduled constant is unfinished, given why the constants it reads are.\<close>

definition constant_status ::
  "'x const_tir \<Rightarrow> (resolved_name \<Rightarrow> unfinished_constant option) \<Rightarrow> resolved_name \<Rightarrow> unfinished_constant option" where
  "constant_status tir holes k =
     (case ct_body tir k of
        Some (ConstBody (UnfinishedBody _)) \<Rightarrow> Some TodoConstant
      | _ \<Rightarrow> blocked_constant tir k holes)"

text \<open>The constants are ordered after the constants of the order that they read.\<close>

definition schedule_ordered :: "'x const_tir \<Rightarrow> resolved_name list \<Rightarrow> bool" where
  "schedule_ordered tir order \<longleftrightarrow> distinct order \<and>
     (\<forall>i < length order. \<forall>d \<in> set (flat_option (ct_deps tir (order ! i))). d \<in> set order \<longrightarrow> d \<in> set (take i order))"

lemma blocked_constant_cong:
  "(\<And>d. d \<in> set (flat_option (ct_deps tir k)) \<Longrightarrow> holes d = holes' d) \<Longrightarrow>
    blocked_constant tir k holes = blocked_constant tir k holes'"
proof -
  assume same: "\<And>d. d \<in> set (flat_option (ct_deps tir k)) \<Longrightarrow> holes d = holes' d"
  have "set (List.map_filter (\<lambda>d. map_option (\<lambda>reason. origins reason d) (holes d)) (flat_option (ct_deps tir k))) =
      set (List.map_filter (\<lambda>d. map_option (\<lambda>reason. origins reason d) (holes' d)) (flat_option (ct_deps tir k)))"
    using same by (fastforce simp: List.map_filter_def image_iff)
  then show ?thesis by (simp add: blocked_constant_def)
qed

lemma blocked_constant_iff:
  assumes "\<forall>d us. holes d = Some (BlockedConstant us) \<longrightarrow> us \<noteq> []"
  shows "blocked_constant tir k holes = None \<longleftrightarrow> (\<forall>d \<in> set (flat_option (ct_deps tir k)). holes d = None)"
    "blocked_constant tir k holes = Some b \<Longrightarrow>
      \<exists>us. b = BlockedConstant us \<and> us \<noteq> [] \<and> sorted_wrt (<) us \<and>
        set us = (\<Union>d \<in> {d \<in> set (flat_option (ct_deps tir k)). holes d \<noteq> None}. set (origins (the (holes d)) d))"
proof -
  let ?deps = "flat_option (ct_deps tir k)"
  let ?all = "set (concat (List.map_filter (\<lambda>d. map_option (\<lambda>reason. origins reason d) (holes d)) ?deps))"
  have all: "?all = (\<Union>d \<in> {d \<in> set ?deps. holes d \<noteq> None}. set (origins (the (holes d)) d))"
    by (force simp: List.map_filter_def)
  have "set (origins u d) \<noteq> {}" if "holes d = Some u" for u d
    using assms that by (cases u) auto
  then have "?all = {} \<longleftrightarrow> (\<forall>d \<in> set ?deps. holes d = None)" unfolding all by force
  moreover have "sorted_list_of_set ?all = [] \<longleftrightarrow> ?all = {}" by (simp add: sorted_list_of_set_eq_Nil_iff)
  ultimately show "blocked_constant tir k holes = None \<longleftrightarrow> (\<forall>d \<in> set ?deps. holes d = None)"
    by (simp add: blocked_constant_def Let_def)
  show "\<exists>us. b = BlockedConstant us \<and> us \<noteq> [] \<and> sorted_wrt (<) us \<and>
        set us = (\<Union>d \<in> {d \<in> set ?deps. holes d \<noteq> None}. set (origins (the (holes d)) d))"
    if "blocked_constant tir k holes = Some b"
    using that unfolding all [symmetric]
    by (auto simp: blocked_constant_def Let_def strict_sorted_list_of_set split: if_splits simp del: set_concat)
qed


section \<open>Evaluating the constants in order\<close>

definition fresh_value :: "(dag_id \<Rightarrow> 'v value_map option) \<Rightarrow> resolved_name \<Rightarrow> 'v option" where
  "fresh_value fresh k = Option.bind (fresh (rn_owner k)) (\<lambda>pool. pool k)"

abbreviation reads_of :: "'x const_tir \<Rightarrow> resolved_name \<Rightarrow> resolved_name set" where
  "reads_of tir k \<equiv> set (flat_option (ct_deps tir k))"

definition blocks_ok :: "(resolved_name \<Rightarrow> unfinished_constant option) \<Rightarrow> bool" where
  "blocks_ok holes \<longleftrightarrow>
     (\<forall>k us. holes k = Some (BlockedConstant us) \<longrightarrow>
        us \<noteq> [] \<and> sorted_wrt (<) us \<and> (\<forall>u \<in> set us. holes u = Some TodoConstant))"

text \<open>A constant got its value from its formula, when everything it reads was finished and visible.\<close>

definition evaluated_from ::
  "'x const_tir \<Rightarrow> (resolved_name \<Rightarrow> 'x \<Rightarrow> 'v value_map \<Rightarrow> 'w \<Rightarrow> ('v, 'e) result \<times> 'w) \<Rightarrow> 'v value_map \<Rightarrow>
   (resolved_name \<Rightarrow> unfinished_constant option) \<Rightarrow> resolved_name \<Rightarrow> 'v \<Rightarrow> bool" where
  "evaluated_from tir evaluate visible holes k v \<longleftrightarrow>
     (\<exists>e seen w w'. ct_body tir k = Some (ConstBody (FormulaBody e)) \<and> evaluate k e seen w = (Inr v, w') \<and>
        (\<forall>d \<in> reads_of tir k. holes d = None \<and> seen d = visible d))"

definition constants_inv ::
  "'x const_tir \<Rightarrow> (resolved_name \<Rightarrow> 'x \<Rightarrow> 'v value_map \<Rightarrow> 'w \<Rightarrow> ('v, 'e) result \<times> 'w) \<Rightarrow>
   (dag_id \<Rightarrow> 'v value_map option) \<Rightarrow> 'v value_map \<Rightarrow> (resolved_name \<Rightarrow> unfinished_constant option) \<Rightarrow>
   resolved_name list \<Rightarrow> ('v, 'w) pool_state \<Rightarrow> bool" where
  "constants_inv tir evaluate fresh0 visible0 holes0 pre s \<longleftrightarrow>
     (case s of (fresh, visible, holes, w) \<Rightarrow>
        (\<forall>dag. fresh dag \<noteq> None \<longleftrightarrow> fresh0 dag \<noteq> None) \<and>
        (\<forall>dag pool k. fresh dag = Some pool \<and> pool k \<noteq> None \<longrightarrow> rn_owner k = dag \<and> k \<in> set pre) \<and>
        (\<forall>k. visible k = (if k \<in> set pre then fresh_value fresh k else visible0 k)) \<and>
        (\<forall>k. k \<notin> set pre \<longrightarrow> holes k = holes0 k) \<and> blocks_ok holes \<and>
        (\<forall>k \<in> set pre. fresh (rn_owner k) \<noteq> None \<and> holes k = constant_status tir holes k \<and>
           (fresh_value fresh k \<noteq> None \<longleftrightarrow> holes k = None) \<and>
           (\<forall>v. fresh_value fresh k = Some v \<longrightarrow> evaluated_from tir evaluate visible holes k v)))"

lemma constant_status_cong:
  "(\<And>d. d \<in> reads_of tir k \<Longrightarrow> holes d = holes' d) \<Longrightarrow> constant_status tir holes k = constant_status tir holes' k"
  using blocked_constant_cong [of tir k holes holes']
  by (auto simp: constant_status_def split: option.split body_kind.split formula_body.split)

lemma evaluated_from_cong:
  "evaluated_from tir evaluate visible holes k v \<Longrightarrow>
    (\<And>d. d \<in> reads_of tir k \<Longrightarrow> holes d = holes' d \<and> visible d = visible' d) \<Longrightarrow>
    evaluated_from tir evaluate visible' holes' k v"
  unfolding evaluated_from_def by force

lemma blocked_blocks_ok:
  assumes "blocks_ok holes" "holes key = None" "blocked_constant tir key holes = Some b"
  shows "blocks_ok (holes(key \<mapsto> b))"
proof -
  have "\<forall>d us. holes d = Some (BlockedConstant us) \<longrightarrow> us \<noteq> []" using assms(1) by (simp add: blocks_ok_def)
  from blocked_constant_iff(2) [OF this assms(3)] obtain us where us: "b = BlockedConstant us" "us \<noteq> []" "sorted_wrt (<) us"
    "set us = (\<Union>d \<in> {d \<in> reads_of tir key. holes d \<noteq> None}. set (origins (the (holes d)) d))" by blast
  have "holes u = Some TodoConstant" if "u \<in> set us" for u
  proof -
    have "u \<in> (\<Union>d \<in> {d \<in> reads_of tir key. holes d \<noteq> None}. set (origins (the (holes d)) d))"
      using that us(4) by blast
    then obtain d r where d: "holes d = Some r" "u \<in> set (origins r d)" by auto
    then show ?thesis using assms(1) by (cases r) (auto simp: blocks_ok_def)
  qed
  with assms(1,2) us(1-3) show ?thesis by (auto simp: blocks_ok_def)
qed

lemma evaluate_constant_inv:
  assumes inv: "constants_inv tir evaluate fresh0 visible0 holes0 pre s"
    and key: "key \<notin> set pre" "holes0 key = None" "visible0 key = None" "key \<notin> reads_of tir key" "\<forall>k \<in> set pre. key \<notin> reads_of tir k"
    and step: "evaluate_constant tir evaluate s key = Inr s'"
  shows "constants_inv tir evaluate fresh0 visible0 holes0 (pre @ [key]) s'"
proof -
  obtain fresh visible holes w where s: "s = (fresh, visible, holes, w)" by (metis prod.exhaust)
  have fresh: "fresh dag \<noteq> None \<longleftrightarrow> fresh0 dag \<noteq> None" for dag using inv by (simp add: constants_inv_def s)
  have pools: "fresh dag = Some pool \<Longrightarrow> pool k \<noteq> None \<Longrightarrow> rn_owner k = dag \<and> k \<in> set pre" for dag pool k
    using inv by (simp add: constants_inv_def s)
  have vis: "visible k = (if k \<in> set pre then fresh_value fresh k else visible0 k)" for k
    using inv by (simp add: constants_inv_def s)
  have holes: "k \<notin> set pre \<Longrightarrow> holes k = holes0 k" for k using inv by (simp add: constants_inv_def s)
  have blocks: "blocks_ok holes" using inv by (simp add: constants_inv_def s)
  have old: "fresh (rn_owner k) \<noteq> None" "holes k = constant_status tir holes k"
      "fresh_value fresh k \<noteq> None \<longleftrightarrow> holes k = None"
      "fresh_value fresh k = Some v \<Longrightarrow> evaluated_from tir evaluate visible holes k v" if "k \<in> set pre" for k v
    using inv that unfolding constants_inv_def s prod.case by blast+
  have none: "holes key = None" using holes key by simp
  obtain pool where pool: "fresh (rn_owner key) = Some pool"
    using step by (auto simp: evaluate_constant_def s split: option.splits body_kind.splits formula_body.splits)
  have unset: "fresh_value fresh key = None"
    using pools [OF pool, of key] key(1) by (cases "pool key") (simp_all add: fresh_value_def pool)
  have unseen: "visible key = None" using vis [of key] key by simp
  have update: "constants_inv tir evaluate fresh0 visible0 holes0 (pre @ [key]) (fresh', visible', holes', w')"
    if others: "\<And>d. d \<noteq> key \<Longrightarrow> holes' d = holes d \<and> visible' d = visible d \<and> fresh_value fresh' d = fresh_value fresh d"
      and fresh': "\<And>dag. fresh' dag \<noteq> None \<longleftrightarrow> fresh dag \<noteq> None"
      "\<And>dag pool k. fresh' dag = Some pool \<Longrightarrow> pool k \<noteq> None \<Longrightarrow> rn_owner k = dag \<and> k \<in> set (pre @ [key])"
      and at_key: "visible' key = fresh_value fresh' key" "holes' key = constant_status tir holes key"
        "fresh_value fresh' key \<noteq> None \<longleftrightarrow> holes' key = None"
        "\<And>v. fresh_value fresh' key = Some v \<Longrightarrow> evaluated_from tir evaluate visible holes key v"
      and ok: "blocks_ok holes'"
    for fresh' visible' holes' w'
  proof -
    have keep: "holes d = holes' d \<and> visible d = visible' d" if "k \<in> set pre \<or> k = key" "d \<in> reads_of tir k" for k d
    proof -
      have "d \<noteq> key" using key(4,5) that by auto
      from others [OF this] show ?thesis by simp
    qed
    have status: "constant_status tir holes k = constant_status tir holes' k" if "k \<in> set pre \<or> k = key" for k
      by (rule constant_status_cong) (use keep [OF that] in blast)
    have source: "evaluated_from tir evaluate visible' holes' k v"
      if "k \<in> set pre \<or> k = key" "evaluated_from tir evaluate visible holes k v" for k v
      by (rule evaluated_from_cong [OF that(2)]) (use keep [OF that(1)] in blast)
    have member: "fresh' (rn_owner k) \<noteq> None \<and> holes' k = constant_status tir holes' k \<and>
        (fresh_value fresh' k \<noteq> None \<longleftrightarrow> holes' k = None) \<and>
        (\<forall>v. fresh_value fresh' k = Some v \<longrightarrow> evaluated_from tir evaluate visible' holes' k v)" if "k \<in> set (pre @ [key])" for k
    proof (cases "k = key")
      case True
      with at_key fresh'(1) [of "rn_owner key"] pool status [of key] source [of key] show ?thesis by simp
    next
      case False
      then have k: "k \<in> set pre" using that by simp
      with False others [OF False] fresh'(1) [of "rn_owner k"] old [OF k] status [of k] source [of k] show ?thesis by simp
    qed
    show ?thesis
      unfolding constants_inv_def prod.case
    proof (intro conjI allI)
      show "fresh' dag \<noteq> None \<longleftrightarrow> fresh0 dag \<noteq> None" for dag using fresh [of dag] fresh'(1) [of dag] by simp
      show "fresh' dag = Some pool \<and> pool k \<noteq> None \<longrightarrow> rn_owner k = dag \<and> k \<in> set (pre @ [key])" for dag pool k
        using fresh'(2) by blast
      show "visible' k = (if k \<in> set (pre @ [key]) then fresh_value fresh' k else visible0 k)" for k
        using at_key(1) others [of k] vis [of k] key(1) by (cases "k = key") auto
      show "k \<notin> set (pre @ [key]) \<longrightarrow> holes' k = holes0 k" for k
        using others [of k] holes [of k] by auto
    qed (rule ok, rule ballI, rule member)
  qed
  show ?thesis
  proof (cases "ct_body tir key")
    case (Some body)
    consider (todo) x where "body = ConstBody (UnfinishedBody x)" | (formula) e where "body = ConstBody (FormulaBody e)"
    proof (cases body)
      case (ConstBody b)
      with that show thesis by (cases b) blast+
    qed (use step Some in \<open>simp_all add: evaluate_constant_def s\<close>)
    then show ?thesis
    proof cases
      case todo
      with step Some pool have s': "s' = (fresh, visible, holes(key \<mapsto> TodoConstant), w)" by (simp add: evaluate_constant_def s)
      have "blocks_ok (holes(key \<mapsto> TodoConstant))" using blocks by (auto simp: blocks_ok_def)
      then show ?thesis unfolding s'
        by (intro update) (use todo Some pools unset unseen in \<open>auto simp: constant_status_def\<close>)
    next
      case formula
      have status: "constant_status tir holes key = blocked_constant tir key holes"
        using Some formula by (simp add: constant_status_def)
      show ?thesis
      proof (cases "blocked_constant tir key holes")
        case blocked: (Some b)
        with step Some formula pool have s': "s' = (fresh, visible, holes(key \<mapsto> b), w)"
          by (simp add: evaluate_constant_def s)
        show ?thesis unfolding s'
          by (intro update) (use blocked status pools unset unseen blocked_blocks_ok [OF blocks none blocked] in auto)
      next
        case None
        obtain result w' where result: "evaluate key e visible w = (result, w')" by (cases "evaluate key e visible w")
        with step Some formula pool None obtain v where v: "result = Inr v"
          and s': "s' = (fresh(rn_owner key \<mapsto> pool(key \<mapsto> v)), visible(key \<mapsto> v), holes, w')"
          by (cases result) (auto simp: evaluate_constant_def s)
        have finished: "\<forall>d \<in> reads_of tir key. holes d = None"
        proof -
          have "\<forall>d us. holes d = Some (BlockedConstant us) \<longrightarrow> us \<noteq> []" using blocks by (simp add: blocks_ok_def)
          from blocked_constant_iff(1) [OF this] None show ?thesis by blast
        qed
        then have "evaluated_from tir evaluate visible holes key v"
          using result v Some formula unfolding evaluated_from_def by blast
        then show ?thesis unfolding s'
          by (intro update) (use None status pools pool none blocks in \<open>auto simp: fresh_value_def split: if_splits\<close>)
      qed
    qed
  qed (use step in \<open>simp add: evaluate_constant_def s\<close>)
qed

lemma evaluate_constants_inv:
  assumes order: "schedule_ordered tir order" and start: "constants_inv tir evaluate fresh0 visible0 holes0 [] s"
    and unknown: "\<forall>k \<in> set order. holes0 k = None \<and> visible0 k = None"
    and run: "try_fold (evaluate_constant tir evaluate) s order = Inr s'"
  shows "constants_inv tir evaluate fresh0 visible0 holes0 order s'"
proof -
  have step: "case evaluate_constant tir evaluate t (order ! i) of
      Inl e \<Rightarrow> True | Inr t' \<Rightarrow> constants_inv tir evaluate fresh0 visible0 holes0 (take (Suc i) order) t'"
    if i: "i < length order" "constants_inv tir evaluate fresh0 visible0 holes0 (take i order) t" for i t
  proof (cases "evaluate_constant tir evaluate t (order ! i)")
    case (Inr t')
    have distinct: "distinct order" using order by (simp add: schedule_ordered_def)
    have earlier: "\<forall>d \<in> reads_of tir (order ! j). d \<in> set order \<longrightarrow> d \<in> set (take j order)" if "j < length order" for j
      using order that by (simp add: schedule_ordered_def)
    have mem: "order ! i \<in> set order" using i(1) by simp
    have fresh: "order ! i \<notin> set (take j order)" if "j \<le> i" for j
      using distinct i(1) that by (auto simp: in_set_conv_nth nth_eq_iff_index_eq)
    have "order ! i \<notin> reads_of tir (order ! i)" using earlier [OF i(1)] mem fresh by blast
    moreover have "\<forall>k \<in> set (take i order). order ! i \<notin> reads_of tir k"
    proof
      fix k assume "k \<in> set (take i order)"
      then obtain j where j: "j < i" "k = order ! j" by (auto simp: in_set_conv_nth)
      with earlier [of j] i(1) mem fresh [of j] show "order ! i \<notin> reads_of tir k" by auto
    qed
    ultimately have "constants_inv tir evaluate fresh0 visible0 holes0 (take i order @ [order ! i]) t'"
      by (intro evaluate_constant_inv [OF i(2) fresh _ _ _ _ Inr]) (use unknown mem in auto)
    with Inr i(1) show ?thesis by (simp add: take_Suc_conv_app_nth)
  qed simp
  have "case try_fold (evaluate_constant tir evaluate) s order of
      Inl e \<Rightarrow> True | Inr t \<Rightarrow> constants_inv tir evaluate fresh0 visible0 holes0 (take (length order) order) t"
    by (rule try_fold_rule) (use start step in auto)
  with run show ?thesis by simp
qed


section \<open>Covering the DAGs\<close>

lemma cover_dag_iff:
  "cover_dag scheduled inherited (by_dag, fresh) (pos, dag) = Inr s \<longleftrightarrow>
     (if pos \<in> set scheduled then cp_by_dag inherited dag = None \<and> s = (by_dag, fresh(dag \<mapsto> Map.empty))
      else \<exists>pool. cp_by_dag inherited dag = Some pool \<and> s = (by_dag(dag \<mapsto> pool), fresh))"
  by (auto simp: cover_dag_def split: option.splits)

lemma cover_dags:
  "try_fold (cover_dag scheduled inherited) (by_dag, fresh) (enumerate n dags) = Inr (by_dag', fresh') \<Longrightarrow>
    (\<forall>dag. by_dag' dag = by_dag dag \<or> dag \<in> set dags \<and> cp_by_dag inherited dag \<noteq> None \<and> by_dag' dag = cp_by_dag inherited dag) \<and>
    (\<forall>dag. fresh' dag = fresh dag \<or> dag \<in> set dags \<and> cp_by_dag inherited dag = None \<and> fresh' dag = Some Map.empty) \<and>
    (\<forall>dag \<in> set dags. by_dag' dag \<noteq> None \<or> fresh' dag \<noteq> None) \<and>
    (\<forall>dag. by_dag dag \<noteq> None \<longrightarrow> by_dag' dag \<noteq> None) \<and> (\<forall>dag. fresh dag \<noteq> None \<longrightarrow> fresh' dag \<noteq> None)"
proof (induction dags arbitrary: n by_dag fresh)
  case (Cons dag dags)
  from Cons.prems obtain by_dag1 fresh1 where one: "cover_dag scheduled inherited (by_dag, fresh) (n, dag) = Inr (by_dag1, fresh1)"
    and rest: "try_fold (cover_dag scheduled inherited) (by_dag1, fresh1) (enumerate (Suc n) dags) = Inr (by_dag', fresh')"
    by (auto simp: result_iffs)
  note IH = Cons.IH [OF rest]
  show ?case
  proof (cases "n \<in> set scheduled")
    case True
    with one have "cp_by_dag inherited dag = None" "by_dag1 = by_dag" "fresh1 = fresh(dag \<mapsto> Map.empty)"
      unfolding cover_dag_iff by auto
    with IH show ?thesis by (smt (verit) fun_upd_apply list.set_intros(1) list.set_intros(2) option.distinct(1) set_ConsD)
  next
    case False
    with one obtain pool where "cp_by_dag inherited dag = Some pool" "by_dag1 = by_dag(dag \<mapsto> pool)" "fresh1 = fresh"
      unfolding cover_dag_iff by auto
    with IH show ?thesis by (smt (verit) fun_upd_apply list.set_intros(1) list.set_intros(2) option.distinct(1) set_ConsD)
  qed
qed simp

text \<open>The parts of a build: which pools are inherited and which are fresh.\<close>

lemma pool_build_parts:
  assumes "pool_build tir schedule evaluate inherited w = Inr ((P, positioned), w')"
  obtains by_dag fresh0 visible0 fresh visible where
    "\<And>dag. by_dag dag = (if dag \<in> set (ct_dags tir) then cp_by_dag inherited dag else None)"
    "\<And>dag. fresh0 dag = (if dag \<in> set (ct_dags tir) \<and> cp_by_dag inherited dag = None then Some Map.empty else None)"
    "visible0 = foldl (\<lambda>m dag. case by_dag dag of Some pool \<Rightarrow> m ++ pool | None \<Rightarrow> m) Map.empty (ct_dags tir)"
    "try_fold (evaluate_constant tir evaluate) (fresh0, visible0, cp_unfinished inherited, w) (cs_order schedule) =
      Inr (fresh, visible, cp_unfinished P, w')"
    "cp_by_dag P = by_dag ++ fresh" "positioned = map (\<lambda>dag. the (cp_by_dag P dag)) (ct_dags tir)"
proof -
  from assms obtain by_dag fresh0 fresh visible where
    cover: "try_fold (cover_dag (cs_dags schedule) inherited) (Map.empty, Map.empty) (enumerate 0 (ct_dags tir)) = Inr (by_dag, fresh0)"
    and run: "try_fold (evaluate_constant tir evaluate)
      (fresh0, foldl (\<lambda>m dag. case by_dag dag of Some pool \<Rightarrow> m ++ pool | None \<Rightarrow> m) Map.empty (ct_dags tir),
       cp_unfinished inherited, w) (cs_order schedule) = Inr (fresh, visible, cp_unfinished P, w')"
    and P: "cp_by_dag P = by_dag ++ fresh" "positioned = map (\<lambda>dag. the ((by_dag ++ fresh) dag)) (ct_dags tir)"
    by (auto simp: pool_build_def Let_def result_iffs)
  note c = cover_dags [OF cover]
  have at: "by_dag dag = None \<or> dag \<in> set (ct_dags tir) \<and> cp_by_dag inherited dag \<noteq> None \<and> by_dag dag = cp_by_dag inherited dag"
      "fresh0 dag = None \<or> dag \<in> set (ct_dags tir) \<and> cp_by_dag inherited dag = None \<and> fresh0 dag = Some Map.empty"
      "dag \<in> set (ct_dags tir) \<Longrightarrow> by_dag dag \<noteq> None \<or> fresh0 dag \<noteq> None" for dag
    using c by blast+
  have "by_dag dag = (if dag \<in> set (ct_dags tir) then cp_by_dag inherited dag else None)" for dag
    using at [of dag] by (cases "dag \<in> set (ct_dags tir)"; cases "cp_by_dag inherited dag") auto
  moreover have "fresh0 dag = (if dag \<in> set (ct_dags tir) \<and> cp_by_dag inherited dag = None then Some Map.empty else None)" for dag
    using at [of dag] by (cases "dag \<in> set (ct_dags tir)"; cases "cp_by_dag inherited dag") auto
  ultimately show ?thesis by (rule that [OF _ _ refl run P(1)]) (simp add: P)
qed

lemma visible_owned:
  assumes "\<And>dag pool k. by_dag dag = Some pool \<Longrightarrow> pool k \<noteq> None \<Longrightarrow> rn_owner k = dag"
  shows "foldl (\<lambda>m dag. case by_dag dag of Some pool \<Rightarrow> m ++ pool | None \<Rightarrow> m) m dags k =
    (if rn_owner k \<in> set dags \<and> fresh_value by_dag k \<noteq> None then fresh_value by_dag k else m k)"
proof (induction dags arbitrary: m)
  case (Cons dag dags)
  show ?case
  proof (cases "by_dag dag")
    case None
    with Cons [of m] show ?thesis by (auto simp: fresh_value_def)
  next
    case (Some pool)
    have "(m ++ pool) k = (if rn_owner k = dag \<and> pool k \<noteq> None then pool k else m k)"
      using assms [OF Some, of k] by (auto simp: map_add_def split: option.split)
    with Cons [of "m ++ pool"] Some show ?thesis by (auto simp: fresh_value_def)
  qed
qed simp


section \<open>The pools as a whole\<close>

lemma evaluate_constant_fresh:
  "evaluate_constant tir evaluate (fresh, visible, holes, w) key = Inr (fresh', s) \<Longrightarrow>
    fresh (rn_owner key) \<noteq> None \<and> (\<forall>dag. fresh' dag \<noteq> None \<longleftrightarrow> fresh dag \<noteq> None)"
  by (auto simp: evaluate_constant_def split: option.splits body_kind.splits formula_body.splits prod.splits sum.splits if_splits)

lemma evaluate_constants_fresh:
  "try_fold (evaluate_constant tir evaluate) (fresh, s) order = Inr s' \<Longrightarrow> \<forall>k \<in> set order. fresh (rn_owner k) \<noteq> None"
proof (induction order arbitrary: fresh s)
  case (Cons key order)
  obtain visible holes w where s: "s = (visible, holes, w)" by (metis prod.exhaust)
  from Cons.prems obtain fresh1 s1 where one: "evaluate_constant tir evaluate (fresh, s) key = Inr (fresh1, s1)"
    and rest: "try_fold (evaluate_constant tir evaluate) (fresh1, s1) order = Inr s'" by (auto simp: result_iffs)
  from Cons.IH [OF rest] evaluate_constant_fresh [OF one [unfolded s]] show ?case by auto
qed simp

lemma schedule_ordered_build:
  assumes "const_schedule_build dags = Inr schedule"
    and "\<forall>(p, dag) \<in> set dags. \<forall>entry \<in> set (cd_consts dag). ct_deps tir (sd_identity entry) = cd_deps dag (sd_identity entry)"
  shows "schedule_ordered tir (cs_order schedule) \<and> set (cs_order schedule) = const_keys dags"
proof -
  from const_schedule_sound [OF assms(1)] have order: "distinct (cs_order schedule)" "set (cs_order schedule) = const_keys dags"
    "\<And>i b. i < length (cs_order schedule) \<Longrightarrow> const_reads dags (cs_order schedule ! i) b \<Longrightarrow> b \<in> set (take i (cs_order schedule))"
    by (auto simp: topo_ordered_def)
  have "const_reads dags k d" if k: "k \<in> const_keys dags" "d \<in> reads_of tir k" "d \<in> const_keys dags" for k d
  proof -
    from k(1) obtain p dag entry where dag: "(p, dag) \<in> set dags" "entry \<in> set (cd_consts dag)" "k = sd_identity entry"
      unfolding const_keys_def by blast
    with assms(2) have "ct_deps tir k = cd_deps dag k" by fast
    with k(2) have "\<exists>deps. cd_deps dag k = Some deps \<and> d \<in> set deps" by (simp add: in_flat_option)
    with dag k(3) show ?thesis unfolding const_reads_def by blast
  qed
  moreover have "cs_order schedule ! i \<in> const_keys dags" if "i < length (cs_order schedule)" for i
    using that order(2) by (metis nth_mem)
  ultimately show ?thesis using order unfolding schedule_ordered_def by blast
qed

lemma pool_build_sound:
  assumes build: "pool_build tir schedule evaluate inherited w = Inr ((P, positioned), w')"
    and ok: "pool_ok inherited" and order: "schedule_ordered tir (cs_order schedule)"
    and unknown: "\<forall>k \<in> set (cs_order schedule). cp_unfinished inherited k = None"
  shows "pool_ok P \<and> (\<forall>dag. cp_by_dag P dag \<noteq> None \<longleftrightarrow> dag \<in> set (ct_dags tir)) \<and>
    positioned = map (\<lambda>dag. the (cp_by_dag P dag)) (ct_dags tir) \<and>
    (\<forall>k \<in> set (cs_order schedule). cp_by_dag P (rn_owner k) \<noteq> None \<and>
       cp_unfinished P k = constant_status tir (cp_unfinished P) k \<and> (pool_value P k \<noteq> None \<longleftrightarrow> cp_unfinished P k = None) \<and>
       (\<forall>v. pool_value P k = Some v \<longrightarrow> evaluated_from tir evaluate (pool_value P) (cp_unfinished P) k v)) \<and>
    (\<forall>k. k \<notin> set (cs_order schedule) \<longrightarrow> cp_unfinished P k = cp_unfinished inherited k \<and>
       (rn_owner k \<in> set (ct_dags tir) \<longrightarrow> pool_value P k = pool_value inherited k))"
proof (rule pool_build_parts [OF build])
  let ?order = "cs_order schedule"
  fix by_dag fresh0 visible0 fresh visible
  assume by_dag: "\<And>dag. by_dag dag = (if dag \<in> set (ct_dags tir) then cp_by_dag inherited dag else None)"
    and fresh0: "\<And>dag. fresh0 dag = (if dag \<in> set (ct_dags tir) \<and> cp_by_dag inherited dag = None then Some Map.empty else None)"
    and visible0: "visible0 = foldl (\<lambda>m dag. case by_dag dag of Some pool \<Rightarrow> m ++ pool | None \<Rightarrow> m) Map.empty (ct_dags tir)"
    and run: "try_fold (evaluate_constant tir evaluate) (fresh0, visible0, cp_unfinished inherited, w) ?order =
      Inr (fresh, visible, cp_unfinished P, w')"
    and P: "cp_by_dag P = by_dag ++ fresh" "positioned = map (\<lambda>dag. the (cp_by_dag P dag)) (ct_dags tir)"
  have owned: "rn_owner k = dag" if "by_dag dag = Some pool" "pool k \<noteq> None" for dag pool k
    using ok that by (auto simp: pool_ok_def by_dag split: if_splits)
  have seen0: "visible0 k = (if rn_owner k \<in> set (ct_dags tir) \<and> fresh_value by_dag k \<noteq> None then fresh_value by_dag k else None)" for k
    unfolding visible0 by (rule visible_owned) (rule owned)
  have scheduled: "fresh0 (rn_owner k) \<noteq> None" if "k \<in> set ?order" for k
    using evaluate_constants_fresh [OF run] that by blast
  have unseen: "visible0 k = None" if "k \<in> set ?order" for k
    using scheduled [OF that] by (simp add: seen0 fresh_value_def by_dag fresh0 split: if_splits)
  have "constants_inv tir evaluate fresh0 visible0 (cp_unfinished inherited) [] (fresh0, visible0, cp_unfinished inherited, w)"
    using ok fresh0 by (auto simp: constants_inv_def pool_ok_def blocks_ok_def split: if_splits)
  from evaluate_constants_inv [OF order this _ run] unknown unseen
  have inv: "constants_inv tir evaluate fresh0 visible0 (cp_unfinished inherited) ?order (fresh, visible, cp_unfinished P, w')"
    by blast
  have fresh: "fresh dag \<noteq> None \<longleftrightarrow> fresh0 dag \<noteq> None" for dag using inv by (simp add: constants_inv_def)
  have pools: "fresh dag = Some pool \<Longrightarrow> pool k \<noteq> None \<Longrightarrow> rn_owner k = dag \<and> k \<in> set ?order" for dag pool k
    using inv by (simp add: constants_inv_def)
  have vis: "visible k = (if k \<in> set ?order then fresh_value fresh k else visible0 k)" for k
    using inv by (simp add: constants_inv_def)
  have holes: "k \<notin> set ?order \<Longrightarrow> cp_unfinished P k = cp_unfinished inherited k" for k using inv by (simp add: constants_inv_def)
  have blocks: "blocks_ok (cp_unfinished P)" using inv by (simp add: constants_inv_def)
  have new: "fresh (rn_owner k) \<noteq> None" "cp_unfinished P k = constant_status tir (cp_unfinished P) k"
      "fresh_value fresh k \<noteq> None \<longleftrightarrow> cp_unfinished P k = None"
      "fresh_value fresh k = Some v \<Longrightarrow> evaluated_from tir evaluate visible (cp_unfinished P) k v" if "k \<in> set ?order" for k v
    using inv that unfolding constants_inv_def prod.case by blast+
  have disjoint: "by_dag dag = None \<or> fresh dag = None" for dag
    using fresh [of dag] by (auto simp: by_dag fresh0 split: if_splits)
  have at: "cp_by_dag P dag = (case fresh dag of Some pool \<Rightarrow> Some pool | None \<Rightarrow> by_dag dag)" for dag
    by (simp add: P map_add_def)
  have unscheduled: "fresh (rn_owner k) = None \<or> fresh_value fresh k = None" if "k \<notin> set ?order" for k
  proof (cases "fresh (rn_owner k)")
    case (Some pool)
    with pools [OF Some, of k] that show ?thesis by (cases "pool k") (simp_all add: fresh_value_def)
  qed simp
  have everything: "visible k = pool_value P k" for k
  proof (cases "fresh (rn_owner k)")
    case None
    then have "k \<notin> set ?order" using new(1) by blast
    with None vis [of k] show ?thesis
      by (auto simp: pool_value_def at seen0 fresh_value_def by_dag split: if_splits)
  next
    case (Some pool)
    then have "by_dag (rn_owner k) = None" using disjoint [of "rn_owner k"] by simp
    then have "visible0 k = None" by (simp add: seen0 fresh_value_def)
    with Some vis [of k] unscheduled [of k] show ?thesis by (auto simp: pool_value_def at fresh_value_def)
  qed
  have value_new: "pool_value P k = fresh_value fresh k" if "k \<in> set ?order" for k
    using vis [of k] everything [of k] that by simp
  have kept: "pool_value P k = pool_value inherited k" if k: "k \<notin> set ?order" "rn_owner k \<in> set (ct_dags tir)" for k
  proof (cases "fresh (rn_owner k)")
    case None
    with k show ?thesis by (simp add: pool_value_def at by_dag)
  next
    case (Some pool)
    then have "cp_by_dag inherited (rn_owner k) = None" using fresh [of "rn_owner k"] by (auto simp: fresh0 split: if_splits)
    with Some unscheduled [OF k(1)] show ?thesis by (simp add: pool_value_def at fresh_value_def)
  qed
  have covered: "cp_by_dag P dag \<noteq> None \<longleftrightarrow> dag \<in> set (ct_dags tir)" for dag
    using fresh [of dag] by (auto simp: at by_dag fresh0 split: option.split if_splits)
  have "pool_ok P"
    unfolding pool_ok_def
  proof (intro conjI allI impI)
    fix dag pool k assume "cp_by_dag P dag = Some pool \<and> pool k \<noteq> None"
    then show "rn_owner k = dag" using pools owned by (auto simp: at split: option.splits)
  next
    fix k assume v: "pool_value P k \<noteq> None"
    show "cp_unfinished P k = None"
    proof (cases "k \<in> set ?order")
      case True
      with v new(3) value_new show ?thesis by simp
    next
      case False
      have "cp_by_dag P (rn_owner k) \<noteq> None" using v by (cases "cp_by_dag P (rn_owner k)") (simp_all add: pool_value_def)
      then have "rn_owner k \<in> set (ct_dags tir)" by (simp only: covered)
      with kept [OF False] v ok holes [OF False] show ?thesis by (simp add: pool_ok_def)
    qed
  next
    fix k us assume "cp_unfinished P k = Some (BlockedConstant us)"
    with blocks show "us \<noteq> []" "sorted_wrt (<) us" "\<forall>u \<in> set us. cp_unfinished P u = Some TodoConstant"
      by (simp_all add: blocks_ok_def)
  qed
  moreover have visible: "visible = pool_value P" by (intro ext) (rule everything)
  moreover have "cp_by_dag P (rn_owner k) \<noteq> None \<and> cp_unfinished P k = constant_status tir (cp_unfinished P) k \<and>
      (pool_value P k \<noteq> None \<longleftrightarrow> cp_unfinished P k = None) \<and>
      (\<forall>v. pool_value P k = Some v \<longrightarrow> evaluated_from tir evaluate (pool_value P) (cp_unfinished P) k v)"
    if k: "k \<in> set ?order" for k
  proof (intro conjI allI impI)
    show "cp_by_dag P (rn_owner k) \<noteq> None" using new(1) [OF k] at [of "rn_owner k"] by auto
    show "cp_unfinished P k = constant_status tir (cp_unfinished P) k" by (rule new(2) [OF k])
    show "pool_value P k \<noteq> None \<longleftrightarrow> cp_unfinished P k = None" unfolding value_new [OF k] by (rule new(3) [OF k])
    show "evaluated_from tir evaluate (pool_value P) (cp_unfinished P) k v" if "pool_value P k = Some v" for v
      using new(4) [OF k, of v] that unfolding value_new [OF k] visible .
  qed
  ultimately show ?thesis
    using covered P(2) kept holes by blast
qed

section \<open>Properties\<close>

text \<open>C14: the constant pools of a checked program. With the schedule the checker builds, every DAG gets
  one pool, and the positioned pools are these. Every scheduled constant has either a value or a
  reason, never both: its reason is \<open>Todo\<close> when its own formula has a hole, else the sorted origins
  of the unfinished constants it reads. A value comes from evaluating the formula when everything it
  reads was finished and held the value the pools keep. Constants of inherited DAGs are unchanged.\<close>

theorem constant_pools_complete:
  assumes "const_schedule_build dags = Inr schedule"
    and "\<forall>(p, dag) \<in> set dags. \<forall>entry \<in> set (cd_consts dag). ct_deps tir (sd_identity entry) = cd_deps dag (sd_identity entry)"
    and "pool_build tir schedule evaluate inherited w = Inr ((P, positioned), w')"
    and "pool_ok inherited" "\<forall>k \<in> const_keys dags. cp_unfinished inherited k = None"
  shows "pool_ok P \<and> (\<forall>dag. cp_by_dag P dag \<noteq> None \<longleftrightarrow> dag \<in> set (ct_dags tir)) \<and>
    positioned = map (\<lambda>dag. the (cp_by_dag P dag)) (ct_dags tir) \<and>
    (\<forall>k \<in> const_keys dags.
       cp_unfinished P k = constant_status tir (cp_unfinished P) k \<and> (pool_value P k \<noteq> None \<longleftrightarrow> cp_unfinished P k = None) \<and>
       (\<forall>v. pool_value P k = Some v \<longrightarrow> evaluated_from tir evaluate (pool_value P) (cp_unfinished P) k v) \<and>
       (\<exists>r. pool_reference P k = Some r \<and> reference_value r =
          (case pool_value P k of Some v \<Rightarrow> Inr v | None \<Rightarrow> Inl (the (cp_unfinished P k))))) \<and>
    (\<forall>k. k \<notin> const_keys dags \<longrightarrow> cp_unfinished P k = cp_unfinished inherited k \<and>
       (rn_owner k \<in> set (ct_dags tir) \<longrightarrow> pool_value P k = pool_value inherited k))"
proof -
  from schedule_ordered_build [OF assms(1,2)] have order: "schedule_ordered tir (cs_order schedule)"
    and keys: "set (cs_order schedule) = const_keys dags" by blast+
  note sound = pool_build_sound [OF assms(3,4) order, unfolded keys, OF assms(5)]
  have "\<exists>r. pool_reference P k = Some r \<and> reference_value r =
      (case pool_value P k of Some v \<Rightarrow> Inr v | None \<Rightarrow> Inl (the (cp_unfinished P k)))" if "k \<in> const_keys dags" for k
  proof -
    from sound that obtain pool where pool: "cp_by_dag P (rn_owner k) = Some pool" by blast
    then have pv: "pool_value P k = pool k" by (simp add: pool_value_def)
    have either: "pool_value P k \<noteq> None \<longleftrightarrow> cp_unfinished P k = None" using sound that by blast
    show ?thesis
    proof (cases "pool k")
      case None
      with either pv obtain u where u: "cp_unfinished P k = Some u" by auto
      with None pool pv show ?thesis by (simp add: pool_reference_def reference_value_def)
    qed (use pool pv in \<open>simp add: pool_reference_def reference_value_def\<close>)
  qed
  with sound show ?thesis by blast
qed


section \<open>Concrete inputs\<close>

text \<open>One DAG with a finished constant, one with a hole, one that reads both, and one that reads the
  finished one; constants are evaluated to the number of calls made.\<close>

definition sample_dag :: dag_id where
  "sample_dag = root_in_package ''p'' ''m''"

definition sample_const :: "string \<Rightarrow> nat scheduled_decl" where
  "sample_const name = \<lparr>sd_identity = ResolvedName sample_dag name, sd_name = name, sd_span = 0\<rparr>"

definition sample_const_deps :: "resolved_name \<Rightarrow> resolved_name list option" where
  "sample_const_deps k =
     (if rn_leaf k = ''c'' then Some [ResolvedName sample_dag ''a'', ResolvedName sample_dag ''b'']
      else if rn_leaf k = ''d'' then Some [ResolvedName sample_dag ''a''] else None)"

definition sample_const_dags :: "(nat \<times> nat const_dag) list" where
  "sample_const_dags =
     [(0, \<lparr>cd_id = sample_dag, cd_consts = map sample_const [''c'', ''d'', ''b'', ''a''], cd_deps = sample_const_deps\<rparr>)]"

definition sample_tir :: "string const_tir" where
  "sample_tir = \<lparr>ct_dags = [sample_dag],
     ct_body = (\<lambda>k. Some (ConstBody (if rn_leaf k = ''b'' then UnfinishedBody ''todo'' else FormulaBody ''e''))),
     ct_deps = sample_const_deps\<rparr>"

definition sample_count :: "resolved_name \<Rightarrow> string \<Rightarrow> nat value_map \<Rightarrow> nat \<Rightarrow> (nat, string) result \<times> nat" where
  "sample_count k e seen w = (Inr w, Suc w)"

definition sample_inherited :: "nat const_pool" where
  "sample_inherited = \<lparr>cp_by_dag = Map.empty, cp_unfinished = Map.empty\<rparr>"

lemma sample_pool_ok: "pool_ok sample_inherited"
  by (simp add: pool_ok_def sample_inherited_def pool_value_def)

definition sample_const_schedule :: const_schedule where
  "sample_const_schedule = \<lparr>cs_dags = [0], cs_order = map (ResolvedName sample_dag) [''b'', ''a'', ''c'', ''d'']\<rparr>"

lemma sample_const_schedule: "const_schedule_build sample_const_dags = Inr sample_const_schedule"
  by code_simp

lemma sample_pool_build:
  "case pool_build sample_tir sample_const_schedule sample_count sample_inherited 0 of
     Inr ((P, positioned), w) \<Rightarrow> w = 2 \<and> pool_value P (ResolvedName sample_dag ''a'') = Some 0 \<and>
       pool_value P (ResolvedName sample_dag ''d'') = Some 1 \<and>
       cp_unfinished P (ResolvedName sample_dag ''c'') = Some (BlockedConstant [ResolvedName sample_dag ''b''])
   | Inl _ \<Rightarrow> False"
  by code_simp

theorem constant_pools_complete_witness:
  "\<exists>P positioned. pool_build sample_tir sample_const_schedule sample_count sample_inherited 0 = Inr ((P, positioned), 2) \<and>
     pool_ok P \<and> pool_value P (ResolvedName sample_dag ''d'') = Some 1 \<and>
     evaluated_from sample_tir sample_count (pool_value P) (cp_unfinished P) (ResolvedName sample_dag ''d'') 1"
proof -
  from sample_pool_build obtain P positioned where
    build: "pool_build sample_tir sample_const_schedule sample_count sample_inherited 0 = Inr ((P, positioned), 2)"
    and d: "pool_value P (ResolvedName sample_dag ''d'') = Some 1" by (auto split: sum.splits prod.splits)
  have "\<forall>(p, dag) \<in> set sample_const_dags. \<forall>entry \<in> set (cd_consts dag).
      ct_deps sample_tir (sd_identity entry) = cd_deps dag (sd_identity entry)"
    by (simp add: sample_const_dags_def sample_tir_def)
  moreover have "\<forall>k \<in> const_keys sample_const_dags. cp_unfinished sample_inherited k = None"
    by (simp add: sample_inherited_def)
  moreover have "ResolvedName sample_dag ''d'' \<in> const_keys sample_const_dags"
    by (simp add: const_keys_def sample_const_dags_def sample_const_def)
  ultimately show ?thesis
    using constant_pools_complete [OF sample_const_schedule _ build sample_pool_ok] build d by blast
qed

end
