(* ===== verification/Execution_Frame.thy ===== *)
theory Execution_Frame
  imports Execution_Plan Presented_Value Constant_Pools
begin

text \<open>
  Execution frames (\<open>graphcal-eval/src/execution_frame.rs\<close>): running the units of a callable over a
  state of values, presented values and unavailable declarations, with recurrence groups evaluated
  element by element in slots (\<open>recurrence_slots.rs\<close>). The expression adapter, the domain check, cancellation and the texts of
  errors are the fields of a record the definitions take. The lemmas show that the checker's plan
  never sends the evaluator to an element that is not there, that a frame decides every scheduled
  declaration, and that no value is computed from an unavailable input.
\<close>

section \<open>Element slots\<close>

datatype 'v element_slot = PendingSlot | ComputedSlot 'v | FailedSlot | UnavailableSlot

fun is_computed :: "'v element_slot \<Rightarrow> bool" where
  "is_computed (ComputedSlot _) = True"
| "is_computed _ = False"

datatype unreadable_element = NotAMember | NotComputed

type_synonym 'v slots = "(decl_key \<times> 'v element_slot list) list"

definition slots_new :: "decl_key list \<Rightarrow> nat \<Rightarrow> 'v slots" where
  "slots_new members steps = map (\<lambda>member. (member, replicate steps PendingSlot)) members"

definition slots_contains :: "'v slots \<Rightarrow> decl_key \<Rightarrow> bool" where
  "slots_contains slots declaration = list_ex (\<lambda>(member, _). member = declaration) slots"

definition slots_computed :: "'v slots \<Rightarrow> decl_key \<Rightarrow> nat \<Rightarrow> ('v, unreadable_element) result" where
  "slots_computed slots declaration step =
     (case find (\<lambda>(member, _). member = declaration) slots of
        None \<Rightarrow> Inl NotAMember
      | Some (_, elements) \<Rightarrow>
          if step < length elements then
            (case elements ! step of ComputedSlot v \<Rightarrow> Inr v | _ \<Rightarrow> Inl NotComputed)
          else Inl NotComputed)"

definition slot_at :: "'v slots \<Rightarrow> nat \<Rightarrow> nat \<Rightarrow> 'v element_slot option" where
  "slot_at slots member step =
     (if member < length slots \<and> step < length (snd (slots ! member))
      then Some (snd (slots ! member) ! step) else None)"

definition slots_set :: "'v slots \<Rightarrow> nat \<Rightarrow> nat \<Rightarrow> 'v element_slot \<Rightarrow> 'v slots" where
  "slots_set slots member step slot =
     (if member < length slots
      then slots[member := (fst (slots ! member), (snd (slots ! member))[step := slot])] else slots)"

fun computed_values :: "'v element_slot list \<Rightarrow> 'v list" where
  "computed_values [] = []"
| "computed_values (ComputedSlot v # slots) = v # computed_values slots"
| "computed_values (_ # slots) = computed_values slots"

text \<open>The elements of a member; the slots they are taken from stay empty behind.\<close>

definition take_computed :: "'v slots \<Rightarrow> nat \<Rightarrow> 'v list option \<times> 'v slots" where
  "take_computed slots member =
     (if member < length slots then
        if list_all is_computed (snd (slots ! member))
        then (Some (computed_values (snd (slots ! member))), slots[member := (fst (slots ! member), [])])
        else (None, slots)
      else (None, slots))"

section \<open>Frames and their environment\<close>

datatype failure_policy = ContainFailures | PropagateFailures

text \<open>Semantic errors as a frame distinguishes them.\<close>

datatype 'd semantic_failure =
    InternalFailure 'd
  | UnavailableFailure reason 'd
  | OtherFailure 'd

datatype 'd frame_outcome = CancelledOutcome | FailedOutcome "'d semantic_failure"

record ('f, 't, 'l) frame =
  fr_values :: "decl_key \<Rightarrow> ('f, 't) runtime_value option"
  fr_presented :: "decl_key \<Rightarrow> ('f, 't, 'l) presented option"
  fr_errors :: "decl_key \<Rightarrow> reason option"

record ('f, 't, 'l) previous_step =
  ps_key :: "'f key_value"
  ps_state :: "('f, 't, 'l) presented"
  ps_initial :: "('f, 't, 'l) presented"

datatype ('f, 't, 'l, 'x) scheduled =
    ScheduledDeclaration decl_key 'x "('f, 'x) scoped_node"
  | ScheduledElement decl_key 'x "('f, 'x) member_plan" "'f key_value"
      "('f, 't, 'l) previous_step option" "('f, 't, 'l) presented slots"

text \<open>What a frame is given: its failure policy and unfinished constants, the expression adapter and
  the cancellation token over a world \<open>'w\<close>, the violation of a domain constraint by a value and the
  texts of errors.\<close>

record ('f, 't, 'l, 'x, 'd, 'w) frame_env =
  env_policy :: failure_policy
  env_unfinished :: "decl_key \<Rightarrow> bool"
  env_evaluate :: "('f, 't, 'l, 'x) scheduled \<Rightarrow> ('f, 't, 'l) frame \<Rightarrow> 'w \<Rightarrow>
    (('f, 't, 'l) presented, 'd frame_outcome) result \<times> 'w"
  env_cancelled :: "'w \<Rightarrow> bool \<times> 'w"
  env_violation :: "'x \<Rightarrow> ('f, 't) runtime_value \<Rightarrow> 'x \<Rightarrow> 'd semantic_failure option"
  env_message :: "'d semantic_failure \<Rightarrow> string"
  env_not_executable :: "'x \<Rightarrow> 'd"
  env_stuck :: "decl_key \<Rightarrow> nat \<Rightarrow> 'd"

definition eval_failed_node_error ::
  "('f, 't, 'l, 'x, 'd, 'w) frame_env \<Rightarrow> 'd semantic_failure \<Rightarrow> reason" where
  "eval_failed_node_error env error =
     (case error of
        UnavailableFailure (TodoReason declaration) _ \<Rightarrow> BlockedReason [declaration] []
      | UnavailableFailure reason _ \<Rightarrow> reason
      | other \<Rightarrow> EvalFailed (env_message env other))"

definition unavailable_inputs ::
  "('f, 't, 'l, 'x, 'd, 'w) frame_env \<Rightarrow> ('f, 'x) callable \<Rightarrow> ('f, 't, 'l) frame \<Rightarrow> ('f, 'x) step \<Rightarrow>
   (decl_key \<times> reason) list" where
  "unavailable_inputs env c fr st =
     List.map_filter (\<lambda>dependency. map_option (Pair dependency) (fr_errors fr dependency))
       (map (step_key c) (st_deps st) @
        filter (env_unfinished env) (pd_reads (st_declaration st)))"

definition frame_failure ::
  "('f, 't, 'l, 'x, 'd, 'w) frame_env \<Rightarrow> decl_key \<Rightarrow> 'd semantic_failure \<Rightarrow> ('f, 't, 'l) frame \<Rightarrow>
   (('f, 't, 'l) frame, 'd frame_outcome) result" where
  "frame_failure env key error fr =
     (let only_incomplete = (case error of UnavailableFailure reason _ \<Rightarrow> \<not> has_failure reason | _ \<Rightarrow> False)
      in case error of
           InternalFailure _ \<Rightarrow> Inl (FailedOutcome error)
         | _ \<Rightarrow>
             if env_policy env = PropagateFailures \<and> \<not> only_incomplete then Inl (FailedOutcome error)
             else Inr (fr\<lparr>fr_errors := (fr_errors fr)(key \<mapsto> eval_failed_node_error env error)\<rparr>))"

definition domain_violation ::
  "('f, 't, 'l, 'x, 'd, 'w) frame_env \<Rightarrow> ('f, 't, 'l) presented \<Rightarrow> 'x option \<Rightarrow> 'x \<Rightarrow> 'd semantic_failure option" where
  "domain_violation env v domain source =
     Option.bind domain (\<lambda>constraint. env_violation env constraint (into_value v) source)"

definition frame_store ::
  "decl_key \<Rightarrow> ('f, 't, 'l) presented \<Rightarrow> ('f, 't, 'l) frame \<Rightarrow> ('f, 't, 'l) frame" where
  "frame_store key v fr =
     (if is_plain v
      then fr\<lparr>fr_values := (fr_values fr)(key \<mapsto> into_value v), fr_presented := (fr_presented fr)(key := None)\<rparr>
      else fr\<lparr>fr_values := (fr_values fr)(key \<mapsto> into_value v), fr_presented := (fr_presented fr)(key \<mapsto> v)\<rparr>)"

definition frame_bind ::
  "('f, 't, 'l, 'x, 'd, 'w) frame_env \<Rightarrow> decl_key \<Rightarrow> 'x option \<Rightarrow> ('f, 't, 'l) presented \<Rightarrow> 'x \<Rightarrow>
   ('f, 't, 'l) frame \<Rightarrow> (('f, 't, 'l) frame, 'd frame_outcome) result" where
  "frame_bind env key domain v source fr =
     (case domain_violation env v domain source of
        Some error \<Rightarrow>
          frame_failure env key error
            (fr\<lparr>fr_values := (fr_values fr)(key := None), fr_presented := (fr_presented fr)(key := None)\<rparr>)
      | None \<Rightarrow> Inr (frame_store key v fr))"

text \<open>A new frame: constant imports and the constants of the callable's DAGs have their values,
  unfinished ones their reasons, and presentations are kept for values only. The unfinished constants
  a frame reads are those it has reasons for from the start.\<close>

definition bind_import ::
  "(decl_key \<Rightarrow> 'v option) \<times> (decl_key \<Rightarrow> reason option) \<Rightarrow> decl_key \<times> 'v constant_reference \<Rightarrow>
   (decl_key \<Rightarrow> 'v option) \<times> (decl_key \<Rightarrow> reason option)" where
  "bind_import s i =
     (case s of (vs, missing) \<Rightarrow> case i of (destination, r) \<Rightarrow>
        (case reference_value r of
           Inr v \<Rightarrow> (vs(destination \<mapsto> v), missing)
         | Inl u \<Rightarrow> (vs, missing(destination \<mapsto> constant_reason u (cref_key r)))))"

definition frame_new ::
  "(decl_key \<times> ('f, 't) runtime_value constant_reference) list \<Rightarrow> (dag_id \<times> ('f, 't) runtime_value value_map) list \<Rightarrow>
   ('f, 't) runtime_value const_pool \<Rightarrow> (decl_key \<Rightarrow> ('f, 't, 'l) presented option) \<Rightarrow>
   ('f, 't, 'l) frame \<times> (decl_key \<Rightarrow> bool)" where
  "frame_new const_imports closures P const_presentations =
     (let (imported, missing) = foldl bind_import (Map.empty, Map.empty) const_imports;
          vs = foldl (\<lambda>vs (_, constants). vs ++ constants) imported closures;
          errors = missing ++ (\<lambda>key. if rn_owner key \<in> fst ` set closures
            then map_option (\<lambda>u. constant_reason u key) (cp_unfinished P key) else None)
      in (\<lparr>fr_values = vs,
           fr_presented = (\<lambda>key. if vs key \<noteq> None then const_presentations key else None),
           fr_errors = errors\<rparr>,
          \<lambda>key. errors key \<noteq> None))"

text \<open>An argument is bound like a computed value, under the domain of its declaration.\<close>

definition frame_bind_argument ::
  "('f, 't, 'l, 'x, 'd, 'w) frame_env \<Rightarrow> (decl_key \<Rightarrow> 'x option) \<Rightarrow> decl_key \<Rightarrow> ('f, 't, 'l) presented \<Rightarrow> 'x \<Rightarrow>
   ('f, 't, 'l) frame \<Rightarrow> (('f, 't, 'l) frame, 'd frame_outcome) result" where
  "frame_bind_argument env domain_constraint key v source fr = frame_bind env key (domain_constraint key) v source fr"

section \<open>Running a declaration\<close>

definition run_step ::
  "('f, 't, 'l, 'x, 'd, 'w) frame_env \<Rightarrow> ('f, 'x) callable \<Rightarrow> ('f, 'x) step \<Rightarrow> ('f, 't, 'l) frame \<times> 'w \<Rightarrow>
   (('f, 't, 'l) frame \<times> 'w, 'd frame_outcome) result" where
  "run_step env c st s =
     (case s of (fr, w) \<Rightarrow>
      let d = st_declaration st; key = pd_key d;
          record_error = (\<lambda>reason. Inr (fr\<lparr>fr_errors := (fr_errors fr)(key \<mapsto> reason)\<rparr>, w))
      in if fr_values fr key \<noteq> None \<or> fr_errors fr key \<noteq> None then Inr (fr, w)
         else case st_body st of
           TodoBody \<Rightarrow> record_error (TodoReason key)
         | BlockedInGroup members \<Rightarrow>
             (case blocked_by (map (\<lambda>m. (m, TodoReason m)) members @ unavailable_inputs env c fr st) of
                Some reason \<Rightarrow> record_error reason
              | None \<Rightarrow> Inr (fr, w))
         | ExpressionBody hir tree \<Rightarrow>
             (case blocked_by (unavailable_inputs env c fr st) of
                Some reason \<Rightarrow> record_error reason
              | None \<Rightarrow>
                  (case tree of
                     Inl e \<Rightarrow> Inl (FailedOutcome (InternalFailure (env_not_executable env e)))
                   | Inr body \<Rightarrow>
                       (case env_evaluate env (ScheduledDeclaration key (pd_scope d) body) fr w of
                          (Inr v, w) \<Rightarrow>
                            res_map (\<lambda>fr. (fr, w)) (frame_bind env key (pd_domain d) v (pd_scope d) fr)
                        | (Inl CancelledOutcome, w) \<Rightarrow> Inl CancelledOutcome
                        | (Inl (FailedOutcome error), w) \<Rightarrow>
                            res_map (\<lambda>fr. (fr, w)) (frame_failure env key error fr)))))"

section \<open>Running a recurrence group\<close>

datatype 'd member_problem = FailedProblem "'d semantic_failure" | UnavailableProblem reason

datatype 'd group_stop = OutcomeStop "'d frame_outcome" | StuckStop decl_key nat

definition group_keys :: "('f, 'x) callable \<Rightarrow> ('f, 'x) planned_group \<Rightarrow> decl_key list" where
  "group_keys c G = map (\<lambda>m. step_key c (mp_step m)) (pg_members G)"

definition group_step :: "('f, 'x) callable \<Rightarrow> ('f, 'x) planned_group \<Rightarrow> nat \<Rightarrow> ('f, 'x) step" where
  "group_step c G p = cl_steps c ! mp_step (pg_members G ! p)"

definition fill_slots :: "'v slots \<Rightarrow> nat \<Rightarrow> 'v list \<Rightarrow> 'v slots" where
  "fill_slots slots p elements =
     foldl (\<lambda>slots (i, e). slots_set slots p i (ComputedSlot e)) slots (enumerate 0 elements)"

text \<open>Supplied members are filled before the group runs, members with an unavailable input outside
  the group are blocked: slots, whether the member is supplied, and its problem.\<close>

definition prepare_member ::
  "('f, 't, 'l, 'x, 'd, 'w) frame_env \<Rightarrow> ('f, 'x) callable \<Rightarrow> ('f, 'x) planned_group \<Rightarrow> ('f, 't, 'l) frame \<Rightarrow>
   ('f, 't, 'l) presented slots \<times> bool list \<times> 'd member_problem option list \<Rightarrow> nat \<Rightarrow>
   ('f, 't, 'l) presented slots \<times> bool list \<times> 'd member_problem option list" where
  "prepare_member env c G fr s p =
     (case s of (slots, supplied, problems) \<Rightarrow>
      let key = group_keys c G ! p in
      case fr_values fr key of
        Some v \<Rightarrow>
          (let evaluated = (case fr_presented fr key of Some e \<Rightarrow> e | None \<Rightarrow> plain v)
           in (case into_entries evaluated of Inr entries \<Rightarrow> fill_slots slots p (iv_entries entries) | Inl _ \<Rightarrow> slots,
               supplied[p := True], problems @ [None]))
      | None \<Rightarrow>
          (case fr_errors fr key of
             Some reason \<Rightarrow> (slots, supplied, problems @ [Some (UnavailableProblem reason)])
           | None \<Rightarrow>
               (slots, supplied,
                problems @ [map_option UnavailableProblem (blocked_by (unavailable_inputs env c fr (group_step c G p)))])))"


fun is_unavailable_problem :: "'d member_problem option \<Rightarrow> bool" where
  "is_unavailable_problem (Some (UnavailableProblem _)) = True"
| "is_unavailable_problem _ = False"

text \<open>Whether every dependency is computed; one that is not evaluated yet stops the group.\<close>

definition check_ready ::
  "'v slots \<Rightarrow> 'd group_stop \<Rightarrow> (nat \<times> nat) list \<Rightarrow> (bool, 'd group_stop) result" where
  "check_ready slots stop dependencies =
     try_fold (\<lambda>ready (dependency, at_step).
         case slot_at slots dependency at_step of
           None \<Rightarrow> Inl stop
         | Some PendingSlot \<Rightarrow> Inl stop
         | Some (ComputedSlot _) \<Rightarrow> Inr ready
         | Some _ \<Rightarrow> Inr False)
       True dependencies"

definition element_previous ::
  "('f, 't, 'l) presented slots \<Rightarrow> 'd group_stop \<Rightarrow> decl_key \<Rightarrow> ('f, 'x) recurrence_body \<Rightarrow> nat \<Rightarrow>
   'f key_value option \<Rightarrow> (('f, 't, 'l) previous_step option, 'd group_stop) result" where
  "element_previous slots stop key body step previous_key =
     (case (body, previous_key) of
        (UnfoldBody _ _ _ _, Some previous_key) \<Rightarrow>
          (case (slots_computed slots key (step - 1), slots_computed slots key 0) of
             (Inr state, Inr initial) \<Rightarrow>
               Inr (Some \<lparr>ps_key = previous_key, ps_state = state, ps_initial = initial\<rparr>)
           | _ \<Rightarrow> Inl stop)
      | _ \<Rightarrow> Inr None)"

type_synonym ('f, 't, 'l, 'd) group_state = "('f, 't, 'l) presented slots \<times> 'd member_problem option list"

definition element_failed ::
  "('f, 't, 'l, 'x, 'd, 'w) frame_env \<Rightarrow> 'd semantic_failure \<Rightarrow> nat \<Rightarrow> nat \<Rightarrow> ('f, 't, 'l, 'd) group_state \<Rightarrow>
   (('f, 't, 'l, 'd) group_state, 'd group_stop) result" where
  "element_failed env failure p step gs =
     (case gs of (slots, problems) \<Rightarrow>
      let note = (\<lambda>problem. if problems ! p = None then problems[p := Some problem] else problems)
      in case failure of
           InternalFailure _ \<Rightarrow> Inl (OutcomeStop (FailedOutcome failure))
         | UnavailableFailure reason _ \<Rightarrow>
             Inr (slots_set slots p step UnavailableSlot, note (UnavailableProblem reason))
         | OtherFailure _ \<Rightarrow>
             if env_policy env = PropagateFailures then Inl (OutcomeStop (FailedOutcome failure))
             else Inr (slots_set slots p step FailedSlot, note (FailedProblem failure)))"

definition evaluate_element ::
  "('f, 't, 'l, 'x, 'd, 'w) frame_env \<Rightarrow> ('f, 'x) callable \<Rightarrow> ('f, 'x) planned_group \<Rightarrow> ('f, 't, 'l) frame \<Rightarrow>
   nat \<times> 'f key_value \<times> 'f key_value option \<Rightarrow> nat \<Rightarrow> ('f, 't, 'l) previous_step option \<Rightarrow>
   ('f, 't, 'l, 'd) group_state \<times> 'w \<Rightarrow> (('f, 't, 'l, 'd) group_state \<times> 'w, 'd group_stop) result" where
  "evaluate_element env c G fr row p previous s =
     (case s of ((slots, problems), w) \<Rightarrow> case row of (step, here, _) \<Rightarrow>
      let d = st_declaration (group_step c G p); source = pd_scope d in
      case env_evaluate env (ScheduledElement (group_keys c G ! p) source (pg_members G ! p) here previous slots) fr w of
        (evaluated, w) \<Rightarrow>
          (case evaluated of
             Inr v \<Rightarrow>
               (case domain_violation env v (pd_domain d) source of
                  None \<Rightarrow> Inr ((slots_set slots p step (ComputedSlot v), problems), w)
                | Some failure \<Rightarrow> res_map (\<lambda>gs. (gs, w)) (element_failed env failure p step (slots, problems)))
           | Inl CancelledOutcome \<Rightarrow> Inl (OutcomeStop CancelledOutcome)
           | Inl (FailedOutcome failure) \<Rightarrow>
               res_map (\<lambda>gs. (gs, w)) (element_failed env failure p step (slots, problems))))"

definition run_element ::
  "('f, 't, 'l, 'x, 'd, 'w) frame_env \<Rightarrow> ('f, 'x) callable \<Rightarrow> ('f, 'x) planned_group \<Rightarrow> bool list \<Rightarrow>
   ('f, 't, 'l) frame \<Rightarrow> nat \<times> 'f key_value \<times> 'f key_value option \<Rightarrow>
   ('f, 't, 'l, 'd) group_state \<times> 'w \<Rightarrow> nat \<Rightarrow> (('f, 't, 'l, 'd) group_state \<times> 'w, 'd group_stop) result" where
  "run_element env c G supplied fr row s p =
     (case s of ((slots, problems), w) \<Rightarrow> case row of (step, here, previous_key) \<Rightarrow>
      let key = group_keys c G ! p; stop = StuckStop key step in
      if supplied ! p then Inr s
      else if is_unavailable_problem (problems ! p)
      then Inr ((slots_set slots p step UnavailableSlot, problems), w)
      else
        res_bind (check_ready slots stop (element_dependencies (pg_plan G) p step)) (\<lambda>ready.
          if \<not> ready then Inr ((slots_set slots p step UnavailableSlot, problems), w)
          else
            res_bind (element_previous slots stop key (mp_body (pg_members G ! p)) step previous_key) (\<lambda>previous.
              evaluate_element env c G fr row p previous s)))"

definition run_row ::
  "('f, 't, 'l, 'x, 'd, 'w) frame_env \<Rightarrow> ('f, 'x) callable \<Rightarrow> ('f, 'x) planned_group \<Rightarrow> bool list \<Rightarrow>
   ('f, 't, 'l) frame \<Rightarrow> ('f, 't, 'l, 'd) group_state \<times> 'w \<Rightarrow> nat \<times> 'f key_value \<times> 'f key_value option \<Rightarrow>
   (('f, 't, 'l, 'd) group_state \<times> 'w, 'd group_stop) result" where
  "run_row env c G supplied fr s row =
     (case s of (gs, w) \<Rightarrow>
        (case env_cancelled env w of
           (True, _) \<Rightarrow> Inl (OutcomeStop CancelledOutcome)
         | (False, w) \<Rightarrow> try_fold (run_element env c G supplied fr row) (gs, w) [0..<length (pg_members G)]))"

text \<open>The steps of an axis, each with its key and the key of the step before.\<close>

definition axis_rows :: "'f index_axis \<Rightarrow> (nat \<times> 'f key_value \<times> 'f key_value option) list" where
  "axis_rows axis = enumerate 0 (zip (key_all axis) (None # map Some (key_all axis)))"

definition record_problem ::
  "('f, 't, 'l, 'x, 'd, 'w) frame_env \<Rightarrow> decl_key list \<Rightarrow> ('f, 't, 'l) frame \<Rightarrow> nat \<times> 'd member_problem option \<Rightarrow>
   (('f, 't, 'l) frame, 'd frame_outcome) result" where
  "record_problem env keys fr p =
     (case p of (i, problem) \<Rightarrow>
      let key = keys ! i in
      case problem of
        Some (FailedProblem error) \<Rightarrow> frame_failure env key error fr
      | Some (UnavailableProblem reason) \<Rightarrow>
          Inr (if fr_errors fr key = None then fr\<lparr>fr_errors := (fr_errors fr)(key \<mapsto> reason)\<rparr> else fr)
      | None \<Rightarrow> Inr fr)"

text \<open>One pass of the loop that records members depending on members with a problem.\<close>

definition trouble_member ::
  "recurrence_plan \<Rightarrow> decl_key list \<Rightarrow> bool list \<Rightarrow> (decl_key \<Rightarrow> reason option) \<times> bool list \<times> bool \<Rightarrow> nat \<Rightarrow>
   (decl_key \<Rightarrow> reason option) \<times> bool list \<times> bool" where
  "trouble_member plan keys supplied s p =
     (case s of (errors, troubled, progressed) \<Rightarrow>
      let failed_reads = filter (\<lambda>t. \<not> supplied ! t \<and> troubled ! t) (map gr_target (rm_reads (plan ! p))) in
      if supplied ! p \<or> troubled ! p then s
      else if failed_reads = [] then s
      else
        let reason =
          (case blocked_by (List.map_filter (\<lambda>t. map_option (Pair (keys ! t)) (errors (keys ! t))) failed_reads) of
             Some reason \<Rightarrow> reason
           | None \<Rightarrow> DependencyFailed (map (\<lambda>t. keys ! t) failed_reads))
        in (errors(keys ! p \<mapsto> reason), troubled[p := True], True))"

definition trouble_pass ::
  "recurrence_plan \<Rightarrow> decl_key list \<Rightarrow> bool list \<Rightarrow> (decl_key \<Rightarrow> reason option) \<times> bool list \<Rightarrow>
   (decl_key \<Rightarrow> reason option) \<times> bool list \<times> bool" where
  "trouble_pass plan keys supplied s =
     (case s of (errors, troubled) \<Rightarrow>
        foldl (trouble_member plan keys supplied) (errors, troubled, False) [0..<length keys])"

text \<open>The members that are not troubled; a pass that progresses leaves fewer.\<close>

definition untroubled :: "nat \<Rightarrow> bool list \<Rightarrow> nat" where
  "untroubled n troubled = card {p. p < n \<and> \<not> troubled ! p}"

lemma trouble_pass_untroubled:
  assumes "trouble_pass plan keys supplied (errors, troubled) = (errors', troubled', progressed)"
  shows "untroubled (length keys) troubled' \<le> untroubled (length keys) troubled \<and>
    (progressed \<longrightarrow> length keys \<le> length troubled \<longrightarrow> untroubled (length keys) troubled' < untroubled (length keys) troubled) \<and>
    length troubled' = length troubled"
proof -
  let ?u = "untroubled (length keys)"
  let ?P = "\<lambda>(e, t, pr). ?u t \<le> ?u troubled \<and> (pr \<longrightarrow> length keys \<le> length troubled \<longrightarrow> ?u t < ?u troubled) \<and>
    length t = length troubled"
  have step: "?P (trouble_member plan keys supplied s p)" if "?P s" "p < length keys" for s p
  proof -
    obtain e t pr where s: "s = (e, t, pr)" by (cases s)
    have less: "?u (t[p := True]) < ?u t" if "\<not> t ! p" "length keys \<le> length t"
      unfolding untroubled_def
    proof (rule psubset_card_mono)
      show "{q. q < length keys \<and> \<not> t[p := True] ! q} \<subset> {q. q < length keys \<and> \<not> t ! q}"
        using that \<open>p < length keys\<close> by (auto simp: nth_list_update)
    qed simp
    have le: "?u (t[p := True]) \<le> ?u t" unfolding untroubled_def
      by (rule card_mono) (auto simp: nth_list_update split: if_splits, metis list_update_beyond not_le nth_list_update)
    show ?thesis using that(1) less le unfolding s trouble_member_def Let_def by auto
  qed
  have "?P (foldl (trouble_member plan keys supplied) s ps)" if "?P s" "set ps \<subseteq> {..<length keys}" for s ps
    using that by (induction ps arbitrary: s) (use step in auto)
  from this [of "(errors, troubled, False)" "[0..<length keys]"] assms show ?thesis
    by (simp add: trouble_pass_def atLeast0LessThan)
qed


text \<open>The loop until nothing progresses; indexing a shorter list of flags would panic.\<close>

function trouble_loop ::
  "recurrence_plan \<Rightarrow> decl_key list \<Rightarrow> bool list \<Rightarrow> (decl_key \<Rightarrow> reason option) \<Rightarrow> bool list \<Rightarrow>
   (decl_key \<Rightarrow> reason option) \<times> bool list" where
  "trouble_loop plan keys supplied errors troubled =
     (if length troubled < length keys then (errors, troubled)
      else case trouble_pass plan keys supplied (errors, troubled) of
        (errors', troubled', progressed) \<Rightarrow>
          if progressed then trouble_loop plan keys supplied errors' troubled' else (errors', troubled'))"
  by pat_completeness auto
termination
  by (relation "measure (\<lambda>(plan, keys, supplied, errors, troubled). untroubled (length keys) troubled)")
    (auto dest!: trouble_pass_untroubled [OF sym])

declare trouble_loop.simps [simp del]

text \<open>Entries are drawn from the elements of the member, one per key of the axis.\<close>

definition group_entries ::
  "'f index_axis \<Rightarrow> 'd group_stop \<Rightarrow> 'v list \<Rightarrow> (('f, 'v) indexed_value, 'd group_stop) result" where
  "group_entries axis stop elements =
     res_map (\<lambda>entries. \<lparr>iv_axis = axis, iv_entries = entries\<rparr>)
       (try_map (\<lambda>(i, _). if i < length elements then Inr (elements ! i) else Inl stop)
         (enumerate 0 (key_all axis)))"

definition commit_member ::
  "('f, 't, 'l, 'x, 'd, 'w) frame_env \<Rightarrow> ('f, 'x) callable \<Rightarrow> ('f, 'x) planned_group \<Rightarrow> bool list \<Rightarrow> bool list \<Rightarrow>
   ('f, 't, 'l) presented slots \<times> ('f, 't, 'l) frame \<Rightarrow> nat \<Rightarrow>
   (('f, 't, 'l) presented slots \<times> ('f, 't, 'l) frame, 'd group_stop) result" where
  "commit_member env c G supplied troubled s p =
     (case s of (slots, fr) \<Rightarrow>
      let key = group_keys c G ! p; d = st_declaration (group_step c G p) in
      if supplied ! p \<or> troubled ! p then Inr s
      else case take_computed slots p of
        (taken, slots) \<Rightarrow>
          res_bind (group_entries (pg_axis G) (StuckStop key 0) (case taken of Some elements \<Rightarrow> elements | None \<Rightarrow> []))
            (\<lambda>entries.
              res_map (\<lambda>fr. (slots, fr))
                (map_err OutcomeStop (frame_bind env key (pd_domain d) (from_indexed entries) (pd_scope d) fr))))"

definition evaluate_group ::
  "('f, 't, 'l, 'x, 'd, 'w) frame_env \<Rightarrow> ('f, 'x) callable \<Rightarrow> ('f, 'x) planned_group \<Rightarrow> ('f, 't, 'l) frame \<times> 'w \<Rightarrow>
   (('f, 't, 'l) frame \<times> 'w, 'd group_stop) result" where
  "evaluate_group env c G s =
     (case s of (fr, w) \<Rightarrow>
      let n = length (pg_members G); keys = group_keys c G in
      case foldl (prepare_member env c G fr)
          (slots_new keys (length (key_all (pg_axis G))), replicate n False, []) [0..<n] of
        (slots, supplied, problems) \<Rightarrow>
          res_bind (try_fold (run_row env c G supplied fr) ((slots, problems), w) (axis_rows (pg_axis G)))
            (\<lambda>((slots, problems), w).
              res_bind (map_err OutcomeStop (try_fold (record_problem env keys) fr (enumerate 0 problems))) (\<lambda>fr.
                case trouble_loop (pg_plan G) keys supplied (fr_errors fr) (map (\<lambda>p. p \<noteq> None) problems) of
                  (errors, troubled) \<Rightarrow>
                    res_map (\<lambda>(_, fr). (fr, w))
                      (try_fold (commit_member env c G supplied troubled) (slots, fr\<lparr>fr_errors := errors\<rparr>) [0..<n]))))"

definition run_group ::
  "('f, 't, 'l, 'x, 'd, 'w) frame_env \<Rightarrow> ('f, 'x) callable \<Rightarrow> ('f, 'x) planned_group \<Rightarrow> ('f, 't, 'l) frame \<times> 'w \<Rightarrow>
   (('f, 't, 'l) frame \<times> 'w, 'd frame_outcome) result" where
  "run_group env c G s =
     map_err (\<lambda>stop. case stop of
         OutcomeStop outcome \<Rightarrow> outcome
       | StuckStop member step \<Rightarrow> FailedOutcome (InternalFailure (env_stuck env member step)))
       (evaluate_group env c G s)"

section \<open>Running a callable\<close>

definition run_one ::
  "('f, 't, 'l, 'x, 'd, 'w) frame_env \<Rightarrow> ('f, 'x) callable \<Rightarrow> ('f, 't, 'l) frame \<times> 'w \<Rightarrow> run_unit \<Rightarrow>
   (('f, 't, 'l) frame \<times> 'w, 'd frame_outcome) result" where
  "run_one env c s unit =
     (case s of (fr, w) \<Rightarrow>
        (case env_cancelled env w of
           (True, _) \<Rightarrow> Inl CancelledOutcome
         | (False, w) \<Rightarrow>
             (case unit of
                StepUnit i \<Rightarrow> run_step env c (cl_steps c ! i) (fr, w)
              | GroupUnit g \<Rightarrow> run_group env c (cl_groups c ! g) (fr, w))))"

definition frame_run ::
  "('f, 't, 'l, 'x, 'd, 'w) frame_env \<Rightarrow> ('f, 'x) callable \<Rightarrow> ('f, 't, 'l) frame \<times> 'w \<Rightarrow>
   (('f, 't, 'l) frame \<times> 'w, 'd frame_outcome) result" where
  "frame_run env c s = try_fold (run_one env c) s (cl_units c)"


section \<open>The frame invariant\<close>

text \<open>A declaration holds a value or a reason, never both, and a presented value is kept only for
  the value it presents.\<close>

definition frame_inv :: "('f, 't, 'l) frame \<Rightarrow> bool" where
  "frame_inv fr \<longleftrightarrow>
     (\<forall>k. fr_values fr k \<noteq> None \<longrightarrow> fr_errors fr k = None) \<and>
     (\<forall>k p. fr_presented fr k = Some p \<longrightarrow> fr_values fr k = Some (into_value p)) \<and>
     (\<forall>k r. fr_errors fr k = Some r \<longrightarrow> reason_ok r)"

definition decided :: "('f, 't, 'l) frame \<Rightarrow> decl_key \<Rightarrow> bool" where
  "decided fr k \<longleftrightarrow> fr_values fr k \<noteq> None \<or> fr_errors fr k \<noteq> None"

text \<open>Only the given undecided declarations change.\<close>

definition changes_only :: "decl_key set \<Rightarrow> ('f, 't, 'l) frame \<Rightarrow> ('f, 't, 'l) frame \<Rightarrow> bool" where
  "changes_only K fr fr' \<longleftrightarrow>
     (\<forall>k. k \<notin> K \<or> decided fr k \<longrightarrow> fr_values fr' k = fr_values fr k \<and> fr_errors fr' k = fr_errors fr k \<and>
        fr_presented fr' k = fr_presented fr k)"

definition env_ok :: "('f, 't, 'l, 'x, 'd, 'w) frame_env \<Rightarrow> bool" where
  "env_ok env \<longleftrightarrow>
     (\<forall>entry fr w reason d w'. env_evaluate env entry fr w = (Inl (FailedOutcome (UnavailableFailure reason d)), w') \<longrightarrow> reason_ok reason) \<and>
     (\<forall>x v source reason d. env_violation env x v source = Some (UnavailableFailure reason d) \<longrightarrow> reason_ok reason)"

lemma env_okD:
  assumes "env_ok env"
  shows "env_evaluate env entry fr w = (Inl (FailedOutcome (UnavailableFailure r d)), w') \<Longrightarrow> reason_ok r"
    and "domain_violation env v domain source = Some (UnavailableFailure r d) \<Longrightarrow> reason_ok r"
  using assms unfolding env_ok_def domain_violation_def bind_eq_Some_conv by blast+

lemma changes_only_refl: "changes_only K fr fr"
  by (simp add: changes_only_def)

lemma changes_only_trans:
  "changes_only K fr fr' \<Longrightarrow> changes_only J fr' fr'' \<Longrightarrow> changes_only (K \<union> J) fr fr''"
  by (auto simp: changes_only_def decided_def)

lemma changes_only_decided: "changes_only K fr fr' \<Longrightarrow> decided fr k \<Longrightarrow> decided fr' k"
  by (auto simp: changes_only_def decided_def)

lemma frame_failure_iff:
  "frame_failure env key error fr = Inr fr' \<longleftrightarrow>
     (\<forall>d. error \<noteq> InternalFailure d) \<and>
     (env_policy env = PropagateFailures \<longrightarrow> (\<exists>r d. error = UnavailableFailure r d \<and> \<not> has_failure r)) \<and>
     fr' = fr\<lparr>fr_errors := (fr_errors fr)(key \<mapsto> eval_failed_node_error env error)\<rparr>"
  by (cases error; cases "env_policy env") (auto simp: frame_failure_def Let_def)

lemma node_error_ok:
  "(\<And>r d. error = UnavailableFailure r d \<Longrightarrow> reason_ok r) \<Longrightarrow> reason_ok (eval_failed_node_error env error)"
  by (auto simp: eval_failed_node_error_def split: semantic_failure.split unavailable.split)

lemma record_reason_ok:
  assumes "frame_inv fr" "fr_values fr key = None" "reason_ok r"
  shows "frame_inv (fr\<lparr>fr_errors := (fr_errors fr)(key \<mapsto> r)\<rparr>)"
  using assms by (auto simp: frame_inv_def)

lemma record_reason_changes:
  "\<not> decided fr key \<Longrightarrow> changes_only {key} fr (fr\<lparr>fr_errors := (fr_errors fr)(key \<mapsto> r)\<rparr>)"
  by (auto simp: changes_only_def)

lemma frame_failure_ok:
  assumes "frame_failure env key error fr = Inr fr'" "frame_inv fr" "\<not> decided fr key"
    and "\<And>r d. error = UnavailableFailure r d \<Longrightarrow> reason_ok r"
  shows "frame_inv fr' \<and> changes_only {key} fr fr' \<and> fr_errors fr' key \<noteq> None \<and> fr_values fr' key = None"
proof -
  have fr': "fr' = fr\<lparr>fr_errors := (fr_errors fr)(key \<mapsto> eval_failed_node_error env error)\<rparr>"
    using assms(1) unfolding frame_failure_iff by blast
  have "reason_ok (eval_failed_node_error env error)" by (rule node_error_ok) (rule assms(4))
  then show ?thesis
    using record_reason_ok [OF assms(2)] record_reason_changes [OF assms(3)] assms(3) unfolding fr' decided_def by auto
qed

lemma frame_bind_ok:
  assumes "frame_bind env key domain v source fr = Inr fr'" "frame_inv fr" "\<not> decided fr key" "env_ok env"
  shows "frame_inv fr' \<and> changes_only {key} fr fr' \<and>
    (if domain_violation env v domain source = None then fr_values fr' key = Some (into_value v) \<and> fr_errors fr' key = None
     else fr_values fr' key = None \<and> fr_errors fr' key \<noteq> None)"
proof (cases "domain_violation env v domain source")
  case None
  with assms(1) have fr': "fr' = frame_store key v fr" by (simp add: frame_bind_def)
  have "frame_inv fr'" using assms(2,3) by (auto simp: fr' frame_store_def frame_inv_def decided_def)
  moreover have "changes_only {key} fr fr'" using assms(3) by (auto simp: fr' frame_store_def changes_only_def)
  ultimately show ?thesis using assms(3) None by (auto simp: fr' frame_store_def decided_def)
next
  case (Some error)
  have presented: "fr_presented fr key = None"
    using assms(2,3) by (cases "fr_presented fr key") (auto simp: frame_inv_def decided_def)
  have same: "fr\<lparr>fr_values := (fr_values fr)(key := None), fr_presented := (fr_presented fr)(key := None)\<rparr> = fr"
    using assms(3) presented by (cases fr) (auto simp: decided_def fun_upd_idem_iff)
  have failed: "frame_failure env key error fr = Inr fr'"
    using assms(1) Some by (simp add: frame_bind_def same)
  have reasons: "reason_ok r" if "error = UnavailableFailure r d" for r d
    using env_okD(2) [OF assms(4)] Some that by blast
  from frame_failure_ok [OF failed assms(2,3) reasons] Some show ?thesis by auto
qed

section \<open>Running a declaration keeps the invariant\<close>

text \<open>Bodies as they are planned: the unfinished members that block a group are a \<open>NonEmpty\<close>.\<close>

definition step_body_ok :: "('f, 'x) step \<Rightarrow> bool" where
  "step_body_ok st \<longleftrightarrow> st_body st \<noteq> BlockedInGroup []"

lemma unavailable_inputs_ok:
  "frame_inv fr \<Longrightarrow> (k, r) \<in> set (unavailable_inputs env c fr st) \<Longrightarrow> reason_ok r"
  by (auto simp: unavailable_inputs_def in_map_filter frame_inv_def)

lemma unavailable_inputs_Nil:
  "unavailable_inputs env c fr st = [] \<longleftrightarrow>
     (\<forall>d \<in> set (st_deps st). fr_errors fr (step_key c d) = None) \<and>
     (\<forall>read \<in> set (pd_reads (st_declaration st)). env_unfinished env read \<longrightarrow> fr_errors fr read = None)"
proof -
  have "unavailable_inputs env c fr st = [] \<longleftrightarrow>
      (\<forall>k r. (k, r) \<notin> set (unavailable_inputs env c fr st))" by (cases "unavailable_inputs env c fr st") auto
  then show ?thesis by (auto simp: unavailable_inputs_def in_map_filter)
qed

lemma run_step_ok:
  assumes "run_step env c st (fr, w) = Inr (fr', w')" "frame_inv fr" "env_ok env" "step_body_ok st"
  shows "frame_inv fr' \<and> changes_only {pd_key (st_declaration st)} fr fr' \<and> decided fr' (pd_key (st_declaration st)) \<and>
    (fr_values fr (pd_key (st_declaration st)) = None \<and> fr_values fr' (pd_key (st_declaration st)) \<noteq> None \<longrightarrow>
       unavailable_inputs env c fr st = [])"
proof (cases "decided fr (pd_key (st_declaration st))")
  case True
  with assms(1,2) show ?thesis by (auto simp: run_step_def Let_def decided_def changes_only_refl)
next
  case False
  let ?d = "st_declaration st"
  let ?key = "pd_key ?d"
  let ?rec = "\<lambda>r. fr\<lparr>fr_errors := (fr_errors fr)(?key \<mapsto> r)\<rparr>"
  have recorded: "?thesis" if "fr' = ?rec r" "reason_ok r" for r
    using record_reason_ok [OF assms(2), of ?key r] record_reason_changes [OF False] that False
    by (auto simp: decided_def)
  have undecided: "\<not> (fr_values fr ?key \<noteq> None \<or> fr_errors fr ?key \<noteq> None)" using False by (simp add: decided_def)
  show ?thesis
  proof (cases "st_body st")
    case TodoBody
    with assms(1) undecided have "fr' = ?rec (TodoReason ?key)" by (auto simp: run_step_def Let_def)
    then show ?thesis by (rule recorded) simp
  next
    case (BlockedInGroup members)
    let ?ds = "map (\<lambda>m. (m, TodoReason m)) members @ unavailable_inputs env c fr st"
    have "members \<noteq> []" using assms(4) BlockedInGroup by (auto simp: step_body_ok_def)
    then have "blocked_by ?ds \<noteq> None"
      by (subst blocked_by_None) (auto dest: unavailable_inputs_ok [OF assms(2)])
    then obtain r where r: "blocked_by ?ds = Some r" by auto
    with assms(1) undecided BlockedInGroup have "fr' = ?rec r" by (auto simp: run_step_def Let_def)
    then show ?thesis by (rule recorded) (rule blocked_by_ok [OF r])
  next
    case (ExpressionBody hir tree)
    show ?thesis
    proof (cases "blocked_by (unavailable_inputs env c fr st)")
      case (Some r)
      with assms(1) undecided ExpressionBody have "fr' = ?rec r" by (auto simp: run_step_def Let_def)
      then show ?thesis by (rule recorded) (rule blocked_by_ok [OF Some])
    next
      case None
      then have inputs: "unavailable_inputs env c fr st = []"
        by (subst (asm) blocked_by_None) (auto dest: unavailable_inputs_ok [OF assms(2)])
      obtain body where tree: "tree = Inr body"
        using assms(1) undecided ExpressionBody None by (cases tree) (auto simp: run_step_def Let_def)
      let ?entry = "ScheduledDeclaration ?key (pd_scope ?d) body"
      obtain result w1 where eval: "env_evaluate env ?entry fr w = (result, w1)" by (cases "env_evaluate env ?entry fr w")
      show ?thesis
      proof (cases result)
        case (Inr v)
        with assms(1) undecided ExpressionBody None tree eval
        have "frame_bind env ?key (pd_domain ?d) v (pd_scope ?d) fr = Inr fr'"
          by (auto simp: run_step_def Let_def result_iffs)
        from frame_bind_ok [OF this assms(2) False assms(3)] inputs show ?thesis
          by (auto simp: decided_def split: if_splits)
      next
        case (Inl outcome)
        with assms(1) undecided ExpressionBody None tree eval obtain error where
          error: "outcome = FailedOutcome error" "frame_failure env ?key error fr = Inr fr'"
          by (cases outcome) (auto simp: run_step_def Let_def result_iffs)
        have "reason_ok r" if "error = UnavailableFailure r d" for r d
          using env_okD(1) [OF assms(3)] eval Inl error(1) that by blast
        from frame_failure_ok [OF error(2) assms(2) False this] inputs show ?thesis by (auto simp: decided_def)
      qed
    qed
  qed
qed

section \<open>New frames\<close>

lemma import_fold:
  assumes "foldl bind_import (vs, missing) const_imports = (vs', missing')" "distinct (map fst const_imports)"
  shows "vs' k = (case map_of const_imports k of
       Some r \<Rightarrow> (case reference_value r of Inr v \<Rightarrow> Some v | Inl _ \<Rightarrow> vs k) | None \<Rightarrow> vs k) \<and>
    missing' k = (case map_of const_imports k of
       Some r \<Rightarrow> (case reference_value r of Inl u \<Rightarrow> Some (constant_reason u (cref_key r)) | Inr _ \<Rightarrow> missing k) | None \<Rightarrow> missing k)"
  using assms
proof (induction const_imports arbitrary: vs missing)
  case (Cons i const_imports)
  obtain d r where i: "i = (d, r)" by (cases i)
  obtain vs1 missing1 where one: "bind_import (vs, missing) i = (vs1, missing1)" by (rule prod.exhaust)
  have rest: "foldl bind_import (vs1, missing1) const_imports = (vs', missing')"
    and distinct: "distinct (map fst const_imports)" using Cons.prems one by simp_all
  have new: "vs1 k = (if k = d then case reference_value r of Inr v \<Rightarrow> Some v | Inl _ \<Rightarrow> vs k else vs k)"
    "missing1 k = (if k = d then case reference_value r of Inl u \<Rightarrow> Some (constant_reason u (cref_key r)) | Inr _ \<Rightarrow> missing k else missing k)"
    using one by (auto simp: bind_import_def i split: sum.splits)
  show ?case
  proof (cases "k = d")
    case True
    then have "map_of const_imports k = None" using Cons.prems(2) by (simp add: i map_of_eq_None_iff)
    with Cons.IH [OF rest distinct] new True show ?thesis by (simp add: i)
  next
    case False
    with new have "vs1 k = vs k" "missing1 k = missing k" by simp_all
    note same = this
    show ?thesis using Cons.IH [OF rest distinct] False unfolding same by (simp add: i)
  qed
qed simp

lemma closure_fold:
  assumes "\<And>dag m k. (dag, m) \<in> set closures \<Longrightarrow> m k = (if rn_owner k = dag then f k else None)"
  shows "foldl (\<lambda>vs (_, constants). vs ++ constants) vs closures k =
    (if rn_owner k \<in> fst ` set closures \<and> f k \<noteq> None then f k else vs k)"
  using assms
proof (induction closures arbitrary: vs)
  case (Cons c closures)
  obtain dag m where c: "c = (dag, m)" by (cases c)
  have m: "m k = (if rn_owner k = dag then f k else None)" using Cons.prems [of dag m k] by (simp add: c)
  have "foldl (\<lambda>vs (_, constants). vs ++ constants) (vs ++ m) closures k =
      (if rn_owner k \<in> fst ` set closures \<and> f k \<noteq> None then f k else (vs ++ m) k)"
    by (rule Cons.IH) (use Cons.prems in auto)
  then show ?case using m by (auto simp: c map_add_def split: option.split)
qed simp

text \<open>A new frame satisfies the invariant when its pools do: imports are bound under keys of their own,
  the constants come from the pools, and presentations present the constants.\<close>

lemma frame_new_inv:
  assumes frame: "frame_new const_imports closures P const_presentations = (fr, unfinished_constants)"
    and P: "pool_ok P" "\<forall>(dag, constants) \<in> set closures. cp_by_dag P dag = Some constants"
    and const_imports: "distinct (map fst const_imports)" "\<forall>(destination, r) \<in> set const_imports. rn_owner destination \<notin> fst ` set closures"
      "\<forall>(destination, r) \<in> set const_imports. \<forall>u. reference_value r = Inl u \<longrightarrow> u \<noteq> BlockedConstant []"
    and shown: "\<forall>k p. const_presentations k = Some p \<longrightarrow> fr_values fr k = Some (into_value p) \<or> fr_values fr k = None"
  shows "frame_inv fr \<and> (\<forall>k. unfinished_constants k \<longleftrightarrow> fr_errors fr k \<noteq> None) \<and>
    (\<forall>k. rn_owner k \<in> fst ` set closures \<longrightarrow> fr_values fr k = pool_value P k \<and>
       fr_errors fr k = map_option (\<lambda>u. constant_reason u k) (cp_unfinished P k))"
proof -
  obtain vs missing where fold: "foldl bind_import (Map.empty, Map.empty) const_imports = (vs, missing)"
    by (rule prod.exhaust)
  note imported = import_fold [OF fold const_imports(1)]
  have "m k = (if rn_owner k = dag then pool_value P k else None)" if "(dag, m) \<in> set closures" for dag m k
  proof -
    have m: "cp_by_dag P dag = Some m" using P(2) that by auto
    show ?thesis
    proof (cases "rn_owner k = dag")
      case False
      have "m k \<noteq> None \<Longrightarrow> rn_owner k = dag" using m P(1) unfolding pool_ok_def by blast
      with False have "m k = None" by blast
      with False show ?thesis by simp
    qed (use m in \<open>simp add: pool_value_def\<close>)
  qed
  then have values_all: "foldl (\<lambda>vs (_, constants). vs ++ constants) vs closures k =
      (if rn_owner k \<in> fst ` set closures \<and> pool_value P k \<noteq> None then pool_value P k else vs k)" for k
    by (rule closure_fold)
  have fr: "fr_values fr k = (if rn_owner k \<in> fst ` set closures \<and> pool_value P k \<noteq> None then pool_value P k else vs k)"
    "fr_errors fr k = (if rn_owner k \<in> fst ` set closures \<and> cp_unfinished P k \<noteq> None
       then map_option (\<lambda>u. constant_reason u k) (cp_unfinished P k) else missing k)"
    "fr_presented fr k = (if fr_values fr k \<noteq> None then const_presentations k else None)"
    "unfinished_constants k \<longleftrightarrow> fr_errors fr k \<noteq> None" for k
  proof -
    define all where "all = foldl (\<lambda>vs (_, constants). vs ++ constants) vs closures"
    define holes where "holes = (\<lambda>key. if rn_owner key \<in> fst ` set closures
      then map_option (\<lambda>u. constant_reason u key) (cp_unfinished P key) else None)"
    have parts: "fr = \<lparr>fr_values = all, fr_presented = (\<lambda>key. if all key \<noteq> None then const_presentations key else None),
        fr_errors = missing ++ holes\<rparr>" "unfinished_constants = (\<lambda>key. (missing ++ holes) key \<noteq> None)"
      using frame unfolding frame_new_def fold Let_def prod.case all_def holes_def by simp_all
    have "all k = (if rn_owner k \<in> fst ` set closures \<and> pool_value P k \<noteq> None then pool_value P k else vs k)"
      unfolding all_def by (rule values_all)
    then show "fr_values fr k = (if rn_owner k \<in> fst ` set closures \<and> pool_value P k \<noteq> None then pool_value P k else vs k)"
      by (simp add: parts)
    show "fr_errors fr k = (if rn_owner k \<in> fst ` set closures \<and> cp_unfinished P k \<noteq> None
       then map_option (\<lambda>u. constant_reason u k) (cp_unfinished P k) else missing k)"
      by (auto simp: parts holes_def map_add_def split: option.split)
    show "fr_presented fr k = (if fr_values fr k \<noteq> None then const_presentations k else None)"
      "unfinished_constants k \<longleftrightarrow> fr_errors fr k \<noteq> None" by (simp_all add: parts)
  qed
  have import_owner: "vs k = None \<and> missing k = None" if "rn_owner k \<in> fst ` set closures" for k
  proof -
    have "map_of const_imports k = None"
    proof (cases "map_of const_imports k")
      case (Some r)
      with const_imports(2) have "rn_owner k \<notin> fst ` set closures" by (blast dest: map_of_SomeD)
      with that show ?thesis by simp
    qed simp
    with imported show ?thesis by simp
  qed
  have import_either: "vs k = None \<or> missing k = None" for k
    using imported by (auto split: option.split sum.split)
  have missing_ok: "reason_ok r" if r: "missing k = Some r" for k r
  proof -
    obtain ref where ref: "map_of const_imports k = Some ref" using imported r by (cases "map_of const_imports k") auto
    then have mem: "(k, ref) \<in> set const_imports" by (rule map_of_SomeD)
    obtain u where u: "reference_value ref = Inl u" "r = constant_reason u (cref_key ref)"
      using imported ref r by (cases "reference_value ref") auto
    with const_imports(3) mem have "u \<noteq> BlockedConstant []" by blast
    with u(2) show ?thesis by (cases u) auto
  qed
  have pool_reason: "reason_ok (constant_reason u k)" if "cp_unfinished P k = Some u" for u k
    using P(1) that by (cases u) (auto simp: pool_ok_def)
  have either: "fr_values fr k \<noteq> None \<longrightarrow> fr_errors fr k = None" for k
    using P(1) import_owner [of k] import_either [of k] by (auto simp: fr(1,2) pool_ok_def)
  have "frame_inv fr"
    unfolding frame_inv_def
  proof (intro conjI allI impI)
    show "fr_values fr k \<noteq> None \<Longrightarrow> fr_errors fr k = None" for k using either by blast
    show "fr_values fr k = Some (into_value p)" if "fr_presented fr k = Some p" for k p
    proof -
      have "fr_values fr k \<noteq> None" "const_presentations k = Some p" using that fr(3) [of k] by (simp_all split: if_splits)
      with shown show ?thesis by metis
    qed
    show "fr_errors fr k = Some r \<Longrightarrow> reason_ok r" for k r
      using missing_ok pool_reason by (auto simp: fr(2) split: if_splits)
  qed
  moreover have "fr_values fr k = pool_value P k \<and> fr_errors fr k = map_option (\<lambda>u. constant_reason u k) (cp_unfinished P k)"
    if "rn_owner k \<in> fst ` set closures" for k
    using import_owner [OF that] that by (auto simp: fr(1,2))
  ultimately show ?thesis using fr(4) by blast
qed

end
