(* ===== verification/Recurrence_Run.thy ===== *)
theory Recurrence_Run
  imports Execution_Frame
begin

text \<open>
  What running a frame promises (\<open>graphcal-eval/src/execution_frame.rs\<close>): the evaluator of a
  recurrence group meets every element after the elements it depends on, a frame that ran has
  decided every scheduled declaration, declarations that were decided before keep their outcome,
  and a declaration only gets a value when everything it waits for has one.
\<close>

section \<open>Slots\<close>

definition slots_shape :: "decl_key list \<Rightarrow> nat \<Rightarrow> 'v slots \<Rightarrow> bool" where
  "slots_shape keys steps slots \<longleftrightarrow>
     map fst slots = keys \<and> (\<forall>p < length keys. length (snd (slots ! p)) = steps)"

lemma slots_shape_length: "slots_shape keys steps slots \<Longrightarrow> length slots = length keys"
  by (auto simp: slots_shape_def)

lemma slot_at_shape:
  "slots_shape keys steps slots \<Longrightarrow> p < length keys \<Longrightarrow> t < steps \<Longrightarrow> slot_at slots p t = Some (snd (slots ! p) ! t)"
  by (simp add: slot_at_def slots_shape_length) (simp add: slots_shape_def)

lemma slots_set_shape: "slots_shape keys steps slots \<Longrightarrow> slots_shape keys steps (slots_set slots p t s)"
  by (auto simp: slots_shape_def slots_set_def list_eq_iff_nth_eq nth_list_update)

lemma slot_at_set:
  "slots_shape keys steps slots \<Longrightarrow> p < length keys \<Longrightarrow> t < steps \<Longrightarrow>
    slot_at (slots_set slots p t s) q u = (if q = p \<and> u = t then Some s else slot_at slots q u)"
  by (auto simp: slot_at_def slots_set_def slots_shape_length nth_list_update) (auto simp: slots_shape_def)

lemma slots_new_shape: "slots_shape keys steps (slots_new keys steps)"
  by (auto simp: slots_shape_def slots_new_def comp_def)

lemma slot_at_new: "p < length keys \<Longrightarrow> t < steps \<Longrightarrow> slot_at (slots_new keys steps) p t = Some PendingSlot"
  by (simp add: slot_at_def slots_new_def)

lemma slots_computed_eq:
  assumes "slots_shape keys steps slots" "distinct keys" "p < length keys" "t < steps"
  shows "slots_computed slots (keys ! p) t =
    (case slot_at slots p t of Some (ComputedSlot v) \<Rightarrow> Inr v | _ \<Rightarrow> Inl NotComputed)"
proof -
  have keys: "map fst slots = keys" and len: "p < length slots" "length (snd (slots ! p)) = steps"
    using assms by (auto simp: slots_shape_def)
  have at: "fst (slots ! q) = keys ! q" if "q < length slots" for q
    using keys that by auto
  have "find (\<lambda>(member, _). member = keys ! p) slots = Some (slots ! p)"
    unfolding find_Some_iff
  proof (intro exI [of _ p] conjI allI impI)
    show "case slots ! p of (member, _) \<Rightarrow> member = keys ! p" using at [OF len(1)] by (simp add: case_prod_beta)
    fix q assume "q < p"
    then show "\<not> (case slots ! q of (member, _) \<Rightarrow> member = keys ! p)"
      using at [of q] len(1) assms(2,3) by (simp add: case_prod_beta nth_eq_iff_index_eq)
  qed (use len in simp_all)
  then show ?thesis
    using len assms(4) by (auto simp: slots_computed_def slot_at_def case_prod_beta split: element_slot.split)
qed

lemma fill_slots_eq:
  assumes "slots_shape keys steps slots" "p < length keys" "length es = steps"
  shows "slots_shape keys steps (fill_slots slots p es) \<and>
    (\<forall>q u. slot_at (fill_slots slots p es) q u =
      (if q = p \<and> u < steps then Some (ComputedSlot (es ! u)) else slot_at slots q u))"
proof -
  define F where "F n = foldl (\<lambda>slots (i, e). slots_set slots p i (ComputedSlot e)) slots (take n (enumerate 0 es))" for n
  have "slots_shape keys steps (F n) \<and>
      (\<forall>q u. slot_at (F n) q u = (if q = p \<and> u < n then Some (ComputedSlot (es ! u)) else slot_at slots q u))"
    if "n \<le> length es" for n
    using that
  proof (induction n)
    case 0
    show ?case using assms(1) by (simp add: F_def)
  next
    case (Suc n)
    then have shape: "slots_shape keys steps (F n)" and IH: "\<forall>q u. slot_at (F n) q u =
        (if q = p \<and> u < n then Some (ComputedSlot (es ! u)) else slot_at slots q u)" by simp_all
    have "F (Suc n) = slots_set (F n) p n (ComputedSlot (es ! n))"
      using Suc.prems by (simp add: F_def take_Suc_conv_app_nth nth_enumerate_eq)
    with slots_set_shape [OF shape] slot_at_set [OF shape assms(2)] IH Suc.prems assms(3) show ?case
      by (simp add: less_Suc_eq)
  qed
  from this [of "length es"] assms(3) show ?thesis by (simp add: fill_slots_def F_def)
qed

section \<open>Preparing a group\<close>

text \<open>The group was planned from the checker's plan.\<close>

definition group_matches :: "('f, 'x) planned_group \<Rightarrow> bool" where
  "group_matches G \<longleftrightarrow> plan_ok (pg_plan G) \<and> 0 < axis_len (pg_axis G) \<and>
     map rm_shape (pg_plan G) = map (\<lambda>m. body_shape (mp_body m)) (pg_members G)"

text \<open>A member that is supplied holds one element per step of the group.\<close>

definition supplied_fit :: "('f, 'x) callable \<Rightarrow> ('f, 'x) planned_group \<Rightarrow> ('f, 't, 'l) frame \<Rightarrow> bool" where
  "supplied_fit c G fr \<longleftrightarrow>
     (\<forall>key \<in> set (group_keys c G). \<forall>v. fr_values fr key = Some v \<longrightarrow>
       (\<exists>axis es. v = IndexedV axis es \<and> length es = axis_len (pg_axis G)))"

definition supplied_members :: "('f, 'x) callable \<Rightarrow> ('f, 'x) planned_group \<Rightarrow> ('f, 't, 'l) frame \<Rightarrow> bool list" where
  "supplied_members c G fr = map (\<lambda>key. fr_values fr key \<noteq> None) (group_keys c G)"

definition initial_problem ::
  "('f, 't, 'l, 'x, 'd, 'w) frame_env \<Rightarrow> ('f, 'x) callable \<Rightarrow> ('f, 'x) planned_group \<Rightarrow> ('f, 't, 'l) frame \<Rightarrow> nat \<Rightarrow>
   'd member_problem option" where
  "initial_problem env c G fr p =
     (let key = group_keys c G ! p in
      if fr_values fr key \<noteq> None then None
      else case fr_errors fr key of
        Some reason \<Rightarrow> Some (UnavailableProblem reason)
      | None \<Rightarrow> map_option UnavailableProblem (blocked_by (unavailable_inputs env c fr (group_step c G p))))"

lemma length_group_keys [simp]: "length (group_keys c G) = length (pg_members G)"
  by (simp add: group_keys_def)

lemma length_key_all: "0 < axis_len axis \<Longrightarrow> length (key_all axis) = axis_len axis"
  by (simp add: key_all_def)

lemma supplied_entries:
  assumes "frame_inv fr" "supplied_fit c G fr" "key \<in> set (group_keys c G)" "fr_values fr key = Some v"
  shows "\<exists>entries. into_entries (case fr_presented fr key of Some e \<Rightarrow> e | None \<Rightarrow> plain v) = Inr entries \<and>
    length (iv_entries entries) = axis_len (pg_axis G)"
proof -
  let ?e = "case fr_presented fr key of Some e \<Rightarrow> e | None \<Rightarrow> plain v"
  obtain axis es where v: "v = IndexedV axis es" "length es = axis_len (pg_axis G)"
    using assms(2-4) unfolding supplied_fit_def by blast
  have "into_value ?e = v"
    using assms(1,4) by (cases "fr_presented fr key") (auto simp: frame_inv_def plain_def)
  with v show ?thesis by (cases ?e) auto
qed

definition prepared ::
  "('f, 't, 'l, 'x, 'd, 'w) frame_env \<Rightarrow> ('f, 'x) callable \<Rightarrow> ('f, 'x) planned_group \<Rightarrow> ('f, 't, 'l) frame \<Rightarrow> nat \<Rightarrow>
   ('f, 't, 'l) presented slots \<times> bool list \<times> 'd member_problem option list \<Rightarrow> bool" where
  "prepared env c G fr n s \<longleftrightarrow>
     (case s of (slots, supplied, problems) \<Rightarrow>
        slots_shape (group_keys c G) (axis_len (pg_axis G)) slots \<and>
        length supplied = length (pg_members G) \<and>
        (\<forall>p < length (pg_members G). supplied ! p \<longleftrightarrow> p < n \<and> supplied_members c G fr ! p) \<and>
        problems = map (initial_problem env c G fr) [0..<n] \<and>
        (\<forall>p < length (pg_members G). \<forall>t < axis_len (pg_axis G).
           if p < n \<and> supplied_members c G fr ! p then \<exists>v. slot_at slots p t = Some (ComputedSlot v)
           else slot_at slots p t = Some PendingSlot))"

lemma prepare_member_step:
  assumes "prepared env c G fr n s" "n < length (pg_members G)" "frame_inv fr" "supplied_fit c G fr"
  shows "prepared env c G fr (Suc n) (prepare_member env c G fr s n)"
proof -
  obtain slots supplied problems where s: "s = (slots, supplied, problems)" by (cases s)
  have key: "group_keys c G ! n \<in> set (group_keys c G)" using assms(2) by simp
  have supplied_n: "supplied_members c G fr ! n \<longleftrightarrow> fr_values fr (group_keys c G ! n) \<noteq> None"
    using assms(2) by (simp add: supplied_members_def)
  show ?thesis
  proof (cases "fr_values fr (group_keys c G ! n)")
    case None
    with assms(1,2) supplied_n show ?thesis
      by (auto simp: s prepared_def prepare_member_def Let_def initial_problem_def less_Suc_eq split: option.split)
  next
    case (Some v)
    obtain entries where e:
      "into_entries (case fr_presented fr (group_keys c G ! n) of Some e \<Rightarrow> e | None \<Rightarrow> plain v) = Inr entries"
      "length (iv_entries entries) = axis_len (pg_axis G)"
      using supplied_entries [OF assms(3,4) key Some] by blast
    have "slots_shape (group_keys c G) (axis_len (pg_axis G)) slots" using assms(1) by (simp add: s prepared_def)
    note fill = fill_slots_eq [OF this _ e(2), of n]
    from assms(1,2) supplied_n Some e fill show ?thesis
      by (auto simp: s prepared_def prepare_member_def Let_def initial_problem_def less_Suc_eq nth_list_update)
  qed
qed

lemma prepare_members:
  assumes "frame_inv fr" "supplied_fit c G fr" "n \<le> length (pg_members G)"
  shows "prepared env c G fr n (foldl (prepare_member env c G fr)
    (slots_new (group_keys c G) (axis_len (pg_axis G)), replicate (length (pg_members G)) False, []) [0..<n])"
  using assms(3)
proof (induction n)
  case 0
  then show ?case by (auto simp: prepared_def slots_new_shape slot_at_new)
next
  case (Suc n)
  then show ?case using prepare_member_step [OF Suc.IH _ assms(1,2)] by simp
qed


section \<open>Reading the dependencies of an element\<close>

lemma check_ready_fold:
  "case try_fold (\<lambda>ready (dependency, at_step).
         case slot_at slots dependency at_step of
           None \<Rightarrow> Inl stop
         | Some PendingSlot \<Rightarrow> Inl stop
         | Some (ComputedSlot _) \<Rightarrow> Inr ready
         | Some _ \<Rightarrow> Inr False) r ds of
     Inl e \<Rightarrow> e = stop \<and> (\<exists>(d, t) \<in> set ds. slot_at slots d t = None \<or> slot_at slots d t = Some PendingSlot)
   | Inr b \<Rightarrow> b \<longleftrightarrow> r \<and> (\<forall>(d, t) \<in> set ds. \<exists>v. slot_at slots d t = Some (ComputedSlot v))"
proof (induction ds arbitrary: r)
  case (Cons e ds)
  obtain d t where e: "e = (d, t)" by (cases e)
  show ?case
  proof (cases "slot_at slots d t")
    case (Some s)
    then show ?thesis using Cons [of r] Cons [of False] by (cases s) (auto simp: e split: sum.splits)
  qed (simp add: e)
qed simp

lemma check_ready_Inl:
  "check_ready slots stop ds = Inl e \<Longrightarrow>
    \<exists>(d, t) \<in> set ds. slot_at slots d t = None \<or> slot_at slots d t = Some PendingSlot"
  using check_ready_fold [where slots = slots and stop = stop and r = True and ds = ds] by (simp add: check_ready_def)

lemma check_ready_Inr:
  "check_ready slots stop ds = Inr b \<Longrightarrow> b \<longleftrightarrow> (\<forall>(d, t) \<in> set ds. \<exists>v. slot_at slots d t = Some (ComputedSlot v))"
  using check_ready_fold [where slots = slots and stop = stop and r = True and ds = ds] by (simp add: check_ready_def)

section \<open>The invariant of the element loop\<close>

text \<open>A member with a problem, or reading such a member through members that are not supplied.\<close>

inductive reaches_problem :: "recurrence_plan \<Rightarrow> bool list \<Rightarrow> 'p option list \<Rightarrow> nat \<Rightarrow> bool"
  for plan supplied problems where
  here: "problems ! q \<noteq> None \<Longrightarrow> reaches_problem plan supplied problems q"
| through: "read \<in> set (rm_reads (plan ! q)) \<Longrightarrow> \<not> supplied ! gr_target read \<Longrightarrow>
    reaches_problem plan supplied problems (gr_target read) \<Longrightarrow> reaches_problem plan supplied problems q"

lemma reaches_problem_mono:
  "reaches_problem plan supplied problems q \<Longrightarrow> (\<And>q. problems ! q \<noteq> None \<Longrightarrow> problems' ! q \<noteq> None) \<Longrightarrow>
    reaches_problem plan supplied problems' q"
proof (induction rule: reaches_problem.induct)
  case (here q)
  show ?case by (rule reaches_problem.here) (rule here(2) [OF here(1)])
next
  case (through read q)
  show ?case by (rule reaches_problem.through [OF through(1,2)]) (rule through(4), rule through(5))
qed

definition slot_computed :: "'v slots \<Rightarrow> nat \<Rightarrow> nat \<Rightarrow> bool" where
  "slot_computed slots q t \<longleftrightarrow> (\<exists>v. slot_at slots q t = Some (ComputedSlot v))"

fun problem_ok :: "'d member_problem option \<Rightarrow> bool" where
  "problem_ok (Some (FailedProblem e)) = (\<exists>d. e = OtherFailure d)"
| "problem_ok (Some (UnavailableProblem r)) = reason_ok r"
| "problem_ok None = True"

text \<open>Elements before \<open>(p, step)\<close> have been visited.\<close>

definition loop_inv ::
  "('f, 'x) callable \<Rightarrow> ('f, 'x) planned_group \<Rightarrow> bool list \<Rightarrow> 'd member_problem option list \<Rightarrow> nat \<Rightarrow> nat \<Rightarrow>
   ('f, 't, 'l) presented slots \<Rightarrow> 'd member_problem option list \<Rightarrow> bool" where
  "loop_inv c G supplied problems0 step p slots problems \<longleftrightarrow>
     slots_shape (group_keys c G) (axis_len (pg_axis G)) slots \<and>
     length problems = length (pg_members G) \<and>
     (\<forall>q < length (pg_members G). \<forall>t < axis_len (pg_axis G).
        if supplied ! q then slot_computed slots q t
        else slot_at slots q t = Some PendingSlot \<longleftrightarrow> \<not> element_before (q, t) (p, step)) \<and>
     (\<forall>q < length (pg_members G). \<forall>t < axis_len (pg_axis G).
        rm_shape (pg_plan G ! q) = UnfoldShape \<and> 0 < t \<and> slot_computed slots q t \<longrightarrow> slot_computed slots q (t - 1)) \<and>
     (\<forall>q < length (pg_members G). \<forall>t < axis_len (pg_axis G).
        slot_at slots q t \<in> {Some FailedSlot, Some UnavailableSlot} \<longrightarrow> reaches_problem (pg_plan G) supplied problems q) \<and>
     (\<forall>q < length (pg_members G). problem_ok (problems ! q) \<and> (supplied ! q \<longrightarrow> problems ! q = None) \<and>
        (problems0 ! q \<noteq> None \<longrightarrow> problems ! q = problems0 ! q))"

lemma loop_inv_set:
  assumes inv: "loop_inv c G supplied problems0 step p slots problems"
    and p: "p < length (pg_members G)" "step < axis_len (pg_axis G)" "\<not> supplied ! p"
    and s: "s \<noteq> PendingSlot"
    and computed: "\<And>v. s = ComputedSlot v \<Longrightarrow> rm_shape (pg_plan G ! p) = UnfoldShape \<Longrightarrow> 0 < step \<Longrightarrow> slot_computed slots p (step - 1)"
    and problems': "problems' = problems \<or> problems ! p = None \<and> problem_ok x \<and> problems' = problems[p := x]"
    and bad: "s \<in> {FailedSlot, UnavailableSlot} \<Longrightarrow> reaches_problem (pg_plan G) supplied problems' p"
  shows "loop_inv c G supplied problems0 step (Suc p) (slots_set slots p step s) problems'"
proof -
  let ?n = "length (pg_members G)" and ?steps = "axis_len (pg_axis G)" and ?slots = "slots_set slots p step s"
  have shape: "slots_shape (group_keys c G) ?steps slots" and len: "length problems = ?n"
    using inv by (simp_all add: loop_inv_def)
  have at: "slot_at ?slots q t = (if q = p \<and> t = step then Some s else slot_at slots q t)" for q t
    using slot_at_set [OF shape _ p(2)] p(1) by simp
  have pending: "slot_at slots q t = Some PendingSlot \<longleftrightarrow> \<not> element_before (q, t) (p, step)"
    if "q < ?n" "t < ?steps" "\<not> supplied ! q" for q t
    using inv that unfolding loop_inv_def by auto
  have more: "problems ! q \<noteq> None \<Longrightarrow> problems' ! q \<noteq> None" for q
    using problems' by (cases "q = p") auto
  have before: "element_before (q, t) (Suc p, step) \<longleftrightarrow> element_before (q, t) (p, step) \<or> q = p \<and> t = step" for q t
    by (auto simp: element_before_def less_Suc_eq)
  have later: "\<not> slot_computed slots p (Suc step)" if "Suc step < ?steps"
    using pending [OF p(1) that p(3)] by (simp add: slot_computed_def element_before_def)
  show ?thesis
    unfolding loop_inv_def
  proof (intro conjI allI impI)
    show "slots_shape (group_keys c G) ?steps ?slots" by (rule slots_set_shape [OF shape])
    show "length problems' = ?n" using problems' len by auto
  next
    fix q t assume qt: "q < ?n" "t < ?steps"
    show "if supplied ! q then slot_computed ?slots q t
        else slot_at ?slots q t = Some PendingSlot \<longleftrightarrow> \<not> element_before (q, t) (Suc p, step)"
    proof (cases "supplied ! q")
      case True
      with p(3) inv qt show ?thesis by (auto simp: loop_inv_def slot_computed_def at)
    next
      case False
      with pending [OF qt False] s show ?thesis by (simp add: at before)
    qed
    show "slot_computed ?slots q (t - 1)"
      if "rm_shape (pg_plan G ! q) = UnfoldShape \<and> 0 < t \<and> slot_computed ?slots q t"
    proof (cases "q = p \<and> t = step")
      case True
      with that have "\<exists>v. s = ComputedSlot v" by (auto simp: slot_computed_def at)
      with computed that True show ?thesis by (auto simp: slot_computed_def at)
    next
      case False
      then have "slot_computed slots q t" using that by (auto simp: slot_computed_def at split: if_splits)
      moreover from this that inv qt have "slot_computed slots q (t - 1)" by (auto simp: loop_inv_def)
      moreover have "\<not> (q = p \<and> t - 1 = step)"
        using later that qt(2) calculation(1) by (cases t) auto
      ultimately show ?thesis by (auto simp: slot_computed_def at)
    qed
    show "reaches_problem (pg_plan G) supplied problems' q"
      if "slot_at ?slots q t \<in> {Some FailedSlot, Some UnavailableSlot}"
    proof (cases "q = p \<and> t = step")
      case True
      with that bad show ?thesis by (auto simp: at)
    next
      case False
      with that have "slot_at slots q t \<in> {Some FailedSlot, Some UnavailableSlot}" by (auto simp: at split: if_splits)
      with inv qt have "reaches_problem (pg_plan G) supplied problems q" unfolding loop_inv_def by blast
      then show ?thesis by (rule reaches_problem_mono) (rule more)
    qed
  next
    fix q assume "q < ?n"
    with inv have "problem_ok (problems ! q)" "supplied ! q \<Longrightarrow> problems ! q = None"
      "problems0 ! q \<noteq> None \<Longrightarrow> problems ! q = problems0 ! q" unfolding loop_inv_def by blast+
    with problems' p(1,3) len show "problem_ok (problems' ! q)" "supplied ! q \<Longrightarrow> problems' ! q = None"
      "problems0 ! q \<noteq> None \<Longrightarrow> problems' ! q = problems0 ! q"
      by (auto simp: nth_list_update)
  qed
qed

lemma loop_inv_skip:
  assumes "loop_inv c G supplied problems0 step p slots problems" "supplied ! p"
  shows "loop_inv c G supplied problems0 step (Suc p) slots problems"
proof -
  have "element_before (q, t) (Suc p, step) \<longleftrightarrow> element_before (q, t) (p, step)" if "\<not> supplied ! q" for q t
    using assms(2) that by (cases "q = p") (auto simp: element_before_def less_Suc_eq)
  with assms(1) show ?thesis unfolding loop_inv_def by simp
qed


section \<open>One element\<close>

text \<open>What may stop a run: cancellation, an internal error of the adapter or of a domain check, or a
  failure the policy propagates.\<close>

definition from_env :: "('f, 't, 'l, 'x, 'd, 'w) frame_env \<Rightarrow> 'd semantic_failure \<Rightarrow> bool" where
  "from_env env error \<longleftrightarrow>
     (\<exists>entry fr w w'. env_evaluate env entry fr w = (Inl (FailedOutcome error), w')) \<or>
     (\<exists>x v source. env_violation env x v source = Some error)"

definition cancelled_by :: "('f, 't, 'l, 'x, 'd, 'w) frame_env \<Rightarrow> bool" where
  "cancelled_by env \<longleftrightarrow>
     (\<exists>w w'. env_cancelled env w = (True, w')) \<or>
     (\<exists>entry fr w w'. env_evaluate env entry fr w = (Inl CancelledOutcome, w'))"

definition outcome_ok :: "('f, 't, 'l, 'x, 'd, 'w) frame_env \<Rightarrow> 'd frame_outcome \<Rightarrow> bool" where
  "outcome_ok env outcome \<longleftrightarrow> env_policy env = PropagateFailures \<or> outcome = CancelledOutcome \<and> cancelled_by env \<or>
     (\<exists>d. outcome = FailedOutcome (InternalFailure d) \<and> from_env env (InternalFailure d))"

lemma from_envI:
  "env_evaluate env entry fr w = (Inl (FailedOutcome error), w') \<Longrightarrow> from_env env error"
  "domain_violation env v domain source = Some error \<Longrightarrow> from_env env error"
  unfolding from_env_def domain_violation_def bind_eq_Some_conv by blast+

lemma cancelled_byI:
  "env_cancelled env w = (True, w') \<Longrightarrow> cancelled_by env"
  "env_evaluate env entry fr w = (Inl CancelledOutcome, w') \<Longrightarrow> cancelled_by env"
  unfolding cancelled_by_def by blast+

definition stop_ok :: "('f, 't, 'l, 'x, 'd, 'w) frame_env \<Rightarrow> 'd group_stop \<Rightarrow> bool" where
  "stop_ok env stop \<longleftrightarrow> (\<exists>outcome. stop = OutcomeStop outcome \<and> outcome_ok env outcome)"

lemma element_failed_cases:
  assumes "\<forall>r d. failure = UnavailableFailure r d \<longrightarrow> reason_ok r" "p < length problems" "from_env env failure"
  shows "case element_failed env failure p step (slots, problems) of
      Inl e \<Rightarrow> stop_ok env e
    | Inr (slots', problems') \<Rightarrow>
        (\<exists>s \<in> {FailedSlot, UnavailableSlot}. slots' = slots_set slots p step s) \<and> problems' ! p \<noteq> None \<and>
        (\<exists>x. problem_ok x \<and> problems' = (if problems ! p = None then problems[p := x] else problems))"
proof (cases failure)
  case (InternalFailure d)
  with assms(3) show ?thesis by (simp add: element_failed_def stop_ok_def outcome_ok_def)
next
  case (UnavailableFailure r d)
  have "\<exists>x. problem_ok x \<and> (if problems ! p = None then problems[p := Some (UnavailableProblem r)] else problems) =
      (if problems ! p = None then problems[p := x] else problems)"
    using assms(1) UnavailableFailure by (intro exI [of _ "Some (UnavailableProblem r)"]) simp
  with UnavailableFailure assms(2) show ?thesis by (simp add: element_failed_def)
next
  case (OtherFailure d)
  have "\<exists>x. problem_ok x \<and> (if problems ! p = None then problems[p := Some (FailedProblem failure)] else problems) =
      (if problems ! p = None then problems[p := x] else problems)"
    using OtherFailure by (intro exI [of _ "Some (FailedProblem failure)"]) simp
  moreover have "FailedSlot \<in> {FailedSlot, UnavailableSlot :: (_, _, _) presented element_slot}" by simp
  ultimately show ?thesis
    using assms(2) unfolding OtherFailure
    by (simp only: element_failed_def stop_ok_def outcome_ok_def Let_def semantic_failure.case prod.case sum.case
        split: if_split) (simp, blast?)
qed

lemma loop_inv_slot:
  assumes "loop_inv c G supplied problems0 step p slots problems" "q < length (pg_members G)" "t < axis_len (pg_axis G)"
    and "element_before (q, t) (p, step)"
  shows "slot_computed slots q t \<or> slot_at slots q t \<in> {Some FailedSlot, Some UnavailableSlot}"
proof -
  have "slots_shape (group_keys c G) (axis_len (pg_axis G)) slots" using assms(1) by (simp add: loop_inv_def)
  with assms(2,3) obtain s where s: "slot_at slots q t = Some s" by (simp add: slot_at_shape)
  have "if supplied ! q then slot_computed slots q t
      else slot_at slots q t = Some PendingSlot \<longleftrightarrow> \<not> element_before (q, t) (p, step)"
    using assms(1-3) unfolding loop_inv_def by blast
  with s assms(4) show ?thesis by (cases s) (auto simp: slot_computed_def split: if_splits)
qed

lemma loop_inv_bad:
  assumes "loop_inv c G supplied problems0 step p slots problems" "q < length (pg_members G)" "t < axis_len (pg_axis G)"
    and "slot_at slots q t \<in> {Some FailedSlot, Some UnavailableSlot}"
  shows "reaches_problem (pg_plan G) supplied problems q \<and> \<not> supplied ! q"
proof -
  have "if supplied ! q then slot_computed slots q t
      else slot_at slots q t = Some PendingSlot \<longleftrightarrow> \<not> element_before (q, t) (p, step)"
    "reaches_problem (pg_plan G) supplied problems q"
    using assms unfolding loop_inv_def by blast+
  with assms(4) show ?thesis by (auto simp: slot_computed_def split: if_splits)
qed

lemma dependency_visited:
  assumes "loop_inv c G supplied problems0 step p slots problems" "group_matches G" "step < axis_len (pg_axis G)"
    and "e \<in> set (element_dependencies (pg_plan G) p step)"
  shows "fst e < length (pg_members G) \<and> snd e < axis_len (pg_axis G) \<and>
    (slot_computed slots (fst e) (snd e) \<or> slot_at slots (fst e) (snd e) \<in> {Some FailedSlot, Some UnavailableSlot})"
proof -
  have plan: "plan_ok (pg_plan G)" "length (pg_plan G) = length (pg_members G)"
    using assms(2) by (auto simp: group_matches_def dest: map_eq_imp_length_eq)
  from element_dependencies_before [OF plan(1) assms(4)] have e: "element_before e (p, step)" "fst e < length (pg_plan G)"
    by simp_all
  then have "snd e < axis_len (pg_axis G)" using assms(3) by (auto simp: element_before_def)
  moreover have "element_before (fst e, snd e) (p, step)" using e(1) by simp
  ultimately show ?thesis using loop_inv_slot [OF assms(1), of "fst e" "snd e"] e(2) plan(2) by simp
qed

text \<open>An element that is not ready belongs to a member that reaches a problem.\<close>

lemma not_ready_reaches:
  assumes inv: "loop_inv c G supplied problems0 step p slots problems" "group_matches G" "step < axis_len (pg_axis G)"
    and "p < length (pg_members G)" "e \<in> set (element_dependencies (pg_plan G) p step)" "\<not> slot_computed slots (fst e) (snd e)"
  shows "reaches_problem (pg_plan G) supplied problems p"
proof -
  have len: "length (pg_plan G) = length (pg_members G)"
    using assms(2) by (auto simp: group_matches_def dest: map_eq_imp_length_eq)
  from dependency_visited [OF inv assms(5)] assms(6)
  have d: "reaches_problem (pg_plan G) supplied problems (fst e) \<and> \<not> supplied ! fst e"
    using loop_inv_bad [OF inv(1)] by blast
  have "(\<exists>read \<in> set (rm_reads (pg_plan G ! p)). read_element (rm_shape (pg_plan G ! p)) step read = Some e) \<or> fst e = p"
    using assms(4,5) len unfolding set_element_dependencies by (auto split: if_splits)
  then consider read where "read \<in> set (rm_reads (pg_plan G ! p))"
      "read_element (rm_shape (pg_plan G ! p)) step read = Some e" | "fst e = p" by blast
  then show ?thesis
  proof cases
    case 1
    have "fst e = gr_target read"
      using 1(2) by (cases "gr_access read") (auto simp: read_element_def split: if_splits)
    with d have "\<not> supplied ! gr_target read" "reaches_problem (pg_plan G) supplied problems (gr_target read)" by simp_all
    then show ?thesis by (rule reaches_problem.through [OF 1(1)])
  qed (use d in simp)
qed

lemma unfold_chain:
  assumes "loop_inv c G supplied problems0 step p slots problems" "q < length (pg_members G)"
    and "rm_shape (pg_plan G ! q) = UnfoldShape"
  shows "t < axis_len (pg_axis G) \<Longrightarrow> slot_computed slots q t \<Longrightarrow> slot_computed slots q 0"
proof (induction t)
  case (Suc t)
  have "rm_shape (pg_plan G ! q) = UnfoldShape \<and> 0 < Suc t \<and> slot_computed slots q (Suc t) \<longrightarrow>
      slot_computed slots q (Suc t - 1)"
    using assms(1,2) Suc.prems(1) unfolding loop_inv_def by blast
  with Suc assms(3) show ?case by simp
qed simp

lemma evaluate_element_inv:
  assumes inv: "loop_inv c G supplied problems0 step p slots problems" "p < length (pg_members G)"
      "step < axis_len (pg_axis G)" "\<not> supplied ! p" "env_ok env"
    and previous: "rm_shape (pg_plan G ! p) = UnfoldShape \<Longrightarrow> 0 < step \<Longrightarrow> slot_computed slots p (step - 1)"
  shows "case evaluate_element env c G fr (step, here, pk) p prev ((slots, problems), w) of
      Inl e \<Rightarrow> stop_ok env e
    | Inr ((slots', problems'), w') \<Rightarrow> loop_inv c G supplied problems0 step (Suc p) slots' problems'"
proof -
  let ?d = "st_declaration (group_step c G p)"
  let ?entry = "ScheduledElement (group_keys c G ! p) (pd_scope ?d) (pg_members G ! p) here prev slots"
  have len: "p < length problems" using inv by (simp add: loop_inv_def)
  have failed: "case res_map (\<lambda>gs. (gs, w1)) (element_failed env failure p step (slots, problems)) of
      Inl e \<Rightarrow> stop_ok env e
    | Inr ((slots', problems'), w') \<Rightarrow> loop_inv c G supplied problems0 step (Suc p) slots' problems'"
    if "\<forall>r d. failure = UnavailableFailure r d \<longrightarrow> reason_ok r" "from_env env failure" for failure w1
  proof (cases "element_failed env failure p step (slots, problems)")
    case (Inl e)
    with element_failed_cases [where failure = failure and env = env and step = step and slots = slots, OF that(1) len that(2)] show ?thesis by simp
  next
    case (Inr gs)
    obtain slots' problems' where gs: "gs = (slots', problems')" by (cases gs)
    from element_failed_cases [where failure = failure and env = env and step = step and slots = slots, OF that(1) len that(2)] Inr gs have
      parts: "\<exists>s \<in> {FailedSlot, UnavailableSlot}. slots' = slots_set slots p step s" "problems' ! p \<noteq> None"
      "\<exists>x. problem_ok x \<and> problems' = (if problems ! p = None then problems[p := x] else problems)" by simp_all
    from parts(1) obtain s where s: "s \<in> {FailedSlot, UnavailableSlot}" "slots' = slots_set slots p step s" by blast
    from parts(3) obtain x where "problem_ok x" "problems' = (if problems ! p = None then problems[p := x] else problems)" by blast
    then have change: "problems' = problems \<or> problems ! p = None \<and> problem_ok x \<and> problems' = problems[p := x]" by simp
    have "loop_inv c G supplied problems0 step (Suc p) slots' problems'"
      unfolding s(2) by (intro loop_inv_set [OF inv(1-4) _ _ change] reaches_problem.here [OF parts(2)])
        (use s in auto)
    with Inr gs show ?thesis by simp
  qed
  obtain evaluated w1 where eval: "env_evaluate env ?entry fr w = (evaluated, w1)" by (cases "env_evaluate env ?entry fr w")
  show ?thesis
  proof (cases evaluated)
    case (Inr v)
    show ?thesis
    proof (cases "domain_violation env v (pd_domain ?d) (pd_scope ?d)")
      case None
      have "loop_inv c G supplied problems0 step (Suc p) (slots_set slots p step (ComputedSlot v)) problems"
        by (rule loop_inv_set [OF inv(1-4)]) (use previous in auto)
      with eval Inr None show ?thesis by (simp add: evaluate_element_def Let_def)
    next
      case (Some failure)
      have "\<forall>r d. failure = UnavailableFailure r d \<longrightarrow> reason_ok r"
        using env_okD(2) [OF inv(5)] Some by blast
      from failed [OF this from_envI(2) [OF Some]] eval Inr Some show ?thesis by (simp add: evaluate_element_def Let_def)
    qed
  next
    case (Inl outcome)
    show ?thesis
    proof (cases outcome)
      case CancelledOutcome
      with eval Inl cancelled_byI(2) [of env ?entry fr w w1] show ?thesis
        by (simp add: evaluate_element_def Let_def stop_ok_def outcome_ok_def)
    next
      case (FailedOutcome failure)
      have "\<forall>r d. failure = UnavailableFailure r d \<longrightarrow> reason_ok r"
        using env_okD(1) [OF inv(5)] eval Inl FailedOutcome by blast
      from failed [OF this from_envI(1) [OF eval [unfolded Inl FailedOutcome]]] eval Inl FailedOutcome show ?thesis by (simp add: evaluate_element_def Let_def)
    qed
  qed
qed


lemma previous_dependency:
  assumes "p < length plan" "rm_shape (plan ! p) = UnfoldShape" "0 < step"
  shows "(p, step - 1) \<in> set (element_dependencies plan p step)"
  using assms by (simp add: set_element_dependencies)

lemma group_shape:
  assumes "group_matches G" "p < length (pg_members G)"
  shows "rm_shape (pg_plan G ! p) = body_shape (mp_body (pg_members G ! p))" "p < length (pg_plan G)"
proof -
  have maps: "map rm_shape (pg_plan G) = map (\<lambda>m. body_shape (mp_body m)) (pg_members G)"
    using assms(1) by (simp add: group_matches_def)
  then show "p < length (pg_plan G)" using assms(2) map_eq_imp_length_eq by metis
  then show "rm_shape (pg_plan G ! p) = body_shape (mp_body (pg_members G ! p))"
    using arg_cong [OF maps, of "\<lambda>l. l ! p"] assms(2) by simp
qed

lemma element_previous_ready:
  assumes inv: "loop_inv c G supplied problems0 step p slots problems" and G: "group_matches G" "distinct (group_keys c G)"
    and p: "p < length (pg_members G)" "step < axis_len (pg_axis G)" "pk = None \<longleftrightarrow> step = 0"
    and ready: "\<And>d t. (d, t) \<in> set (element_dependencies (pg_plan G) p step) \<Longrightarrow> slot_computed slots d t"
  shows "\<exists>previous. element_previous slots stop (group_keys c G ! p) (mp_body (pg_members G ! p)) step pk = Inr previous"
proof (cases "(mp_body (pg_members G ! p), pk)" rule: prod.exhaust)
  case (Pair body k)
  show ?thesis
  proof (cases "\<exists>a b d e k'. body = UnfoldBody a b d e \<and> k = Some k'")
    case False
    with Pair show ?thesis by (cases body; cases k) (auto simp: element_previous_def)
  next
    case True
    then obtain a b d e k' where body: "mp_body (pg_members G ! p) = UnfoldBody a b d e" "pk = Some k'" using Pair by auto
    have shape: "rm_shape (pg_plan G ! p) = UnfoldShape" using group_shape(1) [OF G(1) p(1)] body(1) by simp
    have "0 < step" using p(3) body(2) by simp
    from ready [OF previous_dependency [OF group_shape(2) [OF G(1) p(1)] shape this]]
    have before: "slot_computed slots p (step - 1)" .
    moreover from unfold_chain [OF inv p(1) shape _ before] p(2) have "slot_computed slots p 0" by simp
    moreover have "slots_shape (group_keys c G) (axis_len (pg_axis G)) slots" using inv by (simp add: loop_inv_def)
    note slots_computed_eq [OF this G(2), of p]
    ultimately show ?thesis
      using p(1,2) body by (auto simp: element_previous_def slot_computed_def)
  qed
qed

text \<open>Running an element never stops at an element that was not evaluated, and keeps the invariant.\<close>

lemma run_element_inv:
  fixes env :: "('f, 't, 'l, 'x, 'd, 'w) frame_env" and fr :: "('f, 't, 'l) frame"
  assumes inv: "loop_inv c G supplied problems0 step p slots problems" and G: "group_matches G" "distinct (group_keys c G)"
    and p: "p < length (pg_members G)" "step < axis_len (pg_axis G)" "pk = None \<longleftrightarrow> step = 0" and env: "env_ok env"
  shows "case run_element env c G supplied fr (step, here, pk) ((slots, problems), w) p of
      Inl e \<Rightarrow> stop_ok env e
    | Inr ((slots', problems'), w') \<Rightarrow> loop_inv c G supplied problems0 step (Suc p) slots' problems'"
proof -
  let ?stop = "StuckStop (group_keys c G ! p) step"
  let ?deps = "element_dependencies (pg_plan G) p step"
  have unavailable: "loop_inv c G supplied problems0 step (Suc p) (slots_set slots p step UnavailableSlot) problems"
    if "reaches_problem (pg_plan G) supplied problems p" "\<not> supplied ! p"
    by (rule loop_inv_set [OF inv p(1,2) that(2)]) (use that(1) in auto)
  consider "supplied ! p" | "\<not> supplied ! p" "is_unavailable_problem (problems ! p)"
    | "\<not> supplied ! p" "\<not> is_unavailable_problem (problems ! p)" by blast
  then show ?thesis
  proof cases
    case 1
    with loop_inv_skip [OF inv] show ?thesis by (simp add: run_element_def Let_def)
  next
    case 2
    then have "reaches_problem (pg_plan G) supplied problems p"
      by (intro reaches_problem.here) (cases "problems ! p", auto)
    with 2 unavailable show ?thesis by (simp add: run_element_def Let_def)
  next
    case 3
    show ?thesis
    proof (cases "check_ready slots ?stop ?deps :: (bool, 'd group_stop) result")
      case (Inl e)
      from check_ready_Inl [OF Inl] obtain d t where dt: "(d, t) \<in> set ?deps"
        "slot_at slots d t = None \<or> slot_at slots d t = Some PendingSlot" by blast
      from dependency_visited [OF inv G(1) p(2) dt(1)] dt(2) have False by (auto simp: slot_computed_def)
      then show ?thesis ..
    next
      case (Inr ready)
      show ?thesis
      proof (cases ready)
        case False
        with check_ready_Inr [OF Inr] obtain d t where "(d, t) \<in> set ?deps" "\<not> slot_computed slots d t"
          by (auto simp: slot_computed_def)
        with not_ready_reaches [OF inv G(1) p(2,1)] have "reaches_problem (pg_plan G) supplied problems p" by fastforce
        with 3 Inr False unavailable show ?thesis by (simp add: run_element_def Let_def)
      next
        case True
        with check_ready_Inr [OF Inr] have ready: "\<And>d t. (d, t) \<in> set ?deps \<Longrightarrow> slot_computed slots d t"
          by (auto simp: slot_computed_def)
        from element_previous_ready [OF inv G p ready, where stop = ?stop] obtain previous where
          "element_previous slots ?stop (group_keys c G ! p) (mp_body (pg_members G ! p)) step pk =
            (Inr previous :: (_, 'd group_stop) result)" by blast
        with 3 Inr True have run: "run_element env c G supplied fr (step, here, pk) ((slots, problems), w) p =
            evaluate_element env c G fr (step, here, pk) p previous ((slots, problems), w)"
          by (simp add: run_element_def Let_def)
        show ?thesis unfolding run
          by (rule evaluate_element_inv [OF inv p(1,2) 3(1) env])
            (use ready previous_dependency [OF group_shape(2) [OF G(1) p(1)]] in blast)
      qed
    qed
  qed
qed


section \<open>The rows of a group\<close>

lemma axis_rows_nth:
  assumes "0 < axis_len axis"
  shows "length (axis_rows axis) = axis_len axis"
    and "i < axis_len axis \<Longrightarrow> \<exists>here pk. axis_rows axis ! i = (i, here, pk) \<and> (pk = None \<longleftrightarrow> i = 0)"
proof -
  have len: "length (key_all axis) = axis_len axis" by (rule length_key_all [OF assms])
  then show "length (axis_rows axis) = axis_len axis" by (simp add: axis_rows_def)
  assume i: "i < axis_len axis"
  then have "axis_rows axis ! i = (i, key_all axis ! i, (None # map Some (key_all axis)) ! i)"
    using len by (simp add: axis_rows_def nth_enumerate_eq)
  moreover have "(None # map Some (key_all axis)) ! i = None \<longleftrightarrow> i = 0"
    using i len by (cases i) auto
  ultimately show "\<exists>here pk. axis_rows axis ! i = (i, here, pk) \<and> (pk = None \<longleftrightarrow> i = 0)"
    by (intro exI conjI)
qed

lemma loop_inv_next_row:
  assumes "loop_inv c G supplied problems0 step (length (pg_members G)) slots problems"
  shows "loop_inv c G supplied problems0 (Suc step) 0 slots problems"
proof -
  have "element_before (q, t) (length (pg_members G), step) \<longleftrightarrow> element_before (q, t) (0, Suc step)"
    if "q < length (pg_members G)" for q t
    using that by (auto simp: element_before_def)
  with assms show ?thesis unfolding loop_inv_def by simp
qed

lemma run_row_inv:
  fixes env :: "('f, 't, 'l, 'x, 'd, 'w) frame_env" and fr :: "('f, 't, 'l) frame"
  assumes inv: "loop_inv c G supplied problems0 step 0 slots problems" and G: "group_matches G" "distinct (group_keys c G)"
    and step: "step < axis_len (pg_axis G)" "pk = None \<longleftrightarrow> step = 0" and env: "env_ok env"
  shows "case run_row env c G supplied fr ((slots, problems), w) (step, here, pk) of
      Inl e \<Rightarrow> stop_ok env e
    | Inr ((slots', problems'), w') \<Rightarrow> loop_inv c G supplied problems0 (Suc step) 0 slots' problems'"
proof -
  let ?n = "length (pg_members G)" and ?P = "\<lambda>p ((slots :: ('f, 't, 'l) presented slots, problems), w :: 'w). loop_inv c G supplied problems0 step p slots problems"
  obtain cancelled w1 where cancelled: "env_cancelled env w = (cancelled, w1)" by (cases "env_cancelled env w")
  have "case try_fold (run_element env c G supplied fr (step, here, pk)) ((slots, problems), w1) [0..<?n] of
      Inl e \<Rightarrow> stop_ok env e | Inr s' \<Rightarrow> ?P (length [0..<?n]) s'"
  proof (rule try_fold_rule)
    show "?P 0 ((slots, problems), w1)" using inv by simp
    fix p s assume p: "p < length [0..<?n]" "?P p s"
    obtain slots' problems' w' where s: "s = ((slots', problems'), w')" by (metis prod.exhaust)
    have i: "loop_inv c G supplied problems0 step p slots' problems'" using p(2) by (simp add: s)
    have "p < ?n" using p(1) by simp
    from run_element_inv [OF i G this step env, of fr here w']
    show "case run_element env c G supplied fr (step, here, pk) s ([0..<?n] ! p) of Inl e \<Rightarrow> stop_ok env e | Inr s' \<Rightarrow> ?P (Suc p) s'"
      using p(1) by (simp add: s split: sum.splits prod.splits)
  qed
  then show ?thesis
    using cancelled cancelled_byI(1) [of env w w1] by (cases cancelled)
      (auto simp: run_row_def stop_ok_def outcome_ok_def dest: loop_inv_next_row split: sum.splits)
qed

lemma run_rows_inv:
  fixes env :: "('f, 't, 'l, 'x, 'd, 'w) frame_env" and fr :: "('f, 't, 'l) frame"
  assumes inv: "loop_inv c G supplied problems0 0 0 slots problems" and G: "group_matches G" "distinct (group_keys c G)"
    and env: "env_ok env"
  shows "case try_fold (run_row env c G supplied fr) ((slots, problems), w) (axis_rows (pg_axis G)) of
      Inl e \<Rightarrow> stop_ok env e
    | Inr ((slots', problems'), w') \<Rightarrow> loop_inv c G supplied problems0 (axis_len (pg_axis G)) 0 slots' problems'"
proof -
  let ?P = "\<lambda>step ((slots :: ('f, 't, 'l) presented slots, problems), w :: 'w). loop_inv c G supplied problems0 step 0 slots problems"
  have pos: "0 < axis_len (pg_axis G)" using G(1) by (simp add: group_matches_def)
  have "case try_fold (run_row env c G supplied fr) ((slots, problems), w) (axis_rows (pg_axis G)) of
      Inl e \<Rightarrow> stop_ok env e | Inr s' \<Rightarrow> ?P (length (axis_rows (pg_axis G))) s'"
  proof (rule try_fold_rule)
    show "?P 0 ((slots, problems), w)" using inv by simp
    fix step s assume i: "step < length (axis_rows (pg_axis G))" "?P step s"
    obtain slots' problems' w' where s: "s = ((slots', problems'), w')" by (metis prod.exhaust)
    have step: "step < axis_len (pg_axis G)" using i(1) axis_rows_nth(1) [OF pos] by simp
    from axis_rows_nth(2) [OF pos this] obtain here pk where
      row: "axis_rows (pg_axis G) ! step = (step, here, pk)" "pk = None \<longleftrightarrow> step = 0" by blast
    have l: "loop_inv c G supplied problems0 step 0 slots' problems'" using i(2) by (simp add: s)
    from run_row_inv [OF l G step row(2) env, of fr w' here]
    show "case run_row env c G supplied fr s (axis_rows (pg_axis G) ! step) of Inl e \<Rightarrow> stop_ok env e | Inr s' \<Rightarrow> ?P (Suc step) s'"
      unfolding row(1) s by (simp split: sum.splits prod.splits)
  qed
  then show ?thesis using axis_rows_nth(1) [OF pos] by (simp split: sum.splits prod.splits)
qed

text \<open>What the rows start from.\<close>

lemma initial_problem_ok:
  assumes "frame_inv fr" "env_ok env"
  shows "problem_ok (initial_problem env c G fr p)"
proof (cases "blocked_by (unavailable_inputs env c fr (group_step c G p))")
  case (Some r)
  from blocked_by_ok [OF this] assms(1) Some show ?thesis
    by (auto simp: initial_problem_def Let_def frame_inv_def split: option.split)
qed (use assms(1) in \<open>auto simp: initial_problem_def Let_def frame_inv_def split: option.split\<close>)

lemma loop_inv_prepared:
  assumes "prepared env c G fr (length (pg_members G)) (slots, supplied, problems)" "frame_inv fr" "env_ok env"
  shows "loop_inv c G supplied problems 0 0 slots problems \<and> supplied = supplied_members c G fr \<and>
    problems = map (initial_problem env c G fr) [0..<length (pg_members G)]"
proof -
  let ?n = "length (pg_members G)"
  have shape: "slots_shape (group_keys c G) (axis_len (pg_axis G)) slots" and len: "length supplied = ?n"
    and eq: "\<And>p. p < ?n \<Longrightarrow> supplied ! p \<longleftrightarrow> supplied_members c G fr ! p"
    and problems: "problems = map (initial_problem env c G fr) [0..<?n]"
    and at: "\<And>p t. p < ?n \<Longrightarrow> t < axis_len (pg_axis G) \<Longrightarrow>
      (if supplied_members c G fr ! p then slot_computed slots p t else slot_at slots p t = Some PendingSlot)"
    using assms(1) by (auto simp: prepared_def slot_computed_def)
  have "length (supplied_members c G fr) = ?n" by (simp add: supplied_members_def)
  with len eq have "supplied = supplied_members c G fr" by (intro nth_equalityI) simp_all
  moreover have "problems ! q = None" if "supplied ! q" "q < ?n" for q
    using that eq [of q] by (simp add: problems initial_problem_def supplied_members_def Let_def)
  moreover have "slot_computed slots q t \<longleftrightarrow> supplied ! q" "\<not> supplied ! q \<longleftrightarrow> slot_at slots q t = Some PendingSlot"
    if "q < ?n" "t < axis_len (pg_axis G)" for q t
    using at [OF that] eq [OF that(1)] by (auto simp: slot_computed_def split: if_splits)
  note at' [simp] = this
  moreover have "slot_at slots q t \<notin> {Some FailedSlot, Some UnavailableSlot}"
    if "q < ?n" "t < axis_len (pg_axis G)" for q t
    using at' [OF that] by (cases "supplied ! q") (auto simp: slot_computed_def)
  ultimately show ?thesis
    using shape by (auto simp: loop_inv_def problems initial_problem_ok [OF assms(2,3)] element_before_def slot_computed_def)
qed


section \<open>Recording the problems of a group\<close>

text \<open>The reasons of a frame, extended exactly to the members with a property.\<close>

definition errors_for ::
  "decl_key list \<Rightarrow> (decl_key \<Rightarrow> reason option) \<Rightarrow> (nat \<Rightarrow> bool) \<Rightarrow> (decl_key \<Rightarrow> reason option) \<Rightarrow> bool" where
  "errors_for keys errors P errors' \<longleftrightarrow>
     (\<forall>k. errors k \<noteq> None \<longrightarrow> errors' k = errors k) \<and>
     (\<forall>k r. errors' k = Some r \<longrightarrow> reason_ok r) \<and>
     (\<forall>k. errors' k \<noteq> None \<longleftrightarrow> errors k \<noteq> None \<or> (\<exists>q < length keys. P q \<and> k = keys ! q))"

lemma errors_for_cong:
  "errors_for keys errors P errors' \<Longrightarrow> (\<And>q. q < length keys \<Longrightarrow> P q \<longleftrightarrow> P' q) \<Longrightarrow> errors_for keys errors P' errors'"
  unfolding errors_for_def by blast

lemma errors_for_add:
  assumes "errors_for keys errors P errors'" "p < length keys" "errors (keys ! p) = None" "reason_ok r"
  shows "errors_for keys errors (\<lambda>q. P q \<or> q = p) (errors'(keys ! p \<mapsto> r))"
  using assms unfolding errors_for_def by auto

lemma errors_for_same:
  assumes "errors_for keys errors P errors'" "p < length keys" "errors' (keys ! p) \<noteq> None"
  shows "errors_for keys errors (\<lambda>q. P q \<or> q = p) errors'"
  using assms unfolding errors_for_def by blast

lemma frame_failure_Inl:
  "frame_failure env key error fr = Inl outcome \<Longrightarrow> (\<And>d. error = InternalFailure d \<Longrightarrow> from_env env error) \<Longrightarrow>
    outcome_ok env outcome"
  by (cases error) (auto simp: frame_failure_def Let_def outcome_ok_def split: if_splits)

lemma frame_bind_Inl: "frame_bind env key domain v source fr = Inl outcome \<Longrightarrow> outcome_ok env outcome"
  by (auto simp: frame_bind_def split: option.splits dest: from_envI(2) elim!: frame_failure_Inl)

lemma record_problems:
  fixes env :: "('f, 't, 'l, 'x, 'd, 'w) frame_env" and fr :: "('f, 't, 'l) frame"
  assumes fr: "frame_inv fr" and keys: "distinct keys" "length problems = length keys"
    and problems: "\<And>q. q < length keys \<Longrightarrow> problem_ok (problems ! q) \<and>
      (\<forall>e. problems ! q = Some (FailedProblem e) \<longrightarrow> fr_errors fr (keys ! q) = None)"
  shows "case try_fold (record_problem env keys) fr (enumerate 0 problems) of
      Inl e \<Rightarrow> outcome_ok env e
    | Inr fr' \<Rightarrow> \<exists>errors. fr' = fr\<lparr>fr_errors := errors\<rparr> \<and> errors_for keys (fr_errors fr) (\<lambda>q. problems ! q \<noteq> None) errors"
proof -
  let ?P = "\<lambda>i fr'. \<exists>errors. fr' = fr\<lparr>fr_errors := errors\<rparr> \<and>
    errors_for keys (fr_errors fr) (\<lambda>q. q < i \<and> problems ! q \<noteq> None) errors"
  have "case try_fold (record_problem env keys) fr (enumerate 0 problems) of
      Inl e \<Rightarrow> outcome_ok env e | Inr fr' \<Rightarrow> ?P (length (enumerate 0 problems)) fr'"
  proof (rule try_fold_rule)
    show "?P 0 fr" using fr by (intro exI [of _ "fr_errors fr"]) (simp add: errors_for_def frame_inv_def)
    fix i fr' assume i: "i < length (enumerate 0 problems)" "?P i fr'"
    then obtain errors where fr': "fr' = fr\<lparr>fr_errors := errors\<rparr>" and
      errors: "errors_for keys (fr_errors fr) (\<lambda>q. q < i \<and> problems ! q \<noteq> None) errors" by blast
    have len: "i < length keys" and at: "enumerate 0 problems ! i = (i, problems ! i)"
      using i(1) keys(2) by (simp_all add: nth_enumerate_eq)
    have next_P: "?P (Suc i) (fr\<lparr>fr_errors := errors'\<rparr>)"
      if "errors_for keys (fr_errors fr) (\<lambda>q. (q < i \<and> problems ! q \<noteq> None) \<or> q = i) errors'" "problems ! i \<noteq> None" for errors'
      using errors_for_cong [OF that(1), of "\<lambda>q. q < Suc i \<and> problems ! q \<noteq> None"] that(2)
      by (intro exI [of _ errors']) (auto simp: less_Suc_eq)
    show "case record_problem env keys fr' (enumerate 0 problems ! i) of Inl e \<Rightarrow> outcome_ok env e | Inr s \<Rightarrow> ?P (Suc i) s"
    proof (cases "problems ! i")
      case None
      have "errors_for keys (fr_errors fr) (\<lambda>q. q < Suc i \<and> problems ! q \<noteq> None) errors"
        by (rule errors_for_cong [OF errors]) (use None in \<open>auto simp: less_Suc_eq\<close>)
      with fr' have "?P (Suc i) fr'" by blast
      with None at show ?thesis by (simp add: record_problem_def Let_def)
    next
      case (Some problem)
      show ?thesis
      proof (cases problem)
        case (FailedProblem e)
        then have none: "fr_errors fr (keys ! i) = None" and "problem_ok (Some problem)"
          using problems [OF len] Some by auto
        then obtain d where e: "e = OtherFailure d" using FailedProblem by auto
        have "reason_ok (eval_failed_node_error env e)" using e by (simp add: eval_failed_node_error_def)
        from next_P [OF errors_for_add [OF errors len none this]] Some
        have step: "?P (Suc i) (fr'\<lparr>fr_errors := (fr_errors fr')(keys ! i \<mapsto> eval_failed_node_error env e)\<rparr>)"
          by (simp add: fr')
        show ?thesis
        proof (cases "frame_failure env (keys ! i) e fr'")
          case (Inl outcome)
          with frame_failure_Inl [OF this] e Some FailedProblem at show ?thesis by (simp add: record_problem_def Let_def)
        next
          case (Inr fr'')
          then have "fr'' = fr'\<lparr>fr_errors := (fr_errors fr')(keys ! i \<mapsto> eval_failed_node_error env e)\<rparr>"
            unfolding frame_failure_iff by blast
          with step Inr Some FailedProblem at show ?thesis by (simp add: record_problem_def Let_def)
        qed
      next
        case (UnavailableProblem r)
        have r: "reason_ok r" using problems [OF len] Some UnavailableProblem by simp
        show ?thesis
        proof (cases "errors (keys ! i)")
          case None
          then have "fr_errors fr (keys ! i) = None" using errors unfolding errors_for_def by (metis option.simps(3) not_None_eq)
          from next_P [OF errors_for_add [OF errors len this r]] Some UnavailableProblem at None
          show ?thesis by (simp add: record_problem_def Let_def fr')
        next
          case (Some reason)
          then have "errors (keys ! i) \<noteq> None" by simp
          from next_P [OF errors_for_same [OF errors len this]] \<open>problems ! i = Some problem\<close> UnavailableProblem at Some
          show ?thesis by (simp add: record_problem_def Let_def fr')
        qed
      qed
    qed
  qed
  then show ?thesis
    using keys(2) by (auto intro: errors_for_cong split: sum.splits)
qed

section \<open>Members depending on members with a problem\<close>

text \<open>Nothing is left to record: what a member without a problem reads is supplied or has no
  problem either.\<close>

definition trouble_closed :: "recurrence_plan \<Rightarrow> nat \<Rightarrow> bool list \<Rightarrow> bool list \<Rightarrow> bool" where
  "trouble_closed plan n supplied troubled \<longleftrightarrow>
     (\<forall>p < n. \<not> supplied ! p \<and> \<not> troubled ! p \<longrightarrow>
        (\<forall>read \<in> set (rm_reads (plan ! p)). supplied ! gr_target read \<or> \<not> troubled ! gr_target read))"

definition trouble_inv ::
  "recurrence_plan \<Rightarrow> decl_key list \<Rightarrow> bool list \<Rightarrow> 'd member_problem option list \<Rightarrow> (decl_key \<Rightarrow> reason option) \<Rightarrow>
   (decl_key \<Rightarrow> reason option) \<Rightarrow> bool list \<Rightarrow> bool" where
  "trouble_inv plan keys supplied problems errors0 errors troubled \<longleftrightarrow>
     length troubled = length keys \<and> errors_for keys errors0 (\<lambda>q. troubled ! q) errors \<and>
     (\<forall>q < length keys. problems ! q \<noteq> None \<longrightarrow> troubled ! q) \<and>
     (\<forall>q < length keys. troubled ! q \<longrightarrow> \<not> supplied ! q \<and> reaches_problem plan supplied problems q)"

lemma trouble_member_step:
  assumes inv: "trouble_inv plan keys supplied problems errors0 errors troubled" and p: "p < length keys"
    and errors0: "\<forall>q < length keys. errors0 (keys ! q) \<noteq> None \<longrightarrow> problems ! q \<noteq> None"
    and targets: "\<forall>read \<in> set (rm_reads (plan ! p)). gr_target read < length keys"
    and result: "trouble_member plan keys supplied (errors, troubled, progressed) p = (errors', troubled', progressed')"
  shows "trouble_inv plan keys supplied problems errors0 errors' troubled' \<and> (progressed \<longrightarrow> progressed') \<and>
    (\<not> progressed' \<longrightarrow> errors' = errors \<and> troubled' = troubled \<and>
       (\<not> supplied ! p \<and> \<not> troubled ! p \<longrightarrow>
        (\<forall>read \<in> set (rm_reads (plan ! p)). supplied ! gr_target read \<or> \<not> troubled ! gr_target read)))"
proof -
  let ?failed = "filter (\<lambda>t. \<not> supplied ! t \<and> troubled ! t) (map gr_target (rm_reads (plan ! p)))"
  let ?reason = "case blocked_by (List.map_filter (\<lambda>t. map_option (Pair (keys ! t)) (errors (keys ! t))) ?failed) of
             Some reason \<Rightarrow> reason | None \<Rightarrow> DependencyFailed (map (\<lambda>t. keys ! t) ?failed)"
  show ?thesis
  proof (cases "supplied ! p \<or> troubled ! p \<or> ?failed = []")
    case True
    then have "(errors', troubled', progressed') = (errors, troubled, progressed)"
      using result by (auto simp: trouble_member_def Let_def split: if_splits)
    with True inv show ?thesis by (auto simp: filter_empty_conv)
  next
    case False
    then have new: "errors' = errors(keys ! p \<mapsto> ?reason)" "troubled' = troubled[p := True]" "progressed'"
      using result unfolding trouble_member_def by (simp_all add: Let_def)
    have "?failed \<noteq> []" using False by simp
    then obtain t where "t \<in> set ?failed" by (cases ?failed) auto
    then obtain read where read: "read \<in> set (rm_reads (plan ! p))" "\<not> supplied ! gr_target read" "troubled ! gr_target read"
      by auto
    have "reaches_problem plan supplied problems (gr_target read)"
      using inv bspec [OF targets read(1)] read(3) by (simp add: trouble_inv_def)
    then have reaches: "reaches_problem plan supplied problems p" by (rule reaches_problem.through [OF read(1,2)])
    have ok: "reason_ok ?reason"
      using \<open>?failed \<noteq> []\<close> by (auto split: option.split dest: blocked_by_ok)
    have len: "length troubled = length keys" using inv by (simp add: trouble_inv_def)
    have none: "errors0 (keys ! p) = None"
      using errors0 inv p False by (auto simp: trouble_inv_def)
    have "errors_for keys errors0 (\<lambda>q. troubled ! q) errors" using inv by (simp add: trouble_inv_def)
    from errors_for_add [OF this p none ok]
    have "errors_for keys errors0 (\<lambda>q. troubled ! q \<or> q = p) errors'" unfolding new(1) .
    then have "errors_for keys errors0 (\<lambda>q. troubled' ! q) errors'"
      by (rule errors_for_cong) (use len p in \<open>auto simp: new(2) nth_list_update\<close>)
    moreover have flag: "troubled' ! q \<longleftrightarrow> troubled ! q \<or> q = p" if "q < length keys" for q
      using that len p by (auto simp: new(2) nth_list_update)
    ultimately show ?thesis using inv reaches False new(2,3) by (simp add: trouble_inv_def)
  qed
qed

lemma trouble_pass_step:
  assumes inv: "trouble_inv plan keys supplied problems errors0 errors troubled"
    and errors0: "\<forall>q < length keys. errors0 (keys ! q) \<noteq> None \<longrightarrow> problems ! q \<noteq> None"
    and targets: "\<forall>p < length keys. \<forall>read \<in> set (rm_reads (plan ! p)). gr_target read < length keys"
    and result: "trouble_pass plan keys supplied (errors, troubled) = (errors', troubled', progressed)"
  shows "trouble_inv plan keys supplied problems errors0 errors' troubled' \<and>
    (\<not> progressed \<longrightarrow> trouble_closed plan (length keys) supplied troubled')"
proof -
  have fold: "trouble_inv plan keys supplied problems errors0 e' t' \<and> (pr \<longrightarrow> pr') \<and>
      (\<not> pr' \<longrightarrow> e' = e \<and> t' = t \<and> (\<forall>p \<in> set ps. \<not> supplied ! p \<and> \<not> t ! p \<longrightarrow>
        (\<forall>read \<in> set (rm_reads (plan ! p)). supplied ! gr_target read \<or> \<not> t ! gr_target read)))"
    if "trouble_inv plan keys supplied problems errors0 e t" "set ps \<subseteq> {..<length keys}"
      "foldl (trouble_member plan keys supplied) (e, t, pr) ps = (e', t', pr')" for e t pr ps e' t' pr'
    using that
  proof (induction ps arbitrary: e t pr)
    case (Cons p ps)
    obtain e1 t1 pr1 where one: "trouble_member plan keys supplied (e, t, pr) p = (e1, t1, pr1)"
      by (metis prod.exhaust)
    have "p < length keys" "set ps \<subseteq> {..<length keys}" using Cons.prems(2) by auto
    from trouble_member_step [OF Cons.prems(1) this(1) errors0 _ one]
    have step: "trouble_inv plan keys supplied problems errors0 e1 t1" "pr \<longrightarrow> pr1"
      "\<not> pr1 \<longrightarrow> e1 = e \<and> t1 = t \<and> (\<not> supplied ! p \<and> \<not> t ! p \<longrightarrow>
        (\<forall>read \<in> set (rm_reads (plan ! p)). supplied ! gr_target read \<or> \<not> t ! gr_target read))"
      using targets \<open>p < length keys\<close> by blast+
    have rest: "foldl (trouble_member plan keys supplied) (e1, t1, pr1) ps = (e', t', pr')"
      using Cons.prems(3) one by simp
    from Cons.IH [OF step(1) \<open>set ps \<subseteq> _\<close> rest] step(2,3) show ?case unfolding set_ConsD by auto
  qed simp
  have "set [0..<length keys] \<subseteq> {..<length keys}" by auto
  from fold [OF inv this result [unfolded trouble_pass_def prod.case]] show ?thesis
    by (auto simp: trouble_closed_def)
qed

lemma trouble_loop_closed:
  assumes inv: "trouble_inv plan keys supplied problems errors0 errors troubled"
    and errors0: "\<forall>q < length keys. errors0 (keys ! q) \<noteq> None \<longrightarrow> problems ! q \<noteq> None"
    and targets: "\<forall>p < length keys. \<forall>read \<in> set (rm_reads (plan ! p)). gr_target read < length keys"
    and result: "trouble_loop plan keys supplied errors troubled = (errors', troubled')"
  shows "trouble_inv plan keys supplied problems errors0 errors' troubled' \<and> trouble_closed plan (length keys) supplied troubled'"
  using inv result
proof (induction "untroubled (length keys) troubled" arbitrary: errors troubled rule: less_induct)
  case less
  obtain e1 t1 pr where pass: "trouble_pass plan keys supplied (errors, troubled) = (e1, t1, pr)"
    by (metis prod.exhaust)
  have len: "length keys \<le> length troubled" using less.prems(1) by (simp add: trouble_inv_def)
  from trouble_pass_step [OF less.prems(1) errors0 targets pass]
  have step: "trouble_inv plan keys supplied problems errors0 e1 t1" "\<not> pr \<longrightarrow> trouble_closed plan (length keys) supplied t1"
    by blast+
  show ?case
  proof (cases pr)
    case True
    with less.prems(2) pass len have "trouble_loop plan keys supplied e1 t1 = (errors', troubled')"
      by (subst (asm) trouble_loop.simps) simp
    moreover have "untroubled (length keys) t1 < untroubled (length keys) troubled"
      using trouble_pass_untroubled [OF pass] True len by blast
    ultimately show ?thesis using less.hyps step(1) by blast
  next
    case False
    with less.prems(2) pass len have "errors' = e1" "troubled' = t1"
      by (subst (asm) trouble_loop.simps, simp)+
    with step False show ?thesis by simp
  qed
qed


lemma reaches_troubled:
  assumes "reaches_problem plan supplied problems q" "trouble_inv plan keys supplied problems errors0 errors troubled0"
    and mono: "\<forall>p < length keys. troubled0 ! p \<longrightarrow> troubled ! p" and closed: "trouble_closed plan (length keys) supplied troubled"
    and targets: "\<forall>p < length keys. \<forall>read \<in> set (rm_reads (plan ! p)). gr_target read < length keys"
  shows "q < length keys \<Longrightarrow> \<not> supplied ! q \<Longrightarrow> troubled ! q"
  using assms(1)
proof (induction rule: reaches_problem.induct)
  case (here q)
  with assms(2) mono show ?case by (simp add: trouble_inv_def)
next
  case (through read q)
  with targets have "troubled ! gr_target read" by blast
  with through closed show ?case unfolding trouble_closed_def by blast
qed

section \<open>Storing the members of a group\<close>

lemma computed_values_map: "computed_values (map ComputedSlot vs) = vs"
  by (induction vs) simp_all

lemma is_computed_iff: "is_computed s \<longleftrightarrow> (\<exists>v. s = ComputedSlot v)"
  by (cases s) simp_all

lemma all_computed_map: "list_all is_computed ss \<Longrightarrow> \<exists>vs. ss = map ComputedSlot vs"
proof (induction ss)
  case (Cons s ss)
  then obtain v vs where "s = ComputedSlot v" "ss = map ComputedSlot vs" by (auto simp: is_computed_iff)
  then have "s # ss = map ComputedSlot (v # vs)" by simp
  then show ?case by (rule exI)
qed simp

lemma take_computed_ok:
  assumes "p < length slots" "length (snd (slots ! p)) = steps" "\<And>t. t < steps \<Longrightarrow> slot_computed slots p t"
  shows "\<exists>vs. length vs = steps \<and> take_computed slots p = (Some vs, slots[p := (fst (slots ! p), [])])"
proof -
  have "list_all is_computed (snd (slots ! p))"
    using assms by (auto simp: list_all_length is_computed_iff slot_computed_def slot_at_def)
  with all_computed_map [OF this] assms(1,2) show ?thesis
    by (auto simp: take_computed_def computed_values_map)
qed

lemma group_entries_ok:
  assumes "0 < axis_len axis" "length vs = axis_len axis"
  shows "group_entries axis stop vs = Inr \<lparr>iv_axis = axis, iv_entries = vs\<rparr>"
proof -
  have "try_map (\<lambda>(i, _). if i < length vs then Inr (vs ! i) else Inl stop) (enumerate 0 (key_all axis)) = Inr vs"
    unfolding try_map_Inr_iff using assms
    by (auto simp: list_all2_conv_all_nth length_key_all nth_enumerate_eq)
  then show ?thesis by (simp add: group_entries_def)
qed

text \<open>What storing leaves of a member: one that is supplied or has a problem as it was, any other with
  its value, or with the violation of its domain by the value it was given.\<close>

definition member_stored ::
  "('f, 't, 'l, 'x, 'd, 'w) frame_env \<Rightarrow> ('f, 'x) callable \<Rightarrow> ('f, 'x) planned_group \<Rightarrow> bool list \<Rightarrow> bool list \<Rightarrow>
   ('f, 't, 'l) frame \<Rightarrow> ('f, 't, 'l) frame \<Rightarrow> nat \<Rightarrow> bool" where
  "member_stored env c G supplied troubled fr fr' q \<longleftrightarrow>
     (let key = group_keys c G ! q; d = st_declaration (group_step c G q) in
      if supplied ! q \<or> troubled ! q
      then fr_values fr' key = fr_values fr key \<and> fr_errors fr' key = fr_errors fr key
      else fr_values fr' key \<noteq> None \<or>
        fr_errors fr' key \<noteq> None \<and> (\<exists>v. domain_violation env v (pd_domain d) (pd_scope d) \<noteq> None))"

lemma member_stored_later:
  "member_stored env c G supplied troubled fr fr' q \<Longrightarrow> changes_only {k} fr' fr'' \<Longrightarrow> group_keys c G ! q \<noteq> k \<Longrightarrow>
    member_stored env c G supplied troubled fr fr'' q"
proof -
  assume "changes_only {k} fr' fr''" "group_keys c G ! q \<noteq> k"
  then have eqs: "fr_values fr'' (group_keys c G ! q) = fr_values fr' (group_keys c G ! q)"
    "fr_errors fr'' (group_keys c G ! q) = fr_errors fr' (group_keys c G ! q)" by (simp_all add: changes_only_def)
  show "member_stored env c G supplied troubled fr fr' q \<Longrightarrow> ?thesis" by (simp only: member_stored_def Let_def eqs)
qed

definition stored_upto ::
  "('f, 't, 'l, 'x, 'd, 'w) frame_env \<Rightarrow> ('f, 'x) callable \<Rightarrow> ('f, 'x) planned_group \<Rightarrow> bool list \<Rightarrow> bool list \<Rightarrow>
   ('f, 't, 'l) presented slots \<Rightarrow> ('f, 't, 'l) frame \<Rightarrow> nat \<Rightarrow> ('f, 't, 'l) presented slots \<times> ('f, 't, 'l) frame \<Rightarrow> bool" where
  "stored_upto env c G supplied troubled slots fr i s \<longleftrightarrow>
     (\<forall>q < length (pg_members G). i \<le> q \<longrightarrow> fst s ! q = slots ! q) \<and> length (fst s) = length slots \<and>
     frame_inv (snd s) \<and> changes_only {k. \<exists>q < length (pg_members G). q < i \<and> k = group_keys c G ! q} fr (snd s) \<and>
     (\<forall>q < length (pg_members G). q < i \<longrightarrow> member_stored env c G supplied troubled fr (snd s) q)"

lemma commit_member_ok:
  fixes env :: "('f, 't, 'l, 'x, 'd, 'w) frame_env"
  assumes inv: "stored_upto env c G supplied troubled slots fr p s" and p: "p < length (pg_members G)"
    and slots: "slots_shape (group_keys c G) (axis_len (pg_axis G)) slots" "0 < axis_len (pg_axis G)"
    and keys: "distinct (group_keys c G)" and env: "env_ok env"
    and ready: "\<not> supplied ! p \<and> \<not> troubled ! p \<Longrightarrow> \<not> decided fr (group_keys c G ! p) \<and>
      (\<forall>t < axis_len (pg_axis G). slot_computed slots p t)"
  shows "case commit_member env c G supplied troubled s p of
      Inl e \<Rightarrow> stop_ok env e
    | Inr s' \<Rightarrow> stored_upto env c G supplied troubled slots fr (Suc p) s'"
proof -
  obtain slots1 fr1 where s: "s = (slots1, fr1)" by (cases s)
  let ?K = "\<lambda>i. {k. \<exists>q < length (pg_members G). q < i \<and> k = group_keys c G ! q}"
  let ?key = "group_keys c G ! p" and ?d = "st_declaration (group_step c G p)"
  have K: "?K (Suc p) = ?K p \<union> {?key}" using p by (auto simp: less_Suc_eq)
  have distinct: "group_keys c G ! q \<noteq> ?key" if "q < p" for q
    using that p keys by (simp add: nth_eq_iff_index_eq)
  have later: "stored_upto env c G supplied troubled slots fr (Suc p) (slots2, fr2)"
    if "\<forall>q < length (pg_members G). Suc p \<le> q \<longrightarrow> slots2 ! q = slots ! q" "length slots2 = length slots"
      "frame_inv fr2" "changes_only {?key} fr1 fr2" "member_stored env c G supplied troubled fr fr2 p" for slots2 fr2
  proof -
    have "changes_only (?K (Suc p)) fr fr2"
      unfolding K by (rule changes_only_trans [OF _ that(4)]) (use inv in \<open>simp add: s stored_upto_def\<close>)
    moreover have "member_stored env c G supplied troubled fr fr2 q" if "q < Suc p" for q
    proof (cases "q = p")
      case False
      then have "q < p" using that by simp
      moreover from this p inv have "member_stored env c G supplied troubled fr fr1 q" by (simp add: s stored_upto_def)
      ultimately show ?thesis using member_stored_later \<open>changes_only {?key} fr1 fr2\<close> distinct by blast
    qed (use \<open>member_stored env c G supplied troubled fr fr2 p\<close> in simp)
    ultimately show ?thesis using that by (simp add: stored_upto_def)
  qed
  have not_yet: "?key \<notin> ?K p"
  proof
    assume "?key \<in> ?K p"
    then obtain q where "q < p" "?key = group_keys c G ! q" by blast
    with distinct show False by metis
  qed
  then have same: "fr_values fr1 ?key = fr_values fr ?key" "fr_errors fr1 ?key = fr_errors fr ?key"
    using inv by (auto simp: s stored_upto_def changes_only_def)
  have slots1: "slots1 ! p = slots ! p" "length slots1 = length slots" "length slots = length (pg_members G)"
    using inv p slots(1) by (simp_all add: s stored_upto_def slots_shape_length)
  show ?thesis
  proof (cases "supplied ! p \<or> troubled ! p")
    case True
    have "stored_upto env c G supplied troubled slots fr (Suc p) (slots1, fr1)"
      by (rule later) (use inv True same in \<open>simp_all add: s stored_upto_def changes_only_refl member_stored_def Let_def\<close>)
    with True show ?thesis by (simp add: commit_member_def s Let_def)
  next
    case False
    with ready have undecided: "\<not> decided fr1 ?key" and computed: "\<And>t. t < axis_len (pg_axis G) \<Longrightarrow> slot_computed slots1 p t"
      using same slots1 by (auto simp: decided_def slot_computed_def slot_at_def split: if_splits)
    have "length (snd (slots1 ! p)) = axis_len (pg_axis G)" "p < length slots1"
      using slots(1) p slots1 by (simp_all add: slots_shape_def)
    from take_computed_ok [OF this(2,1) computed] obtain vs where vs: "length vs = axis_len (pg_axis G)"
      "take_computed slots1 p = (Some vs, slots1[p := (fst (slots1 ! p), [])])" by blast
    let ?v = "from_indexed \<lparr>iv_axis = pg_axis G, iv_entries = vs\<rparr>"
    let ?bind = "frame_bind env ?key (pd_domain ?d) ?v (pd_scope ?d) fr1"
    have commit: "commit_member env c G supplied troubled s p =
        res_map (\<lambda>fr. (slots1[p := (fst (slots1 ! p), [])], fr)) (map_err OutcomeStop ?bind)"
      using False vs by (simp add: commit_member_def s Let_def group_entries_ok [OF slots(2) vs(1)])
    show ?thesis
    proof (cases ?bind)
      case (Inl outcome)
      from frame_bind_Inl [OF this] Inl show ?thesis by (simp add: commit stop_ok_def)
    next
      case (Inr fr2)
      have "frame_inv fr1" using inv by (simp add: s stored_upto_def)
      from frame_bind_ok [OF Inr this undecided env] have ok: "frame_inv fr2" "changes_only {?key} fr1 fr2"
        "if domain_violation env ?v (pd_domain ?d) (pd_scope ?d) = None then fr_values fr2 ?key = Some (into_value ?v)
         else fr_errors fr2 ?key \<noteq> None" by (auto split: if_splits)
      have "stored_upto env c G supplied troubled slots fr (Suc p) (slots1[p := (fst (slots1 ! p), [])], fr2)"
      proof (rule later [OF _ _ ok(1,2)])
        show "\<forall>q < length (pg_members G). Suc p \<le> q \<longrightarrow> slots1[p := (fst (slots1 ! p), [])] ! q = slots ! q"
          using inv by (simp add: s stored_upto_def)
        show "length (slots1[p := (fst (slots1 ! p), [])]) = length slots" using slots1 by simp
        show "member_stored env c G supplied troubled fr fr2 p"
          using False ok(3) by (auto simp: member_stored_def Let_def split: if_splits)
      qed
      with Inr show ?thesis by (simp add: commit)
    qed
  qed
qed


lemma commit_members_ok:
  fixes env :: "('f, 't, 'l, 'x, 'd, 'w) frame_env" and fr :: "('f, 't, 'l) frame"
  assumes fr: "frame_inv fr" and slots: "slots_shape (group_keys c G) (axis_len (pg_axis G)) slots" "0 < axis_len (pg_axis G)"
    and keys: "distinct (group_keys c G)" and env: "env_ok env"
    and ready: "\<forall>p < length (pg_members G). \<not> supplied ! p \<and> \<not> troubled ! p \<longrightarrow> \<not> decided fr (group_keys c G ! p) \<and>
      (\<forall>t < axis_len (pg_axis G). slot_computed slots p t)"
  shows "case try_fold (commit_member env c G supplied troubled) (slots, fr) [0..<length (pg_members G)] of
      Inl e \<Rightarrow> stop_ok env e
    | Inr s' \<Rightarrow> stored_upto env c G supplied troubled slots fr (length (pg_members G)) s'"
proof -
  let ?n = "length (pg_members G)"
  have "case try_fold (commit_member env c G supplied troubled) (slots, fr) [0..<?n] of
      Inl e \<Rightarrow> stop_ok env e
    | Inr s' \<Rightarrow> stored_upto env c G supplied troubled slots fr (length [0..<?n]) s'"
  proof (rule try_fold_rule)
    show "stored_upto env c G supplied troubled slots fr 0 (slots, fr)"
      using fr by (simp add: stored_upto_def changes_only_refl)
    fix i s assume i: "i < length [0..<?n]" "stored_upto env c G supplied troubled slots fr i s"
    then have "i < ?n" by simp
    with commit_member_ok [OF i(2) this slots keys env] ready
    show "case commit_member env c G supplied troubled s ([0..<?n] ! i) of
        Inl e \<Rightarrow> stop_ok env e | Inr s' \<Rightarrow> stored_upto env c G supplied troubled slots fr (Suc i) s'" by simp
  qed
  then show ?thesis by (auto split: sum.splits)
qed

section \<open>A group as a whole\<close>

text \<open>A group member that got a value waits for nothing outside the group, and the members it reads
  are not among those with a problem.\<close>

definition group_result ::
  "('f, 't, 'l, 'x, 'd, 'w) frame_env \<Rightarrow> ('f, 'x) callable \<Rightarrow> ('f, 'x) planned_group \<Rightarrow>
   ('f, 't, 'l) frame \<Rightarrow> ('f, 't, 'l) frame \<Rightarrow> bool" where
  "group_result env c G fr fr' \<longleftrightarrow>
     frame_inv fr' \<and> changes_only (set (group_keys c G)) fr fr' \<and>
     (\<forall>key \<in> set (group_keys c G). decided fr' key) \<and>
     (\<forall>p < length (pg_members G).
        fr_values fr (group_keys c G ! p) = None \<and> fr_values fr' (group_keys c G ! p) \<noteq> None \<longrightarrow>
          unavailable_inputs env c fr (group_step c G p) = [] \<and>
          (\<forall>read \<in> set (rm_reads (pg_plan G ! p)). fr_values fr' (group_keys c G ! gr_target read) \<noteq> None \<or>
             (\<exists>v. domain_violation env v (pd_domain (st_declaration (group_step c G (gr_target read))))
                (pd_scope (st_declaration (group_step c G (gr_target read)))) \<noteq> None)))"

lemma supplied_members_nth:
  "p < length (pg_members G) \<Longrightarrow> supplied_members c G fr ! p \<longleftrightarrow> fr_values fr (group_keys c G ! p) \<noteq> None"
  by (simp add: supplied_members_def)

lemma initial_problem_unavailable:
  "frame_inv fr \<Longrightarrow> fr_values fr (group_keys c G ! p) = None \<Longrightarrow> initial_problem env c G fr p = None \<Longrightarrow>
    unavailable_inputs env c fr (group_step c G p) = [] \<and> fr_errors fr (group_keys c G ! p) = None"
  by (auto simp: initial_problem_def Let_def split: option.splits dest: unavailable_inputs_ok
      iffD1 [OF blocked_by_None, rotated])

lemma group_stored:
  fixes env :: "('f, 't, 'l, 'x, 'd, 'w) frame_env" and fr :: "('f, 't, 'l) frame"
  assumes fr: "frame_inv fr" and G: "group_matches G" "distinct (group_keys c G)"
    and inv: "loop_inv c G (supplied_members c G fr) (map (initial_problem env c G fr) [0..<length (pg_members G)])
      (axis_len (pg_axis G)) 0 slots problems"
    and trouble: "trouble_inv (pg_plan G) (group_keys c G) (supplied_members c G fr) problems (fr_errors fr) errors troubled"
      "trouble_closed (pg_plan G) (length (group_keys c G)) (supplied_members c G fr) troubled"
    and stored: "stored_upto env c G (supplied_members c G fr) troubled slots (fr\<lparr>fr_errors := errors\<rparr>)
      (length (pg_members G)) (slots', fr')"
  shows "group_result env c G fr fr'"
proof -
  let ?n = "length (pg_members G)" and ?key = "\<lambda>q. group_keys c G ! q"
  let ?fr1 = "fr\<lparr>fr_errors := errors\<rparr>"
  have errors: "errors_for (group_keys c G) (fr_errors fr) (\<lambda>q. troubled ! q) errors"
    and flags: "\<forall>q < ?n. problems ! q \<noteq> None \<longrightarrow> troubled ! q"
      "\<forall>q < ?n. troubled ! q \<longrightarrow> \<not> supplied_members c G fr ! q"
    using trouble(1) by (simp_all add: trouble_inv_def)
  have members: "member_stored env c G (supplied_members c G fr) troubled ?fr1 fr' q" if "q < ?n" for q
    using stored that by (simp add: stored_upto_def)
  have member: "if supplied_members c G fr ! q then fr_values fr' (?key q) = fr_values fr (?key q)
      else if troubled ! q then fr_values fr' (?key q) = None \<and> fr_errors fr' (?key q) \<noteq> None
      else fr_values fr' (?key q) \<noteq> None \<or> fr_errors fr' (?key q) \<noteq> None \<and>
        (\<exists>v. domain_violation env v (pd_domain (st_declaration (group_step c G q))) (pd_scope (st_declaration (group_step c G q))) \<noteq> None)"
    if q: "q < ?n" for q
  proof -
    have "errors (?key q) \<noteq> None" if "troubled ! q" using errors q that unfolding errors_for_def by auto
    with members [OF q] supplied_members_nth [OF q, of c fr] show ?thesis
      by (auto simp: member_stored_def Let_def split: if_splits)
  qed
  have keys: "set (group_keys c G) = {k. \<exists>q < ?n. k = ?key q}" by (auto simp: in_set_conv_nth)
  have old: "errors k = fr_errors fr k" if "k \<notin> set (group_keys c G) \<or> decided fr k" for k
  proof (cases "fr_errors fr k")
    case (Some r)
    with errors show ?thesis unfolding errors_for_def by (metis option.simps(3))
  next
    case None
    have "errors k = None"
    proof (rule ccontr)
      assume "errors k \<noteq> None"
      with errors None obtain q where q: "q < ?n" "troubled ! q" "k = ?key q" unfolding errors_for_def by auto
      with that have "fr_values fr (?key q) \<noteq> None" using None by (auto simp: decided_def)
      with flags(2) q supplied_members_nth show False by blast
    qed
    with None show ?thesis by simp
  qed
  have "changes_only (set (group_keys c G)) ?fr1 fr'" using stored by (simp add: stored_upto_def keys)
  moreover have "decided ?fr1 k" if "decided fr k" for k using old that by (simp add: decided_def)
  ultimately have "changes_only (set (group_keys c G)) fr fr'" using old unfolding changes_only_def by simp
  moreover have "frame_inv fr'" using stored by (simp add: stored_upto_def)
  moreover have "decided fr' key" if "key \<in> set (group_keys c G)" for key
  proof -
    obtain q where "q < ?n" "key = ?key q" using \<open>key \<in> _\<close> by (auto simp: keys)
    with member [of q] supplied_members_nth [of q] show ?thesis by (auto simp: decided_def split: if_splits)
  qed
  moreover have "unavailable_inputs env c fr (group_step c G p) = [] \<and>
      (\<forall>read \<in> set (rm_reads (pg_plan G ! p)). fr_values fr' (?key (gr_target read)) \<noteq> None \<or>
         (\<exists>v. domain_violation env v (pd_domain (st_declaration (group_step c G (gr_target read))))
            (pd_scope (st_declaration (group_step c G (gr_target read)))) \<noteq> None))"
    if p: "p < ?n" "fr_values fr (?key p) = None" "fr_values fr' (?key p) \<noteq> None" for p
  proof -
    have unsupplied: "\<not> supplied_members c G fr ! p" using p supplied_members_nth by blast
    with member [OF p(1)] p(3) have calm: "\<not> troubled ! p" by (auto split: if_splits)
    with flags(1) p(1) have "problems ! p = None" by blast
    with inv p(1) have "initial_problem env c G fr p = None" by (auto simp: loop_inv_def)
    note inputs = initial_problem_unavailable [OF fr p(2) this]
    moreover have "fr_values fr' (?key (gr_target read)) \<noteq> None \<or>
         (\<exists>v. domain_violation env v (pd_domain (st_declaration (group_step c G (gr_target read))))
            (pd_scope (st_declaration (group_step c G (gr_target read)))) \<noteq> None)"
      if read: "read \<in> set (rm_reads (pg_plan G ! p))" for read
    proof -
      have target: "gr_target read < ?n"
        using G(1) read p(1) group_shape(2) [OF G(1) p(1)] by (auto simp: group_matches_def plan_ok_def dest: map_eq_imp_length_eq)
      have "supplied_members c G fr ! gr_target read \<or> \<not> troubled ! gr_target read"
        using trouble(2) p(1) unsupplied calm read by (simp add: trouble_closed_def)
      with member [OF target] supplied_members_nth [OF target] show ?thesis by (auto split: if_splits)
    qed
    ultimately show ?thesis by blast
  qed
  ultimately show ?thesis unfolding group_result_def by blast
qed


lemma evaluate_group_ok:
  fixes env :: "('f, 't, 'l, 'x, 'd, 'w) frame_env" and fr :: "('f, 't, 'l) frame"
  assumes fr: "frame_inv fr" and G: "group_matches G" "distinct (group_keys c G)" and fit: "supplied_fit c G fr"
    and env: "env_ok env"
  shows "case evaluate_group env c G (fr, w) of Inl e \<Rightarrow> stop_ok env e | Inr (fr', w') \<Rightarrow> group_result env c G fr fr'"
proof -
  let ?n = "length (pg_members G)" and ?keys = "group_keys c G"
  let ?start = "foldl (prepare_member env c G fr)
    (slots_new ?keys (axis_len (pg_axis G)), replicate ?n False, []) [0..<?n]"
  let ?initial = "map (initial_problem env c G fr) [0..<?n]"
  have pos: "0 < axis_len (pg_axis G)" using G(1) by (simp add: group_matches_def)
  obtain slots0 supplied problems0 where start: "?start = (slots0, supplied, problems0)" by (metis prod.exhaust)
  from prepare_members [OF fr fit order_refl, of env] start
  have "prepared env c G fr ?n (slots0, supplied, problems0)" by simp
  from loop_inv_prepared [OF this fr env]
  have inv0: "loop_inv c G supplied problems0 0 0 slots0 problems0" and supplied: "supplied = supplied_members c G fr"
    and problems0: "problems0 = ?initial" by blast+
  note rows = run_rows_inv [OF inv0 G env, of fr w]
  show ?thesis
  proof (cases "try_fold (run_row env c G supplied fr) ((slots0, problems0), w) (axis_rows (pg_axis G))")
    case (Inl e)
    with rows start show ?thesis by (simp add: evaluate_group_def Let_def length_key_all [OF pos])
  next
    case (Inr s)
    obtain slots problems w1 where s: "s = ((slots, problems), w1)" by (metis prod.exhaust)
    from rows Inr s have inv: "loop_inv c G supplied problems0 (axis_len (pg_axis G)) 0 slots problems" by simp
    have len: "length problems = length ?keys" using inv by (simp add: loop_inv_def)
    have problem: "problem_ok (problems ! q) \<and> (\<forall>e. problems ! q = Some (FailedProblem e) \<longrightarrow> fr_errors fr (?keys ! q) = None)"
      "fr_errors fr (?keys ! q) \<noteq> None \<Longrightarrow> problems ! q \<noteq> None" "supplied ! q \<Longrightarrow> problems ! q = None" if "q < ?n" for q
    proof -
      have q: "problem_ok (problems ! q)" "supplied ! q \<Longrightarrow> problems ! q = None"
          "problems0 ! q \<noteq> None \<Longrightarrow> problems ! q = problems0 ! q"
        using inv that unfolding loop_inv_def by blast+
      have initial: "problems0 ! q = Some (UnavailableProblem r)" if "fr_errors fr (?keys ! q) = Some r" for r
        using that \<open>q < ?n\<close> fr by (auto simp: problems0 initial_problem_def Let_def frame_inv_def)
      show "problem_ok (problems ! q) \<and> (\<forall>e. problems ! q = Some (FailedProblem e) \<longrightarrow> fr_errors fr (?keys ! q) = None)"
        using q(1,3) initial by (cases "fr_errors fr (?keys ! q)") auto
      show "fr_errors fr (?keys ! q) \<noteq> None \<Longrightarrow> problems ! q \<noteq> None" using q(3) initial by auto
      show "supplied ! q \<Longrightarrow> problems ! q = None" by (rule q(2))
    qed
    note recorded = record_problems [OF fr G(2) len, of env, unfolded length_group_keys, OF problem(1)]
    show ?thesis
    proof (cases "try_fold (record_problem env ?keys) fr (enumerate 0 problems)")
      case (Inl outcome)
      with recorded Inr start s show ?thesis
        by (simp add: evaluate_group_def Let_def length_key_all [OF pos] stop_ok_def)
    next
      case rec: (Inr fr1)
      with recorded obtain errors1 where fr1: "fr1 = fr\<lparr>fr_errors := errors1\<rparr>"
        and errors1: "errors_for ?keys (fr_errors fr) (\<lambda>q. problems ! q \<noteq> None) errors1" by auto
      let ?flags = "map (\<lambda>p. p \<noteq> None) problems"
      have flags: "errors_for ?keys (fr_errors fr) (\<lambda>q. ?flags ! q) errors1"
        by (rule errors_for_cong [OF errors1]) (simp add: len)
      have inv1: "trouble_inv (pg_plan G) ?keys supplied problems (fr_errors fr) errors1 ?flags"
        using flags problem(3) len by (auto simp: trouble_inv_def intro: reaches_problem.here)
      have errors0: "\<forall>q < length ?keys. fr_errors fr (?keys ! q) \<noteq> None \<longrightarrow> problems ! q \<noteq> None"
        using problem(2) by simp
      have targets: "\<forall>p < length ?keys. \<forall>read \<in> set (rm_reads (pg_plan G ! p)). gr_target read < length ?keys"
        using G(1) by (auto simp: group_matches_def plan_ok_def dest: map_eq_imp_length_eq)
      obtain errors troubled where loop: "trouble_loop (pg_plan G) ?keys supplied errors1 ?flags = (errors, troubled)"
        by (metis prod.exhaust)
      from trouble_loop_closed [OF inv1 errors0 targets loop]
      have trouble: "trouble_inv (pg_plan G) ?keys supplied problems (fr_errors fr) errors troubled"
        "trouble_closed (pg_plan G) (length ?keys) supplied troubled" by simp_all
      let ?fr2 = "fr\<lparr>fr_errors := errors\<rparr>"
      have troubled: "errors_for ?keys (fr_errors fr) (\<lambda>q. troubled ! q) errors"
        "\<forall>q < ?n. troubled ! q \<longrightarrow> \<not> supplied ! q" "\<forall>q < ?n. problems ! q \<noteq> None \<longrightarrow> troubled ! q"
        using trouble(1) by (simp_all add: trouble_inv_def)
      have unsupplied: "fr_values fr (?keys ! q) = None \<longleftrightarrow> \<not> supplied ! q" if "q < ?n" for q
        using supplied_members_nth [OF that, of c fr] by (simp add: supplied)
      have fr2: "frame_inv ?fr2"
      proof -
        have "errors k = None" if k: "fr_values fr k \<noteq> None" for k
        proof (rule ccontr)
          assume "errors k \<noteq> None"
          moreover have "fr_errors fr k = None" using fr k by (simp add: frame_inv_def)
          moreover have "errors k \<noteq> None \<longleftrightarrow> fr_errors fr k \<noteq> None \<or> (\<exists>q < length ?keys. troubled ! q \<and> k = ?keys ! q)"
            using troubled(1) unfolding errors_for_def by blast
          ultimately obtain q where "q < ?n" "troubled ! q" "k = ?keys ! q" by auto
          with unsupplied [of q] troubled(2) k show False by simp
        qed
        with fr troubled(1) show ?thesis by (simp add: frame_inv_def errors_for_def)
      qed
      have shape: "slots_shape ?keys (axis_len (pg_axis G)) slots" using inv by (simp add: loop_inv_def)
      have ready: "\<not> decided ?fr2 (?keys ! p) \<and> (\<forall>t < axis_len (pg_axis G). slot_computed slots p t)"
        if p: "p < ?n" "\<not> supplied ! p" "\<not> troubled ! p" for p
      proof
        have "fr_errors fr (?keys ! p) = None" using problem(2) [OF p(1)] troubled(3) p by blast
        moreover have "\<not> (\<exists>q < length ?keys. troubled ! q \<and> ?keys ! p = ?keys ! q)"
          using p G(2) by (auto simp: nth_eq_iff_index_eq)
        ultimately have "errors (?keys ! p) = None" using troubled(1) unfolding errors_for_def by blast
        with unsupplied p show "\<not> decided ?fr2 (?keys ! p)" by (simp add: decided_def)
        show "\<forall>t < axis_len (pg_axis G). slot_computed slots p t"
        proof (intro allI impI)
          fix t assume t: "t < axis_len (pg_axis G)"
          have "slot_computed slots p t \<or> slot_at slots p t \<in> {Some FailedSlot, Some UnavailableSlot}"
            by (rule loop_inv_slot [OF inv p(1) t]) (use t in \<open>simp add: element_before_def\<close>)
          then show "slot_computed slots p t"
          proof
            assume "slot_at slots p t \<in> {Some FailedSlot, Some UnavailableSlot}"
            with loop_inv_bad [OF inv p(1) t] have "reaches_problem (pg_plan G) supplied problems p" by blast
            from reaches_troubled [OF this trouble(1) _ trouble(2) targets] p show ?thesis by simp
          qed
        qed
      qed
      note commit = commit_members_ok [OF fr2 shape pos G(2) env, of supplied troubled]
      show ?thesis
      proof (cases "try_fold (commit_member env c G supplied troubled) (slots, ?fr2) [0..<?n]")
        case (Inl e)
        with commit ready rec Inr start s loop fr1 show ?thesis
          by (simp add: evaluate_group_def Let_def length_key_all [OF pos])
      next
        case stored: (Inr s')
        obtain slots' fr' where s': "s' = (slots', fr')" by (cases s')
        have "stored_upto env c G supplied troubled slots ?fr2 ?n (slots', fr')"
          using commit ready stored s' by simp
        from group_stored [OF fr G inv [unfolded supplied problems0] trouble [unfolded supplied] this [unfolded supplied]]
        have "group_result env c G fr fr'" .
        with stored rec Inr start s loop fr1 s' show ?thesis
          by (simp add: evaluate_group_def Let_def length_key_all [OF pos])
      qed
    qed
  qed
qed


section \<open>A frame as a whole\<close>

text \<open>A step without an executable body also stops a run, with an internal error.\<close>

definition not_executable :: "('f, 't, 'l, 'x, 'd, 'w) frame_env \<Rightarrow> ('f, 'x) step \<Rightarrow> 'd frame_outcome \<Rightarrow> bool" where
  "not_executable env st outcome \<longleftrightarrow>
     (\<exists>hir e. st_body st = ExpressionBody hir (Inl e) \<and> outcome = FailedOutcome (InternalFailure (env_not_executable env e)))"

lemma run_step_Inl:
  assumes "run_step env c st (fr, w) = Inl outcome"
  shows "outcome_ok env outcome \<or> not_executable env st outcome"
proof -
  let ?d = "st_declaration st" and ?key = "pd_key (st_declaration st)"
  obtain hir tree where body: "st_body st = ExpressionBody hir tree"
    and none: "fr_values fr ?key = None" "fr_errors fr ?key = None" "blocked_by (unavailable_inputs env c fr st) = None"
    using assms by (auto simp: run_step_def Let_def split: if_splits computed_body.splits option.splits)
  show ?thesis
  proof (cases tree)
    case (Inl e)
    with assms body none show ?thesis by (simp add: run_step_def Let_def not_executable_def)
  next
    case (Inr node)
    let ?entry = "ScheduledDeclaration ?key (pd_scope ?d) node"
    obtain evaluated w1 where eval: "env_evaluate env ?entry fr w = (evaluated, w1)" by (cases "env_evaluate env ?entry fr w")
    show ?thesis
    proof (cases evaluated)
      case v: (Inr v)
      with assms body none Inr eval have "frame_bind env ?key (pd_domain ?d) v (pd_scope ?d) fr = Inl outcome"
        by (simp add: run_step_def Let_def result_iffs)
      then show ?thesis by (blast dest: frame_bind_Inl)
    next
      case outcome: (Inl outcome1)
      show ?thesis
      proof (cases outcome1)
        case CancelledOutcome
        with assms body none Inr eval outcome cancelled_byI(2) [of env ?entry fr w w1] show ?thesis
          by (simp add: run_step_def Let_def outcome_ok_def)
      next
        case (FailedOutcome error)
        with assms body none Inr eval outcome have "frame_failure env ?key error fr = Inl outcome"
          by (simp add: run_step_def Let_def result_iffs)
        from frame_failure_Inl [OF this] from_envI(1) [OF eval [unfolded outcome FailedOutcome]] show ?thesis by blast
      qed
    qed
  qed
qed

text \<open>What may stop the run of a callable.\<close>

definition run_stop_ok :: "('f, 't, 'l, 'x, 'd, 'w) frame_env \<Rightarrow> ('f, 'x) callable \<Rightarrow> 'd frame_outcome \<Rightarrow> bool" where
  "run_stop_ok env c outcome \<longleftrightarrow> outcome_ok env outcome \<or> (\<exists>st \<in> set (cl_steps c). not_executable env st outcome)"

text \<open>A callable whose groups were planned from the checker's plans.\<close>

definition callable_matches :: "('f, 'x) callable \<Rightarrow> bool" where
  "callable_matches c \<longleftrightarrow> callable_ok c \<and> (\<forall>G \<in> set (cl_groups c). group_matches G) \<and>
     (\<forall>st \<in> set (cl_steps c). step_body_ok st)"

lemma unit_keys: "group_keys c G = map (step_key c) (map mp_step (pg_members G))"
  by (simp add: group_keys_def)

lemma upt_segment: "xs @ ys @ zs = [0..<n] \<Longrightarrow> ys = [length xs..<length xs + length ys]"
proof -
  assume split: "xs @ ys @ zs = [0..<n]"
  then have "length (xs @ ys @ zs) = n" by simp
  then have "take (length ys) (drop (length xs) [0..<n]) = [length xs..<length xs + length ys]" by (simp add: take_upt)
  moreover have "take (length ys) (drop (length xs) [0..<n]) = ys" by (simp flip: split)
  ultimately show ?thesis by simp
qed

text \<open>What running one unit does to its steps.\<close>

definition unit_result ::
  "('f, 't, 'l, 'x, 'd, 'w) frame_env \<Rightarrow> ('f, 'x) callable \<Rightarrow> ('f, 't, 'l) frame \<Rightarrow> ('f, 't, 'l) frame \<Rightarrow> nat list \<Rightarrow> bool" where
  "unit_result env c fr fr' steps \<longleftrightarrow>
     frame_inv fr' \<and> changes_only (step_key c ` set steps) fr fr' \<and>
     (\<forall>i \<in> set steps. decided fr' (step_key c i) \<and>
        (fr_values fr (step_key c i) = None \<and> fr_values fr' (step_key c i) \<noteq> None \<longrightarrow>
           unavailable_inputs env c fr (cl_steps c ! i) = []))"

lemma run_one_ok:
  fixes env :: "('f, 't, 'l, 'x, 'd, 'w) frame_env" and fr :: "('f, 't, 'l) frame"
  assumes c: "callable_matches c" and unit: "unit \<in> set (cl_units c)" "set (unit_steps (cl_groups c) unit) \<subseteq> {..<length (cl_steps c)}"
      "distinct (unit_steps (cl_groups c) unit)"
    and fr: "frame_inv fr" and fit: "\<forall>g. unit = GroupUnit g \<longrightarrow> supplied_fit c (cl_groups c ! g) fr" and env: "env_ok env"
  shows "case run_one env c (fr, w) unit of
      Inl outcome \<Rightarrow> run_stop_ok env c outcome
    | Inr (fr', w') \<Rightarrow> unit_result env c fr fr' (unit_steps (cl_groups c) unit)"
proof -
  obtain cancelled w1 where cancelled: "env_cancelled env w = (cancelled, w1)" by (cases "env_cancelled env w")
  show ?thesis
  proof (cases cancelled)
    case True
    with cancelled cancelled_byI(1) [of env w w1] show ?thesis by (simp add: run_one_def run_stop_ok_def outcome_ok_def)
  next
    case False
    show ?thesis
    proof (cases unit)
      case (StepUnit i)
      have i: "i < length (cl_steps c)" using unit(2) StepUnit by simp
      then have body: "step_body_ok (cl_steps c ! i)" using c by (simp add: callable_matches_def)
      show ?thesis
      proof (cases "run_step env c (cl_steps c ! i) (fr, w1)")
        case (Inl outcome)
        with run_step_Inl [OF Inl] nth_mem [OF i] StepUnit False cancelled show ?thesis
          by (auto simp: run_one_def run_stop_ok_def)
      next
        case (Inr s)
        obtain fr' w' where s: "s = (fr', w')" by (cases s)
        from run_step_ok [OF Inr [unfolded s] fr env body]
        have "unit_result env c fr fr' [i]" by (simp add: unit_result_def step_key_def)
        with Inr s StepUnit False cancelled show ?thesis by (simp add: run_one_def)
      qed
    next
      case (GroupUnit g)
      let ?G = "cl_groups c ! g"
      have g: "?G \<in> set (cl_groups c)" using c unit(1) GroupUnit by (simp add: callable_matches_def callable_ok_def)
      then have G: "group_matches ?G" using c by (simp add: callable_matches_def)
      have steps: "unit_steps (cl_groups c) unit = map mp_step (pg_members ?G)" by (simp add: GroupUnit)
      have keys: "group_keys c ?G = map (step_key c) (unit_steps (cl_groups c) unit)" by (simp add: unit_keys steps)
      have inj: "inj_on (step_key c) {..<length (cl_steps c)}"
        using c by (auto simp: callable_matches_def callable_ok_def distinct_map step_key_def inj_on_def distinct_conv_nth)
      have distinct: "distinct (group_keys c ?G)"
        unfolding keys distinct_map using unit(3) inj_on_subset [OF inj unit(2)] by simp
      note ok = evaluate_group_ok [OF fr G distinct _ env, of w1]
      show ?thesis
      proof (cases "evaluate_group env c ?G (fr, w1)")
        case (Inl e)
        with ok fit GroupUnit obtain outcome where "e = OutcomeStop outcome" "outcome_ok env outcome"
          by (auto simp: stop_ok_def)
        with Inl GroupUnit False cancelled show ?thesis by (simp add: run_one_def run_group_def run_stop_ok_def)
      next
        case (Inr s)
        obtain fr' w' where s: "s = (fr', w')" by (cases s)
        have result: "group_result env c ?G fr fr'" using ok fit GroupUnit Inr s by simp
        have "unit_result env c fr fr' (unit_steps (cl_groups c) unit)"
          unfolding unit_result_def
        proof (intro conjI ballI)
          show "frame_inv fr'" "changes_only (step_key c ` set (unit_steps (cl_groups c) unit)) fr fr'"
            using result by (simp_all add: group_result_def keys)
          fix i assume "i \<in> set (unit_steps (cl_groups c) unit)"
          then obtain p where p: "p < length (pg_members ?G)" "i = mp_step (pg_members ?G ! p)"
            unfolding steps by (auto simp: in_set_conv_nth)
          then have key: "step_key c i = group_keys c ?G ! p" by (simp add: group_keys_def)
          show "decided fr' (step_key c i)" using result p(1) unfolding key by (simp add: group_result_def)
          show "fr_values fr (step_key c i) = None \<and> fr_values fr' (step_key c i) \<noteq> None \<longrightarrow>
              unavailable_inputs env c fr (cl_steps c ! i) = []"
            using result p unfolding key group_result_def group_step_def by blast
        qed
        with Inr s GroupUnit False cancelled show ?thesis by (simp add: run_one_def run_group_def)
      qed
    qed
  qed
qed


text \<open>The steps of the units before a unit.\<close>

definition steps_before :: "('f, 'x) callable \<Rightarrow> nat \<Rightarrow> nat" where
  "steps_before c k = length (concat (map (unit_steps (cl_groups c)) (take k (cl_units c))))"

lemma unit_segment:
  assumes "callable_ok c" "k < length (cl_units c)"
  shows "unit_steps (cl_groups c) (cl_units c ! k) = [steps_before c k..<steps_before c (Suc k)] \<and>
    steps_before c k \<le> steps_before c (Suc k) \<and> steps_before c (Suc k) \<le> length (cl_steps c)"
proof -
  let ?u = "unit_steps (cl_groups c)"
  have split: "concat (map ?u (take k (cl_units c))) @ ?u (cl_units c ! k) @ concat (map ?u (drop (Suc k) (cl_units c))) =
      [0..<length (cl_steps c)]"
  proof -
    have "concat (map ?u (take k (cl_units c) @ cl_units c ! k # drop (Suc k) (cl_units c))) = [0..<length (cl_steps c)]"
      using assms(1) unfolding id_take_nth_drop [OF assms(2), symmetric] by (simp add: callable_ok_def)
    then show ?thesis by (simp only: map_append concat_append list.map(2) concat.simps(2))
  qed
  have next_k: "steps_before c (Suc k) = steps_before c k + length (?u (cl_units c ! k))"
    using assms(2) by (simp add: steps_before_def take_Suc_conv_app_nth)
  with upt_segment [OF split] arg_cong [OF split, of length] show ?thesis
    by (simp add: steps_before_def)
qed

lemma steps_before_all: "callable_ok c \<Longrightarrow> steps_before c (length (cl_units c)) = length (cl_steps c)"
  by (simp add: steps_before_def callable_ok_def)

text \<open>A frame that has run the first steps of a callable.\<close>

definition ran_upto ::
  "('f, 'x) callable \<Rightarrow> ('f, 't, 'l) frame \<Rightarrow> nat \<Rightarrow> ('f, 't, 'l) frame \<Rightarrow> bool" where
  "ran_upto c fr n fr' \<longleftrightarrow>
     frame_inv fr' \<and> changes_only (step_key c ` {..<n}) fr fr' \<and>
     (\<forall>i < n. decided fr' (step_key c i) \<and>
        (fr_values fr (step_key c i) = None \<and> fr_values fr' (step_key c i) \<noteq> None \<longrightarrow>
           (\<forall>d \<in> set (st_deps (cl_steps c ! i)). fr_values fr' (step_key c d) \<noteq> None)))"

lemma decided_keeps:
  "changes_only K fr fr' \<Longrightarrow> decided fr k \<Longrightarrow> fr_values fr' k = fr_values fr k \<and> fr_errors fr' k = fr_errors fr k"
  by (simp add: changes_only_def)

lemma changes_only_outside:
  "changes_only K fr fr' \<Longrightarrow> k \<notin> K \<Longrightarrow> fr_values fr' k = fr_values fr k \<and> fr_errors fr' k = fr_errors fr k"
  by (simp add: changes_only_def)

lemma ran_unit:
  assumes before: "ran_upto c fr m fr1" and unit: "unit_result env c fr1 fr2 [m..<n]" and le: "m \<le> n"
    and inj: "\<And>i j. i < n \<Longrightarrow> j < n \<Longrightarrow> step_key c i = step_key c j \<Longrightarrow> i = j"
    and deps: "\<And>i d. m \<le> i \<Longrightarrow> i < n \<Longrightarrow> d \<in> set (st_deps (cl_steps c ! i)) \<Longrightarrow> d < m"
  shows "ran_upto c fr n fr2"
proof -
  have step: "changes_only (step_key c ` {m..<n}) fr1 fr2" using unit by (simp add: unit_result_def)
  have all: "step_key c ` {..<n} = step_key c ` {..<m} \<union> step_key c ` {m..<n}"
    using ivl_disj_un_one(2) [OF le] by (simp flip: image_Un)
  have "changes_only (step_key c ` {..<n}) fr fr2"
    unfolding all by (rule changes_only_trans [OF _ step]) (use before in \<open>simp add: ran_upto_def\<close>)
  moreover have "decided fr2 (step_key c i) \<and>
      (fr_values fr (step_key c i) = None \<and> fr_values fr2 (step_key c i) \<noteq> None \<longrightarrow>
         (\<forall>d \<in> set (st_deps (cl_steps c ! i)). fr_values fr2 (step_key c d) \<noteq> None))" if i: "i < n" for i
  proof (cases "i < m")
    case True
    with before have old: "decided fr1 (step_key c i)"
      "fr_values fr (step_key c i) = None \<and> fr_values fr1 (step_key c i) \<noteq> None \<longrightarrow>
         (\<forall>d \<in> set (st_deps (cl_steps c ! i)). fr_values fr1 (step_key c d) \<noteq> None)" by (simp_all add: ran_upto_def)
    have "fr_values fr2 (step_key c d) \<noteq> None" if "fr_values fr1 (step_key c d) \<noteq> None" for d
      using decided_keeps [OF step, of "step_key c d"] that by (simp add: decided_def)
    with old decided_keeps [OF step old(1)] changes_only_decided [OF step old(1)] show ?thesis by auto
  next
    case False
    then have here: "i \<in> set [m..<n]" using i by simp
    have fresh: "step_key c i \<notin> step_key c ` {..<m}"
    proof
      assume "step_key c i \<in> step_key c ` {..<m}"
      then obtain j where "j < m" "step_key c i = step_key c j" by auto
      with inj [of i j] False i le show False by simp
    qed
    have "changes_only (step_key c ` {..<m}) fr fr1" using before by (simp add: ran_upto_def)
    from changes_only_outside [OF this fresh] have same: "fr_values fr1 (step_key c i) = fr_values fr (step_key c i)" by simp
    have "fr_values fr2 (step_key c d) \<noteq> None"
      if "fr_values fr (step_key c i) = None" "fr_values fr2 (step_key c i) \<noteq> None" "d \<in> set (st_deps (cl_steps c ! i))" for d
    proof -
      have "unavailable_inputs env c fr1 (cl_steps c ! i) = []"
        using unit here that same by (simp add: unit_result_def)
      then have "fr_errors fr1 (step_key c d) = None" using that(3) by (simp add: unavailable_inputs_Nil)
      moreover have decided: "decided fr1 (step_key c d)"
        using before deps [OF _ i that(3)] False by (simp add: ran_upto_def)
      ultimately show ?thesis using decided_keeps [OF step decided] by (auto simp: decided_def)
    qed
    with unit here show ?thesis by (auto simp: unit_result_def)
  qed
  moreover have "frame_inv fr2" using unit by (simp add: unit_result_def)
  ultimately show ?thesis by (simp add: ran_upto_def)
qed

lemma unit_deps:
  assumes "callable_ok c" "k < length (cl_units c)" "steps_before c k \<le> i" "i < steps_before c (Suc k)"
    and "d \<in> set (st_deps (cl_steps c ! i))"
  shows "d < steps_before c k"
proof (rule ccontr)
  assume "\<not> d < steps_before c k"
  note segment = unit_segment [OF assms(1,2)]
  have "d < i" using assms segment by (auto simp: callable_ok_def)
  with assms(3,4) segment \<open>\<not> d < _\<close> have d: "d \<in> set (unit_steps (cl_groups c) (cl_units c ! k))" "d \<noteq> i"
    and i: "i \<in> set (unit_steps (cl_groups c) (cl_units c ! k))" by simp_all
  show False
  proof (cases "cl_units c ! k")
    case (GroupUnit g)
    then have "g < length (cl_groups c)" using assms(1,2) by (metis callable_ok_def nth_mem)
    then have "group_ok c (cl_groups c ! g)" using assms(1) by (simp add: callable_ok_def)
    with i d assms(5) GroupUnit show False by (auto simp: group_ok_def)
  qed (use d i in simp)
qed

lemma frame_run_ok:
  fixes env :: "('f, 't, 'l, 'x, 'd, 'w) frame_env" and fr :: "('f, 't, 'l) frame"
  assumes c: "callable_matches c" and fr: "frame_inv fr" and fit: "\<forall>G \<in> set (cl_groups c). supplied_fit c G fr"
    and env: "env_ok env"
  shows "case frame_run env c (fr, w) of
      Inl outcome \<Rightarrow> run_stop_ok env c outcome
    | Inr (fr', w') \<Rightarrow> ran_upto c fr (length (cl_steps c)) fr'"
proof -
  let ?P = "\<lambda>k (s :: ('f, 't, 'l) frame \<times> 'w). ran_upto c fr (steps_before c k) (fst s)"
  have ok: "callable_ok c" using c by (simp add: callable_matches_def)
  have inj: "i = j" if "i < length (cl_steps c)" "j < length (cl_steps c)" "step_key c i = step_key c j" for i j
    using ok that by (auto simp: callable_ok_def step_key_def distinct_conv_nth)
  have "case try_fold (run_one env c) (fr, w) (cl_units c) of
      Inl outcome \<Rightarrow> run_stop_ok env c outcome | Inr s \<Rightarrow> ?P (length (cl_units c)) s"
  proof (rule try_fold_rule)
    show "?P 0 (fr, w)" using fr by (simp add: ran_upto_def steps_before_def changes_only_refl)
    fix k and s :: "('f, 't, 'l) frame \<times> 'w" assume k: "k < length (cl_units c)" "?P k s"
    obtain fr1 w1 where s: "s = (fr1, w1)" by (cases s)
    let ?unit = "cl_units c ! k"
    note segment = unit_segment [OF ok k(1)]
    have before: "ran_upto c fr (steps_before c k) fr1" using k(2) by (simp add: s)
    then have inv: "frame_inv fr1" "changes_only (step_key c ` {..<steps_before c k}) fr fr1" by (simp_all add: ran_upto_def)
    have fit1: "\<forall>g. ?unit = GroupUnit g \<longrightarrow> supplied_fit c (cl_groups c ! g) fr1"
    proof (intro allI impI)
      fix g assume g: "?unit = GroupUnit g"
      then have "g < length (cl_groups c)" using ok k(1) by (metis callable_ok_def nth_mem)
      then have "supplied_fit c (cl_groups c ! g) fr" using fit by simp
      moreover have "fr_values fr1 key = fr_values fr key" if "key \<in> set (group_keys c (cl_groups c ! g))" for key
      proof -
        have "set (group_keys c (cl_groups c ! g)) = step_key c ` set (unit_steps (cl_groups c) ?unit)"
          by (simp add: unit_keys g image_comp)
        with that segment obtain i where i: "steps_before c k \<le> i" "i < length (cl_steps c)" "key = step_key c i" by auto
        have "key \<notin> step_key c ` {..<steps_before c k}"
        proof
          assume "key \<in> step_key c ` {..<steps_before c k}"
          then obtain j where "j < steps_before c k" "key = step_key c j" by auto
          with inj [of i j] i show False by simp
        qed
        from changes_only_outside [OF inv(2) this] show ?thesis by simp
      qed
      ultimately show "supplied_fit c (cl_groups c ! g) fr1" by (simp add: supplied_fit_def)
    qed
    have unit: "?unit \<in> set (cl_units c)" "set (unit_steps (cl_groups c) ?unit) \<subseteq> {..<length (cl_steps c)}"
      "distinct (unit_steps (cl_groups c) ?unit)" using k(1) segment by auto
    note one = run_one_ok [OF c unit inv(1) fit1 env, of w1]
    show "case run_one env c s ?unit of Inl outcome \<Rightarrow> run_stop_ok env c outcome | Inr s' \<Rightarrow> ?P (Suc k) s'"
    proof (cases "run_one env c s ?unit")
      case (Inr s')
      obtain fr2 w2 where s': "s' = (fr2, w2)" by (cases s')
      have "unit_result env c fr1 fr2 [steps_before c k..<steps_before c (Suc k)]"
        using one Inr s s' segment by simp
      then have "ran_upto c fr (steps_before c (Suc k)) fr2"
      proof (rule ran_unit [OF before])
        show "steps_before c k \<le> steps_before c (Suc k)" using segment by simp
        show "i = j" if "i < steps_before c (Suc k)" "j < steps_before c (Suc k)" "step_key c i = step_key c j" for i j
          using inj [of i j] that segment by simp
        show "d < steps_before c k" if "steps_before c k \<le> i" "i < steps_before c (Suc k)" "d \<in> set (st_deps (cl_steps c ! i))" for i d
          by (rule unit_deps [OF ok k(1) that])
      qed
      with Inr s' show ?thesis by simp
    qed (use one s in simp)
  qed
  then show ?thesis unfolding frame_run_def steps_before_all [OF ok] by (auto split: sum.splits)
qed


lemma frame_run_complete:
  fixes env :: "('f, 't, 'l, 'x, 'd, 'w) frame_env" and fr :: "('f, 't, 'l) frame"
  assumes c: "callable_matches c" and fr: "frame_inv fr" and fit: "\<forall>G \<in> set (cl_groups c). supplied_fit c G fr"
    and env: "env_ok env" "env_policy env = ContainFailures" "\<not> cancelled_by env" "\<forall>d. \<not> from_env env (InternalFailure d)"
    and bodies: "\<forall>st \<in> set (cl_steps c). \<forall>hir e. st_body st \<noteq> ExpressionBody hir (Inl e)"
  shows "\<exists>fr' w'. frame_run env c (fr, w) = Inr (fr', w') \<and> ran_upto c fr (length (cl_steps c)) fr'"
proof (cases "frame_run env c (fr, w)")
  case (Inl outcome)
  with frame_run_ok [OF c fr fit env(1), of w] have "run_stop_ok env c outcome" by simp
  with env(2-4) bodies show ?thesis by (auto simp: run_stop_ok_def outcome_ok_def not_executable_def)
next
  case (Inr s)
  with frame_run_ok [OF c fr fit env(1), of w] show ?thesis by (cases s) simp
qed

section \<open>Properties\<close>


text \<open>C12: running an indexed callable. Values and reasons exclude each other, presented values present
  the value they are kept for, and reasons name at least one declaration (\<open>frame_inv\<close>). When the run
  returns, every step is decided, what was decided before has not changed, and a step that got its
  value from the run has values for all the steps it waits for.\<close>

theorem frame_run_decides:
  fixes env :: "('f, 't, 'l, 'x, 'd, 'w) frame_env" and fr :: "('f, 't, 'l) frame"
  assumes "callable_matches c" "frame_inv fr" "\<forall>G \<in> set (cl_groups c). supplied_fit c G fr" "env_ok env"
    and "frame_run env c (fr, w) = Inr (fr', w')"
  shows "frame_inv fr' \<and>
    (\<forall>k. decided fr k \<or> k \<notin> step_key c ` {..<length (cl_steps c)} \<longrightarrow>
       fr_values fr' k = fr_values fr k \<and> fr_errors fr' k = fr_errors fr k) \<and>
    (\<forall>i < length (cl_steps c). decided fr' (step_key c i) \<and>
       (fr_values fr (step_key c i) = None \<and> fr_values fr' (step_key c i) \<noteq> None \<longrightarrow>
          (\<forall>d \<in> set (st_deps (cl_steps c ! i)). fr_values fr' (step_key c d) \<noteq> None)))"
proof -
  have ran: "ran_upto c fr (length (cl_steps c)) fr'" using frame_run_ok [OF assms(1-4), of w] assms(5) by simp
  then have "changes_only (step_key c ` {..<length (cl_steps c)}) fr fr'" by (simp add: ran_upto_def)
  with ran show ?thesis unfolding ran_upto_def changes_only_def by blast
qed

text \<open>C13: a run under the containing policy returns. When nobody cancels, the adapter and the domain
  checks report no internal error and every scheduled body is executable, the run of an indexed
  callable returns a frame in which every step has a value or a reason.\<close>

theorem frame_run_completes:
  fixes env :: "('f, 't, 'l, 'x, 'd, 'w) frame_env" and fr :: "('f, 't, 'l) frame"
  assumes "callable_matches c" "frame_inv fr" "\<forall>G \<in> set (cl_groups c). supplied_fit c G fr" "env_ok env"
    and "env_policy env = ContainFailures" "\<not> cancelled_by env" "\<forall>d. \<not> from_env env (InternalFailure d)"
    and "\<forall>st \<in> set (cl_steps c). \<forall>hir e. st_body st \<noteq> ExpressionBody hir (Inl e)"
  shows "\<exists>fr' w'. frame_run env c (fr, w) = Inr (fr', w') \<and>
    (\<forall>i < length (cl_steps c). decided fr' (step_key c i))"
  using frame_run_complete [OF assms, of w] unfolding ran_upto_def by blast

section \<open>Concrete inputs\<close>

text \<open>An adapter that fails on the first element of a group and returns a boolean otherwise.\<close>

definition sample_evaluate ::
  "(int, unit, unit, nat) scheduled \<Rightarrow> (int, unit, unit) frame \<Rightarrow> nat \<Rightarrow>
   ((int, unit, unit) presented, string frame_outcome) result \<times> nat" where
  "sample_evaluate entry fr w =
     (case entry of
        ScheduledElement _ _ _ _ None _ \<Rightarrow> (Inl (FailedOutcome (OtherFailure ''overflow'')), Suc w)
      | _ \<Rightarrow> (Inr (plain (BoolV True)), Suc w))"

definition sample_env :: "(int, unit, unit, nat, string, nat) frame_env" where
  "sample_env = \<lparr>env_policy = ContainFailures, env_unfinished = (\<lambda>_. False), env_evaluate = sample_evaluate,
     env_cancelled = Pair False, env_violation = (\<lambda>_ _ _. None), env_message = (\<lambda>_. ''failed''),
     env_not_executable = (\<lambda>_. ''body''), env_stuck = (\<lambda>_ _. ''stuck'')\<rparr>"

definition sample_frame :: "(int, unit, unit) frame" where
  "sample_frame = \<lparr>fr_values = Map.empty, fr_presented = Map.empty, fr_errors = Map.empty\<rparr>"

lemma sample_evaluate_eq: "sample_evaluate entry fr w = (Inl outcome, w') \<Longrightarrow> outcome = FailedOutcome (OtherFailure ''overflow'')"
  by (auto simp: sample_evaluate_def split: scheduled.splits option.splits)

lemma sample_env_ok: "env_ok sample_env" "\<not> cancelled_by sample_env" "\<not> from_env sample_env (InternalFailure d)"
  by (auto simp: env_ok_def cancelled_by_def from_env_def sample_env_def dest: sample_evaluate_eq)

lemma sample_frame_ok: "frame_inv sample_frame" "supplied_fit c G sample_frame"
  by (simp_all add: frame_inv_def supplied_fit_def sample_frame_def)

lemma sample_axis_len: "axis_len sample_axis = 3"
  by (simp add: sample_axis_def axis_len_def)

lemma sample_plan_ok: "plan_ok sample_recurrence"
  by (simp add: plan_ok_def sample_recurrence_def less_Suc_eq)

lemma sample_callable_matches:
  "\<exists>c. callable_new sample_scheduled = Inr c \<and> callable_matches c \<and> length (cl_steps c) = 3 \<and> cl_groups c \<noteq> [] \<and>
     (\<forall>st \<in> set (cl_steps c). \<forall>hir e. st_body st \<noteq> ExpressionBody hir (Inl e))"
proof -
  from sample_parts obtain c where c: "callable_new sample_scheduled = Inr c"
    and groups: "map pg_plan (cl_groups c) = [sample_recurrence]" "map pg_axis (cl_groups c) = [sample_axis]"
      "map (\<lambda>G. map (\<lambda>m. body_shape (mp_body m)) (pg_members G)) (cl_groups c) = [[UnfoldShape, ForShape]]"
    and bodies: "map st_body (cl_steps c) =
       [ExpressionBody 0 (Inr (OtherNode 0)),
        ExpressionBody 0 (Inr (UnfoldNode 0 (OtherNode 0) (OtherNode 1) sample_axis)),
        ExpressionBody 0 (Inr (ConvertNode (ForNode \<lparr>fb_local = 0, fb_axis = sample_axis\<rparr> [] (OtherNode 2)) 7))]" by (elim exE conjE) (rule that)
  from groups obtain G where G: "cl_groups c = [G]" "pg_plan G = sample_recurrence" "axis_len (pg_axis G) = 3"
    "map (\<lambda>m. body_shape (mp_body m)) (pg_members G) = [UnfoldShape, ForShape]" by (auto simp: sample_axis_len)
  have body: "\<exists>node. st_body st = ExpressionBody 0 (Inr node)" if "st \<in> set (cl_steps c)" for st
  proof -
    have "st_body st \<in> set (map st_body (cl_steps c))" using that by simp
    then show ?thesis unfolding bodies by auto
  qed
  have "map rm_shape sample_recurrence = [UnfoldShape, ForShape]" by (simp add: sample_recurrence_def)
  with G have "group_matches G" by (simp add: group_matches_def sample_plan_ok)
  then have "callable_matches c"
    using callable_new_sound [OF c] G(1) body by (fastforce simp: callable_matches_def step_body_ok_def)
  moreover have "length (cl_steps c) = 3" using arg_cong [OF bodies, of length] by simp
  moreover have "\<forall>st \<in> set (cl_steps c). \<forall>hir e. st_body st \<noteq> ExpressionBody hir (Inl e)" using body by force
  moreover have "cl_groups c \<noteq> []" using G(1) by simp
  ultimately show ?thesis by (intro exI [of _ c] conjI c)
qed

lemma callable_group_keys:
  assumes "callable_matches c" "G \<in> set (cl_groups c)"
  shows "distinct (group_keys c G)"
proof -
  from assms have G: "group_ok c G" and keys: "distinct (map (\<lambda>s. pd_key (st_declaration s)) (cl_steps c))"
    by (auto simp: callable_matches_def callable_ok_def)
  from G have steps: "distinct (map mp_step (pg_members G))" "set (map mp_step (pg_members G)) \<subseteq> {..<length (cl_steps c)}"
    by (auto simp: group_ok_def)
  have "inj_on (step_key c) {..<length (cl_steps c)}"
    using keys by (auto simp: step_key_def inj_on_def distinct_conv_nth)
  with steps show ?thesis unfolding unit_keys distinct_map by (blast intro: inj_on_subset)
qed


theorem frame_run_completes_witness:
  "\<exists>c fr' w'. callable_new sample_scheduled = Inr c \<and> frame_run sample_env c (sample_frame, 0) = Inr (fr', w') \<and>
     length (cl_steps c) = 3 \<and> (\<forall>i < 3. decided fr' (step_key c i))"
proof -
  from sample_callable_matches obtain c where c: "callable_new sample_scheduled = Inr c" "callable_matches c"
    "length (cl_steps c) = 3" "\<forall>st \<in> set (cl_steps c). \<forall>hir e. st_body st \<noteq> ExpressionBody hir (Inl e)" by blast
  have "env_policy sample_env = ContainFailures" by (simp add: sample_env_def)
  from frame_run_completes [OF c(2) sample_frame_ok(1) _ sample_env_ok(1) this sample_env_ok(2) _ c(4), of 0]
  show ?thesis using c sample_frame_ok(2) sample_env_ok(3) by metis
qed

theorem frame_run_decides_witness:
  "\<exists>c fr' w'. frame_run sample_env c (sample_frame, 0) = Inr (fr', w') \<and> frame_inv fr' \<and> decided fr' (step_key c 2)"
proof -
  from sample_callable_matches obtain c :: "(int, nat) callable" where c: "callable_matches c"
    "length (cl_steps c) = 3" "\<forall>st \<in> set (cl_steps c). \<forall>hir e. st_body st \<noteq> ExpressionBody hir (Inl e)" by blast
  have policy: "env_policy sample_env = ContainFailures" by (simp add: sample_env_def)
  have fit: "\<forall>G \<in> set (cl_groups c). supplied_fit c G sample_frame" using sample_frame_ok(2) by blast
  from frame_run_complete [OF c(1) sample_frame_ok(1) fit sample_env_ok(1) policy sample_env_ok(2) _ c(3), of 0] sample_env_ok(3)
  obtain fr' w' where run: "frame_run sample_env c (sample_frame, 0) = Inr (fr', w')" by blast
  from frame_run_decides [OF c(1) sample_frame_ok(1) fit sample_env_ok(1) run] c(2)
  have "frame_inv fr'" "decided fr' (step_key c 2)" by simp_all
  with run show ?thesis by blast
qed

text \<open>How a group and a plain declaration record an expression that failed because of an unfinished
  declaration: the group takes the reason over, as if the member itself had no formula.\<close>

lemma todo_reasons_recorded:
  fixes env :: "('f, 't, 'l, 'x, 'd, 'w) frame_env" and fr :: "('f, 't, 'l) frame"
  assumes "fr_errors fr (keys ! i) = None"
  shows "record_problem env keys fr (i, Some (UnavailableProblem (TodoReason k))) =
      (Inr (fr\<lparr>fr_errors := (fr_errors fr)(keys ! i \<mapsto> TodoReason k)\<rparr>) :: (_, 'd frame_outcome) result)"
    "frame_failure env (keys ! i) (UnavailableFailure (TodoReason k) x) fr =
      Inr (fr\<lparr>fr_errors := (fr_errors fr)(keys ! i \<mapsto> BlockedReason [k] [])\<rparr>)"
  using assms by (simp_all add: record_problem_def frame_failure_def eval_failed_node_error_def)

end
