(* ===== verification/Components.thy ===== *)
theory Components
  imports Dep_Graph
begin

text \<open>
  Strongly connected components of a dependency graph (\<open>component_indices\<close> and
  \<open>cyclic_components\<close> of \<open>crates/graphcal-compiler/src/dependency_graph.rs\<close>): Tarjan's
  algorithm with an explicit path of frames. The lemmas show that every component it
  reports is a class of mutually reachable nodes and that every node is in exactly one.
\<close>

section \<open>Tarjan's algorithm\<close>

text \<open>The stack and the path are vectors used at one end; they are kept with that end first.\<close>

record tarjan =
  tj_index :: "nat option list"
  tj_low :: "nat list"
  tj_on :: "bool list"
  tj_stack :: "nat list"
  tj_components :: "nat list list"
  tj_next :: nat

definition index_at :: "tarjan \<Rightarrow> nat \<Rightarrow> nat option" where
  "index_at s v = (if v < length (tj_index s) then tj_index s ! v else Some 0)"

definition enter_node :: "tarjan \<Rightarrow> nat \<Rightarrow> tarjan" where
  "enter_node s v =
     s\<lparr>tj_index := (tj_index s)[v := Some (tj_next s)], tj_low := (tj_low s)[v := tj_next s],
       tj_next := tj_next s + 1, tj_stack := v # tj_stack s, tj_on := (tj_on s)[v := True]\<rparr>"

definition lower :: "tarjan \<Rightarrow> nat \<Rightarrow> nat \<Rightarrow> tarjan" where
  "lower s v bound = s\<lparr>tj_low := (tj_low s)[v := min (tj_low s ! v) bound]\<rparr>"

fun pop_component :: "nat \<Rightarrow> bool list \<Rightarrow> nat list \<Rightarrow> nat list \<Rightarrow> bool list \<times> nat list \<times> nat list" where
  "pop_component node on [] component = (on, [], component)"
| "pop_component node on (member # stack) component =
     (if member = node then (on[member := False], stack, component @ [member])
      else pop_component node (on[member := False]) stack (component @ [member]))"

definition leave_node :: "tarjan \<Rightarrow> nat \<Rightarrow> (nat \<times> nat) list \<Rightarrow> tarjan" where
  "leave_node s node path =
     (let s = (case path of [] \<Rightarrow> s | (parent, _) # _ \<Rightarrow> lower s parent (tj_low s ! node))
      in if tj_index s ! node = Some (tj_low s ! node)
         then case pop_component node (tj_on s) (tj_stack s) [] of
           (on, stack, component) \<Rightarrow>
             s\<lparr>tj_on := on, tj_stack := stack, tj_components := tj_components s @ [component]\<rparr>
         else s)"

definition index_weight :: "(nat \<times> 'e) list list \<Rightarrow> tarjan \<Rightarrow> nat" where
  "index_weight deps s = unvisited_weight deps (map (\<lambda>i. if i = None then Unvisited else Done) (tj_index s))"

lemma index_weight_enter:
  assumes "index_at s d = None"
  shows "index_weight deps (enter_node s d) + (length (deps ! d) + 2) = index_weight deps s"
proof -
  let ?vis = "map (\<lambda>i. if i = None then Unvisited else Done) (tj_index s)"
  have "visit_at ?vis d = Unvisited" using assms by (auto simp: visit_at_def index_at_def split: if_splits)
  from unvisited_weight_visit [OF this, of Done deps] show ?thesis
    by (simp add: index_weight_def enter_node_def map_update)
qed

lemma tj_index_lower [simp]: "tj_index (lower s v b) = tj_index s"
  by (simp add: lower_def)

lemma tj_index_leave [simp]: "tj_index (leave_node s node path) = tj_index s"
  by (auto simp: leave_node_def Let_def split: list.splits prod.splits)

function scc_loop :: "(nat \<times> 'e) list list \<Rightarrow> tarjan \<Rightarrow> (nat \<times> nat) list \<Rightarrow> tarjan" where
  "scc_loop deps s [] = s"
| "scc_loop deps s ((node, cursor) # path) =
     (case edge_at deps node cursor of
        Some (dependency, _) \<Rightarrow>
          (case index_at s dependency of
             None \<Rightarrow> scc_loop deps (enter_node s dependency) ((dependency, 0) # (node, cursor + 1) # path)
           | Some visited \<Rightarrow>
               scc_loop deps (if tj_on s ! dependency then lower s node visited else s)
                 ((node, cursor + 1) # path))
      | None \<Rightarrow> scc_loop deps (leave_node s node path) path)"
  by pat_completeness auto

termination scc_loop
proof (relation "measure (\<lambda>(deps, s, path). index_weight deps s + path_weight deps path)", goal_cases)
  case 1
  show ?case by simp
next
  case 2
  then show ?case by (simp add: path_weight_def index_weight_def)
next
  case (3 deps s node cursor path edge dependency l)
  then have "index_weight deps (enter_node s dependency) + (length (deps ! dependency) + 2) = index_weight deps s"
    by (intro index_weight_enter) simp
  with 3 show ?case by (simp add: path_weight_def edge_at_def split: if_splits)
next
  case 4
  then show ?case by (auto simp: path_weight_def edge_at_def index_weight_def split: if_splits)
qed

declare scc_loop.simps(2) [simp del]

definition component_indices :: "('k, 'e) dep_graph \<Rightarrow> nat list list" where
  "component_indices g =
     (let count = length (g_keys g) in
      tj_components
        (foldl (\<lambda>s root. if tj_index s ! root \<noteq> None then s
             else scc_loop (g_dependencies g) (enter_node s root) [(root, 0)])
           \<lparr>tj_index = replicate count None, tj_low = replicate count 0, tj_on = replicate count False,
             tj_stack = [], tj_components = [], tj_next = 0\<rparr>
           [0..<count]))"

definition cyclic_components :: "('k, 'e) dep_graph \<Rightarrow> 'k list list" where
  "cyclic_components g =
     map (map (\<lambda>v. g_keys g ! v))
       (sort_key hd
         (map sort (filter (\<lambda>component. case component of [v] \<Rightarrow> (v, v) \<in> g_edges g | _ \<Rightarrow> True)
           (component_indices g))))"

section \<open>The invariant\<close>

text \<open>
  The sets of the search: \<open>S\<close> the nodes on the stack, \<open>G\<close> those on the path, \<open>B\<close> those of finished
  components, \<open>tried v\<close> the dependencies of \<open>v\<close> that were looked at.
\<close>

abbreviation reach :: "(nat \<Rightarrow> nat set) \<Rightarrow> nat \<Rightarrow> nat \<Rightarrow> bool" where
  "reach succ \<equiv> (\<lambda>v w. w \<in> succ v)\<^sup>*\<^sup>*"

definition scc_inv ::
  "(nat \<Rightarrow> nat set) \<Rightarrow> (nat \<Rightarrow> nat) \<Rightarrow> (nat \<Rightarrow> nat) \<Rightarrow> nat set \<Rightarrow> nat set \<Rightarrow> (nat \<Rightarrow> nat set) \<Rightarrow> nat set \<Rightarrow> bool" where
  "scc_inv succ idx low S G tried B \<longleftrightarrow>
     inj_on idx S \<and> G \<subseteq> S \<and> S \<inter> B = {} \<and> (\<forall>v \<in> B. succ v \<subseteq> B) \<and>
     (\<forall>x \<in> S. \<exists>y \<in> G. idx y \<le> idx x \<and> reach succ x y) \<and>
     (\<forall>x \<in> G. \<forall>y \<in> S. idx x \<le> idx y \<longrightarrow> reach succ x y) \<and>
     (\<forall>x \<in> S. tried x \<subseteq> succ x \<inter> (S \<union> B)) \<and>
     (\<forall>x \<in> S - G. tried x = succ x) \<and>
     (\<forall>v \<in> G. low v \<le> idx v) \<and>
     (\<forall>v \<in> G. \<exists>w \<in> S. idx w = low v \<and> reach succ v w) \<and>
     (\<forall>v \<in> G. \<forall>x \<in> S. idx v \<le> idx x \<and> (\<forall>u \<in> G. idx u \<le> idx x \<longrightarrow> idx u \<le> idx v) \<longrightarrow>
        (\<forall>w \<in> tried x \<inter> S. low v \<le> idx w))"

lemma scc_invD:
  assumes "scc_inv succ idx low S G tried B"
  shows "inj_on idx S" "G \<subseteq> S" "S \<inter> B = {}" "\<forall>v \<in> B. succ v \<subseteq> B"
    and "\<forall>x \<in> S. \<exists>y \<in> G. idx y \<le> idx x \<and> reach succ x y"
    and "\<forall>x \<in> G. \<forall>y \<in> S. idx x \<le> idx y \<longrightarrow> reach succ x y"
    and "\<forall>x \<in> S. tried x \<subseteq> succ x \<inter> (S \<union> B)" "\<forall>x \<in> S - G. tried x = succ x"
    and "\<forall>v \<in> G. low v \<le> idx v" "\<forall>v \<in> G. \<exists>w \<in> S. idx w = low v \<and> reach succ v w"
    and "\<forall>v \<in> G. \<forall>x \<in> S. idx v \<le> idx x \<and> (\<forall>u \<in> G. idx u \<le> idx x \<longrightarrow> idx u \<le> idx v) \<longrightarrow>
        (\<forall>w \<in> tried x \<inter> S. low v \<le> idx w)"
  using assms unfolding scc_inv_def by - (elim conjE, assumption)+

lemma scc_inv_low:
  assumes "scc_inv succ idx low S G tried B" "v \<in> G" "x \<in> S" "idx v \<le> idx x"
    "\<forall>u \<in> G. idx u \<le> idx x \<longrightarrow> idx u \<le> idx v" "w \<in> tried x" "w \<in> S"
  shows "low v \<le> idx w"
  using scc_invD(11) [OF assms(1), rule_format, OF assms(2,3)] assms(4-) by simp

lemma scc_inv_start: "scc_inv succ idx low {} {} tried B \<longleftrightarrow> (\<forall>v \<in> B. succ v \<subseteq> B)"
  by (simp add: scc_inv_def)

lemma scc_inv_root:
  assumes "\<forall>v \<in> B. succ v \<subseteq> B" "r \<notin> B" "low r = idx r" "tried r = {}"
  shows "scc_inv succ idx low {r} {r} tried B"
  using assms by (simp add: scc_inv_def)

text \<open>A node reached for the first time.\<close>

lemma scc_inv_enter:
  assumes I: "scc_inv succ idx low S G tried B"
    and node: "node \<in> G" "\<forall>u \<in> G. idx u \<le> idx node"
    and d: "d \<notin> S" "d \<notin> B" "d \<in> succ node" and nx: "\<forall>v \<in> S. idx v < nx"
  shows "scc_inv succ (idx(d := nx)) (low(d := nx)) (insert d S) (insert d G)
    (tried(node := insert d (tried node), d := {})) B"
  unfolding scc_inv_def
proof (intro conjI ballI impI)
  note D = scc_invD [OF I]
  let ?idx = "idx(d := nx)" and ?low = "low(d := nx)" and ?tried = "tried(node := insert d (tried node), d := {})"
  have node': "node \<in> S" "node \<noteq> d" "idx node < nx" using D(2) node(1) d(1) nx by auto
  have G: "v \<in> S" "v \<noteq> d" "idx v < nx" if "v \<in> G" for v using that D(2) d(1) nx by auto
  show "inj_on ?idx (insert d S)" using D(1) d(1) nx by (auto simp: inj_on_def)
  show "insert d G \<subseteq> insert d S" using D(2) by blast
  show "insert d S \<inter> B = {}" using D(3) d(2) by blast
  show "succ v \<subseteq> B" if "v \<in> B" for v using D(4) that by blast
  show "\<exists>y \<in> insert d G. ?idx y \<le> ?idx x \<and> reach succ x y" if "x \<in> insert d S" for x
  proof (cases "x = d")
    case False
    with that have "x \<in> S" by simp
    from D(5) [rule_format, OF this] obtain y where "y \<in> G" "idx y \<le> idx x" "reach succ x y" by blast
    with G(2) [of y] False show ?thesis by (intro bexI [of _ y]) simp_all
  qed simp
  show "reach succ x y" if xy: "x \<in> insert d G" "y \<in> insert d S" "?idx x \<le> ?idx y" for x y
  proof (cases "x = d")
    case True
    with xy nx have "y = d" by (auto split: if_splits)
    with True show ?thesis by simp
  next
    case False
    then have x: "x \<in> G" using xy(1) by simp
    show ?thesis
    proof (cases "y = d")
      case True
      have "reach succ x node" using D(6) x node'(1) node(2) by blast
      then show ?thesis using True d(3) by (simp add: rtranclp.rtrancl_into_rtrancl)
    next
      case False
      with \<open>x \<noteq> d\<close> xy have "y \<in> S" "idx x \<le> idx y" by simp_all
      then show ?thesis using D(6) x by blast
    qed
  qed
  show "?tried x \<subseteq> succ x \<inter> (insert d S \<union> B)" if "x \<in> insert d S" for x
    using that D(7) d(3) by auto
  show "?tried x = succ x" if "x \<in> insert d S - insert d G" for x
    using that D(8) node(1) by auto
  show "?low v \<le> ?idx v" if "v \<in> insert d G" for v using that D(9) by auto
  show "\<exists>w \<in> insert d S. ?idx w = ?low v \<and> reach succ v w" if "v \<in> insert d G" for v
  proof (cases "v = d")
    case False
    with that have "v \<in> G" by simp
    from D(10) [rule_format, OF this] obtain w where w: "w \<in> S" "idx w = low v" "reach succ v w" by blast
    with d(1) have "w \<noteq> d" by blast
    with w False show ?thesis by (intro bexI [of _ w]) simp_all
  qed simp
  show "?low v \<le> ?idx w"
    if v: "v \<in> insert d G" and x: "x \<in> insert d S"
      and own: "?idx v \<le> ?idx x \<and> (\<forall>u \<in> insert d G. ?idx u \<le> ?idx x \<longrightarrow> ?idx u \<le> ?idx v)"
      and w: "w \<in> ?tried x \<inter> insert d S" for v x w
  proof -
    have xd: "x \<noteq> d" using w by auto
    with x have xS: "x \<in> S" by simp
    then have ix: "idx x < nx" using nx by blast
    have vd: "v \<noteq> d" using own xd ix by auto
    with v have vG: "v \<in> G" by simp
    have own': "idx v \<le> idx x" "\<forall>u \<in> G. idx u \<le> idx x \<longrightarrow> idx u \<le> idx v" using own xd vd G(2) by auto
    show ?thesis
    proof (cases "w = d")
      case True
      have "low v \<le> idx v" using D(9) vG by blast
      with True vd G(3) [OF vG] show ?thesis by simp
    next
      case False
      with w xd have "w \<in> tried x" "w \<in> S" by (auto split: if_splits)
      from scc_inv_low [OF I vG xS own' this] vd False show ?thesis by simp
    qed
  qed
qed

text \<open>A dependency that was reached before.\<close>

lemma scc_inv_look:
  assumes I: "scc_inv succ idx low S G tried B"
    and node: "node \<in> G" "\<forall>u \<in> G. idx u \<le> idx node" and d: "d \<in> S \<union> B" "d \<in> succ node"
  shows "scc_inv succ idx (if d \<in> S then low(node := min (low node) (idx d)) else low) S G
    (tried(node := insert d (tried node))) B"
  unfolding scc_inv_def
proof (intro conjI ballI impI)
  note D = scc_invD [OF I]
  let ?low = "if d \<in> S then low(node := min (low node) (idx d)) else low"
    and ?tried = "tried(node := insert d (tried node))"
  have nodeS: "node \<in> S" using node D(2) by blast
  have le: "?low v \<le> low v" for v by simp
  show "inj_on idx S" "G \<subseteq> S" "S \<inter> B = {}" by (fact D)+
  show "succ v \<subseteq> B" if "v \<in> B" for v using D(4) that by blast
  show "\<exists>y \<in> G. idx y \<le> idx x \<and> reach succ x y" if "x \<in> S" for x using D(5) that by blast
  show "reach succ x y" if "x \<in> G" "y \<in> S" "idx x \<le> idx y" for x y using D(6) that by blast
  show "?tried x \<subseteq> succ x \<inter> (S \<union> B)" if "x \<in> S" for x using D(7) that d by auto
  show "?tried x = succ x" if "x \<in> S - G" for x using D(8) that node(1) by auto
  show "?low v \<le> idx v" if "v \<in> G" for v using le [of v] D(9) that by (meson le_trans)
  show "\<exists>w \<in> S. idx w = ?low v \<and> reach succ v w" if "v \<in> G" for v
  proof (cases "v = node \<and> d \<in> S \<and> idx d < low node")
    case True
    then have "d \<in> S" "idx d = ?low v" "reach succ v d" using d(2) by auto
    then show ?thesis by blast
  next
    case False
    then have "?low v = low v" by auto
    then show ?thesis using D(10) that by simp
  qed
  show "?low v \<le> idx w"
    if v: "v \<in> G" and x: "x \<in> S"
      and own: "idx v \<le> idx x \<and> (\<forall>u \<in> G. idx u \<le> idx x \<longrightarrow> idx u \<le> idx v)"
      and w: "w \<in> ?tried x \<inter> S" for v x w
  proof (cases "w \<in> tried x")
    case True
    have "low v \<le> idx w" by (rule scc_inv_low [OF I v x _ _ True]) (use own w in simp_all)
    with le [of v] show ?thesis by (rule le_trans)
  next
    case False
    with w have xw: "x = node" "w = d" by (auto split: if_splits)
    have "idx v = idx node" using own node v xw(1) by (meson le_antisym)
    then have "v = node" using D(1,2) v nodeS by (meson inj_onD subsetD)
    with xw w show ?thesis by simp
  qed
qed

text \<open>Leaving the last node of the path, whose dependencies were all looked at.\<close>

lemma scc_inv_leave:
  assumes I: "scc_inv succ idx low S G tried B"
    and node: "node \<in> G" "\<forall>u \<in> G. idx u \<le> idx node" "tried node = succ node" "low node \<noteq> idx node"
  shows "\<exists>p. p \<in> G \<and> p \<noteq> node"
    and "p \<in> G \<Longrightarrow> p \<noteq> node \<Longrightarrow> \<forall>u \<in> G - {node}. idx u \<le> idx p \<Longrightarrow>
      scc_inv succ idx (low(p := min (low p) (low node))) S (G - {node}) tried B"
proof -
  note D = scc_invD [OF I]
  have nodeS: "node \<in> S" using node(1) D(2) by blast
  have less: "low node < idx node" using D(9) node(1,4) by (meson le_neq_trans)
  obtain w where w: "w \<in> S" "idx w = low node" "reach succ node w" using D(10) node(1) by blast
  obtain y where y: "y \<in> G" "idx y \<le> idx w" "reach succ w y" using D(5) w(1) by blast
  have y': "y \<noteq> node" using y(2) w(2) less by auto
  then show "\<exists>p. p \<in> G \<and> p \<noteq> node" using y(1) by blast
  assume p: "p \<in> G" "p \<noteq> node" and top: "\<forall>u \<in> G - {node}. idx u \<le> idx p"
  let ?low = "low(p := min (low p) (low node))"
  have inj: "u = v" if "u \<in> S" "v \<in> S" "idx u = idx v" for u v using D(1) that by (meson inj_onD)
  have pn: "idx p < idx node" using node(2) p inj [of p node] D(2) nodeS by (metis le_neq_trans subsetD)
  have le: "?low v \<le> low v" for v by simp
  show "scc_inv succ idx ?low S (G - {node}) tried B"
    unfolding scc_inv_def
  proof (intro conjI ballI impI)
    show "inj_on idx S" "S \<inter> B = {}" by (fact D)+
    show "G - {node} \<subseteq> S" using D(2) by blast
    show "succ v \<subseteq> B" if "v \<in> B" for v using D(4) that by blast
    show "\<exists>y \<in> G - {node}. idx y \<le> idx x \<and> reach succ x y" if x: "x \<in> S" for x
    proof -
      obtain z where z: "z \<in> G" "idx z \<le> idx x" "reach succ x z" using D(5) x by blast
      show ?thesis
      proof (cases "z = node")
        case True
        have "reach succ x y" using z(3) w(3) y(3) True by (meson rtranclp_trans)
        moreover have "idx y \<le> idx x" using y(2) w(2) less z(2) True by simp
        ultimately show ?thesis using y(1) y' by blast
      qed (use z in blast)
    qed
    show "reach succ x y" if "x \<in> G - {node}" "y \<in> S" "idx x \<le> idx y" for x y using D(6) that by blast
    show "tried x \<subseteq> succ x \<inter> (S \<union> B)" if "x \<in> S" for x using D(7) that by blast
    show "tried x = succ x" if "x \<in> S - (G - {node})" for x using D(8) that node(3) by blast
    show "?low v \<le> idx v" if "v \<in> G - {node}" for v using le [of v] D(9) that by (meson DiffD1 le_trans)
    show "\<exists>w \<in> S. idx w = ?low v \<and> reach succ v w" if v: "v \<in> G - {node}" for v
    proof (cases "v = p \<and> low node < low p")
      case True
      have "reach succ p node" using D(6) p(1) nodeS pn by (meson less_imp_le)
      then have "reach succ v w" using True w(3) by (meson rtranclp_trans)
      moreover have "idx w = ?low v" using True w(2) by simp
      ultimately show ?thesis using w(1) by blast
    next
      case False
      then have "?low v = low v" by auto
      then show ?thesis using D(10) v by simp
    qed
    show "?low v \<le> idx u"
      if v: "v \<in> G - {node}" and x: "x \<in> S"
        and own: "idx v \<le> idx x \<and> (\<forall>u \<in> G - {node}. idx u \<le> idx x \<longrightarrow> idx u \<le> idx v)"
        and u: "u \<in> tried x \<inter> S" for v x u
    proof (cases "idx node \<le> idx x")
      case True
      have "idx p \<le> idx v" using own p True pn by auto
      moreover have "idx v \<le> idx p" using top v by blast
      ultimately have "v = p" using inj D(2) v p(1) by (meson DiffD1 le_antisym subsetD)
      moreover have "low node \<le> idx u"
        by (rule scc_inv_low [OF I node(1) x True]) (use node(2) u in auto)
      ultimately show ?thesis by simp
    next
      case False
      have "low v \<le> idx u"
        by (rule scc_inv_low [OF I _ x]) (use v own u False in auto)
      with le [of v] show ?thesis by (rule le_trans)
    qed
  qed
qed

text \<open>A node that reaches nothing below it on the stack closes a component.\<close>

lemma scc_inv_close:
  assumes I: "scc_inv succ idx low S G tried B"
    and node: "node \<in> G" "\<forall>u \<in> G. idx u \<le> idx node" "tried node = succ node" "low node = idx node"
    and X: "X = {x \<in> S. idx node \<le> idx x}"
  shows "v \<in> X \<Longrightarrow> X = {w. reach succ v w \<and> reach succ w v}"
    and "p \<in> G \<Longrightarrow> p \<noteq> node \<Longrightarrow> min (low p) (low node) = low p"
    and "scc_inv succ idx low (S - X) (G - {node}) tried (B \<union> X)"
proof -
  note D = scc_invD [OF I]
  have nodeS: "node \<in> S" using node(1) D(2) by blast
  have inj: "u = v" if "u \<in> S" "v \<in> S" "idx u = idx v" for u v using D(1) that by (meson inj_onD)
  have GX: "G \<inter> X = {node}"
  proof -
    have "u = node" if "u \<in> G" "idx node \<le> idx u" for u
      using node(2) that inj nodeS D(2) by (meson le_antisym subsetD)
    then show ?thesis using node(1) nodeS X by auto
  qed
  have closed: "succ x \<subseteq> B \<union> X" if x: "x \<in> X" for x
  proof
    fix w assume w: "w \<in> succ x"
    have xS: "x \<in> S" "idx node \<le> idx x" using x X by auto
    have "tried x = succ x"
      by (cases "x = node") (use D(8) xS(1) x GX node(3) in auto)
    with w have wt: "w \<in> tried x" by simp
    with D(7) xS(1) have "w \<in> S \<union> B" by blast
    moreover have "low node \<le> idx w" if "w \<in> S"
      by (rule scc_inv_low [OF I node(1) xS _ wt that]) (use node(2) in blast)
    ultimately show "w \<in> B \<union> X" using node(4) X by auto
  qed
  have reachBX: "w \<in> B \<union> X" if "reach succ v w" "v \<in> B \<union> X" for v w
    using that by (induction rule: rtranclp_induct) (use closed D(4) in blast)+
  have reachB: "w \<in> B" if "reach succ v w" "v \<in> B" for v w
    using that by (induction rule: rtranclp_induct) (use D(4) in blast)+
  have down: "reach succ node x" if "x \<in> X" for x using D(6) node(1) that X by blast
  have up: "reach succ x node" if x: "x \<in> X" for x
  proof -
    from x X have "x \<in> S" by blast
    with D(5) obtain y where y: "y \<in> G" "idx y \<le> idx x" "reach succ x y" by blast
    have "reach succ y node" using D(6) y(1) nodeS node(2) by blast
    with y(3) show ?thesis by (rule rtranclp_trans)
  qed
  show "X = {w. reach succ v w \<and> reach succ w v}" if v: "v \<in> X"
  proof (intro set_eqI iffI)
    fix w assume "w \<in> X"
    then have "reach succ v w" "reach succ w v"
      using rtranclp_trans [OF up [OF v] down] rtranclp_trans [OF up down [OF v]] by blast+
    then show "w \<in> {w. reach succ v w \<and> reach succ w v}" by simp
  next
    fix w assume "w \<in> {w. reach succ v w \<and> reach succ w v}"
    then have w: "reach succ v w" "reach succ w v" by simp_all
    have "w \<in> B \<union> X" using reachBX [OF w(1)] v by blast
    moreover have "v \<notin> B" using v X D(3) by blast
    then have "w \<notin> B" using reachB [OF w(2)] by blast
    ultimately show "w \<in> X" by blast
  qed
  have pn: "low u < idx node" if u: "u \<in> G" "u \<noteq> node" for u
  proof -
    have "idx u \<noteq> idx node" using inj u nodeS D(2) by blast
    then have "idx u < idx node" using node(2) u(1) by (meson le_neq_trans)
    then show ?thesis using D(9) u(1) by (meson le_less_trans)
  qed
  show "min (low p) (low node) = low p" if "p \<in> G" "p \<noteq> node" using pn [OF that] node(4) by simp
  show "scc_inv succ idx low (S - X) (G - {node}) tried (B \<union> X)"
    unfolding scc_inv_def
  proof (intro conjI ballI impI)
    show "inj_on idx (S - X)" using D(1) by (meson Diff_subset inj_on_subset)
    show "G - {node} \<subseteq> S - X" using D(2) GX by blast
    show "(S - X) \<inter> (B \<union> X) = {}" using D(3) by blast
    show "succ v \<subseteq> B \<union> X" if "v \<in> B \<union> X" for v using D(4) closed that by blast
    show "\<exists>y \<in> G - {node}. idx y \<le> idx x \<and> reach succ x y" if x: "x \<in> S - X" for x
    proof -
      from x D(5) obtain y where y: "y \<in> G" "idx y \<le> idx x" "reach succ x y" by blast
      have "y \<noteq> node" using y(2) x X by auto
      with y show ?thesis by blast
    qed
    show "reach succ x y" if "x \<in> G - {node}" "y \<in> S - X" "idx x \<le> idx y" for x y using D(6) that by blast
    show "tried x \<subseteq> succ x \<inter> (S - X \<union> (B \<union> X))" if "x \<in> S - X" for x using D(7) that by blast
    show "tried x = succ x" if "x \<in> S - X - (G - {node})" for x
      using D(8) that GX by blast
    show "low v \<le> idx v" if "v \<in> G - {node}" for v using D(9) that by blast
    show "\<exists>w \<in> S - X. idx w = low v \<and> reach succ v w" if v: "v \<in> G - {node}" for v
    proof -
      from v D(10) obtain w where w: "w \<in> S" "idx w = low v" "reach succ v w" by blast
      have "w \<notin> X" using pn [of v] v w(2) X by auto
      with w show ?thesis by blast
    qed
    show "low v \<le> idx w"
      if v: "v \<in> G - {node}" and x: "x \<in> S - X"
        and own: "idx v \<le> idx x \<and> (\<forall>u \<in> G - {node}. idx u \<le> idx x \<longrightarrow> idx u \<le> idx v)"
        and w: "w \<in> tried x \<inter> (S - X)" for v x w
    proof (rule scc_inv_low [OF I])
      show "v \<in> G" "x \<in> S" "idx v \<le> idx x" "w \<in> tried x" "w \<in> S" using v x own w by auto
      show "\<forall>u \<in> G. idx u \<le> idx x \<longrightarrow> idx u \<le> idx v"
        using own x X by auto
    qed
  qed
qed


section \<open>The state of the search\<close>

definition index_of_node :: "tarjan \<Rightarrow> nat \<Rightarrow> nat" where
  "index_of_node s v = the (tj_index s ! v)"

definition finished_nodes :: "tarjan \<Rightarrow> nat set" where
  "finished_nodes s = set (concat (tj_components s))"

definition tried_deps :: "(nat \<times> 'e) list list \<Rightarrow> (nat \<times> nat) list \<Rightarrow> nat \<Rightarrow> nat set" where
  "tried_deps deps path v =
     (case map_of path v of Some c \<Rightarrow> fst ` set (take c (deps ! v)) | None \<Rightarrow> dep_nodes deps v)"

definition component_class :: "(nat \<times> 'e) list list \<Rightarrow> nat list \<Rightarrow> bool" where
  "component_class deps C \<longleftrightarrow> C \<noteq> [] \<and>
     (\<forall>v \<in> set C. set C = {w. reach (dep_nodes deps) v w \<and> reach (dep_nodes deps) w v})"

definition tables_ok :: "(nat \<times> 'e) list list \<Rightarrow> tarjan \<Rightarrow> bool" where
  "tables_ok deps s \<longleftrightarrow>
     length (tj_index s) = length deps \<and> length (tj_low s) = length deps \<and> length (tj_on s) = length deps \<and>
     (\<forall>v < length deps. tj_on s ! v \<longleftrightarrow> v \<in> set (tj_stack s)) \<and>
     (\<forall>v < length deps. tj_index s ! v \<noteq> None \<longleftrightarrow> v \<in> set (tj_stack s) \<union> finished_nodes s) \<and>
     set (tj_stack s) \<union> finished_nodes s \<subseteq> {..<length deps} \<and>
     sorted_wrt (\<lambda>a b. index_of_node s b < index_of_node s a) (tj_stack s) \<and>
     (\<forall>v \<in> set (tj_stack s). index_of_node s v < tj_next s)"

definition tarjan_inv :: "(nat \<times> 'e) list list \<Rightarrow> tarjan \<Rightarrow> (nat \<times> nat) list \<Rightarrow> bool" where
  "tarjan_inv deps s path \<longleftrightarrow> tables_ok deps s \<and>
     sorted_wrt (\<lambda>a b. index_of_node s (fst b) < index_of_node s (fst a)) path \<and>
     (\<forall>(u, c) \<in> set path. c \<le> length (deps ! u)) \<and>
     distinct (concat (tj_components s)) \<and> (\<forall>C \<in> set (tj_components s). component_class deps C) \<and>
     scc_inv (dep_nodes deps) (index_of_node s) ((!) (tj_low s)) (set (tj_stack s)) (fst ` set path)
       (tried_deps deps path) (finished_nodes s)"

lemma tables_okD:
  assumes "tables_ok deps s"
  shows "length (tj_index s) = length deps" "length (tj_low s) = length deps" "length (tj_on s) = length deps"
    and "\<And>v. v < length deps \<Longrightarrow> tj_on s ! v \<longleftrightarrow> v \<in> set (tj_stack s)"
    and "\<And>v. v < length deps \<Longrightarrow> tj_index s ! v \<noteq> None \<longleftrightarrow> v \<in> set (tj_stack s) \<union> finished_nodes s"
    and "set (tj_stack s) \<union> finished_nodes s \<subseteq> {..<length deps}"
    and "sorted_wrt (\<lambda>a b. index_of_node s b < index_of_node s a) (tj_stack s)"
    and "\<forall>v \<in> set (tj_stack s). index_of_node s v < tj_next s"
  using assms by (simp_all add: tables_ok_def)

lemma tarjan_invD:
  assumes "tarjan_inv deps s path"
  shows "tables_ok deps s" "sorted_wrt (\<lambda>a b. index_of_node s (fst b) < index_of_node s (fst a)) path"
    and "\<forall>(u, c) \<in> set path. c \<le> length (deps ! u)"
    and "distinct (concat (tj_components s))" "\<forall>C \<in> set (tj_components s). component_class deps C"
    and "scc_inv (dep_nodes deps) (index_of_node s) ((!) (tj_low s)) (set (tj_stack s)) (fst ` set path)
       (tried_deps deps path) (finished_nodes s)"
  using assms by (simp_all add: tarjan_inv_def)

lemma tarjan_top:
  assumes "tarjan_inv deps s ((node, c) # path)"
  shows "node \<in> fst ` set ((node, c) # path)" "\<forall>u \<in> fst ` set ((node, c) # path). index_of_node s u \<le> index_of_node s node"
    and "node < length deps" "map_of path node = None" "c \<le> length (deps ! node)" "node \<notin> fst ` set path"
    and "node \<in> set (tj_stack s)"
proof -
  note D = tarjan_invD [OF assms]
  show "node \<in> fst ` set ((node, c) # path)" by simp
  then show stack: "node \<in> set (tj_stack s)" using scc_invD(2) [OF D(6)] by blast
  show "node < length deps" using stack tables_okD(6) [OF D(1)] by blast
  show "\<forall>u \<in> fst ` set ((node, c) # path). index_of_node s u \<le> index_of_node s node" using D(2) by auto
  show "node \<notin> fst ` set path" using D(2) by auto
  then show "map_of path node = None" by (simp add: map_of_eq_None_iff)
  show "c \<le> length (deps ! node)" using D(3) by simp
qed

lemma set_take_Suc: "c < length xs \<Longrightarrow> set (take (Suc c) xs) = insert (xs ! c) (set (take c xs))"
  by (simp add: take_Suc_conv_app_nth)

lemma tried_deps_next:
  assumes "map_of path node = None" "c < length (deps ! node)"
  shows "tried_deps deps ((node, c + 1) # path) =
    (tried_deps deps ((node, c) # path))(node := insert (fst (deps ! node ! c)) (tried_deps deps ((node, c) # path) node))"
  using assms by (auto simp: tried_deps_def fun_eq_iff set_take_Suc)

lemma tried_deps_enter:
  assumes "d \<noteq> node" "map_of path node = None" "c < length (deps ! node)" "fst (deps ! node ! c) = d"
  shows "tried_deps deps ((d, 0) # (node, c + 1) # path) =
    (tried_deps deps ((node, c) # path))(node := insert d (tried_deps deps ((node, c) # path) node), d := {})"
  using assms by (auto simp: tried_deps_def fun_eq_iff set_take_Suc)

lemma tried_deps_leave:
  assumes "map_of path node = None" "length (deps ! node) \<le> c"
  shows "tried_deps deps path = tried_deps deps ((node, c) # path)"
  using assms by (auto simp: tried_deps_def fun_eq_iff dep_nodes_def)

lemma index_of_node_enter:
  "d < length (tj_index s) \<Longrightarrow> index_of_node (enter_node s d) = (index_of_node s)(d := tj_next s)"
  by (auto simp: index_of_node_def enter_node_def fun_eq_iff)

lemma index_of_node_lower [simp]: "index_of_node (lower s v b) = index_of_node s"
  by (simp add: index_of_node_def fun_eq_iff)

lemma finished_nodes_simps [simp]:
  "finished_nodes (enter_node s d) = finished_nodes s" "finished_nodes (lower s v b) = finished_nodes s"
  by (simp_all add: finished_nodes_def enter_node_def lower_def)

lemma tables_lower [simp]: "tables_ok deps (lower s v b) \<longleftrightarrow> tables_ok deps s"
  by (simp add: tables_ok_def) (simp add: lower_def)

lemma low_lower: "v < length (tj_low s) \<Longrightarrow>
    (!) (tj_low (lower s v b)) = ((!) (tj_low s))(v := min (tj_low s ! v) b)"
  by (auto simp: lower_def fun_eq_iff)

lemma lower_fields [simp]:
  "tj_stack (lower s v b) = tj_stack s" "tj_components (lower s v b) = tj_components s"
  "tj_on (lower s v b) = tj_on s" "tj_next (lower s v b) = tj_next s"
  by (simp_all add: lower_def)

lemma tables_enter:
  assumes T: "tables_ok deps s" and d: "d < length deps" "tj_index s ! d = None"
  shows "tables_ok deps (enter_node s d)"
proof -
  note T = tables_okD [OF T]
  have fresh: "d \<notin> set (tj_stack s)" "d \<notin> finished_nodes s" using T(5) [OF d(1)] d(2) by simp_all
  have idx: "index_of_node (enter_node s d) = (index_of_node s)(d := tj_next s)"
    using d T(1) by (simp add: index_of_node_enter)
  have "sorted_wrt (\<lambda>a b. ((index_of_node s)(d := tj_next s)) b < ((index_of_node s)(d := tj_next s)) a) (tj_stack s)"
    by (rule sorted_wrt_mono_rel [OF _ T(7)]) (use fresh in auto)
  moreover have "\<forall>v \<in> set (tj_stack s). index_of_node s v < tj_next s + 1" using T(8) by auto
  moreover have "tj_next (enter_node s d) = tj_next s + 1" "tj_stack (enter_node s d) = d # tj_stack s"
    "tj_index (enter_node s d) = (tj_index s)[d := Some (tj_next s)]" "tj_on (enter_node s d) = (tj_on s)[d := True]"
    "tj_low (enter_node s d) = (tj_low s)[d := tj_next s]"
    by (simp_all add: enter_node_def)
  ultimately show ?thesis
    using T(1-6,8) d fresh unfolding tables_ok_def idx by (auto simp: nth_list_update)
qed

lemma enter_fields [simp]:
  "tj_stack (enter_node s d) = d # tj_stack s" "tj_components (enter_node s d) = tj_components s"
  by (simp_all add: enter_node_def)

lemma low_enter: "d < length (tj_low s) \<Longrightarrow>
    (!) (tj_low (enter_node s d)) = ((!) (tj_low s))(d := tj_next s)"
  by (auto simp: enter_node_def fun_eq_iff)

lemma tarjan_inv_root:
  assumes I: "tarjan_inv deps s []" and d: "d < length deps" "tj_index s ! d = None"
  shows "tarjan_inv deps (enter_node s d) [(d, 0)]"
proof -
  note D = tarjan_invD [OF I]
  note T = tables_okD [OF D(1)]
  have stack: "tj_stack s = []" using scc_invD(5) [OF D(6)] by (cases "tj_stack s") auto
  have "d \<notin> finished_nodes s" using T(5) [OF d(1)] d(2) by simp
  moreover have "\<forall>v \<in> finished_nodes s. dep_nodes deps v \<subseteq> finished_nodes s" using scc_invD(4) [OF D(6)] .
  ultimately have "scc_inv (dep_nodes deps) ((index_of_node s)(d := tj_next s)) (((!) (tj_low s))(d := tj_next s)) {d} {d}
      (tried_deps deps [(d, 0)]) (finished_nodes s)"
    by (intro scc_inv_root) (simp_all add: tried_deps_def)
  then show ?thesis
    using D(4,5) tables_enter [OF D(1) d] d T(1,2)
    by (simp add: tarjan_inv_def stack index_of_node_enter low_enter)
qed

lemma tarjan_inv_enter:
  assumes I: "tarjan_inv deps s ((node, c) # path)" and c: "c < length (deps ! node)" "fst (deps ! node ! c) = d"
    and d: "d < length deps" "tj_index s ! d = None"
  shows "tarjan_inv deps (enter_node s d) ((d, 0) # (node, c + 1) # path)"
proof -
  note D = tarjan_invD [OF I] and top = tarjan_top [OF I]
  note T = tables_okD [OF D(1)]
  have fresh: "d \<notin> set (tj_stack s)" "d \<notin> finished_nodes s" using T(5) [OF d(1)] d(2) by simp_all
  have G: "fst ` set ((node, c) # path) \<subseteq> set (tj_stack s)" by (rule scc_invD(2) [OF D(6)])
  have dn: "d \<noteq> node" using fresh top(7) by blast
  have dep: "d \<in> dep_nodes deps node" using c by (auto simp: dep_nodes_def)
  have sorted: "sorted_wrt (\<lambda>a b. ((index_of_node s)(d := tj_next s)) (fst b) < ((index_of_node s)(d := tj_next s)) (fst a))
      ((d, 0) # (node, c + 1) # path)"
  proof -
    have "sorted_wrt (\<lambda>a b. ((index_of_node s)(d := tj_next s)) (fst b) < ((index_of_node s)(d := tj_next s)) (fst a)) path"
      by (rule sorted_wrt_mono_rel [of path "\<lambda>a b. index_of_node s (fst b) < index_of_node s (fst a)"])
        (use D(2) G fresh in auto)
    moreover have "index_of_node s u < tj_next s" "u \<noteq> d" if "u \<in> fst ` set ((node, c) # path)" for u
      using that G T(8) fresh by blast+
    ultimately show ?thesis using D(2) dn by auto
  qed
  have "scc_inv (dep_nodes deps) ((index_of_node s)(d := tj_next s)) (((!) (tj_low s))(d := tj_next s))
      (insert d (set (tj_stack s))) (insert d (fst ` set ((node, c) # path)))
      (tried_deps deps ((d, 0) # (node, c + 1) # path)) (finished_nodes s)"
    unfolding tried_deps_enter [OF dn top(4) c]
    by (rule scc_inv_enter [OF D(6) top(1,2) fresh dep T(8)])
  then show ?thesis
    using D(3,4,5) tables_enter [OF D(1) d] d T(1,2) sorted c
    by (simp add: tarjan_inv_def index_of_node_enter low_enter)
qed

lemma tarjan_inv_look:
  assumes I: "tarjan_inv deps s ((node, c) # path)" and c: "c < length (deps ! node)" "fst (deps ! node ! c) = d"
    and d: "d < length deps" "tj_index s ! d = Some i"
  shows "tarjan_inv deps (if tj_on s ! d then lower s node i else s) ((node, c + 1) # path)"
proof -
  note D = tarjan_invD [OF I] and top = tarjan_top [OF I]
  note T = tables_okD [OF D(1)]
  have seen: "d \<in> set (tj_stack s) \<union> finished_nodes s" using T(5) [OF d(1)] d(2) by simp
  have i: "i = index_of_node s d" using d(2) by (simp add: index_of_node_def)
  have dep: "d \<in> dep_nodes deps node" using c by (auto simp: dep_nodes_def)
  let ?low = "if d \<in> set (tj_stack s) then ((!) (tj_low s))(node := min (tj_low s ! node) (index_of_node s d)) else ((!) (tj_low s))"
  have inv: "scc_inv (dep_nodes deps) (index_of_node s) ?low (set (tj_stack s)) (fst ` set ((node, c + 1) # path))
      (tried_deps deps ((node, c + 1) # path)) (finished_nodes s)"
    unfolding tried_deps_next [OF top(4) c(1)] c(2)
    using scc_inv_look [OF D(6) top(1,2) seen dep] by simp
  have on: "tj_on s ! d \<longleftrightarrow> d \<in> set (tj_stack s)" by (rule T(4) [OF d(1)])
  have rest: "sorted_wrt (\<lambda>a b. index_of_node s (fst b) < index_of_node s (fst a)) ((node, c + 1) # path)"
    "\<forall>(u, c) \<in> set ((node, c + 1) # path). c \<le> length (deps ! u)"
    using D(2,3) c(1) by auto
  show ?thesis
  proof (cases "d \<in> set (tj_stack s)")
    case True
    have "node < length (tj_low s)" using top(3) T(2) by simp
    from low_lower [OF this] inv True on rest D(1,4,5) i show ?thesis by (simp add: tarjan_inv_def)
  next
    case False
    with inv on rest D(1,4,5) show ?thesis by (simp add: tarjan_inv_def)
  qed
qed

section \<open>Closing a component\<close>

lemma nth_update_in: "v < length xs \<Longrightarrow> xs[i := x] ! v = (if i = v then x else xs ! v)"
  by (auto simp: nth_list_update)

lemma pop_component_split:
  assumes "node \<notin> set pre"
  shows "\<exists>on'. pop_component node on (pre @ node # rest) component = (on', rest, component @ pre @ [node]) \<and>
    length on' = length on \<and> (\<forall>v < length on. on' ! v \<longleftrightarrow> on ! v \<and> v \<notin> set (pre @ [node]))"
  using assms
proof (induction pre arbitrary: on component)
  case Nil
  show ?case by (simp add: nth_update_in)
next
  case (Cons x pre)
  from Cons.prems have x: "x \<noteq> node" "node \<notin> set pre" by auto
  from Cons.IH [OF x(2), of "on[x := False]" "component @ [x]"] obtain on' where
    "pop_component node (on[x := False]) (pre @ node # rest) (component @ [x]) = (on', rest, component @ x # pre @ [node])"
    "length on' = length on" "\<forall>v < length on. on' ! v \<longleftrightarrow> on[x := False] ! v \<and> v \<notin> set (pre @ [node])"
    by auto
  then show ?case using x(1) by (auto simp: nth_update_in)
qed

lemma sorted_stack_split:
  assumes "sorted_wrt (\<lambda>a b. f b < (f a :: nat)) (pre @ node # rest)"
  shows "node \<notin> set pre" "set (pre @ [node]) = {x \<in> set (pre @ node # rest). f node \<le> f x}"
    "set rest = set (pre @ node # rest) - set (pre @ [node])" "distinct (pre @ [node])"
proof -
  from assms have less: "\<forall>x \<in> set pre. f node < f x" "\<forall>x \<in> set rest. f x < f node" "\<forall>x \<in> set pre. \<forall>y \<in> set rest. f y < f x"
    by (auto simp: sorted_wrt_append)
  then show "node \<notin> set pre" by blast
  have "x \<noteq> node \<and> x \<notin> set pre" if "x \<in> set rest" for x using less that by (metis less_irrefl)
  then show "set rest = set (pre @ node # rest) - set (pre @ [node])" by auto
  show "set (pre @ [node]) = {x \<in> set (pre @ node # rest). f node \<le> f x}"
    using less by (auto simp: less_imp_le)
  have "distinct pre"
    using assms by (induction pre) (auto simp: sorted_wrt_append)
  then show "distinct (pre @ [node])" using \<open>node \<notin> set pre\<close> by simp
qed

lemma tarjan_inv_leave:
  assumes I: "tarjan_inv deps s ((node, c) # path)" and c: "length (deps ! node) \<le> c"
  shows "tarjan_inv deps (leave_node s node path) path"
proof -
  note D = tarjan_invD [OF I] and top = tarjan_top [OF I]
  note T = tables_okD [OF D(1)]
  note tried = tried_deps_leave [of path node deps c, OF top(4) c]
  have all: "tried_deps deps ((node, c) # path) node = dep_nodes deps node"
    using c by (simp add: tried_deps_def dep_nodes_def)
  have G: "fst ` set ((node, c) # path) - {node} = fst ` set path" using top(6) by auto
  have path: "sorted_wrt (\<lambda>a b. index_of_node s (fst b) < index_of_node s (fst a)) path"
    "\<forall>(u, c) \<in> set path. c \<le> length (deps ! u)" using D(2,3) by simp_all
  have idx: "tj_index s ! node = Some (index_of_node s node)"
    using T(5) [OF top(3)] top(7) by (auto simp: index_of_node_def)
  have parents: "u \<in> fst ` set ((node, c) # path) \<and> u \<noteq> node" if "u \<in> fst ` set path" for u
    using that top(6) by auto
  show ?thesis
  proof (cases "tj_low s ! node = index_of_node s node")
    case False
    note leave = scc_inv_leave [OF D(6) top(1,2) all False]
    from leave(1) top(6) obtain p pc rest where cons: "path = (p, pc) # rest" by (cases path) auto
    have p: "p \<in> fst ` set path" "\<forall>u \<in> fst ` set ((node, c) # path) - {node}. index_of_node s u \<le> index_of_node s p"
      unfolding G using path(1) cons by auto
    have "p \<in> set (tj_stack s)" by (rule subsetD [OF scc_invD(2) [OF D(6)] conjunct1 [OF parents [OF p(1)]]])
    then have "p < length (tj_low s)" using T(2,6) by auto
    note low = low_lower [OF this, of "tj_low s ! node"]
    have pn: "p \<noteq> node" using parents [OF p(1)] by blast
    have "scc_inv (dep_nodes deps) (index_of_node s) (((!) (tj_low s))(p := min (tj_low s ! p) (tj_low s ! node)))
        (set (tj_stack s)) (fst ` set path) (tried_deps deps path) (finished_nodes s)"
      using leave(2) [OF conjunct1 [OF parents [OF p(1)]] pn p(2)] unfolding G tried .
    moreover have "leave_node s node path = lower s p (tj_low s ! node)"
      using False idx pn by (simp add: leave_node_def cons Let_def) (simp add: lower_def)
    ultimately show ?thesis using path D(1,4,5) low by (simp add: tarjan_inv_def)
  next
    case True
    let ?X = "{x \<in> set (tj_stack s). index_of_node s node \<le> index_of_node s x}"
    note close = scc_inv_close [OF D(6) top(1,2) all True refl]
    from top(7) obtain pre rest where split: "tj_stack s = pre @ node # rest" by (meson split_list)
    note S = sorted_stack_split [of "index_of_node s" pre node rest, folded split, OF T(7)]
    from pop_component_split [OF S(1), of "tj_on s" rest "[]", folded split] obtain on where
      on: "pop_component node (tj_on s) (tj_stack s) [] = (on, rest, pre @ [node])" "length on = length (tj_on s)"
        "\<forall>v < length (tj_on s). on ! v \<longleftrightarrow> tj_on s ! v \<and> v \<notin> set (pre @ [node])" by auto
    let ?s = "s\<lparr>tj_on := on, tj_stack := rest, tj_components := tj_components s @ [pre @ [node]]\<rparr>"
    have same: "(case path of [] \<Rightarrow> s | (parent, _) # _ \<Rightarrow> lower s parent (tj_low s ! node)) = s"
    proof (cases path)
      case (Cons f rest)
      then have "fst f \<in> fst ` set path" by simp
      from close(2) [OF conjunct1 [OF parents [OF this]] conjunct2 [OF parents [OF this]]]
      show ?thesis using Cons by (cases f) (simp add: lower_def)
    qed simp
    have leave: "leave_node s node path = ?s"
      using idx True by (simp add: leave_node_def same on(1))
    have fin: "finished_nodes ?s = finished_nodes s \<union> set (pre @ [node])" by (simp add: finished_nodes_def)
    have idx': "index_of_node ?s = index_of_node s" by (simp add: index_of_node_def fun_eq_iff)
    have disjoint: "set (tj_stack s) \<inter> finished_nodes s = {}" by (rule scc_invD(3) [OF D(6)])
    have sub: "set (pre @ [node]) \<subseteq> set (tj_stack s)" unfolding split by auto
    have "tables_ok deps ?s"
    proof -
      have "sorted_wrt (\<lambda>a b. index_of_node s b < index_of_node s a) rest"
        using T(7) unfolding split by (simp add: sorted_wrt_append)
      moreover have "\<forall>v < length deps. on ! v \<longleftrightarrow> v \<in> set rest"
        using on(3) T(3,4) S(3) by auto
      moreover have "set rest \<union> (finished_nodes s \<union> set (pre @ [node])) = set (tj_stack s) \<union> finished_nodes s"
        using S(3) sub by blast
      moreover have "\<forall>v \<in> set rest. index_of_node s v < tj_next s" using T(8) S(3) by blast
      ultimately show ?thesis using T(1,2,3,5,6) on(2) unfolding tables_ok_def fin idx' by simp
    qed
    moreover have "distinct (concat (tj_components ?s))"
      using D(4) S(4) disjoint sub by (auto simp: finished_nodes_def)
    moreover have "component_class deps (pre @ [node])"
      unfolding component_class_def using close(1) S(2) by auto
    moreover have "scc_inv (dep_nodes deps) (index_of_node s) ((!) (tj_low s)) (set rest) (fst ` set path)
        (tried_deps deps path) (finished_nodes s \<union> set (pre @ [node]))"
      using close(3) unfolding G tried S(2,3) .
    ultimately show ?thesis
      using path D(5) unfolding leave tarjan_inv_def fin idx' by simp
  qed
qed

section \<open>The search\<close>

lemma scc_loop_inv:
  assumes "deps_ok deps" "tarjan_inv deps s path"
  shows "tarjan_inv deps (scc_loop deps s path) [] \<and>
    (\<forall>v < length deps. tj_index s ! v \<noteq> None \<longrightarrow> tj_index (scc_loop deps s path) ! v \<noteq> None)"
  using assms
proof (induction deps s path rule: scc_loop.induct)
  case (1 deps s)
  then show ?case by simp
next
  case (2 deps s node c path)
  note top = tarjan_top [OF "2.prems"(2)] and T = tables_okD [OF tarjan_invD(1) [OF "2.prems"(2)]]
  show ?case
  proof (cases "c < length (deps ! node)")
    case False
    then have edge: "edge_at deps node c = None" by (simp add: edge_at_def)
    have "tarjan_inv deps (leave_node s node path) path"
      using tarjan_inv_leave [OF "2.prems"(2)] False by simp
    moreover have "scc_loop deps s ((node, c) # path) = scc_loop deps (leave_node s node path) path"
      by (subst scc_loop.simps(2)) (simp add: edge)
    ultimately show ?thesis using "2.IH"(1) [OF edge "2.prems"(1)] by simp
  next
    case True
    let ?d = "fst (deps ! node ! c)"
    have edge: "edge_at deps node c = Some (?d, snd (deps ! node ! c))" using True by (simp add: edge_at_def)
    have "?d \<in> dep_nodes deps node" using True by (simp add: dep_nodes_def)
    with "2.prems"(1) top(3) have d: "?d < length deps" by (auto simp: deps_ok_def)
    show ?thesis
    proof (cases "tj_index s ! ?d")
      case None
      then have at: "index_at s ?d = None" using d T(1) by (simp add: index_at_def)
      have inv: "tarjan_inv deps (enter_node s ?d) ((?d, 0) # (node, c + 1) # path)"
        by (rule tarjan_inv_enter [OF "2.prems"(2) True refl d None])
      have mono: "tj_index s ! v \<noteq> None \<longrightarrow> tj_index (enter_node s ?d) ! v \<noteq> None" if "v < length deps" for v
        using that T(1) by (simp add: enter_node_def nth_update_in)
      have "scc_loop deps s ((node, c) # path) = scc_loop deps (enter_node s ?d) ((?d, 0) # (node, c + 1) # path)"
        by (subst scc_loop.simps(2)) (simp add: edge at case_prod_unfold)
      with "2.IH"(2) [OF edge refl at "2.prems"(1) inv] mono show ?thesis by metis
    next
      case (Some i)
      then have at: "index_at s ?d = Some i" using d T(1) by (simp add: index_at_def)
      have inv: "tarjan_inv deps (if tj_on s ! ?d then lower s node i else s) ((node, c + 1) # path)"
        by (rule tarjan_inv_look [OF "2.prems"(2) True refl d Some])
      have "scc_loop deps s ((node, c) # path) =
          scc_loop deps (if tj_on s ! ?d then lower s node i else s) ((node, c + 1) # path)"
        by (subst scc_loop.simps(2)) (simp add: edge at case_prod_unfold)
      with "2.IH"(3) [OF edge refl at "2.prems"(1) inv] show ?thesis by (simp add: if_distrib [of tj_index])
    qed
  qed
qed

text \<open>Every strongly connected component is reported once, and nothing else is.\<close>

lemma component_indices_ok:
  assumes "graph_ok g"
  shows "set (concat (component_indices g)) = {..<length (g_keys g)} \<and> distinct (concat (component_indices g)) \<and>
    (\<forall>C \<in> set (component_indices g). component_class (g_dependencies g) C)"
proof -
  let ?deps = "g_dependencies g" and ?n = "length (g_keys g)"
  let ?start = "\<lparr>tj_index = replicate ?n None, tj_low = replicate ?n 0, tj_on = replicate ?n False,
             tj_stack = [], tj_components = [], tj_next = 0\<rparr>"
  let ?step = "\<lambda>s root. if tj_index s ! root \<noteq> None then s else scc_loop ?deps (enter_node s root) [(root, 0)]"
  have n: "length ?deps = ?n" by (rule graph_okD(3) [OF assms])
  have ok: "deps_ok ?deps" by (rule graph_deps_ok [OF assms])
  have "tarjan_inv ?deps (foldl ?step ?start [0..<r]) [] \<and>
      (\<forall>v < r. tj_index (foldl ?step ?start [0..<r]) ! v \<noteq> None)" if "r \<le> ?n" for r
    using that
  proof (induction r)
    case 0
    show ?case
      by (simp add: tarjan_inv_def tables_ok_def scc_inv_def finished_nodes_def n)
  next
    case (Suc r)
    let ?s = "foldl ?step ?start [0..<r]"
    have r: "r < length ?deps" using Suc.prems n by simp
    have inv: "tarjan_inv ?deps ?s []" and seen: "\<forall>v < r. tj_index ?s ! v \<noteq> None" using Suc by simp_all
    have len: "length (tj_index ?s) = length ?deps" by (rule tables_okD(1) [OF tarjan_invD(1) [OF inv]])
    have fold: "foldl ?step ?start [0..<Suc r] = ?step ?s r" by simp
    show ?case
    proof (cases "tj_index ?s ! r = None")
      case False
      with inv seen show ?thesis unfolding fold by (auto simp: less_Suc_eq)
    next
      case True
      let ?e = "enter_node ?s r"
      have "tarjan_inv ?deps ?e [(r, 0)]" by (rule tarjan_inv_root [OF inv r True])
      note loop = scc_loop_inv [OF ok this]
      have "tj_index ?e ! v \<noteq> None" if "v < Suc r" for v
        using that seen r len by (auto simp: enter_node_def nth_update_in less_Suc_eq)
      with loop r True show ?thesis unfolding fold by auto
    qed
  qed
  from this [of ?n] have inv: "tarjan_inv ?deps (foldl ?step ?start [0..<?n]) []"
    and seen: "\<forall>v < ?n. tj_index (foldl ?step ?start [0..<?n]) ! v \<noteq> None" by simp_all
  let ?s = "foldl ?step ?start [0..<?n]"
  note D = tarjan_invD [OF inv] and T = tables_okD [OF tarjan_invD(1) [OF inv]]
  have stack: "set (tj_stack ?s) = {}" using scc_invD(5) [OF D(6)] by auto
  have "finished_nodes ?s = {..<?n}"
    using T(5,6) seen n unfolding stack by auto
  moreover have "component_indices g = tj_components ?s" by (simp add: component_indices_def Let_def)
  ultimately show ?thesis using D(4,5) by (simp add: finished_nodes_def)
qed

section \<open>Components of keys\<close>

lemma reach_keys:
  assumes "graph_ok g" "i < length (g_keys g)" "j < length (g_keys g)"
  shows "reach (dep_nodes (g_dependencies g)) i j \<longleftrightarrow> (depends g)\<^sup>*\<^sup>* (g_keys g ! i) (g_keys g ! j)"
proof
  assume "reach (dep_nodes (g_dependencies g)) i j"
  then show "(depends g)\<^sup>*\<^sup>* (g_keys g ! i) (g_keys g ! j)"
  proof (induction rule: rtranclp_induct)
    case (step u v)
    have u: "u < length (g_keys g)"
      using step.hyps(1) assms(2) graph_deps_ok [OF assms(1)] graph_okD(3) [OF assms(1)]
      by (induction rule: rtranclp_induct) (auto simp: deps_ok_def)
    have "(u, v) \<in> g_edges g" using step.hyps(2) graph_okD(7) [OF assms(1) u] by blast
    then have "depends g (g_keys g ! u) (g_keys g ! v)" by (force simp: depends_def)
    with step.IH show ?case by (rule rtranclp.rtrancl_into_rtrancl)
  qed simp
next
  assume "(depends g)\<^sup>*\<^sup>* (g_keys g ! i) (g_keys g ! j)"
  moreover have "\<forall>j < length (g_keys g). g_keys g ! j = b \<longrightarrow> reach (dep_nodes (g_dependencies g)) i j"
    if "(depends g)\<^sup>*\<^sup>* (g_keys g ! i) b" for b
    using that
  proof (induction rule: rtranclp_induct)
    case base
    then show ?case using graph_okD(1) [OF assms(1)] assms(2) by (auto simp: nth_eq_iff_index_eq)
  next
    case (step a b)
    from depends_nodes [OF assms(1) step.hyps(2)] obtain u where u: "u < length (g_keys g)" "g_keys g ! u = a"
      by (auto simp: in_set_conv_nth)
    with step.IH have iu: "reach (dep_nodes (g_dependencies g)) i u" by blast
    show ?case
    proof (intro allI impI)
      fix v assume v: "v < length (g_keys g)" "g_keys g ! v = b"
      have "v \<in> dep_nodes (g_dependencies g) u"
        using depends_index [OF assms(1) u(1) v(1)] step.hyps(2) u(2) v(2) graph_okD(7) [OF assms(1) u(1)] by simp
      with iu show "reach (dep_nodes (g_dependencies g)) i v" by (rule rtranclp.rtrancl_into_rtrancl)
    qed
  qed
  ultimately show "reach (dep_nodes (g_dependencies g)) i j" using assms(3) by blast
qed

text \<open>The components that a class of keys has to form.\<close>

definition mutual :: "('k \<Rightarrow> 'k \<Rightarrow> bool) \<Rightarrow> 'k \<Rightarrow> 'k set" where
  "mutual dep k = {k'. dep\<^sup>*\<^sup>* k k' \<and> dep\<^sup>*\<^sup>* k' k}"

lemma mutual_self [simp]: "k \<in> mutual dep k"
  by (simp add: mutual_def)

lemma component_keys:
  assumes g: "graph_ok g" and C: "component_class (g_dependencies g) C" "set C \<subseteq> {..<length (g_keys g)}" "v \<in> set C"
  shows "(!) (g_keys g) ` set C = mutual (depends g) (g_keys g ! v)"
proof (intro set_eqI iffI)
  have v: "v < length (g_keys g)" using C(2,3) by blast
  note members = bspec [OF conjunct2 [OF C(1) [unfolded component_class_def]] C(3)]
  {
    fix k assume "k \<in> (!) (g_keys g) ` set C"
    then obtain w where w: "w \<in> set C" "k = g_keys g ! w" by blast
    with members C(2) have "w < length (g_keys g)" "reach (dep_nodes (g_dependencies g)) v w"
      "reach (dep_nodes (g_dependencies g)) w v" by blast+
    then show "k \<in> mutual (depends g) (g_keys g ! v)"
      using reach_keys [OF g] v w(2) by (simp add: mutual_def)
  next
    fix k assume "k \<in> mutual (depends g) (g_keys g ! v)"
    then have k: "(depends g)\<^sup>*\<^sup>* (g_keys g ! v) k" "(depends g)\<^sup>*\<^sup>* k (g_keys g ! v)" by (simp_all add: mutual_def)
    have "k \<in> set (g_keys g)"
      using k(1) depends_nodes [OF g] v by (cases rule: rtranclp.cases) auto
    then obtain w where w: "w < length (g_keys g)" "g_keys g ! w = k" by (auto simp: in_set_conv_nth)
    with k reach_keys [OF g] v members show "k \<in> (!) (g_keys g) ` set C" by auto
  }
qed

lemma component_cyclic:
  assumes g: "graph_ok g" and C: "component_class (g_dependencies g) C" "set C \<subseteq> {..<length (g_keys g)}" "distinct C"
    and v: "v \<in> set C"
  shows "(case C of [v] \<Rightarrow> (v, v) \<in> g_edges g | _ \<Rightarrow> True) \<longleftrightarrow> (depends g)\<^sup>+\<^sup>+ (g_keys g ! v) (g_keys g ! v)"
proof -
  have vn: "v < length (g_keys g)" using C(2) v by blast
  note keys = component_keys [OF g C(1,2) v]
  have inj: "inj_on ((!) (g_keys g)) {..<length (g_keys g)}"
    using graph_okD(1) [OF g] by (simp add: inj_on_def nth_eq_iff_index_eq)
  show ?thesis
  proof (cases "C = [v]")
    case True
    have "(v, v) \<in> g_edges g \<longleftrightarrow> depends g (g_keys g ! v) (g_keys g ! v)"
      using depends_index [OF g vn vn] by simp
    moreover have "depends g (g_keys g ! v) (g_keys g ! v)" if "(depends g)\<^sup>+\<^sup>+ (g_keys g ! v) (g_keys g ! v)"
    proof -
      from tranclpD [OF that] obtain k where k: "depends g (g_keys g ! v) k" "(depends g)\<^sup>*\<^sup>* k (g_keys g ! v)" by blast
      then have "k \<in> mutual (depends g) (g_keys g ! v)" by (auto simp: mutual_def)
      with keys True have "k = g_keys g ! v" by auto
      with k(1) show ?thesis by simp
    qed
    ultimately show ?thesis using True by auto
  next
    case False
    have "\<exists>w \<in> set C. w \<noteq> v"
    proof (rule ccontr)
      assume "\<not> ?thesis"
      then have "set C = {v}" using v by blast
      then have "length C = 1" using C(3) by (metis distinct_card card_1_singleton_iff One_nat_def)
      with \<open>set C = {v}\<close> False show False by (cases C) auto
    qed
    then obtain w where w: "w \<in> set C" "w \<noteq> v" by blast
    then have "g_keys g ! w \<noteq> g_keys g ! v"
      using inj C(2) vn by (meson inj_onD lessThan_iff subsetD)
    moreover have "g_keys g ! w \<in> mutual (depends g) (g_keys g ! v)" using w(1) keys by blast
    ultimately have "(depends g)\<^sup>+\<^sup>+ (g_keys g ! v) (g_keys g ! v)"
      by (auto simp: mutual_def dest: rtranclpD)
    moreover have "case C of [v] \<Rightarrow> (v, v) \<in> g_edges g | _ \<Rightarrow> True"
      using False v by (auto split: list.split)
    ultimately show ?thesis by simp
  qed
qed

definition cyclic_indices :: "('k, 'e) dep_graph \<Rightarrow> nat list list" where
  "cyclic_indices g =
     sort_key hd (map sort (filter (\<lambda>component. case component of [v] \<Rightarrow> (v, v) \<in> g_edges g | _ \<Rightarrow> True)
       (component_indices g)))"

lemma cyclic_components_indices: "cyclic_components g = map (map ((!) (g_keys g))) (cyclic_indices g)"
  by (simp add: cyclic_components_def cyclic_indices_def)

lemma distinct_concat_sort_filter: "distinct (concat xss) \<Longrightarrow> distinct (concat (map sort (filter P xss)))"
  by (induction xss) auto

lemma distinct_concat_sort_key: "distinct (concat (sort_key f xss)) \<longleftrightarrow> distinct (concat xss)"
proof (rule mset_eq_imp_distinct_iff)
  have "mset (map mset (sort_key f xss)) = mset (map mset xss)" by simp
  then show "mset (concat (sort_key f xss)) = mset (concat xss)"
    unfolding mset_concat by (metis sum_mset_sum_list)
qed

lemma distinct_heads: "distinct (concat xss) \<Longrightarrow> \<forall>xs \<in> set xss. xs \<noteq> [] \<Longrightarrow> distinct (map hd xss)"
proof (induction xss)
  case (Cons xs xss)
  have "hd xs \<noteq> hd ys" if ys: "ys \<in> set xss" for ys
  proof -
    have "hd xs \<in> set xs" "hd ys \<in> set ys" using Cons.prems(2) ys by simp_all
    moreover have "set xs \<inter> set ys = {}" using Cons.prems(1) ys by auto
    ultimately show ?thesis by force
  qed
  with Cons show ?case by auto
qed simp

lemma cyclic_indices_ok:
  assumes g: "graph_ok g"
  shows "\<forall>C \<in> set (cyclic_indices g). C \<noteq> [] \<and> sorted_wrt (<) C \<and> set C \<subseteq> {..<length (g_keys g)} \<and>
      (\<forall>v \<in> set C. (!) (g_keys g) ` set C = mutual (depends g) (g_keys g ! v) \<and>
        (depends g)\<^sup>+\<^sup>+ (g_keys g ! v) (g_keys g ! v))"
    and "distinct (concat (cyclic_indices g))"
    and "v < length (g_keys g) \<Longrightarrow> (depends g)\<^sup>+\<^sup>+ (g_keys g ! v) (g_keys g ! v) \<Longrightarrow> v \<in> set (concat (cyclic_indices g))"
    and "sorted_wrt (\<lambda>C D. hd C < hd D) (cyclic_indices g)"
proof -
  let ?P = "\<lambda>component. case component of [v] \<Rightarrow> (v, v) \<in> g_edges g | _ \<Rightarrow> True"
  let ?all = "component_indices g"
  have all: "set (concat ?all) = {..<length (g_keys g)}" "distinct (concat ?all)"
    "\<forall>C \<in> set ?all. component_class (g_dependencies g) C"
    using component_indices_ok [OF g] by simp_all
  have part: "C \<noteq> []" "set C \<subseteq> {..<length (g_keys g)}" "distinct C" if "C \<in> set ?all" for C
  proof -
    show "C \<noteq> []" using all(3) that by (simp add: component_class_def)
    show "set C \<subseteq> {..<length (g_keys g)}" using all(1) that by auto
    show "distinct C" using all(2) that by (simp add: distinct_concat_iff)
  qed
  have cyclic: "?P C \<longleftrightarrow> (depends g)\<^sup>+\<^sup>+ (g_keys g ! v) (g_keys g ! v)" if "C \<in> set ?all" "v \<in> set C" for C v
    using component_cyclic [OF g _ part(2,3) that(2)] all(3) that(1) by blast
  have mem: "D \<in> set (cyclic_indices g) \<longleftrightarrow> (\<exists>C \<in> set ?all. ?P C \<and> D = sort C)" for D
    by (auto simp: cyclic_indices_def image_iff)
  show shape: "\<forall>C \<in> set (cyclic_indices g). C \<noteq> [] \<and> sorted_wrt (<) C \<and> set C \<subseteq> {..<length (g_keys g)} \<and>
      (\<forall>v \<in> set C. (!) (g_keys g) ` set C = mutual (depends g) (g_keys g ! v) \<and>
        (depends g)\<^sup>+\<^sup>+ (g_keys g ! v) (g_keys g ! v))"
  proof
    fix D assume "D \<in> set (cyclic_indices g)"
    with mem obtain C where C: "C \<in> set ?all" "?P C" "D = sort C" by blast
    note p = part [OF C(1)]
    have "D \<noteq> []" using p(1) C(3) by (metis set_empty set_sort)
    moreover have "sorted_wrt (<) D" using p(3) C(3) by (simp add: strict_sorted_iff)
    moreover have "set D = set C" using C(3) by simp
    moreover have "(!) (g_keys g) ` set C = mutual (depends g) (g_keys g ! v) \<and>
        (depends g)\<^sup>+\<^sup>+ (g_keys g ! v) (g_keys g ! v)" if "v \<in> set C" for v
      using component_keys [OF g _ p(2) that] all(3) C(1) cyclic [OF C(1) that] C(2) by blast
    ultimately show "D \<noteq> [] \<and> sorted_wrt (<) D \<and> set D \<subseteq> {..<length (g_keys g)} \<and>
      (\<forall>v \<in> set D. (!) (g_keys g) ` set D = mutual (depends g) (g_keys g ! v) \<and>
        (depends g)\<^sup>+\<^sup>+ (g_keys g ! v) (g_keys g ! v))" using p(2) by simp
  qed
  show dist: "distinct (concat (cyclic_indices g))"
    unfolding cyclic_indices_def distinct_concat_sort_key by (rule distinct_concat_sort_filter [OF all(2)])
  show "v \<in> set (concat (cyclic_indices g))"
    if v: "v < length (g_keys g)" "(depends g)\<^sup>+\<^sup>+ (g_keys g ! v) (g_keys g ! v)"
  proof -
    from v(1) all(1) obtain C where C: "C \<in> set ?all" "v \<in> set C" by auto
    with cyclic v(2) mem have "sort C \<in> set (cyclic_indices g)" by blast
    moreover have "v \<in> set (sort C)" using C(2) by simp
    ultimately show ?thesis unfolding set_concat by blast
  qed
  have "sorted (map hd (cyclic_indices g))" by (simp add: cyclic_indices_def)
  moreover have "distinct (map hd (cyclic_indices g))"
    using distinct_heads [OF dist] shape by blast
  ultimately have "sorted_wrt (<) (map hd (cyclic_indices g))" by (simp add: strict_sorted_iff)
  then show "sorted_wrt (\<lambda>C D. hd C < hd D) (cyclic_indices g)" by (simp add: sorted_wrt_map)
qed

section \<open>Properties\<close>

lemma filter_sorted_upt: "sorted_wrt (<) C \<Longrightarrow> set C \<subseteq> {..<n} \<Longrightarrow> C = filter (\<lambda>v. v \<in> set C) [0..<n]"
  by (rule sorted_distinct_set_unique) (auto simp: strict_sorted_iff intro: sorted_wrt_filter)

lemma component_in_order:
  assumes "graph_ok g" "sorted_wrt (<) C" "set C \<subseteq> {..<length (g_keys g)}"
  shows "map ((!) (g_keys g)) C = filter (\<lambda>k. k \<in> (!) (g_keys g) ` set C) (g_keys g)"
proof -
  have inj: "inj_on ((!) (g_keys g)) {..<length (g_keys g)}"
    using graph_okD(1) [OF assms(1)] by (simp add: inj_on_def nth_eq_iff_index_eq)
  have "map ((!) (g_keys g)) C = map ((!) (g_keys g)) (filter (\<lambda>v. v \<in> set C) [0..<length (g_keys g)])"
    using filter_sorted_upt [OF assms(2,3)] by simp
  also have "filter (\<lambda>v. v \<in> set C) [0..<length (g_keys g)] =
      filter (\<lambda>v. g_keys g ! v \<in> (!) (g_keys g) ` set C) [0..<length (g_keys g)]"
    by (rule filter_cong) (use inj assms(3) in \<open>auto dest: inj_onD\<close>)
  also have "map ((!) (g_keys g)) \<dots> = filter (\<lambda>k. k \<in> (!) (g_keys g) ` set C) (map ((!) (g_keys g)) [0..<length (g_keys g)])"
    by (simp add: filter_map comp_def)
  finally show ?thesis by (simp add: map_nth)
qed

lemma cyclic_components_ok:
  assumes "graph_ok g"
  shows "(\<forall>C \<in> set (cyclic_components g). C \<noteq> [] \<and> C = filter (\<lambda>k. k \<in> set C) (g_keys g) \<and>
      (\<forall>k \<in> set C. set C = mutual (depends g) k)) \<and>
    set (concat (cyclic_components g)) = {k. (depends g)\<^sup>+\<^sup>+ k k} \<and> distinct (concat (cyclic_components g)) \<and>
    sorted_wrt (\<lambda>C D. the (g_positions g (hd C)) < the (g_positions g (hd D))) (cyclic_components g)"
proof -
  note ok = cyclic_indices_ok [OF assms] and D = graph_okD [OF assms]
  let ?k = "(!) (g_keys g)"
  have inj: "inj_on ?k {..<length (g_keys g)}"
    using D(1) by (simp add: inj_on_def nth_eq_iff_index_eq)
  have sub: "set (concat (cyclic_indices g)) \<subseteq> {..<length (g_keys g)}" using ok(1) by fastforce
  have comps: "concat (cyclic_components g) = map ?k (concat (cyclic_indices g))"
    by (simp add: cyclic_components_indices map_concat)
  have "C \<noteq> [] \<and> C = filter (\<lambda>k. k \<in> set C) (g_keys g) \<and> (\<forall>k \<in> set C. set C = mutual (depends g) k)"
    if "C \<in> set (cyclic_components g)" for C
  proof -
    from that obtain I where I: "I \<in> set (cyclic_indices g)" "C = map ?k I"
      by (auto simp: cyclic_components_indices)
    from ok(1) I(1) have i: "I \<noteq> []" "sorted_wrt (<) I" "set I \<subseteq> {..<length (g_keys g)}"
      "\<forall>v \<in> set I. ?k ` set I = mutual (depends g) (?k v)" by blast+
    have "map ?k I = filter (\<lambda>k. k \<in> set (map ?k I)) (g_keys g)"
      unfolding set_map by (rule component_in_order [OF assms i(2,3)])
    moreover have "map ?k I \<noteq> []" "\<forall>k \<in> set (map ?k I). set (map ?k I) = mutual (depends g) k"
      using i(1,4) by simp_all
    ultimately show ?thesis unfolding I(2) by blast
  qed
  moreover have "set (concat (cyclic_components g)) = {k. (depends g)\<^sup>+\<^sup>+ k k}"
  proof (intro set_eqI iffI)
    fix k assume "k \<in> set (concat (cyclic_components g))"
    then show "k \<in> {k. (depends g)\<^sup>+\<^sup>+ k k}" unfolding comps using ok(1) by auto
  next
    fix k assume k: "k \<in> {k. (depends g)\<^sup>+\<^sup>+ k k}"
    then have "k \<in> set (g_keys g)" using depends_nodes [OF assms] by (auto dest: tranclpD)
    then obtain v where "v < length (g_keys g)" "?k v = k" by (auto simp: in_set_conv_nth)
    with ok(3) [of v] k show "k \<in> set (concat (cyclic_components g))" unfolding comps by auto
  qed
  moreover have "distinct (concat (cyclic_components g))"
    unfolding comps distinct_map using ok(2) inj sub by (blast intro: inj_on_subset)
  moreover have "sorted_wrt (\<lambda>C D. the (g_positions g (hd C)) < the (g_positions g (hd D))) (cyclic_components g)"
  proof -
    have hd: "g_positions g (hd (map ?k I)) = Some (hd I)" if "I \<in> set (cyclic_indices g)" for I
    proof -
      have "I \<noteq> []" "hd I < length (g_keys g)" using ok(1) that hd_in_set [of I] by blast+
      then show ?thesis using D(2) by (simp add: hd_map)
    qed
    show ?thesis
      unfolding cyclic_components_indices sorted_wrt_map
      by (rule sorted_wrt_mono_rel [OF _ ok(4)]) (simp add: hd)
  qed
  ultimately show ?thesis by blast
qed

text \<open>C7: the cyclic components of a graph are the classes of mutually reachable nodes that contain a
  cycle. Each reported component is such a class, listed without repetition in the order its nodes
  were inserted; a node is in a component exactly when it reaches itself, and in one only; components
  come in the order of their first nodes.\<close>

theorem cyclic_components_correct:
  assumes "graph_ok g"
  shows "(\<forall>C \<in> set (cyclic_components g). C \<noteq> [] \<and> C = filter (\<lambda>k. k \<in> set C) (g_keys g) \<and>
      (\<forall>k \<in> set C. set C = mutual (depends g) k)) \<and>
    set (concat (cyclic_components g)) = {k. (depends g)\<^sup>+\<^sup>+ k k} \<and> distinct (concat (cyclic_components g)) \<and>
    sorted_wrt (\<lambda>C D. the (g_positions g (hd C)) < the (g_positions g (hd D))) (cyclic_components g)"
  by (rule cyclic_components_ok [OF assms])

theorem cyclic_components_correct_witness:
  "cyclic_components (add_dependency (add_dependency (add_dependency graph_new (0::nat) 1) 1 2) 2 1) = [[1, 2]] \<and>
   mutual (depends (add_dependency (add_dependency (add_dependency graph_new (0::nat) 1) 1 2) 2 1)) 1 = {1, 2}"
proof -
  let ?g = "add_dependency (add_dependency (add_dependency graph_new (0::nat) 1) 1 2) 2 1"
  have "graph_ok ?g" by (simp add: add_dependency_def add_labelled_dependency_ok)
  moreover have comps: "cyclic_components ?g = [[1, 2]]" by code_simp
  ultimately have "\<forall>C \<in> set (cyclic_components ?g). \<forall>k \<in> set C. set C = mutual (depends ?g) k"
    using cyclic_components_correct [of ?g] by blast
  moreover have "[1, 2] \<in> set (cyclic_components ?g)" unfolding comps by simp
  ultimately have "\<forall>k \<in> set [1, 2]. set [1, 2] = mutual (depends ?g) k" by (rule bspec)
  then have "set [1, 2] = mutual (depends ?g) 1" by (rule bspec) simp
  with comps show ?thesis by simp
qed

end
