(* ===== verification/Runtime_Schedule.thy ===== *)
theory Runtime_Schedule
  imports Schedule Components
begin

text \<open>
  The evaluation schedule of one callable with its closure of instances (\<open>RuntimeSchedule\<close> of
  \<open>graphcal-compiler/src/tir/schedule.rs\<close>): the closure, the graph of its params and nodes, the
  check of each cyclic component, and the order of declarations and recurrence groups. The lemmas
  show that a callable is scheduled exactly when every cyclic component is accepted, that the
  schedule then evaluates each declaration once and after what it reads, and that a rejection
  reports a genuine cycle or what the check of a component reported.
\<close>

section \<open>Declarations and instances\<close>

datatype 's decl_entry =
    ConstEntry "'s scheduled_decl"
  | ParamEntry "'s scheduled_decl"
  | NodeEntry "'s scheduled_decl"
  | AssertEntry "'s scheduled_decl"
  | PlotEntry "'s scheduled_decl"
  | FigureEntry "'s scheduled_decl"
  | LayerEntry "'s scheduled_decl"

fun runtime_entry :: "'s decl_entry \<Rightarrow> 's scheduled_decl option" where
  "runtime_entry (ParamEntry entry) = Some entry"
| "runtime_entry (NodeEntry entry) = Some entry"
| "runtime_entry _ = None"

record 's run_dag =
  rd_id :: dag_id
  rd_entries :: "'s decl_entry list"
  rd_deps :: "resolved_name \<Rightarrow> resolved_name list option"

text \<open>The closure: positions found but not expanded, all positions found, and their DAGs; an index
  outside the registry panics.\<close>

definition visit_instance ::
  "'s run_dag list \<Rightarrow> nat set \<times> nat list \<times> 's run_dag list \<Rightarrow> nat \<Rightarrow>
   (nat set \<times> nat list \<times> 's run_dag list) option" where
  "visit_instance dags s instance_at =
     (case s of (visited, pending, instances) \<Rightarrow>
        if instance_at \<in> visited then Some s
        else if instance_at < length dags
        then Some (insert instance_at visited, pending @ [instance_at], instances @ [dags ! instance_at])
        else None)"

fun visit_instances ::
  "'s run_dag list \<Rightarrow> nat set \<times> nat list \<times> 's run_dag list \<Rightarrow> nat list \<Rightarrow>
   (nat set \<times> nat list \<times> 's run_dag list) option" where
  "visit_instances dags s [] = Some s"
| "visit_instances dags s (p # ps) = Option.bind (visit_instance dags s p) (\<lambda>s. visit_instances dags s ps)"

definition unvisited_positions :: "'s run_dag list \<Rightarrow> nat set \<Rightarrow> nat" where
  "unvisited_positions dags visited = card ({..<length dags} - visited)"

lemma visit_instance_weight:
  assumes "visit_instance dags (visited, pending, instances) p = Some (visited', pending', instances')"
  shows "unvisited_positions dags visited' + length pending' = unvisited_positions dags visited + length pending"
proof (cases "p \<in> visited")
  case False
  with assms have p: "p < length dags" "visited' = insert p visited" "pending' = pending @ [p]"
    by (auto simp: visit_instance_def split: if_splits)
  have "{..<length dags} - visited = insert p ({..<length dags} - visited')"
    using p(1,2) False by auto
  moreover have "p \<notin> {..<length dags} - visited'" using p(2) by simp
  ultimately have "card ({..<length dags} - visited) = Suc (card ({..<length dags} - visited'))"
    by (metis card_insert_disjoint finite_Diff finite_lessThan)
  then have "unvisited_positions dags visited = Suc (unvisited_positions dags visited')"
    by (simp only: unvisited_positions_def)
  with p show ?thesis by simp
qed (use assms in \<open>simp add: visit_instance_def\<close>)

lemma visit_instances_weight:
  "visit_instances dags s ps = Some s' \<Longrightarrow>
    unvisited_positions dags (fst s') + length (fst (snd s')) = unvisited_positions dags (fst s) + length (fst (snd s))"
proof (induction ps arbitrary: s)
  case (Cons p ps)
  then obtain t where t: "visit_instance dags s p = Some t" "visit_instances dags t ps = Some s'"
    by (auto split: Option.bind_splits)
  obtain v q i v' q' i' where "s = (v, q, i)" "t = (v', q', i')" by (cases s, cases t)
  with Cons.IH [OF t(2)] visit_instance_weight [of dags v q i p v' q' i'] t(1) show ?case by simp
qed simp

function closure_loop ::
  "'s run_dag list \<Rightarrow> (nat \<Rightarrow> nat list) \<Rightarrow> nat set \<times> nat list \<times> 's run_dag list \<Rightarrow> 's run_dag list option" where
  "closure_loop dags instances_of s =
     (case s of (visited, pending, instances) \<Rightarrow>
        if pending = [] then Some instances
        else Option.bind (visit_instances dags (visited, butlast pending, instances) (instances_of (last pending)))
               (closure_loop dags instances_of))"
  by pat_completeness auto

termination closure_loop
proof (relation "measure (\<lambda>(dags, _, visited, pending, _). unvisited_positions dags visited + length pending)", goal_cases)
  case (2 dags instances_of s visited rest pending instances s')
  then have visit: "visit_instances dags (visited, butlast pending, instances) (instances_of (last pending)) = Some s'"
    and s: "s = (visited, pending, instances)" "pending \<noteq> []" by simp_all
  obtain v p i where s': "s' = (v, p, i)" by (cases s')
  from visit_instances_weight [OF visit] s(2) show ?case by (simp add: s(1) s')
qed simp

declare closure_loop.simps [simp del]

definition instance_closure :: "'s run_dag list \<Rightarrow> (nat \<Rightarrow> nat list) \<Rightarrow> nat \<Rightarrow> 's run_dag list option" where
  "instance_closure dags instances_of callable =
     Option.bind (closure_loop dags instances_of ({callable}, [callable], [])) (\<lambda>instances.
       if callable < length dags then Some (dags ! callable # sort_key rd_id instances) else None)"

section \<open>Ordering units\<close>

datatype schedule_unit = UnitDeclaration resolved_name | UnitRecurrence recurrence_plan

fun unit_declarations :: "schedule_unit \<Rightarrow> resolved_name list" where
  "unit_declarations (UnitDeclaration declaration) = [declaration]"
| "unit_declarations (UnitRecurrence plan) = map rm_declaration plan"

datatype 's schedule_rejection =
    CycleRejection "('s scheduled_decl, unit) cycle"
  | RecurrenceRejection string 's recurrence_rejection

datatype unit_key = DeclarationKey resolved_name | GroupKey nat

type_synonym 's component_check =
  "('s scheduled_decl \<times> 's run_dag) list \<Rightarrow> (recurrence_plan, 's component_rejection) result"

type_synonym 's checked_components =
  "recurrence_plan list \<times> (resolved_name list \<times> 's component_rejection) list \<times> (resolved_name \<Rightarrow> nat option)"

text \<open>One cyclic component: accepted as the next group, or rejected.\<close>

definition check_one ::
  "'s scheduled_decl list \<Rightarrow> (resolved_name \<Rightarrow> 's run_dag option) \<Rightarrow> 's component_check \<Rightarrow>
   's checked_components \<Rightarrow> resolved_name list \<Rightarrow> 's checked_components" where
  "check_one nodes owners check s component =
     (case s of (plans, rejections, group_of) \<Rightarrow>
        case check (map (\<lambda>k. (site_of nodes k, the (owners k))) component) of
          Inr plan \<Rightarrow> (plans @ [plan], rejections, foldl (\<lambda>m k. m(k \<mapsto> length plans)) group_of component)
        | Inl rejection \<Rightarrow> (plans, rejections @ [(component, rejection)], group_of))"

definition known_reads :: "(resolved_name \<Rightarrow> resolved_name list option) \<Rightarrow> resolved_name \<Rightarrow> resolved_name list" where
  "known_reads deps k = flat_option (deps k)"

definition read_edges ::
  "'s scheduled_decl list \<Rightarrow> (resolved_name \<Rightarrow> resolved_name list option) \<Rightarrow> (resolved_name \<times> resolved_name) list" where
  "read_edges nodes deps =
     concat (map (\<lambda>node. map (Pair (sd_identity node)) (known_reads deps (sd_identity node))) nodes)"

definition inside_group :: "(resolved_name \<Rightarrow> nat option) \<Rightarrow> resolved_name \<Rightarrow> resolved_name \<Rightarrow> bool" where
  "inside_group group_of node dependency = (case group_of node of Some n \<Rightarrow> group_of dependency = Some n | None \<Rightarrow> False)"

definition unit_of :: "(resolved_name \<Rightarrow> nat option) \<Rightarrow> resolved_name \<Rightarrow> unit_key" where
  "unit_of group_of declaration =
     (case group_of declaration of None \<Rightarrow> DeclarationKey declaration | Some n \<Rightarrow> GroupKey n)"

definition declaration_of ::
  "'s scheduled_decl list \<Rightarrow> recurrence_plan list \<Rightarrow> unit_key \<Rightarrow> 's scheduled_decl option" where
  "declaration_of nodes plans key =
     (case key of
        DeclarationKey declaration \<Rightarrow> find (\<lambda>node. sd_identity node = declaration) nodes
      | GroupKey n \<Rightarrow>
          if n < length plans \<and> plans ! n \<noteq> []
          then find (\<lambda>node. sd_identity node = rm_declaration (hd (plans ! n))) nodes else None)"

fun scheduled_unit :: "recurrence_plan list \<Rightarrow> unit_key \<Rightarrow> schedule_unit" where
  "scheduled_unit plans (DeclarationKey declaration) = UnitDeclaration declaration"
| "scheduled_unit plans (GroupKey n) = UnitRecurrence (plans ! n)"

text \<open>The rejection that is reported for a cycle: that of its component, if the check reported a
  recurrence.\<close>

definition reported_rejection ::
  "'s scheduled_decl list \<Rightarrow> (resolved_name list \<times> 's component_rejection) list \<Rightarrow> (resolved_name, unit) cycle \<Rightarrow>
   's schedule_rejection" where
  "reported_rejection nodes rejections c =
     (case find (\<lambda>(component, _). c_entry c \<in> set component) rejections of
        Some (_, RecurrenceRejected name sp reason) \<Rightarrow> RecurrenceRejection name sp reason
      | _ \<Rightarrow> CycleRejection (cycle_map (site_of nodes) c))"

definition order_groups ::
  "'s scheduled_decl list \<Rightarrow> (resolved_name \<Rightarrow> resolved_name list option) \<Rightarrow> 's checked_components \<Rightarrow>
   (schedule_unit list, 's schedule_rejection) result" where
  "order_groups nodes deps checked =
     (case checked of (plans, rejections, group_of) \<Rightarrow>
      let names = map sd_identity nodes; edges = read_edges nodes deps;
          contracted = graph_of names (filter (\<lambda>(a, b). \<not> inside_group group_of a b) edges)
      in case into_topo_order contracted of
           Inl c \<Rightarrow> Inl (reported_rejection nodes rejections c)
         | Inr _ \<Rightarrow>
             let units = graph_of (map (unit_of group_of) names)
                   (filter (\<lambda>(a, b). b \<noteq> a) (map (\<lambda>(a, b). (unit_of group_of a, unit_of group_of b)) edges))
             in res_map (map (scheduled_unit plans))
                  (map_err (\<lambda>c. CycleRejection (cycle_map
                      (\<lambda>u. case declaration_of nodes plans u of Some node \<Rightarrow> node | None \<Rightarrow> nodes ! 0) c))
                    (into_topo_order units)))"

definition order_units ::
  "(resolved_name, unit) dep_graph \<Rightarrow> 's scheduled_decl list \<Rightarrow> (resolved_name \<Rightarrow> 's run_dag option) \<Rightarrow>
   (resolved_name \<Rightarrow> resolved_name list option) \<Rightarrow> 's component_check \<Rightarrow>
   (schedule_unit list, 's schedule_rejection) result" where
  "order_units graph nodes owners deps check =
     (let components = cyclic_components graph in
      if components = [] then
        res_map (map UnitDeclaration)
          (map_err (\<lambda>c. CycleRejection (cycle_map (site_of nodes) c)) (into_topo_order graph))
      else order_groups nodes deps (foldl (check_one nodes owners check) ([], [], Map.empty) components))"

record runtime_schedule =
  rs_dags :: "dag_id list"
  rs_units :: "schedule_unit list"
  rs_deps :: "resolved_name \<Rightarrow> resolved_name list option"

text \<open>The params and nodes of a DAG.\<close>

definition dag_nodes :: "'s run_dag \<Rightarrow> 's scheduled_decl list" where
  "dag_nodes dag = List.map_filter runtime_entry (rd_entries dag)"

text \<open>The params and nodes of the closure with the DAG that declares each, in order, and the tables
  keyed by identity; a later entry replaces an earlier one.\<close>

definition closure_entries :: "'s run_dag list \<Rightarrow> ('s run_dag \<times> 's scheduled_decl) list" where
  "closure_entries dags = concat (map (\<lambda>dag. map (Pair dag) (dag_nodes dag)) dags)"

definition closure_owners :: "'s run_dag list \<Rightarrow> resolved_name \<Rightarrow> 's run_dag option" where
  "closure_owners dags = foldl (\<lambda>m (dag, node). m(sd_identity node \<mapsto> dag)) Map.empty (closure_entries dags)"

definition closure_deps :: "'s run_dag list \<Rightarrow> resolved_name \<Rightarrow> resolved_name list option" where
  "closure_deps dags =
     foldl (\<lambda>m (dag, node). m(sd_identity node \<mapsto> flat_option (rd_deps dag (sd_identity node)))) Map.empty
       (closure_entries dags)"

definition runtime_schedule_build ::
  "nat \<Rightarrow> 's run_dag list \<Rightarrow> (nat \<Rightarrow> nat list) \<Rightarrow> 's component_check \<Rightarrow>
   (runtime_schedule, 's schedule_rejection) result option" where
  "runtime_schedule_build callable registry instances_of check =
     map_option (\<lambda>dags.
       let nodes = map snd (closure_entries dags); deps = closure_deps dags;
           graph = graph_of (map sd_identity nodes) (read_edges nodes deps)
       in res_map (\<lambda>units. \<lparr>rs_dags = map rd_id dags, rs_units = units, rs_deps = deps\<rparr>)
            (order_units graph nodes (closure_owners dags) deps check))
       (instance_closure registry instances_of callable)"

definition schedule_declarations :: "runtime_schedule \<Rightarrow> resolved_name list" where
  "schedule_declarations s = concat (map unit_declarations (rs_units s))"

definition schedule_steps :: "runtime_schedule \<Rightarrow> (resolved_name \<times> resolved_name list) list" where
  "schedule_steps s = map (\<lambda>k. (k, known_reads (rs_deps s) k)) (schedule_declarations s)"

section \<open>Contracting classes\<close>

text \<open>Groups are whole classes of mutually reachable declarations on cycles.\<close>

definition groups_are_classes :: "('k \<Rightarrow> 'k \<Rightarrow> bool) \<Rightarrow> ('k \<Rightarrow> nat option) \<Rightarrow> bool" where
  "groups_are_classes R g \<longleftrightarrow> (\<forall>k i. g k = Some i \<longrightarrow> {k'. g k' = Some i} = mutual R k)"

lemma same_group:
  assumes "groups_are_classes R g" "k' \<in> mutual R k"
  shows "g k' = g k"
proof -
  have sym: "k \<in> mutual R k'" using assms(2) by (auto simp: mutual_def)
  show ?thesis
  proof (cases "g k")
    case None
    have "g k = Some i" if "g k' = Some i" for i
    proof -
      from assms(1) that have "{k'. g k' = Some i} = mutual R k'" by (simp add: groups_are_classes_def)
      with sym show ?thesis by blast
    qed
    with None show ?thesis by (cases "g k'") simp_all
  next
    case (Some i)
    then have "{k'. g k' = Some i} = mutual R k" using assms(1) unfolding groups_are_classes_def by blast
    with assms(2) Some show ?thesis by auto
  qed
qed

lemma contracted_cycle:
  assumes G: "groups_are_classes R g"
    and cycle: "(\<lambda>x y. R x y \<and> \<not> (\<exists>i. g x = Some i \<and> g y = Some i))\<^sup>+\<^sup>+ k k"
  shows "R\<^sup>+\<^sup>+ k k \<and> g k = None"
proof -
  let ?C = "\<lambda>x y. R x y \<and> \<not> (\<exists>i. g x = Some i \<and> g y = Some i)"
  have mono: "?C\<^sup>*\<^sup>* \<le> R\<^sup>*\<^sup>*" by (rule rtranclp_mono) blast
  from tranclpD [OF cycle] obtain y where y: "?C k y" "?C\<^sup>*\<^sup>* y k" by blast
  with mono have ry: "R k y" "R\<^sup>*\<^sup>* y k" by blast+
  then have "y \<in> mutual R k" by (auto simp: mutual_def)
  from same_group [OF G this] have "g y = g k" .
  with y(1) have "g k = None" by (cases "g k") auto
  moreover have "R\<^sup>+\<^sup>+ k k" using ry by (rule rtranclp_into_tranclp2)
  ultimately show ?thesis by blast
qed

lemma uncontracted_cycle:
  assumes G: "groups_are_classes R g" and cycle: "R\<^sup>+\<^sup>+ k k" "g k = None"
  shows "(\<lambda>x y. R x y \<and> \<not> (\<exists>i. g x = Some i \<and> g y = Some i))\<^sup>+\<^sup>+ k k"
proof -
  let ?C = "\<lambda>x y. R x y \<and> \<not> (\<exists>i. g x = Some i \<and> g y = Some i)"
  have "R\<^sup>*\<^sup>* y k \<longrightarrow> ?C\<^sup>+\<^sup>+ k y" if "R\<^sup>+\<^sup>+ k y" for y
    using that
  proof (induction rule: tranclp_induct)
    case (base y)
    then show ?case using cycle(2) by (intro impI tranclp.r_into_trancl) simp
  next
    case (step y z)
    show ?case
    proof
      assume z: "R\<^sup>*\<^sup>* z k"
      then have yk: "R\<^sup>*\<^sup>* y k" using step.hyps(2) by (rule converse_rtranclp_into_rtranclp [rotated])
      then have "y \<in> mutual R k" using step.hyps(1) by (auto simp: mutual_def)
      then have "g y = None" using same_group [OF G] cycle(2) by simp
      with step.hyps(2) have yz: "?C y z" by simp
      have "?C\<^sup>+\<^sup>+ k y" using step.IH yk by blast
      then show "?C\<^sup>+\<^sup>+ k z" using yz by (rule tranclp.trancl_into_trancl)
    qed
  qed
  with cycle(1) show ?thesis by blast
qed

lemma rtrancl_step_rtrancl: "R\<^sup>*\<^sup>* x a \<Longrightarrow> R a b \<Longrightarrow> R\<^sup>*\<^sup>* b y \<Longrightarrow> R\<^sup>+\<^sup>+ x y"
  by (meson rtranclp_into_tranclp1 tranclp_rtranclp_tranclp)

definition unit_reads :: "(resolved_name \<Rightarrow> resolved_name \<Rightarrow> bool) \<Rightarrow> (resolved_name \<Rightarrow> nat option) \<Rightarrow> unit_key \<Rightarrow> unit_key \<Rightarrow> bool" where
  "unit_reads R g u v \<longleftrightarrow> u \<noteq> v \<and> (\<exists>x y. R x y \<and> unit_of g x = u \<and> unit_of g y = v)"

lemma same_unit:
  assumes "groups_are_classes R g" "unit_of g x = unit_of g y"
  shows "R\<^sup>*\<^sup>* x y"
proof (cases "g x")
  case None
  with assms(2) show ?thesis by (auto simp: unit_of_def split: option.splits)
next
  case (Some i)
  with assms(2) have "g y = Some i" by (auto simp: unit_of_def split: option.splits)
  moreover have "{k'. g k' = Some i} = mutual R x" using assms(1) Some unfolding groups_are_classes_def by blast
  ultimately show ?thesis by (auto simp: mutual_def)
qed

lemma unit_path:
  assumes G: "groups_are_classes R g" and path: "(unit_reads R g)\<^sup>+\<^sup>+ u v"
  shows "unit_of g x = u \<Longrightarrow> unit_of g y = v \<Longrightarrow> R\<^sup>+\<^sup>+ x y"
  using path
proof (induction arbitrary: y rule: tranclp_induct)
  case (base v)
  then obtain a b where "R a b" "unit_of g a = u" "unit_of g b = v" by (auto simp: unit_reads_def)
  with base.prems same_unit [OF G, of x a] same_unit [OF G, of b y] show ?case
    by (intro rtrancl_step_rtrancl [of R x a b y]) simp_all
next
  case (step v w)
  then obtain a b where "R a b" "unit_of g a = v" "unit_of g b = w" by (auto simp: unit_reads_def)
  with step.IH [of a] step.prems same_unit [OF G, of b y] show ?case
    by (intro rtrancl_step_rtrancl [of R x a b y]) (simp_all add: tranclp_into_rtranclp)
qed

text \<open>When every declaration on a cycle is in a group, the units are acyclic.\<close>

lemma units_acyclic:
  assumes G: "groups_are_classes R g" and all: "\<forall>k. R\<^sup>+\<^sup>+ k k \<longrightarrow> g k \<noteq> None"
  shows "\<not> (unit_reads R g)\<^sup>+\<^sup>+ u u"
proof
  assume "(unit_reads R g)\<^sup>+\<^sup>+ u u"
  from tranclpD [OF this] obtain v where v: "unit_reads R g u v" "(unit_reads R g)\<^sup>*\<^sup>* v u" by blast
  from v(1) obtain x y where xy: "R x y" "unit_of g x = u" "unit_of g y = v" "u \<noteq> v" by (auto simp: unit_reads_def)
  have "(unit_reads R g)\<^sup>+\<^sup>+ v u" using v(2) xy(4) by (auto dest: rtranclpD)
  from unit_path [OF G this xy(3,2)] have yx: "R\<^sup>+\<^sup>+ y x" .
  then have "y \<in> mutual R x" using xy(1) by (auto simp: mutual_def dest: tranclp_into_rtranclp)
  from same_group [OF G this] have "g y = g x" .
  moreover have "R\<^sup>+\<^sup>+ x x" using rtrancl_step_rtrancl [of R x x y x] xy(1) yx by (simp add: tranclp_into_rtranclp)
  then have "g x \<noteq> None" using all by blast
  ultimately show False using xy(2-4) by (auto simp: unit_of_def split: option.splits)
qed

section \<open>Checked components\<close>

definition component_members ::
  "'s scheduled_decl list \<Rightarrow> (resolved_name \<Rightarrow> 's run_dag option) \<Rightarrow> resolved_name list \<Rightarrow> ('s scheduled_decl \<times> 's run_dag) list" where
  "component_members nodes owners component = map (\<lambda>k. (site_of nodes k, the (owners k))) component"

definition accepted_components ::
  "'s scheduled_decl list \<Rightarrow> (resolved_name \<Rightarrow> 's run_dag option) \<Rightarrow> 's component_check \<Rightarrow> resolved_name list list \<Rightarrow>
   resolved_name list list" where
  "accepted_components nodes owners check = filter (\<lambda>C. is_ok (check (component_members nodes owners C)))"

definition checked_ok ::
  "'s scheduled_decl list \<Rightarrow> (resolved_name \<Rightarrow> 's run_dag option) \<Rightarrow> 's component_check \<Rightarrow> resolved_name list list \<Rightarrow>
   's checked_components \<Rightarrow> bool" where
  "checked_ok nodes owners check components s \<longleftrightarrow>
     (case s of (plans, rejections, group_of) \<Rightarrow>
      let accepted = accepted_components nodes owners check components in
      length plans = length accepted \<and>
      (\<forall>i < length accepted. check (component_members nodes owners (accepted ! i)) = Inr (plans ! i)) \<and>
      (\<forall>C r. (C, r) \<in> set rejections \<longleftrightarrow> C \<in> set components \<and> check (component_members nodes owners C) = Inl r) \<and>
      (\<forall>k i. group_of k = Some i \<longleftrightarrow> i < length accepted \<and> k \<in> set (accepted ! i)))"

lemma foldl_assign: "foldl (\<lambda>m k. m(k \<mapsto> v)) m ks x = (if x \<in> set ks then Some v else m x)"
  by (induction ks arbitrary: m) auto

lemma accepted_sub: "set (accepted_components nodes owners check components) \<subseteq> set components"
  by (auto simp: accepted_components_def)

lemma check_one_ok:
  assumes ok: "checked_ok nodes owners check components s" and fresh: "set C \<inter> set (concat components) = {}"
  shows "checked_ok nodes owners check (components @ [C]) (check_one nodes owners check s C)"
proof -
  obtain plans rejections g where s: "s = (plans, rejections, g)" by (cases s)
  let ?acc = "accepted_components nodes owners check components"
  have D: "length plans = length ?acc"
    "\<forall>i < length ?acc. check (component_members nodes owners (?acc ! i)) = Inr (plans ! i)"
    "\<forall>C r. (C, r) \<in> set rejections \<longleftrightarrow> C \<in> set components \<and> check (component_members nodes owners C) = Inl r"
    "\<forall>k i. g k = Some i \<longleftrightarrow> i < length ?acc \<and> k \<in> set (?acc ! i)"
    using ok by (simp_all add: checked_ok_def s Let_def)
  show ?thesis
  proof (cases "check (component_members nodes owners C)")
    case (Inl r)
    have "check_one nodes owners check s C = (plans, rejections @ [(C, r)], g)"
      using Inl by (simp add: check_one_def s component_members_def)
    moreover have "accepted_components nodes owners check (components @ [C]) = ?acc"
      using Inl by (simp add: accepted_components_def)
    ultimately show ?thesis using D Inl by (auto simp: checked_ok_def Let_def)
  next
    case (Inr plan)
    let ?g = "foldl (\<lambda>m k. m(k \<mapsto> length plans)) g C"
    have one: "check_one nodes owners check s C = (plans @ [plan], rejections, ?g)"
      using Inr by (simp add: check_one_def s component_members_def)
    have acc: "accepted_components nodes owners check (components @ [C]) = ?acc @ [C]"
      using Inr by (simp add: accepted_components_def)
    have "?g k = Some i \<longleftrightarrow> i < Suc (length ?acc) \<and> k \<in> set ((?acc @ [C]) ! i)" for k i
    proof (cases "k \<in> set C")
      case True
      have "k \<notin> set (?acc ! i)" if "i < length ?acc" for i
      proof -
        have "?acc ! i \<in> set components"
          using nth_mem [OF that] accepted_sub [of nodes owners check components] by blast
        then have "set (?acc ! i) \<subseteq> set (concat components)" by auto
        with fresh True show ?thesis by blast
      qed
      with True D(1) show ?thesis by (auto simp: foldl_assign nth_append less_Suc_eq)
    next
      case False
      with D(4) show ?thesis by (auto simp: foldl_assign nth_append less_Suc_eq)
    qed
    then show ?thesis using D(1-3) Inr unfolding checked_ok_def one acc
      by (auto simp: nth_append less_Suc_eq)
  qed
qed

lemma check_all_ok:
  "distinct (concat components) \<Longrightarrow> checked_ok nodes owners check components
    (foldl (check_one nodes owners check) ([], [], Map.empty) components)"
proof (induction components rule: rev_induct)
  case Nil
  then show ?case by (simp add: checked_ok_def accepted_components_def)
next
  case (snoc C components)
  then have "set C \<inter> set (concat components) = {}" by auto
  from check_one_ok [OF _ this] snoc show ?case by simp
qed

section \<open>Ordering the units\<close>

definition schedule_reads ::
  "'s scheduled_decl list \<Rightarrow> (resolved_name \<Rightarrow> resolved_name list option) \<Rightarrow> resolved_name \<Rightarrow> resolved_name \<Rightarrow> bool" where
  "schedule_reads nodes deps x y \<longleftrightarrow>
     x \<in> sd_identity ` set nodes \<and> y \<in> sd_identity ` set nodes \<and> y \<in> set (known_reads deps x)"

lemma read_edges_set:
  "(x, y) \<in> set (read_edges nodes deps) \<and> y \<in> sd_identity ` set nodes \<longleftrightarrow> schedule_reads nodes deps x y"
  by (auto simp: read_edges_def schedule_reads_def)

lemma read_edges_graph:
  "depends (graph_of (map sd_identity nodes) (read_edges nodes deps)) = schedule_reads nodes deps"
  by (intro ext) (auto simp: graph_of_ok(3) read_edges_def schedule_reads_def)

text \<open>Plans list the declarations of the component they are made for.\<close>

definition plans_list_members :: "'s component_check \<Rightarrow> bool" where
  "plans_list_members check \<longleftrightarrow>
     (\<forall>members plan. check members = Inr plan \<longrightarrow>
        mset (map rm_declaration plan) = mset (map (sd_identity \<circ> fst) members))"

lemma site_of_ok:
  assumes "k \<in> sd_identity ` set nodes"
  shows "site_of nodes k \<in> set nodes \<and> sd_identity (site_of nodes k) = k"
proof -
  from assms have "find (\<lambda>node. sd_identity node = k) nodes \<noteq> None" by (auto simp: find_None_iff)
  then obtain node where node: "find (\<lambda>node. sd_identity node = k) nodes = Some node" by blast
  then have "node \<in> set nodes" "sd_identity node = k" by (auto simp: find_Some_iff)
  with node show ?thesis by (simp add: site_of_def)
qed

section \<open>What ordering decides\<close>

lemma order_groups_ok:
  assumes comps: "distinct (concat components)" "set (concat components) = {k. (schedule_reads nodes deps)\<^sup>+\<^sup>+ k k}"
      "\<forall>C \<in> set components. \<forall>k \<in> set C. set C = mutual (schedule_reads nodes deps) k"
    and checked: "checked_ok nodes owners check components (plans, rejections, g)"
  shows "groups_are_classes (schedule_reads nodes deps) g"
    and "g k \<noteq> None \<longleftrightarrow> (\<exists>C \<in> set (accepted_components nodes owners check components). k \<in> set C)"
    and "k \<in> set C \<Longrightarrow> C \<in> set components \<Longrightarrow> g k = None \<longleftrightarrow> \<not> is_ok (check (component_members nodes owners C))"
proof -
  let ?acc = "accepted_components nodes owners check components"
  have g: "g k = Some i \<longleftrightarrow> i < length ?acc \<and> k \<in> set (?acc ! i)" for k i
    using checked by (simp add: checked_ok_def Let_def)
  show classes: "groups_are_classes (schedule_reads nodes deps) g"
    unfolding groups_are_classes_def
  proof (intro allI impI)
    fix k i assume "g k = Some i"
    with g have i: "i < length ?acc" "k \<in> set (?acc ! i)" by simp_all
    then have "?acc ! i \<in> set components" using accepted_sub nth_mem by blast
    with comps(3) i(2) have "set (?acc ! i) = mutual (schedule_reads nodes deps) k" by blast
    with g i(1) show "{k'. g k' = Some i} = mutual (schedule_reads nodes deps) k" by simp
  qed
  show some: "g k \<noteq> None \<longleftrightarrow> (\<exists>C \<in> set ?acc. k \<in> set C)" for k
  proof
    assume "g k \<noteq> None"
    with g show "\<exists>C \<in> set ?acc. k \<in> set C" by (metis nth_mem option.exhaust)
  next
    assume "\<exists>C \<in> set ?acc. k \<in> set C"
    with g show "g k \<noteq> None" by (metis in_set_conv_nth option.distinct(1))
  qed
  show "g k = None \<longleftrightarrow> \<not> is_ok (check (component_members nodes owners C))" if C: "k \<in> set C" "C \<in> set components"
  proof -
    have disjoint: "\<forall>D E. D \<in> set components \<and> E \<in> set components \<and> D \<noteq> E \<longrightarrow> set D \<inter> set E = {}"
      using comps(1) by (simp add: distinct_concat_iff)
    have only: "D = C" if "D \<in> set components" "k \<in> set D" for D
    proof (rule ccontr)
      assume "D \<noteq> C"
      with disjoint that(1) C(2) have "set D \<inter> set C = {}" by blast
      with that(2) C(1) show False by blast
    qed
    have mem: "D \<in> set ?acc \<longleftrightarrow> D \<in> set components \<and> is_ok (check (component_members nodes owners D))" for D
      by (auto simp: accepted_components_def)
    have "g k \<noteq> None \<longleftrightarrow> is_ok (check (component_members nodes owners C))"
      unfolding some mem Bex_def using only C by blast
    then show ?thesis by blast
  qed
qed

lemma inside_group_iff: "inside_group g x y \<longleftrightarrow> (\<exists>i. g x = Some i \<and> g y = Some i)"
  by (auto simp: inside_group_def split: option.splits)

lemma contracted_graph:
  "depends (graph_of (map sd_identity nodes) (filter (\<lambda>(a, b). \<not> inside_group g a b) (read_edges nodes deps))) =
    (\<lambda>x y. schedule_reads nodes deps x y \<and> \<not> (\<exists>i. g x = Some i \<and> g y = Some i))"
  by (intro ext) (auto simp: graph_of_ok(3) read_edges_def schedule_reads_def inside_group_iff)

lemma units_graph:
  assumes "\<forall>k. g k \<noteq> None \<longrightarrow> k \<in> sd_identity ` set nodes"
  shows "depends (graph_of (map (unit_of g) (map sd_identity nodes))
      (filter (\<lambda>(a, b). b \<noteq> a) (map (\<lambda>(a, b). (unit_of g a, unit_of g b)) (read_edges nodes deps)))) =
    unit_reads (schedule_reads nodes deps) g" (is "depends (graph_of ?units ?edges) = _")
proof (intro ext)
  fix u v
  have units: "set ?units = unit_of g ` (sd_identity ` set nodes)" by auto
  have mem: "y \<in> sd_identity ` set nodes" if y: "unit_of g y \<in> unit_of g ` (sd_identity ` set nodes)" for y
  proof (cases "g y")
    case None
    from y obtain x where "x \<in> sd_identity ` set nodes" "unit_of g y = unit_of g x" by blast
    with None show ?thesis by (auto simp: unit_of_def split: option.splits)
  qed (use assms in blast)
  have edge: "(a, b) \<in> set (read_edges nodes deps) \<longleftrightarrow> a \<in> sd_identity ` set nodes \<and> b \<in> set (known_reads deps a)" for a b
    by (auto simp: read_edges_def)
  show "depends (graph_of ?units ?edges) u v = unit_reads (schedule_reads nodes deps) g u v"
  proof
    assume "depends (graph_of ?units ?edges) u v"
    then have uv: "(u, v) \<in> set ?edges" "v \<in> set ?units" by (simp_all only: graph_of_ok(3))
    then obtain a b where ab: "(a, b) \<in> set (read_edges nodes deps)" "u = unit_of g a" "v = unit_of g b" "u \<noteq> v"
      by auto
    with uv(2) mem [of b] units have "schedule_reads nodes deps a b" using edge by (simp add: schedule_reads_def)
    with ab show "unit_reads (schedule_reads nodes deps) g u v" by (auto simp: unit_reads_def)
  next
    assume "unit_reads (schedule_reads nodes deps) g u v"
    then obtain a b where ab: "schedule_reads nodes deps a b" "u = unit_of g a" "v = unit_of g b" "u \<noteq> v"
      by (auto simp: unit_reads_def)
    then have "(a, b) \<in> set (read_edges nodes deps)" "u \<in> set ?units" "v \<in> set ?units"
      using edge units by (auto simp: schedule_reads_def)
    moreover have "(u, v) \<in> (\<lambda>(a, b). (unit_of g a, unit_of g b)) ` set (read_edges nodes deps)"
      using ab(2,3) calculation(1) by force
    then have "(u, v) \<in> set ?edges" using ab(4) by simp
    ultimately show "depends (graph_of ?units ?edges) u v" unfolding graph_of_ok(3) by blast
  qed
qed

text \<open>What a schedule promises.\<close>

definition units_sound ::
  "'s scheduled_decl list \<Rightarrow> (resolved_name \<Rightarrow> resolved_name list option) \<Rightarrow> schedule_unit list \<Rightarrow> bool" where
  "units_sound nodes deps units \<longleftrightarrow>
     distinct (concat (map unit_declarations units)) \<and>
     set (concat (map unit_declarations units)) = sd_identity ` set nodes \<and>
     (\<forall>i < length units. \<forall>x \<in> set (unit_declarations (units ! i)). \<forall>y. schedule_reads nodes deps x y \<longrightarrow>
        y \<in> set (concat (map unit_declarations (take i units))) \<or>
        (\<exists>plan. units ! i = UnitRecurrence plan \<and> y \<in> set (map rm_declaration plan)))"

lemma units_sound_plain:
  assumes "topo_ordered (schedule_reads nodes deps) (sd_identity ` set nodes) xs"
  shows "units_sound nodes deps (map UnitDeclaration xs)"
proof -
  have "concat (map unit_declarations (map UnitDeclaration xs)) = xs" for xs by (induction xs) simp_all
  with assms show ?thesis by (simp add: units_sound_def topo_ordered_def take_map)
qed

text \<open>The declarations of a unit are those it stands for.\<close>

lemma units_sound_groups:
  assumes topo: "topo_ordered (unit_reads (schedule_reads nodes deps) g) (unit_of g ` (sd_identity ` set nodes)) us"
    and sub: "\<forall>k. g k \<noteq> None \<longrightarrow> k \<in> sd_identity ` set nodes"
    and cycles: "\<forall>k. (schedule_reads nodes deps)\<^sup>+\<^sup>+ k k \<longrightarrow> g k \<noteq> None"
    and decls: "\<forall>u \<in> set us. distinct (unit_declarations (scheduled_unit plans u)) \<and>
      set (unit_declarations (scheduled_unit plans u)) = {k. unit_of g k = u \<and> k \<in> sd_identity ` set nodes}"
  shows "units_sound nodes deps (map (scheduled_unit plans) us)"
proof -
  let ?decls = "\<lambda>u. unit_declarations (scheduled_unit plans u)"
  have us: "distinct us" "set us = unit_of g ` (sd_identity ` set nodes)"
    and order: "\<forall>i < length us. \<forall>b. unit_reads (schedule_reads nodes deps) g (us ! i) b \<longrightarrow> b \<in> set (take i us)"
    using topo by (simp_all add: topo_ordered_def)
  have all: "set (concat (map ?decls vs)) = {k. unit_of g k \<in> set vs \<and> k \<in> sd_identity ` set nodes}"
    if vs: "set vs \<subseteq> set us" for vs
  proof -
    have "set (concat (map ?decls vs)) = (\<Union>u \<in> set vs. set (?decls u))" by simp
    also have "\<dots> = (\<Union>u \<in> set vs. {k. unit_of g k = u \<and> k \<in> sd_identity ` set nodes})"
      using decls vs by (intro SUP_cong) auto
    finally show ?thesis by auto
  qed
  have "distinct (concat (map ?decls vs))" if "distinct vs" "set vs \<subseteq> set us" for vs
    using that
  proof (induction vs)
    case (Cons v vs)
    then have "set (?decls v) \<inter> set (concat (map ?decls vs)) = {}"
      using all [of vs] decls by auto
    with Cons decls show ?case by simp
  qed simp
  from this [OF us(1)] have "distinct (concat (map ?decls us))" by simp
  moreover have "set (concat (map ?decls us)) = sd_identity ` set nodes" using all [of us] us(2) by auto
  moreover have "y \<in> set (concat (map ?decls (take i us))) \<or>
      (\<exists>plan. scheduled_unit plans (us ! i) = UnitRecurrence plan \<and> y \<in> set (map rm_declaration plan))"
    if i: "i < length us" and x: "x \<in> set (?decls (us ! i))" and xy: "schedule_reads nodes deps x y" for i x y
  proof (cases "unit_of g y = us ! i")
    case False
    have "unit_of g x = us ! i" using x decls nth_mem [OF i] by blast
    with False xy have "unit_reads (schedule_reads nodes deps) g (us ! i) (unit_of g y)" by (auto simp: unit_reads_def)
    with order i have "unit_of g y \<in> set (take i us)" by blast
    moreover have "y \<in> sd_identity ` set nodes" using xy by (simp add: schedule_reads_def)
    moreover have "set (take i us) \<subseteq> set us" by (rule set_take_subset)
    ultimately show ?thesis using all [of "take i us"] by blast
  next
    case True
    have "y \<in> sd_identity ` set nodes" using xy by (simp add: schedule_reads_def)
    with True decls nth_mem [OF i] have y: "y \<in> set (?decls (us ! i))" by blast
    show ?thesis
    proof (cases "us ! i")
      case (GroupKey n)
      with y show ?thesis by simp
    next
      case (DeclarationKey d)
      then have "y = d" "x = d" "unit_of g y = DeclarationKey d" using y x True by simp_all
      then have "g x = None" "(schedule_reads nodes deps)\<^sup>+\<^sup>+ x x"
        using xy by (auto simp: unit_of_def split: option.splits)
      with cycles show ?thesis by blast
    qed
  qed
  ultimately show ?thesis by (simp add: units_sound_def take_map comp_def)
qed

definition read_graph ::
  "'s scheduled_decl list \<Rightarrow> (resolved_name \<Rightarrow> resolved_name list option) \<Rightarrow> (resolved_name, unit) dep_graph" where
  "read_graph nodes deps = graph_of (map sd_identity nodes) (read_edges nodes deps)"

lemma read_graph_ok:
  "graph_ok (read_graph nodes deps)" "depends (read_graph nodes deps) = schedule_reads nodes deps"
  "set (g_keys (read_graph nodes deps)) = sd_identity ` set nodes"
  by (simp_all add: read_graph_def graph_of_ok read_edges_graph)

lemma read_components:
  "distinct (concat (cyclic_components (read_graph nodes deps)))"
  "set (concat (cyclic_components (read_graph nodes deps))) = {k. (schedule_reads nodes deps)\<^sup>+\<^sup>+ k k}"
  "\<forall>C \<in> set (cyclic_components (read_graph nodes deps)). \<forall>k \<in> set C. set C = mutual (schedule_reads nodes deps) k"
  using cyclic_components_ok [OF read_graph_ok(1), of nodes deps] by (simp_all add: read_graph_ok(2))

lemma on_cycle_node: "(schedule_reads nodes deps)\<^sup>+\<^sup>+ k k \<Longrightarrow> k \<in> sd_identity ` set nodes"
  by (auto dest!: tranclpD simp: schedule_reads_def)

text \<open>Whether a group of declarations was accepted, and what a rejection reports.\<close>

definition rejection_genuine ::
  "'s scheduled_decl list \<Rightarrow> (resolved_name \<Rightarrow> 's run_dag option) \<Rightarrow> (resolved_name \<Rightarrow> resolved_name list option) \<Rightarrow>
   's component_check \<Rightarrow> 's schedule_rejection \<Rightarrow> bool" where
  "rejection_genuine nodes owners deps check e \<longleftrightarrow>
     (\<exists>C \<in> set (cyclic_components (read_graph nodes deps)). \<exists>p.
        dependency_cycle (schedule_reads nodes deps) p \<and> set p \<subseteq> set C \<and>
        (case e of
           RecurrenceRejection name sp reason \<Rightarrow>
             check (component_members nodes owners C) = Inl (RecurrenceRejected name sp reason)
         | CycleRejection c \<Rightarrow>
             check (component_members nodes owners C) = Inl PlainCycle \<and> cycle_path c = map (site_of nodes) p))"

lemma cycle_path_map: "cycle_path (cycle_map f c) = map f (cycle_path c)"
  by (simp add: cycle_path_def cycle_map_def)

lemma cycle_in_component:
  assumes "dependency_cycle R p" "hd p \<in> set C" "set C = mutual R (hd p)"
  shows "set p \<subseteq> set C"
proof
  fix k assume "k \<in> set p"
  then obtain i where i: "i < length p" "k = p ! i" by (auto simp: in_set_conv_nth)
  have p: "p \<noteq> []" "\<And>i. Suc i < length p \<Longrightarrow> R (p ! i) (p ! Suc i)" "R (last p) (hd p)"
    using assms(1) by (auto simp: dependency_cycle_def)
  have up: "R\<^sup>*\<^sup>* (p ! a) (p ! b)" if "a \<le> b" "b < length p" for a b
    using that
  proof (induction b)
    case (Suc b)
    show ?case
    proof (cases "a = Suc b")
      case False
      with Suc have "R\<^sup>*\<^sup>* (p ! a) (p ! b)" by simp
      with p(2) [of b] Suc.prems show ?thesis by (meson rtranclp.rtrancl_into_rtrancl)
    qed simp
  qed simp
  have "R\<^sup>*\<^sup>* (hd p) k" using up [of 0 i] i p(1) by (simp add: hd_conv_nth)
  moreover have "R\<^sup>*\<^sup>* k (last p)" using up [of i "length p - 1"] i p(1) by (simp add: last_conv_nth)
  then have "R\<^sup>*\<^sup>* k (hd p)" using p(3) by (meson rtranclp.rtrancl_into_rtrancl)
  ultimately show "k \<in> set C" unfolding assms(3) by (simp add: mutual_def)
qed

lemma dependency_cycle_mono: "dependency_cycle R p \<Longrightarrow> (\<And>x y. R x y \<Longrightarrow> S x y) \<Longrightarrow> dependency_cycle S p"
  by (auto simp: dependency_cycle_def)

lemma order_groups_rejected:
  assumes checked: "checked_ok nodes owners check (cyclic_components (read_graph nodes deps)) (plans, rejections, g)"
    and cycle: "into_topo_order (graph_of (map sd_identity nodes)
        (filter (\<lambda>(a, b). \<not> inside_group g a b) (read_edges nodes deps))) = Inl c"
  shows "rejection_genuine nodes owners deps check (reported_rejection nodes rejections c)"
proof -
  let ?R = "schedule_reads nodes deps" and ?comps = "cyclic_components (read_graph nodes deps)"
  let ?C = "\<lambda>x y. ?R x y \<and> \<not> (\<exists>i. g x = Some i \<and> g y = Some i)"
  note groups = order_groups_ok [OF read_components checked]
  from kahn.cycle_sound [OF graph_of_ok(1) cycle] have dep: "dependency_cycle ?C (cycle_path c)"
    unfolding contracted_graph .
  then have R: "dependency_cycle ?R (cycle_path c)" by (rule dependency_cycle_mono) simp
  have entry: "hd (cycle_path c) = c_entry c" by (simp add: cycle_path_def)
  from contracted_cycle [OF groups(1) dependency_cycle_trancl [OF dep]]
  have on: "?R\<^sup>+\<^sup>+ (c_entry c) (c_entry c)" "g (c_entry c) = None" unfolding entry by simp_all
  have rejections: "(D, r) \<in> set rejections \<longleftrightarrow> D \<in> set ?comps \<and> check (component_members nodes owners D) = Inl r" for D r
    using checked by (simp add: checked_ok_def Let_def)
  have "c_entry c \<in> set (concat ?comps)" unfolding read_components(2) using on(1) by simp
  then obtain C where C: "C \<in> set ?comps" "c_entry c \<in> set C" by auto
  with groups(3) on(2) have "\<not> is_ok (check (component_members nodes owners C))" by blast
  then obtain r where "check (component_members nodes owners C) = Inl r"
    by (cases "check (component_members nodes owners C)") simp_all
  with C rejections have "(C, r) \<in> set rejections" by blast
  with C(2) have "find (\<lambda>(component, _). c_entry c \<in> set component) rejections \<noteq> None"
    by (auto simp: find_None_iff)
  then obtain D s where found: "find (\<lambda>(component, _). c_entry c \<in> set component) rejections = Some (D, s)" by auto
  then obtain j where j: "j < length rejections" "rejections ! j = (D, s)" "c_entry c \<in> set D"
    by (auto simp: find_Some_iff)
  then have "(D, s) \<in> set rejections" "c_entry c \<in> set D" using nth_mem [OF j(1)] by simp_all
  with rejections have D: "D \<in> set ?comps" "check (component_members nodes owners D) = Inl s" "c_entry c \<in> set D" by blast+
  have "set D = mutual ?R (hd (cycle_path c))" unfolding entry using D(1,3) read_components(3) by blast
  then have "set (cycle_path c) \<subseteq> set D" using cycle_in_component [OF R] D(3) entry by simp
  with D R show ?thesis
    unfolding rejection_genuine_def
    by (intro bexI [of _ D] exI [of _ "cycle_path c"])
      (auto simp: reported_rejection_def found cycle_path_map split: component_rejection.split)
qed

lemma order_groups_stuck:
  assumes checked: "checked_ok nodes owners check (cyclic_components (read_graph nodes deps)) (plans, rejections, g)"
    and C: "C \<in> set (cyclic_components (read_graph nodes deps))" "\<not> is_ok (check (component_members nodes owners C))" "C \<noteq> []"
  shows "\<exists>c. into_topo_order (graph_of (map sd_identity nodes)
        (filter (\<lambda>(a, b). \<not> inside_group g a b) (read_edges nodes deps))) = Inl c"
proof -
  let ?R = "schedule_reads nodes deps"
  let ?C = "\<lambda>x y. ?R x y \<and> \<not> (\<exists>i. g x = Some i \<and> g y = Some i)"
  let ?g = "graph_of (map sd_identity nodes) (filter (\<lambda>(a, b). \<not> inside_group g a b) (read_edges nodes deps))"
  note groups = order_groups_ok [OF read_components checked]
  have k: "hd C \<in> set C" using C(3) by simp
  with groups(3) C(1,2) have "g (hd C) = None" by blast
  moreover have "hd C \<in> set (concat (cyclic_components (read_graph nodes deps)))" using k C(1) by auto
  then have "?R\<^sup>+\<^sup>+ (hd C) (hd C)" unfolding read_components(2) by simp
  ultimately have "?C\<^sup>+\<^sup>+ (hd C) (hd C)" using uncontracted_cycle [OF groups(1)] by blast
  then have "\<not> is_ok (into_topo_order ?g)"
    unfolding kahn.order_iff_acyclic [OF graph_of_ok(1)] contracted_graph by blast
  then show ?thesis by (cases "into_topo_order ?g") simp_all
qed

lemma accepted_plan:
  assumes plans: "plans_list_members check" and C: "set C \<subseteq> sd_identity ` set nodes" "distinct C"
    and ok: "check (component_members nodes owners C) = Inr plan"
  shows "distinct (map rm_declaration plan) \<and> set (map rm_declaration plan) = set C"
proof -
  have ids: "map (sd_identity \<circ> fst) (component_members nodes owners C) = C"
    unfolding component_members_def map_map by (rule map_idI) (use C(1) site_of_ok in auto)
  from plans ok have "mset (map rm_declaration plan) = mset (map (sd_identity \<circ> fst) (component_members nodes owners C))"
    unfolding plans_list_members_def by blast
  then have "mset (map rm_declaration plan) = mset C" unfolding ids .
  with C(2) show ?thesis using mset_eq_setD mset_eq_imp_distinct_iff by metis
qed

lemma order_groups_accepted:
  assumes checked: "checked_ok nodes owners check (cyclic_components (read_graph nodes deps)) (plans, rejections, g)"
    and plans: "plans_list_members check"
    and all: "\<forall>C \<in> set (cyclic_components (read_graph nodes deps)). is_ok (check (component_members nodes owners C))"
  shows "\<exists>units. order_groups nodes deps (plans, rejections, g) = Inr units \<and> units_sound nodes deps units \<and>
    (\<forall>plan. UnitRecurrence plan \<in> set units \<longrightarrow>
      (\<exists>C \<in> set (cyclic_components (read_graph nodes deps)). check (component_members nodes owners C) = Inr plan))"
proof -
  let ?R = "schedule_reads nodes deps" and ?comps = "cyclic_components (read_graph nodes deps)"
  let ?N = "sd_identity ` set nodes"
  note groups = order_groups_ok [OF read_components checked]
  have acc: "accepted_components nodes owners check ?comps = ?comps"
    using all by (simp add: accepted_components_def filter_id_conv)
  have D: "length plans = length ?comps" "\<forall>i < length ?comps. check (component_members nodes owners (?comps ! i)) = Inr (plans ! i)"
    "\<forall>k i. g k = Some i \<longleftrightarrow> i < length ?comps \<and> k \<in> set (?comps ! i)"
    using checked by (simp_all add: checked_ok_def Let_def acc)
  have cycles: "g k \<noteq> None" if "?R\<^sup>+\<^sup>+ k k" for k
  proof -
    have "k \<in> set (concat ?comps)" unfolding read_components(2) using that by simp
    then show ?thesis unfolding groups(2) acc by auto
  qed
  have comp_nodes: "set C \<subseteq> ?N" if "C \<in> set ?comps" for C
  proof
    fix k assume "k \<in> set C"
    with that have "k \<in> set (concat ?comps)" by auto
    then show "k \<in> ?N" unfolding read_components(2) using on_cycle_node by auto
  qed
  have sub: "k \<in> ?N" if "g k \<noteq> None" for k
    using that comp_nodes unfolding groups(2) acc by blast
  have contracted: "is_ok (into_topo_order (graph_of (map sd_identity nodes)
      (filter (\<lambda>(a, b). \<not> inside_group g a b) (read_edges nodes deps))))"
    unfolding kahn.order_iff_acyclic [OF graph_of_ok(1)] contracted_graph
    using contracted_cycle [OF groups(1)] cycles by blast
  let ?units = "graph_of (map (unit_of g) (map sd_identity nodes))
      (filter (\<lambda>(a, b). b \<noteq> a) (map (\<lambda>(a, b). (unit_of g a, unit_of g b)) (read_edges nodes deps)))"
  have deps_units: "depends ?units = unit_reads ?R g" by (rule units_graph) (use sub in blast)
  have "is_ok (into_topo_order ?units)"
    unfolding kahn.order_iff_acyclic [OF graph_of_ok(1)] deps_units
    using units_acyclic [OF groups(1)] cycles by blast
  then obtain us where us: "into_topo_order ?units = Inr us" by (cases "into_topo_order ?units") simp_all
  have topo: "topo_ordered (unit_reads ?R g) (unit_of g ` ?N) us"
    using kahn.order_sound [OF graph_of_ok(1) us] unfolding deps_units graph_of_ok(2) by (simp add: image_image)
  then have us_set: "set us = unit_of g ` ?N" by (simp add: topo_ordered_def)
  have unit: "distinct (unit_declarations (scheduled_unit plans u)) \<and>
      set (unit_declarations (scheduled_unit plans u)) = {k. unit_of g k = u \<and> k \<in> ?N} \<and>
      (\<forall>plan. scheduled_unit plans u = UnitRecurrence plan \<longrightarrow>
        (\<exists>C \<in> set ?comps. check (component_members nodes owners C) = Inr plan))"
    if "u \<in> set us" for u
  proof -
    from that us_set obtain k where k: "k \<in> ?N" "u = unit_of g k" by blast
    show ?thesis
    proof (cases "g k")
      case None
      then have "u = DeclarationKey k" using k(2) by (simp add: unit_of_def)
      moreover have "{k'. unit_of g k' = DeclarationKey k \<and> k' \<in> ?N} = {k}"
        using None k(1) by (auto simp: unit_of_def split: option.splits)
      ultimately show ?thesis by simp
    next
      case (Some i)
      then have u: "u = GroupKey i" using k(2) by (simp add: unit_of_def)
      from Some D(3) have i: "i < length ?comps" by simp
      then have C: "?comps ! i \<in> set ?comps" by simp
      then have "distinct (?comps ! i)" using read_components(1) [of nodes deps] unfolding distinct_concat_iff by blast
      from accepted_plan [OF plans comp_nodes [OF C] this] D(2) i
      have "distinct (map rm_declaration (plans ! i)) \<and> set (map rm_declaration (plans ! i)) = set (?comps ! i)" by blast
      moreover have "{k'. unit_of g k' = GroupKey i \<and> k' \<in> ?N} = set (?comps ! i)"
      proof -
        have "unit_of g k' = GroupKey i \<longleftrightarrow> k' \<in> set (?comps ! i)" for k'
        proof -
          have "unit_of g k' = GroupKey i \<longleftrightarrow> g k' = Some i" by (auto simp: unit_of_def split: option.splits)
          with D(3) i show ?thesis by simp
        qed
        then show ?thesis using comp_nodes [OF C] by blast
      qed
      ultimately show ?thesis using u C D(2) i by auto
    qed
  qed
  have "units_sound nodes deps (map (scheduled_unit plans) us)"
    by (rule units_sound_groups [OF topo]) (use sub cycles unit in blast)+
  moreover have "order_groups nodes deps (plans, rejections, g) = Inr (map (scheduled_unit plans) us)"
    using contracted us
    by (cases "into_topo_order (graph_of (map sd_identity nodes)
      (filter (\<lambda>(a, b). \<not> inside_group g a b) (read_edges nodes deps)))") (simp_all add: order_groups_def Let_def)
  moreover have "\<exists>C \<in> set ?comps. check (component_members nodes owners C) = Inr plan"
    if "UnitRecurrence plan \<in> set (map (scheduled_unit plans) us)" for plan
    using that unit by auto
  ultimately show ?thesis by blast
qed

lemma order_units_decides:
  assumes plans: "plans_list_members check"
  shows "case order_units (read_graph nodes deps) nodes owners deps check of
      Inr units \<Rightarrow> units_sound nodes deps units \<and>
        (\<forall>C \<in> set (cyclic_components (read_graph nodes deps)). is_ok (check (component_members nodes owners C))) \<and>
        (\<forall>plan. UnitRecurrence plan \<in> set units \<longrightarrow>
          (\<exists>C \<in> set (cyclic_components (read_graph nodes deps)). check (component_members nodes owners C) = Inr plan))
    | Inl e \<Rightarrow> rejection_genuine nodes owners deps check e"
proof -
  let ?comps = "cyclic_components (read_graph nodes deps)"
  show ?thesis
  proof (cases "?comps = []")
    case True
    have "\<not> (schedule_reads nodes deps)\<^sup>+\<^sup>+ k k" for k
      using read_components(2) [of nodes deps] True by auto
    then have "is_ok (into_topo_order (read_graph nodes deps))"
      unfolding kahn.order_iff_acyclic [OF read_graph_ok(1)] read_graph_ok(2) by blast
    then obtain xs where xs: "into_topo_order (read_graph nodes deps) = Inr xs"
      by (cases "into_topo_order (read_graph nodes deps)") simp_all
    have "topo_ordered (schedule_reads nodes deps) (sd_identity ` set nodes) xs"
      using kahn.order_sound [OF read_graph_ok(1) xs] unfolding read_graph_ok(2,3) .
    from units_sound_plain [OF this] True xs show ?thesis by (simp add: order_units_def image_iff)
  next
    case False
    obtain plans' rejections g where fold: "foldl (check_one nodes owners check) ([], [], Map.empty) ?comps = (plans', rejections, g)"
      by (rule prod_cases3)
    from check_all_ok [OF read_components(1), of nodes owners check nodes deps]
    have checked: "checked_ok nodes owners check ?comps (plans', rejections, g)" unfolding fold .
    have order: "order_units (read_graph nodes deps) nodes owners deps check = order_groups nodes deps (plans', rejections, g)"
      using False by (simp add: order_units_def Let_def fold)
    show ?thesis
    proof (cases "\<forall>C \<in> set ?comps. is_ok (check (component_members nodes owners C))")
      case True
      from order_groups_accepted [OF checked plans this] True show ?thesis unfolding order by auto
    next
      case False
      then obtain C where C: "C \<in> set ?comps" "\<not> is_ok (check (component_members nodes owners C))" by blast
      have "C \<noteq> []" using cyclic_components_ok [OF read_graph_ok(1)] C(1) by blast
      from order_groups_stuck [OF checked C this] obtain c where
        c: "into_topo_order (graph_of (map sd_identity nodes)
          (filter (\<lambda>(a, b). \<not> inside_group g a b) (read_edges nodes deps))) = Inl c" by blast
      then have "order_groups nodes deps (plans', rejections, g) = Inl (reported_rejection nodes rejections c)"
        by (simp add: order_groups_def Let_def)
      with order_groups_rejected [OF checked c] show ?thesis unfolding order by simp
    qed
  qed
qed

section \<open>The closure of instances\<close>

definition instances_in_range :: "'s run_dag list \<Rightarrow> (nat \<Rightarrow> nat list) \<Rightarrow> bool" where
  "instances_in_range registry instances_of \<longleftrightarrow>
     (\<forall>p < length registry. set (instances_of p) \<subseteq> {..<length registry})"

abbreviation instance_reach :: "(nat \<Rightarrow> nat list) \<Rightarrow> nat \<Rightarrow> nat \<Rightarrow> bool" where
  "instance_reach instances_of \<equiv> (\<lambda>p q. q \<in> set (instances_of p))\<^sup>*\<^sup>*"

text \<open>\<open>ps\<close> are the positions found besides the callable.\<close>

definition closure_inv ::
  "'s run_dag list \<Rightarrow> (nat \<Rightarrow> nat list) \<Rightarrow> nat \<Rightarrow> nat set \<times> nat list \<times> 's run_dag list \<Rightarrow> nat set \<Rightarrow> nat list \<Rightarrow> bool" where
  "closure_inv dags instances_of callable s expanded ps \<longleftrightarrow>
     (case s of (visited, pending, instances) \<Rightarrow>
        visited = set (callable # ps) \<and> distinct (callable # ps) \<and> instances = map ((!) dags) ps \<and>
        visited \<subseteq> {..<length dags} \<and> (\<forall>q \<in> visited. instance_reach instances_of callable q) \<and>
        expanded \<union> set pending = visited \<and> (\<forall>q \<in> expanded. set (instances_of q) \<subseteq> visited))"

lemma visit_instances_ok:
  assumes "set qs \<subseteq> {..<length dags}" "set qs \<subseteq> set (instances_of p)" "instance_reach instances_of callable p"
    and "visited = set (callable # ps)" "distinct (callable # ps)" "instances = map ((!) dags) ps"
      "visited \<subseteq> {..<length dags}" "\<forall>q \<in> visited. instance_reach instances_of callable q"
  shows "\<exists>new. visit_instances dags (visited, pending, instances) qs =
      Some (visited \<union> set new, pending @ new, map ((!) dags) (ps @ new)) \<and>
    distinct (callable # ps @ new) \<and> set new \<subseteq> set qs \<and> set qs \<subseteq> visited \<union> set new"
  using assms
proof (induction qs arbitrary: visited pending ps instances)
  case Nil
  then show ?case by (intro exI [of _ "[]"]) simp
next
  case (Cons q qs)
  show ?case
  proof (cases "q \<in> visited")
    case True
    then have "visit_instance dags (visited, pending, instances) q = Some (visited, pending, instances)"
      by (simp add: visit_instance_def)
    moreover from Cons.IH [OF _ _ Cons.prems(3-8), of pending] Cons.prems(1,2) obtain new where
      "visit_instances dags (visited, pending, instances) qs =
        Some (visited \<union> set new, pending @ new, map ((!) dags) (ps @ new))"
      "distinct (callable # ps @ new)" "set new \<subseteq> set qs" "set qs \<subseteq> visited \<union> set new" by auto
    ultimately show ?thesis using True by (intro exI [of _ new]) auto
  next
    case False
    have q: "q < length dags" "q \<in> set (instances_of p)" using Cons.prems(1,2) by simp_all
    then have "visit_instance dags (visited, pending, instances) q =
        Some (insert q visited, pending @ [q], instances @ [dags ! q])"
      using False by (simp add: visit_instance_def)
    moreover have reach: "instance_reach instances_of callable q"
      using Cons.prems(3) q(2) by (rule rtranclp.rtrancl_into_rtrancl)
    have "insert q visited = set (callable # ps @ [q])" "distinct (callable # ps @ [q])"
        "instances @ [dags ! q] = map ((!) dags) (ps @ [q])" "insert q visited \<subseteq> {..<length dags}"
        "\<forall>q \<in> insert q visited. instance_reach instances_of callable q"
      using Cons.prems(4-8) False q(1) reach by auto
    from Cons.IH [OF _ _ Cons.prems(3) this, of "pending @ [q]"] Cons.prems(1,2) obtain new where
      "visit_instances dags (insert q visited, pending @ [q], instances @ [dags ! q]) qs =
        Some (insert q visited \<union> set new, (pending @ [q]) @ new, map ((!) dags) ((ps @ [q]) @ new))"
      "distinct (callable # (ps @ [q]) @ new)" "set new \<subseteq> set qs" "set qs \<subseteq> insert q visited \<union> set new"
      by auto
    ultimately show ?thesis by (intro exI [of _ "q # new"]) auto
  qed
qed

lemma closure_loop_ok:
  assumes "instances_in_range dags instances_of" "closure_inv dags instances_of callable s expanded ps"
  shows "\<exists>ps. closure_loop dags instances_of s = Some (map ((!) dags) ps) \<and> distinct (callable # ps) \<and>
    set (callable # ps) = {q. instance_reach instances_of callable q}"
  using assms
proof (induction dags instances_of s arbitrary: expanded ps rule: closure_loop.induct)
  case (1 dags instances_of s)
  obtain visited pending instances where s: "s = (visited, pending, instances)" by (cases s)
  have I: "visited = set (callable # ps)" "distinct (callable # ps)" "instances = map ((!) dags) ps"
    "visited \<subseteq> {..<length dags}" "\<forall>q \<in> visited. instance_reach instances_of callable q"
    "expanded \<union> set pending = visited" "\<forall>q \<in> expanded. set (instances_of q) \<subseteq> visited"
    using "1.prems"(2) unfolding closure_inv_def s prod.case by - (elim conjE, assumption)+
  show ?case
  proof (cases "pending = []")
    case True
    have "q \<in> visited" if "instance_reach instances_of callable q" for q
      using that by (induction rule: rtranclp_induct) (use I(1,6,7) True in auto)
    with I(5) have "set (callable # ps) = {q. instance_reach instances_of callable q}" unfolding I(1) by blast
    moreover have "closure_loop dags instances_of s = Some (map ((!) dags) ps)"
      by (subst closure_loop.simps) (simp add: s True I(3))
    ultimately show ?thesis using I(2) by blast
  next
    case False
    let ?p = "last pending"
    have p: "?p \<in> visited" using I(6) False by auto
    then have range: "set (instances_of ?p) \<subseteq> {..<length dags}"
      using "1.prems"(1) I(4) by (auto simp: instances_in_range_def)
    from visit_instances_ok [OF range subset_refl bspec [OF I(5) p] I(1-5), of "butlast pending"] obtain new where
      visit: "visit_instances dags (visited, butlast pending, instances) (instances_of ?p) =
          Some (visited \<union> set new, butlast pending @ new, map ((!) dags) (ps @ new))"
      and new: "distinct (callable # ps @ new)" "set new \<subseteq> set (instances_of ?p)"
        "set (instances_of ?p) \<subseteq> visited \<union> set new" by blast
    have pending: "set pending = insert ?p (set (butlast pending))"
      using False by (metis append_butlast_last_id list.simps(15) rotate1.simps(2) set_rotate1)
    have "instance_reach instances_of callable q" if "q \<in> set new" for q
      using new(2) that bspec [OF I(5) p] by (meson rtranclp.rtrancl_into_rtrancl subsetD)
    then have "closure_inv dags instances_of callable (visited \<union> set new, butlast pending @ new, map ((!) dags) (ps @ new))
        (insert ?p expanded) (ps @ new)"
      unfolding closure_inv_def using I new range pending by auto
    from "1.IH" [OF s [symmetric] refl False visit "1.prems"(1) this] show ?thesis
      by (subst closure_loop.simps) (simp add: s False visit)
  qed
qed

lemma instance_closure_ok:
  assumes "instances_in_range registry instances_of" "callable < length registry"
  shows "\<exists>ps. instance_closure registry instances_of callable =
      Some (registry ! callable # sort_key rd_id (map ((!) registry) ps)) \<and>
    distinct (callable # ps) \<and> set (callable # ps) = {q. instance_reach instances_of callable q}"
proof -
  have "closure_inv registry instances_of callable ({callable}, [callable], []) {} []"
    using assms(2) by (simp add: closure_inv_def)
  from closure_loop_ok [OF assms(1) this] assms(2) show ?thesis by (auto simp: instance_closure_def)
qed

section \<open>Checking components\<close>

text \<open>\<open>check_component\<close>: the facts of the members, read from their formulas, are checked as a group.\<close>

definition component_check ::
  "(('s scheduled_decl \<times> 's run_dag) list \<Rightarrow> ('v, 's) group_facts) \<Rightarrow> dag_id \<Rightarrow> 's component_check" where
  "component_check facts_of callable members = check_group (facts_of members) callable"

lemma component_check_lists_members:
  assumes "\<forall>ms. facts_ok (facts_of ms) \<and> map mf_identity (gf_members (facts_of ms)) = map (sd_identity \<circ> fst) ms"
  shows "plans_list_members (component_check facts_of callable)"
  unfolding plans_list_members_def
proof (intro allI impI)
  fix ms plan assume check: "component_check facts_of callable ms = Inr plan"
  let ?members = "gf_members (facts_of ms)"
  have ok: "facts_ok (facts_of ms)" using assms by blast
  from check obtain order where rep: "plan_represents (facts_of ms) order plan"
    unfolding component_check_def by (rule check_group_sound [OF ok])
  then have order: "distinct order" "set order = {..<length ?members}"
    "map rm_declaration plan = map (\<lambda>m. mf_identity (?members ! m)) order" by (simp_all add: plan_represents_def)
  have "mset order = mset [0..<length ?members]"
    by (rule set_eq_iff_mset_eq_distinct [THEN iffD1, OF order(1) distinct_upt]) (simp add: order(2) atLeast0LessThan)
  then have "mset (map (\<lambda>m. mf_identity (?members ! m)) order) = mset (map (\<lambda>m. mf_identity (?members ! m)) [0..<length ?members])"
    unfolding mset_map by simp
  also have "map (\<lambda>m. mf_identity (?members ! m)) [0..<length ?members] = map mf_identity ?members"
    by (rule nth_equalityI) simp_all
  finally show "mset (map rm_declaration plan) = mset (map (sd_identity \<circ> fst) ms)" using order(3) assms by simp
qed

section \<open>Properties\<close>

lemma runtime_schedule_cases:
  assumes "plans_list_members check" "instance_closure registry instances_of callable = Some dags"
  shows "case runtime_schedule_build callable registry instances_of check of
      None \<Rightarrow> False
    | Some (Inl e) \<Rightarrow> rejection_genuine (map snd (closure_entries dags)) (closure_owners dags) (closure_deps dags) check e
    | Some (Inr s) \<Rightarrow>
        rs_dags s = map rd_id dags \<and> rs_deps s = closure_deps dags \<and>
        units_sound (map snd (closure_entries dags)) (closure_deps dags) (rs_units s) \<and>
        (\<forall>C \<in> set (cyclic_components (read_graph (map snd (closure_entries dags)) (closure_deps dags))).
           is_ok (check (component_members (map snd (closure_entries dags)) (closure_owners dags) C))) \<and>
        (\<forall>plan. UnitRecurrence plan \<in> set (rs_units s) \<longrightarrow>
          (\<exists>C \<in> set (cyclic_components (read_graph (map snd (closure_entries dags)) (closure_deps dags))).
             check (component_members (map snd (closure_entries dags)) (closure_owners dags) C) = Inr plan))"
proof -
  let ?nodes = "map snd (closure_entries dags)" and ?deps = "closure_deps dags" and ?owners = "closure_owners dags"
  have build: "runtime_schedule_build callable registry instances_of check =
      Some (res_map (\<lambda>units. \<lparr>rs_dags = map rd_id dags, rs_units = units, rs_deps = ?deps\<rparr>)
        (order_units (read_graph ?nodes ?deps) ?nodes ?owners ?deps check))"
    by (simp add: runtime_schedule_build_def assms(2) Let_def read_graph_def)
  note cases = order_units_decides [OF assms(1), where nodes = ?nodes and deps = ?deps and owners = ?owners]
  show ?thesis
  proof (cases "order_units (read_graph ?nodes ?deps) ?nodes ?owners ?deps check")
    case (Inl e)
    with cases show ?thesis unfolding build by simp
  next
    case (Inr units)
    with cases show ?thesis unfolding build by simp
  qed
qed


text \<open>C6: a callable is rejected exactly when the check rejects one of its cyclic components. The
  rejection lies in such a component: it is what the check reported, or, when the component can only
  be a plain cycle, a dependency cycle of it; contracting the accepted groups never leaves another.\<close>

theorem runtime_schedule_rejects:
  assumes "plans_list_members check" "instances_in_range registry instances_of" "callable < length registry"
  shows "\<exists>dags. instance_closure registry instances_of callable = Some dags \<and>
    (case runtime_schedule_build callable registry instances_of check of
       None \<Rightarrow> False
     | Some (Inl e) \<Rightarrow> rejection_genuine (map snd (closure_entries dags)) (closure_owners dags) (closure_deps dags) check e
     | Some (Inr s) \<Rightarrow>
         \<forall>C \<in> set (cyclic_components (read_graph (map snd (closure_entries dags)) (closure_deps dags))).
           is_ok (check (component_members (map snd (closure_entries dags)) (closure_owners dags) C)))"
proof -
  from instance_closure_ok [OF assms(2,3)] obtain dags where
    dags: "instance_closure registry instances_of callable = Some dags" by blast
  from runtime_schedule_cases [OF assms(1) dags] show ?thesis
    by (intro exI [of _ dags] conjI dags) (auto split: option.splits sum.splits)
qed

section \<open>Concrete inputs\<close>

text \<open>A callable with one instance. \<open>x\<close> and \<open>y\<close> read each other, \<open>z\<close> reads \<open>x\<close>, and \<open>x\<close> reads \<open>q\<close> of the
  instance; the check takes every component for unfolds over one axis without further reads.\<close>

definition sample_callable :: dag_id where
  "sample_callable = dag_new ''p'' [''m'']"

definition sample_instance :: dag_id where
  "sample_instance = dag_new ''p'' [''m'', ''n'']"

definition sample_node :: "dag_id \<Rightarrow> string \<Rightarrow> nat scheduled_decl" where
  "sample_node dag name = \<lparr>sd_identity = ResolvedName dag name, sd_name = name, sd_span = 0\<rparr>"

definition sample_runtime_dags :: "nat run_dag list" where
  "sample_runtime_dags =
     [\<lparr>rd_id = sample_callable,
       rd_entries = [NodeEntry (sample_node sample_callable ''z''), NodeEntry (sample_node sample_callable ''x''),
         ConstEntry (sample_node sample_callable ''k''), NodeEntry (sample_node sample_callable ''y'')],
       rd_deps = map_of
         [(ResolvedName sample_callable ''z'', [ResolvedName sample_callable ''x'']),
          (ResolvedName sample_callable ''x'', [ResolvedName sample_callable ''y'', ResolvedName sample_instance ''q'']),
          (ResolvedName sample_callable ''y'', [ResolvedName sample_callable ''x'', ResolvedName sample_callable ''k''])]\<rparr>,
      \<lparr>rd_id = sample_instance, rd_entries = [ParamEntry (sample_node sample_instance ''q'')], rd_deps = Map.empty\<rparr>]"

definition sample_instances :: "nat \<Rightarrow> nat list" where
  "sample_instances p = (if p = 0 then [1] else [])"

definition sample_group_facts :: "(nat scheduled_decl \<times> nat run_dag) list \<Rightarrow> (nat, nat) group_facts" where
  "sample_group_facts members =
     \<lparr>gf_members = map (\<lambda>(d, _). \<lparr>mf_identity = sd_identity d, mf_name = sd_name d, mf_span = sd_span d,
        mf_definition = UnfoldOver (FiniteAxis [])\<rparr>) members, gf_reads = []\<rparr>"

lemma sample_check_ok: "plans_list_members (component_check sample_group_facts sample_callable)"
  by (rule component_check_lists_members) (auto simp: sample_group_facts_def facts_ok_def)

lemma sample_instances_ok: "instances_in_range sample_runtime_dags sample_instances" "0 < length sample_runtime_dags"
  by (auto simp: instances_in_range_def sample_instances_def sample_runtime_dags_def)


theorem runtime_schedule_rejects_witness:
  "\<exists>dags e. instance_closure sample_runtime_dags sample_instances 0 = Some dags \<and>
    runtime_schedule_build 0 sample_runtime_dags sample_instances (\<lambda>_. Inl PlainCycle) = Some (Inl e) \<and>
    rejection_genuine (map snd (closure_entries dags)) (closure_owners dags) (closure_deps dags) (\<lambda>_. Inl PlainCycle) e"
proof -
  let ?build = "runtime_schedule_build 0 sample_runtime_dags sample_instances (\<lambda>_. Inl PlainCycle)"
  have "case ?build of Some (Inl e) \<Rightarrow> True | _ \<Rightarrow> False" by code_simp
  then obtain e where e: "?build = Some (Inl e)" by (cases ?build) (auto split: sum.splits)
  have "plans_list_members (\<lambda>_. Inl PlainCycle)" by (simp add: plans_list_members_def)
  from runtime_schedule_rejects [OF this sample_instances_ok] e show ?thesis by auto
qed

end
