(* ===== verification/Callable_Plan.thy ===== *)
theory Callable_Plan
  imports Execution_Plan Runtime_Schedule Constant_Pools
begin

text \<open>
  From schedules to callable plans (\<open>prepare_declarations\<close>, \<open>plan_units\<close> and \<open>located\<close> of
  \<open>graphcal-eval/src/exec_plan.rs\<close>): every value declaration is planned once with its body and what it
  reads, and the units of a runtime schedule become the planned units that a callable plan indexes.
  The lemmas put the checker and the evaluator together: a schedule the checker built never makes the
  indexing find a declaration twice or before what it reads.
\<close>

section \<open>Planning declarations\<close>

datatype planning_error =
    NoDependencies decl_key
  | DuplicateLocation decl_key dag_id dag_id
  | OutsideClosure decl_key dag_id
  | NoLocation decl_key

text \<open>A sealed DAG: its scope, its declaration bodies in order and, by its own schedule, what a
  declaration depends on. \<open>executable\<close> is the executable tree of a formula.\<close>

record 'x sealed_dag =
  sg_id :: dag_id
  sg_scope :: 'x
  sg_bodies :: "(decl_key \<times> 'x body_kind) list"
  sg_dependencies :: "decl_key \<Rightarrow> decl_key list option"
  sg_domains :: "decl_key \<Rightarrow> 'x option"

fun planned_body_of :: "('x \<Rightarrow> (('f, 'x) scoped_node, 'x) result) \<Rightarrow> 'x body_kind \<Rightarrow> ('f, 'x) planned_body option" where
  "planned_body_of executable (NodeBody (UnfinishedBody _)) = Some (ComputedB TodoBody)"
| "planned_body_of executable (NodeBody (FormulaBody r)) = Some (ComputedB (ExpressionBody r (executable r)))"
| "planned_body_of executable (ParamBody (Some r)) = Some (ComputedB (ExpressionBody r (executable r)))"
| "planned_body_of executable (ParamBody None) = Some SuppliedB"
| "planned_body_of executable (ConstBody _) = Some SuppliedB"
| "planned_body_of executable _ = None"

definition planned_reads ::
  "'x sealed_dag \<Rightarrow> decl_key \<Rightarrow> ('f, 'x) planned_body \<Rightarrow> (decl_key list, planning_error) result" where
  "planned_reads dag key body =
     (case (body, sg_dependencies dag key) of
        (_, Some reads) \<Rightarrow> Inr reads
      | (SuppliedB, None) \<Rightarrow> Inr []
      | (ComputedB _, None) \<Rightarrow> Inl (NoDependencies key))"

type_synonym ('f, 'x) declaration_table = "decl_key \<Rightarrow> (dag_id \<times> ('f, 'x) planned_declaration) option"

definition prepare_body ::
  "('x \<Rightarrow> (('f, 'x) scoped_node, 'x) result) \<Rightarrow> 'x sealed_dag \<Rightarrow> ('f, 'x) declaration_table \<Rightarrow>
   decl_key \<times> 'x body_kind \<Rightarrow> (('f, 'x) declaration_table, planning_error) result" where
  "prepare_body executable dag table unit =
     (case unit of (key, kind) \<Rightarrow>
        (case planned_body_of executable kind of
           None \<Rightarrow> Inr table
         | Some body \<Rightarrow>
             res_bind (planned_reads dag key body) (\<lambda>reads.
               case table key of
                 Some (first, _) \<Rightarrow> Inl (DuplicateLocation key first (sg_id dag))
               | None \<Rightarrow> Inr (table(key \<mapsto> (sg_id dag,
                   \<lparr>pd_key = key, pd_scope = sg_scope dag, pd_body = body, pd_reads = reads,
                    pd_domain = sg_domains dag key\<rparr>))))))"

definition prepare_declarations ::
  "('x \<Rightarrow> (('f, 'x) scoped_node, 'x) result) \<Rightarrow> 'x sealed_dag list \<Rightarrow> (('f, 'x) declaration_table, planning_error) result" where
  "prepare_declarations executable dags =
     try_fold (\<lambda>table dag. try_fold (prepare_body executable dag) table (sg_bodies dag)) Map.empty dags"

definition locate_declaration ::
  "('f, 'x) declaration_table \<Rightarrow> decl_key \<Rightarrow> (dag_id \<times> ('f, 'x) planned_declaration, planning_error) result" where
  "locate_declaration table key = ok_or (NoLocation key) (table key)"

definition plan_declaration ::
  "runtime_schedule \<Rightarrow> ('f, 'x) declaration_table \<Rightarrow> decl_key \<Rightarrow> (('f, 'x) planned_declaration, planning_error) result" where
  "plan_declaration schedule table key =
     res_bind (locate_declaration table key) (\<lambda>(physical, planned).
       if physical \<notin> set (rs_dags schedule) then Inl (OutsideClosure key physical)
       else res_map (\<lambda>_. planned) (try_map (locate_declaration table) (pd_reads planned)))"

fun plan_schedule_unit ::
  "runtime_schedule \<Rightarrow> ('f, 'x) declaration_table \<Rightarrow> schedule_unit \<Rightarrow> (('f, 'x) planned_unit, planning_error) result" where
  "plan_schedule_unit schedule table (UnitDeclaration key) = res_map DeclarationUnit (plan_declaration schedule table key)"
| "plan_schedule_unit schedule table (UnitRecurrence plan) =
     res_map (RecurrenceUnit plan) (try_map (\<lambda>member. plan_declaration schedule table (rm_declaration member)) plan)"

definition plan_units ::
  "runtime_schedule \<Rightarrow> ('f, 'x) declaration_table \<Rightarrow> (('f, 'x) planned_unit list, planning_error) result" where
  "plan_units schedule table = try_map (plan_schedule_unit schedule table) (rs_units schedule)"

section \<open>Prepared declarations\<close>

definition table_ok :: "'x sealed_dag list \<Rightarrow> ('f, 'x) declaration_table \<Rightarrow> bool" where
  "table_ok dags table \<longleftrightarrow>
     (\<forall>key physical d. table key = Some (physical, d) \<longrightarrow> pd_key d = key \<and>
        (\<exists>dag \<in> set dags. sg_id dag = physical \<and>
           (sg_dependencies dag key = Some (pd_reads d) \<or> sg_dependencies dag key = None \<and> pd_reads d = [] \<and> pd_body d = SuppliedB)))"

lemma prepare_body_ok:
  assumes "prepare_body executable dag table unit = Inr table'" "table_ok dags table" "dag \<in> set dags"
  shows "table_ok dags table'"
proof -
  obtain key kind where unit: "unit = (key, kind)" by (cases unit)
  show ?thesis
  proof (cases "planned_body_of executable kind")
    case (Some body)
    from assms(1) Some obtain reads where reads: "planned_reads dag key body = Inr reads"
      and table': "table' = table(key \<mapsto> (sg_id dag, \<lparr>pd_key = key, pd_scope = sg_scope dag, pd_body = body,
        pd_reads = reads, pd_domain = sg_domains dag key\<rparr>))"
      by (auto simp: prepare_body_def unit result_iffs split: option.splits prod.splits)
    have "sg_dependencies dag key = Some reads \<or> sg_dependencies dag key = None \<and> reads = [] \<and> body = SuppliedB"
      using reads by (auto simp: planned_reads_def split: option.splits planned_body.splits)
    with assms(2,3) show ?thesis unfolding table' table_ok_def by auto
  qed (use assms in \<open>simp add: prepare_body_def unit\<close>)
qed

lemma prepare_declarations_ok:
  assumes "prepare_declarations executable dags = Inr table"
  shows "table_ok dags table"
  using assms unfolding prepare_declarations_def
proof (rule try_fold_invariant)
  show "table_ok dags Map.empty" by (simp add: table_ok_def)
  fix s dag s' assume "table_ok dags s" "dag \<in> set dags" "try_fold (prepare_body executable dag) s (sg_bodies dag) = Inr s'"
  then show "table_ok dags s'"
    by (elim try_fold_invariant) (use prepare_body_ok in blast)+
qed

section \<open>The entries of planned units\<close>

fun unit_decls :: "('f, 'x) planned_unit \<Rightarrow> ('f, 'x) planned_declaration list" where
  "unit_decls (DeclarationUnit d) = (if pd_body d = SuppliedB then [] else [d])"
| "unit_decls (RecurrenceUnit plan members) = members"

definition unit_membership :: "('f, 'x) planned_unit \<Rightarrow> nat \<Rightarrow> nat option" where
  "unit_membership unit n = (case unit of DeclarationUnit _ \<Rightarrow> None | RecurrenceUnit _ _ \<Rightarrow> Some n)"

definition body_error :: "step_index_error \<Rightarrow> bool" where
  "body_error e \<longleftrightarrow> (\<exists>k. e = NotAFormulaMember k \<or> e = NotARecurrenceBody k \<or> e = AxisMismatchMember k)"

lemma unfinished_entries:
  "case try_fold (unfinished_member u m) computed ds of
     Inl e \<Rightarrow> body_error e
   | Inr all \<Rightarrow> \<exists>new. all = computed @ new \<and> map fst new = ds \<and> (\<forall>e \<in> set new. membership_of e = Some m)"
proof (induction ds arbitrary: computed)
  case (Cons d ds)
  show ?case
  proof (cases "unfinished_member u m computed d")
    case (Inl e)
    then have "body_error e"
      by (auto simp: unfinished_member_def body_error_def split: planned_body.splits computed_body.splits)
    with Inl show ?thesis by simp
  next
    case (Inr s)
    then obtain b where b: "s = computed @ [(d, b, Some (m, None))]"
      by (auto simp: unfinished_member_def split: planned_body.splits computed_body.splits)
    have "try_fold (unfinished_member u m) computed (d # ds) = try_fold (unfinished_member u m) s ds" using Inr by simp
    moreover have "\<exists>new. all = computed @ new \<and> map fst new = d # ds \<and> (\<forall>e \<in> set new. membership_of e = Some m)"
      if "\<exists>new. all = s @ new \<and> map fst new = ds \<and> (\<forall>e \<in> set new. membership_of e = Some m)" for all
    proof -
      from that obtain new where "all = s @ new" "map fst new = ds" "\<forall>e \<in> set new. membership_of e = Some m" by blast
      with b show ?thesis
        by (intro exI [of _ "(d, b, Some (m, None)) # new"]) (simp add: membership_of_def)
    qed
    ultimately show ?thesis using Cons.IH [of s] by (auto split: sum.splits)
  qed
qed simp

lemma plan_member_error: "plan_member m s d = Inl e \<Longrightarrow> body_error e"
  by (auto simp: plan_member_def body_error_def Let_def result_iffs
      split: prod.splits planned_body.splits computed_body.splits sum.splits option.splits if_splits)

lemma plan_recurrence_entries:
  "case plan_recurrence plan members n (computed, groups) of
     Inl e \<Rightarrow> body_error e
   | Inr (computed', groups') \<Rightarrow> \<exists>new. computed' = computed @ new \<and> map fst new = members \<and>
       (\<forall>e \<in> set new. membership_of e = Some n)"
proof (cases "map pd_key (filter is_todo members) = []")
  case False
  let ?u = "map pd_key (filter is_todo members)"
  have "plan_recurrence plan members n (computed, groups) =
      res_map (\<lambda>computed. (computed, groups)) (try_fold (unfinished_member ?u n) computed members)"
    using False by (simp add: plan_recurrence_def Let_def)
  with unfinished_entries [where u = ?u and m = n and computed = computed and ds = members] show ?thesis
    by (cases "try_fold (unfinished_member ?u n) computed members") simp_all
next
  case True
  show ?thesis
  proof (cases "try_fold (plan_member n) (computed, [], None) members")
    case (Inl e)
    have "case try_fold (plan_member n) (computed, [], None) members of Inl e \<Rightarrow> body_error e | Inr s \<Rightarrow> True"
      by (rule try_fold_rule [where P = "\<lambda>_ _. True"]) (auto split: sum.split dest: plan_member_error)
    with Inl True show ?thesis by (simp add: plan_recurrence_def Let_def)
  next
    case (Inr t)
    obtain all planned axis where t: "t = (all, planned, axis)" by (cases t)
    let ?new = "map (\<lambda>d. (d, computed_body_of d, Some (n, None))) members"
    from plan_members [OF Inr [unfolded t]] have all: "all = computed @ ?new" by blast
    have plain: "\<exists>new. all = computed @ new \<and> map fst new = members \<and> (\<forall>e \<in> set new. membership_of e = Some n)"
      unfolding all by (intro exI [of _ ?new]) (simp add: membership_of_def comp_def)
    let ?run = "map (run_as_group n (length groups)) ?new"
    have run: "\<exists>new. computed @ ?run = computed @ new \<and> map fst new = members \<and> (\<forall>e \<in> set new. membership_of e = Some n)"
      by (intro exI [of _ ?run]) (simp add: membership_of_def comp_def run_as_group_def)
    have "plan_recurrence plan members n (computed, groups) =
        (case axis of
           Some a \<Rightarrow>
             if length planned = length members then
               Inr (computed @ ?run, groups @ [\<lparr>pg_plan = plan, pg_members = planned, pg_axis = a\<rparr>])
             else Inr (all, groups)
         | None \<Rightarrow> Inr (all, groups))"
      using True Inr t all by (cases axis) (simp_all add: plan_recurrence_def Let_def)
    with plain run show ?thesis by (simp split: option.split)
  qed
qed

lemma plan_unit_entries:
  "case plan_unit (computed, groups, n) unit of
     Inl e \<Rightarrow> body_error e
   | Inr (computed', groups', n') \<Rightarrow> \<exists>new. computed' = computed @ new \<and> map fst new = unit_decls unit \<and>
       (\<forall>e \<in> set new. membership_of e = unit_membership unit n)"
proof (cases unit)
  case (DeclarationUnit d)
  then show ?thesis
    by (auto simp: plan_unit_def membership_of_def unit_membership_def split: planned_body.split)
next
  case (RecurrenceUnit plan members)
  with plan_recurrence_entries [where plan = plan and members = members and n = n and computed = computed and groups = groups] show ?thesis
    by (cases "plan_recurrence plan members n (computed, groups)")
      (auto simp: plan_unit_def unit_membership_def split: prod.splits)
qed

text \<open>The entries of all units, unit by unit.\<close>

definition entries_of :: "('f, 'x) planned_unit list \<Rightarrow> ('f, 'x) computed_entry list list \<Rightarrow> bool" where
  "entries_of units ess \<longleftrightarrow>
     list_all2 (\<lambda>unit es. map fst es = unit_decls unit \<and> (\<exists>n. \<forall>e \<in> set es. membership_of e = unit_membership unit n)) units ess"

lemma plan_units_entries:
  "case try_fold plan_unit s units of
     Inl e \<Rightarrow> body_error e
   | Inr s' \<Rightarrow> \<exists>ess. fst s' = fst s @ concat ess \<and> entries_of units ess"
proof (induction units arbitrary: s)
  case Nil
  then show ?case by (simp add: entries_of_def)
next
  case (Cons unit units)
  obtain computed groups n where s: "s = (computed, groups, n)" by (cases s)
  note head = plan_unit_entries [where computed = computed and groups = groups and n = n and unit = unit, folded s]
  show ?case
  proof (cases "plan_unit s unit")
    case (Inl e)
    with head show ?thesis by simp
  next
    case (Inr t)
    obtain computed' groups' n' where t: "t = (computed', groups', n')" by (cases t)
    from head Inr t obtain new where new: "computed' = computed @ new" "map fst new = unit_decls unit"
      "\<forall>e \<in> set new. membership_of e = unit_membership unit n" by auto
    show ?thesis
    proof (cases "try_fold plan_unit t units")
      case (Inl e)
      with Cons.IH [of t] Inr show ?thesis by simp
    next
      case rest: (Inr s')
      with Cons.IH [of t] obtain ess where "fst s' = fst t @ concat ess" "entries_of units ess" by auto
      with new have "fst s' = fst s @ concat (new # ess)" "entries_of (unit # units) (new # ess)"
        by (auto simp: entries_of_def s t)
      then have "\<exists>ess. fst s' = fst s @ concat ess \<and> entries_of (unit # units) ess" by blast
      with Inr rest show ?thesis by simp
    qed
  qed
qed

section \<open>Planned units in order\<close>

text \<open>Every declaration is planned once, and what it reads comes in an earlier unit or, in a recurrence,
  in its own.\<close>

definition units_ordered :: "('f, 'x) planned_unit list \<Rightarrow> bool" where
  "units_ordered units \<longleftrightarrow>
     distinct (map pd_key (concat (map unit_decls units))) \<and>
     (\<forall>i < length units. \<forall>j < length units. \<forall>d \<in> set (unit_decls (units ! i)). \<forall>d' \<in> set (unit_decls (units ! j)).
        pd_key d' \<in> set (pd_reads d) \<longrightarrow> j < i \<or> j = i \<and> (\<exists>plan members. units ! i = RecurrenceUnit plan members))"

lemma concat_position:
  "p < length (concat xss) \<Longrightarrow>
    \<exists>i a. i < length xss \<and> a < length (xss ! i) \<and> p = length (concat (take i xss)) + a \<and> concat xss ! p = xss ! i ! a"
proof (induction xss arbitrary: p)
  case (Cons xs xss)
  show ?case
  proof (cases "p < length xs")
    case True
    then show ?thesis by (intro exI [of _ 0] exI [of _ p]) (simp add: nth_append)
  next
    case False
    with Cons.prems have "p - length xs < length (concat xss)" by simp
    from Cons.IH [OF this] obtain i a where "i < length xss" "a < length (xss ! i)"
      "p - length xs = length (concat (take i xss)) + a" "concat xss ! (p - length xs) = xss ! i ! a" by blast
    with False show ?thesis by (intro exI [of _ "Suc i"] exI [of _ a]) (simp add: nth_append)
  qed
qed simp

lemma concat_take_less:
  assumes "j < i" "i < length xss" "b < length (xss ! j)"
  shows "length (concat (take j xss)) + b < length (concat (take i xss)) + a"
proof -
  have "j < length (take i xss)" using assms(1,2) by simp
  from id_take_nth_drop [OF this] have "take i xss = take j xss @ xss ! j # drop (Suc j) (take i xss)"
    using assms(1) by (simp add: min_def)
  from arg_cong [OF this, of "\<lambda>l. length (concat l)"]
  have "length (concat (take i xss)) = length (concat (take j xss)) + length (xss ! j) + length (concat (drop (Suc j) (take i xss)))"
    by simp
  with assms(3) show ?thesis by simp
qed

lemma entries_keys:
  "entries_of units ess \<Longrightarrow> map entry_key_of (concat ess) = map pd_key (concat (map unit_decls units))"
proof -
  assume "entries_of units ess"
  then have "map (map fst) ess = map unit_decls units"
    by (auto simp: entries_of_def list_eq_iff_nth_eq list_all2_conv_all_nth)
  then have "map fst (concat ess) = concat (map unit_decls units)" by (simp add: map_concat)
  then show ?thesis by (metis (no_types, lifting) comp_def entry_key_of_def map_eq_conv map_map)
qed

lemma no_unordered_step:
  assumes entries: "entries_of units ess" and ordered: "units_ordered units"
    and positions: "try_fold insert_step Map.empty (enumerate 0 (concat ess)) = Inr positions"
    and p: "p < length (concat ess)"
  shows "step_deps positions p (concat ess ! p) \<noteq> Inl e"
proof
  let ?es = "concat ess"
  assume "step_deps positions p (?es ! p) = Inl e"
  then obtain read step where read: "(read, step) \<in> set (outside_reads positions (?es ! p))" "\<not> step < p"
    by (auto simp: step_deps_def dest!: try_map_InlD split: if_splits)
  have len: "length ess = length units" using entries by (simp add: entries_of_def list_all2_lengthD)
  have unit: "map fst (ess ! i) = unit_decls (units ! i)"
      "\<exists>n. \<forall>e \<in> set (ess ! i). membership_of e = unit_membership (units ! i) n" if "i < length units" for i
    using entries that len unfolding entries_of_def by (auto simp: list_all2_conv_all_nth)
  from read(1) obtain g where r: "read \<in> set (pd_reads (fst (?es ! p)))" "positions read = Some (step, g)"
      "membership_of (?es ! p) = None \<or> g \<noteq> membership_of (?es ! p)"
    by (auto simp: outside_reads_iff)
  then have step: "step < length ?es" "entry_key_of (?es ! step) = read" "g = membership_of (?es ! step)"
    using positions_of [OF positions] by blast+
  from concat_position [OF p] obtain i a where i: "i < length units" "a < length (ess ! i)"
      "p = length (concat (take i ess)) + a" "?es ! p = ess ! i ! a" unfolding len by blast
  from concat_position [OF step(1)] obtain j b where j: "j < length units" "b < length (ess ! j)"
      "step = length (concat (take j ess)) + b" "?es ! step = ess ! j ! b" unfolding len by blast
  have "fst (?es ! p) \<in> set (unit_decls (units ! i))"
    unfolding unit(1) [OF i(1), symmetric] i(4) using i(2) by simp
  moreover have "fst (?es ! step) \<in> set (unit_decls (units ! j))"
    unfolding unit(1) [OF j(1), symmetric] j(4) using j(2) by simp
  moreover have "pd_key (fst (?es ! step)) \<in> set (pd_reads (fst (?es ! p)))"
    using r(1) step(2) by (simp add: entry_key_of_def)
  ultimately have "j < i \<or> j = i \<and> (\<exists>plan members. units ! i = RecurrenceUnit plan members)"
    using ordered i(1) j(1) unfolding units_ordered_def by blast
  then show False
  proof
    assume "j < i"
    from concat_take_less [OF this, of ess b a] i(1) j(2) len read(2) i(3) j(3) show False by simp
  next
    assume same: "j = i \<and> (\<exists>plan members. units ! i = RecurrenceUnit plan members)"
    then obtain plan members where u: "units ! i = RecurrenceUnit plan members" by blast
    from unit(2) [OF i(1)] obtain n where n: "\<forall>e \<in> set (ess ! i). membership_of e = Some n"
      unfolding u unit_membership_def by auto
    have "?es ! p \<in> set (ess ! i)" "?es ! step \<in> set (ess ! i)"
      unfolding i(4) j(4) using same i(2) j(2) nth_mem by blast+
    with n r(3) step(3) show False by simp
  qed
qed

lemma insert_steps_distinct:
  assumes "distinct (map entry_key_of es)"
  shows "\<exists>positions. try_fold insert_step Map.empty (enumerate 0 es) = Inr positions"
proof -
  let ?P = "\<lambda>i positions. \<forall>k. positions k \<noteq> None \<longrightarrow> k \<in> set (take i (map entry_key_of es))"
  have "case try_fold insert_step Map.empty (enumerate 0 es) of Inl e \<Rightarrow> False | Inr s \<Rightarrow> ?P (length (enumerate 0 es)) s"
  proof (rule try_fold_rule [where P = ?P])
    show "?P 0 Map.empty" by simp
    fix i and positions :: "decl_key \<Rightarrow> (nat \<times> nat option) option"
    assume i: "i < length (enumerate 0 es)" and P: "?P i positions"
    have "entry_key_of (es ! i) \<notin> set (take i (map entry_key_of es))"
      using assms i by (auto simp: distinct_conv_nth in_set_conv_nth)
    with P have none: "positions (entry_key_of (es ! i)) = None" by blast
    have "take (Suc i) (map entry_key_of es) = take i (map entry_key_of es) @ [entry_key_of (es ! i)]"
      using i by (simp add: take_Suc_conv_app_nth)
    with P i none show "case insert_step positions (enumerate 0 es ! i) of Inl e \<Rightarrow> False | Inr s' \<Rightarrow> ?P (Suc i) s'"
      by (auto simp: insert_step_def nth_enumerate_eq)
  qed
  then show ?thesis by (cases "try_fold insert_step Map.empty (enumerate 0 es)") simp_all
qed

lemma callable_new_ordered:
  assumes "units_ordered units" "callable_new units = Inl e"
  shows "body_error e"
proof (rule ccontr)
  assume no: "\<not> body_error e"
  from plan_units_entries [of "([], [], 0)" units] no assms(2) obtain s where s: "try_fold plan_unit ([], [], 0) units = Inr s"
    by (cases "try_fold plan_unit ([], [], 0) units") (auto simp: callable_new_def)
  with plan_units_entries [of "([], [], 0)" units] obtain ess where ess: "fst s = concat ess" "entries_of units ess" by auto
  have "distinct (map entry_key_of (concat ess))"
    using assms(1) entries_keys [OF ess(2)] by (simp add: units_ordered_def)
  from insert_steps_distinct [OF this] obtain positions where
    positions: "try_fold insert_step Map.empty (enumerate 0 (concat ess)) = Inr positions" by blast
  have "case try_fold (index_step positions) ([], []) (enumerate 0 (concat ess)) of Inl e \<Rightarrow> False | Inr t \<Rightarrow> True"
  proof (rule try_fold_rule [where P = "\<lambda>_ _. True"])
    fix i and t :: "run_unit list \<times> ('a, 'b) step list"
    assume "i < length (enumerate 0 (concat ess))"
    then have i: "i < length (concat ess)" by simp
    with no_unordered_step [OF ess(2) assms(1) positions i] obtain deps where
      "step_deps positions i (concat ess ! i) = Inr deps" by (cases "step_deps positions i (concat ess ! i)") auto
    with i show "case index_step positions t (enumerate 0 (concat ess) ! i) of Inl e \<Rightarrow> False | Inr s' \<Rightarrow> True"
      by (cases t) (simp add: index_step_def nth_enumerate_eq)
  qed simp
  then obtain t where "try_fold (index_step positions) ([], []) (enumerate 0 (concat ess)) = Inr t"
    by (cases "try_fold (index_step positions) ([], []) (enumerate 0 (concat ess))") simp_all
  with s ess(1) positions assms(2) show False by (cases s; cases t) (simp add: callable_new_def)
qed

section \<open>Planning a schedule\<close>

text \<open>What a planned unit is for the unit of the schedule.\<close>

definition plans_schedule_unit :: "('f, 'x) declaration_table \<Rightarrow> schedule_unit \<Rightarrow> ('f, 'x) planned_unit \<Rightarrow> bool" where
  "plans_schedule_unit table unit planned \<longleftrightarrow>
     (map pd_key (unit_decls planned) = unit_declarations unit \<or> unit_decls planned = []) \<and>
     (\<forall>d \<in> set (unit_decls planned). \<exists>physical. table (pd_key d) = Some (physical, d)) \<and>
     (\<forall>plan. unit = UnitRecurrence plan \<longrightarrow> (\<exists>members. planned = RecurrenceUnit plan members))"

lemma plan_declaration_found:
  assumes "table_ok dags table" "plan_declaration schedule table key = Inr d"
  shows "pd_key d = key \<and> (\<exists>physical. table key = Some (physical, d))"
  using assms by (auto simp: plan_declaration_def locate_declaration_def ok_or_def table_ok_def result_iffs
      split: option.splits prod.splits if_splits)

lemma plan_schedule_unit_ok:
  assumes ok: "table_ok dags table" and plan: "plan_schedule_unit schedule table unit = Inr planned"
  shows "plans_schedule_unit table unit planned"
proof (cases unit)
  case (UnitDeclaration key)
  with plan obtain d where "planned = DeclarationUnit d" "plan_declaration schedule table key = Inr d"
    by (auto simp: result_iffs)
  with plan_declaration_found [OF ok] UnitDeclaration show ?thesis by (auto simp: plans_schedule_unit_def)
next
  case (UnitRecurrence plan)
  with plan obtain members where planned: "planned = RecurrenceUnit plan members"
    and "list_all2 (\<lambda>m d. plan_declaration schedule table (rm_declaration m) = Inr d) plan members"
    by (auto simp: result_iffs try_map_Inr_iff)
  then have "list_all2 (\<lambda>m d. pd_key d = rm_declaration m \<and> (\<exists>physical. table (pd_key d) = Some (physical, d))) plan members"
    using plan_declaration_found [OF ok] by (auto elim!: list_all2_mono)
  then have "map pd_key members = map rm_declaration plan" "\<forall>d \<in> set members. \<exists>physical. table (pd_key d) = Some (physical, d)"
    by (auto simp: list_all2_conv_all_nth in_set_conv_nth list_eq_iff_nth_eq)
  with UnitRecurrence planned show ?thesis by (simp add: plans_schedule_unit_def)
qed

lemma blocks_dropped:
  "list_all2 (\<lambda>xs ys. ys = xs \<or> ys = []) xss yss \<Longrightarrow>
    set (concat yss) \<subseteq> set (concat xss) \<and> (distinct (concat xss) \<longrightarrow> distinct (concat yss))"
proof (induction rule: list_all2_induct)
  case (Cons xs xss ys yss)
  then have sub: "set (concat yss) \<subseteq> set (concat xss)" by blast
  from Cons(1) show ?case
  proof
    assume "ys = xs"
    with sub Cons.IH show ?thesis unfolding concat.simps distinct_append set_append by blast
  next
    assume "ys = []"
    with sub Cons.IH show ?thesis by auto
  qed
qed simp

lemma planned_keys:
  assumes "list_all2 (plans_schedule_unit table) us units"
  shows "set (map pd_key (concat (map unit_decls units))) \<subseteq> set (concat (map unit_declarations us)) \<and>
    (distinct (concat (map unit_declarations us)) \<longrightarrow> distinct (map pd_key (concat (map unit_decls units))))"
proof -
  have "list_all2 (\<lambda>xs ys. ys = xs \<or> ys = []) (map unit_declarations us) (map (\<lambda>u. map pd_key (unit_decls u)) units)"
    using assms by (auto simp: list_all2_map1 list_all2_map2 plans_schedule_unit_def elim!: list_all2_mono)
  from blocks_dropped [OF this] show ?thesis unfolding map_concat map_map comp_def .
qed

lemma concat_distinct_block:
  assumes "distinct (concat xss)" "i < length xss" "j < length xss" "y \<in> set (xss ! i)" "y \<in> set (xss ! j)"
  shows "i = j"
proof -
  have False if ij: "i < j" "j < length xss" "y \<in> set (xss ! i)" "y \<in> set (xss ! j)" for i j
  proof -
    have "concat xss = concat (take j xss) @ xss ! j @ concat (drop (Suc j) xss)"
      using arg_cong [OF id_take_nth_drop [OF ij(2)], of concat] by simp
    moreover have "xss ! i \<in> set (take j xss)" using ij(1,2) by (auto simp: in_set_conv_nth)
    ultimately show False using assms(1) ij(3,4) by auto
  qed
  with assms show ?thesis by (metis nat_neq_iff)
qed

lemma planned_units_ordered:
  assumes sound: "units_sound nodes deps us" and planned: "list_all2 (plans_schedule_unit table) us units"
    and reads: "\<And>k physical d. table k = Some (physical, d) \<Longrightarrow> k \<in> sd_identity ` set nodes \<Longrightarrow>
      set (pd_reads d) \<subseteq> set (known_reads deps k)"
  shows "units_ordered units"
  unfolding units_ordered_def
proof (intro conjI allI impI ballI)
  from sound planned_keys [OF planned] show "distinct (map pd_key (concat (map unit_decls units)))"
    by (simp add: units_sound_def)
  fix i j d d'
  assume i: "i < length units" and j: "j < length units" and d: "d \<in> set (unit_decls (units ! i))"
    and d': "d' \<in> set (unit_decls (units ! j))" and read: "pd_key d' \<in> set (pd_reads d)"
  have len: "length us = length units" using planned by (rule list_all2_lengthD)
  have unit: "plans_schedule_unit table (us ! n) (units ! n)" if "n < length units" for n
    using planned that by (auto simp: list_all2_conv_all_nth)
  have key: "pd_key e \<in> set (unit_declarations (us ! n))" if "n < length units" "e \<in> set (unit_decls (units ! n))" for n e
    using unit [OF that(1)] that(2) unfolding plans_schedule_unit_def by (metis empty_iff imageI list.set(1) list.set_map)
  have all: "set (concat (map unit_declarations us)) = sd_identity ` set nodes" using sound by (simp add: units_sound_def)
  have node: "pd_key e \<in> sd_identity ` set nodes" if "n < length units" "e \<in> set (unit_decls (units ! n))" for n e
    unfolding all [symmetric] using key [OF that] that(1) len by (auto simp: in_set_conv_nth intro!: bexI [of _ "us ! n"])
  from unit [OF i] d obtain physical where "table (pd_key d) = Some (physical, d)" by (auto simp: plans_schedule_unit_def)
  from reads [OF this node [OF i d]] read node [OF i d] node [OF j d']
  have "schedule_reads nodes deps (pd_key d) (pd_key d')" by (auto simp: schedule_reads_def)
  with sound key [OF i d] i len have
    "pd_key d' \<in> set (concat (map unit_declarations (take i us))) \<or>
     (\<exists>plan. us ! i = UnitRecurrence plan \<and> pd_key d' \<in> set (map rm_declaration plan))"
    unfolding units_sound_def by (metis (no_types, lifting))
  then show "j < i \<or> j = i \<and> (\<exists>plan members. units ! i = RecurrenceUnit plan members)"
  proof
    assume "pd_key d' \<in> set (concat (map unit_declarations (take i us)))"
    then obtain u where "u \<in> set (take i us)" "pd_key d' \<in> set (unit_declarations u)" by auto
    then obtain n where n: "n < i" "pd_key d' \<in> set (unit_declarations (us ! n))"
      using i len by (auto simp: in_set_conv_nth [of u])
    have "distinct (concat (map unit_declarations us))" using sound by (simp add: units_sound_def)
    from concat_distinct_block [OF this, of n j "pd_key d'"] n i j key [OF j d'] len show ?thesis by simp
  next
    assume "\<exists>plan. us ! i = UnitRecurrence plan \<and> pd_key d' \<in> set (map rm_declaration plan)"
    then obtain plan where plan: "us ! i = UnitRecurrence plan" "pd_key d' \<in> set (unit_declarations (us ! i))" by auto
    have "distinct (concat (map unit_declarations us))" using sound by (simp add: units_sound_def)
    from concat_distinct_block [OF this, of i j "pd_key d'"] plan(2) i j key [OF j d'] len have "j = i" by simp
    moreover have "\<exists>members. units ! i = RecurrenceUnit plan members"
      using unit [OF i] plan(1) by (simp add: plans_schedule_unit_def)
    ultimately show ?thesis by blast
  qed
qed

section \<open>What a declaration reads, from any schedule\<close>

text \<open>The declarations of a registry are distinct, and the DAGs are sealed with the schedules built for
  them over the one registry.\<close>

definition registry_distinct :: "'s run_dag list \<Rightarrow> bool" where
  "registry_distinct registry \<longleftrightarrow>
     distinct (map (\<lambda>(dag, node). sd_identity node) (closure_entries registry)) \<and> distinct registry"

definition sealed_with_schedules ::
  "'s run_dag list \<Rightarrow> (nat \<Rightarrow> nat list) \<Rightarrow> (nat \<Rightarrow> 's component_check) \<Rightarrow> 'x sealed_dag list \<Rightarrow> bool" where
  "sealed_with_schedules registry instances_of checks sealed \<longleftrightarrow>
     (\<forall>dag \<in> set sealed. \<exists>p < length registry. \<exists>s.
        runtime_schedule_build p registry instances_of (checks p) = Some (Inr s) \<and> sg_dependencies dag = rs_deps s)"

lemma foldl_last:
  "foldl (\<lambda>m (dag, node). m(f node \<mapsto> v dag node)) m es k = Some r \<Longrightarrow>
    m k = Some r \<or> (\<exists>dag node. (dag, node) \<in> set es \<and> f node = k \<and> r = v dag node)"
proof (induction es arbitrary: m)
  case (Cons e es)
  obtain dag node where e: "e = (dag, node)" by (cases e)
  from Cons.IH [of "m(f node \<mapsto> v dag node)"] Cons.prems show ?case by (auto simp: e split: if_splits)
qed simp

lemma foldl_keys:
  "foldl (\<lambda>m (dag, node). m(f node \<mapsto> v dag node)) m es k \<noteq> None \<longleftrightarrow> m k \<noteq> None \<or> k \<in> f ` snd ` set es"
  by (induction es arbitrary: m) (auto split: if_splits)

lemma closure_entries_iff: "(dag, node) \<in> set (closure_entries dags) \<longleftrightarrow> dag \<in> set dags \<and> node \<in> set (dag_nodes dag)"
  by (auto simp: closure_entries_def)

lemma closure_deps_of:
  assumes "registry_distinct registry" "set dags \<subseteq> set registry" "closure_deps dags k = Some r"
    and "(dag, node) \<in> set (closure_entries registry)" "sd_identity node = k"
  shows "r = flat_option (rd_deps dag k)"
proof -
  from foldl_last [OF assms(3) [unfolded closure_deps_def]] obtain dag' node' where
    entry: "(dag', node') \<in> set (closure_entries dags)" "sd_identity node' = k" "r = flat_option (rd_deps dag' k)" by auto
  have "(dag', node') \<in> set (closure_entries registry)" using entry(1) assms(2) by (auto simp: closure_entries_iff)
  moreover have "inj_on (\<lambda>(dag, node). sd_identity node) (set (closure_entries registry))"
    using assms(1) by (auto simp: registry_distinct_def distinct_map)
  ultimately have "(dag', node') = (dag, node)"
    by (rule inj_onD [rotated 2, OF _ assms(4)]) (simp add: entry(2) assms(5))
  with entry(3) show ?thesis by simp
qed

lemma schedule_of:
  assumes "plans_list_members check" "instances_in_range registry instances_of" "callable < length registry"
    and "runtime_schedule_build callable registry instances_of check = Some (Inr s)"
  shows "\<exists>dags. set dags \<subseteq> set registry \<and> rs_deps s = closure_deps dags \<and>
    units_sound (map snd (closure_entries dags)) (rs_deps s) (rs_units s)"
proof -
  from instance_closure_ok [OF assms(2,3)] obtain ps where ps:
    "instance_closure registry instances_of callable = Some (registry ! callable # sort_key rd_id (map ((!) registry) ps))"
    "set (callable # ps) = {q. instance_reach instances_of callable q}" by blast
  have "q < length registry" if "instance_reach instances_of callable q" for q
    using that by induction (use assms(2,3) in \<open>auto simp: instances_in_range_def\<close>)
  with ps(2) have "set ps \<subseteq> {..<length registry}" by auto
  then have "set (registry ! callable # sort_key rd_id (map ((!) registry) ps)) \<subseteq> set registry" using assms(3) by auto
  with runtime_schedule_cases [OF assms(1) ps(1)] show ?thesis unfolding assms(4) option.case sum.case by metis
qed

lemma sealed_reads:
  assumes checks: "\<And>p. plans_list_members (checks p)" and range: "instances_in_range registry instances_of"
    and distinct: "registry_distinct registry" and sealed: "sealed_with_schedules registry instances_of checks sealed"
    and table: "table_ok sealed table" "table k = Some (physical, d)"
    and dags: "set dags \<subseteq> set registry" "k \<in> sd_identity ` set (map snd (closure_entries dags))"
  shows "set (pd_reads d) \<subseteq> set (known_reads (closure_deps dags) k)"
proof -
  from table obtain dag where dag: "dag \<in> set sealed" "sg_dependencies dag k = Some (pd_reads d) \<or> pd_reads d = []"
    unfolding table_ok_def by blast
  from sealed dag(1) obtain p s where s: "p < length registry" "sg_dependencies dag = rs_deps s"
    "runtime_schedule_build p registry instances_of (checks p) = Some (Inr s)" unfolding sealed_with_schedules_def by blast
  from schedule_of [OF checks range s(1,3)] obtain dags' where dags': "set dags' \<subseteq> set registry" "rs_deps s = closure_deps dags'" by blast
  from dags(2) obtain e where e: "e \<in> set (closure_entries dags)" "sd_identity (snd e) = k" by auto
  then obtain owner node where "(owner, node) \<in> set (closure_entries dags)" "sd_identity node = k"
    by (metis prod.collapse)
  then have entry: "(owner, node) \<in> set (closure_entries registry)" "sd_identity node = k"
    using dags(1) unfolding closure_entries_iff by blast+
  have "closure_deps dags k \<noteq> None" unfolding closure_deps_def foldl_keys using dags(2) by (simp add: image_image)
  then obtain r where r: "closure_deps dags k = Some r" by blast
  have "pd_reads d = r" if "sg_dependencies dag k = Some (pd_reads d)"
    using closure_deps_of [OF distinct dags'(1) that [unfolded s(2) dags'(2)] entry] closure_deps_of [OF distinct dags(1) r entry] by simp
  with dag(2) r show ?thesis by (auto simp: known_reads_def flat_option_def)
qed

section \<open>Property\<close>

text \<open>C8: what the checker schedules, the evaluator can index. When every DAG of a registry carries the
  schedule built for it and the units of a callable's schedule are planned from the declarations of
  these DAGs, indexing the planned units never reports a declaration with two steps or one scheduled
  before what it reads: it gives a sound callable, or a recurrence member has a body that is none.\<close>

theorem schedules_are_plannable:
  assumes "\<And>p. plans_list_members (checks p)" "instances_in_range registry instances_of" "registry_distinct registry"
    and "sealed_with_schedules registry instances_of checks sealed"
    and "prepare_declarations executable sealed = Inr table"
    and "callable < length registry"
    and "runtime_schedule_build callable registry instances_of (checks callable) = Some (Inr schedule)"
    and "plan_units schedule table = Inr units"
  shows "case callable_new units of
     Inl e \<Rightarrow> body_error e
   | Inr c \<Rightarrow> callable_ok c \<and> set (map (\<lambda>s. pd_key (st_declaration s)) (cl_steps c)) \<subseteq> set (schedule_declarations schedule)"
proof (cases "callable_new units")
  note table = prepare_declarations_ok [OF assms(5)]
  from schedule_of [OF assms(1,2,6,7)] obtain dags where dags: "set dags \<subseteq> set registry" "rs_deps schedule = closure_deps dags"
    "units_sound (map snd (closure_entries dags)) (rs_deps schedule) (rs_units schedule)" by blast
  have planned: "list_all2 (plans_schedule_unit table) (rs_units schedule) units"
    using assms(8) plan_schedule_unit_ok [OF table] by (auto simp: plan_units_def try_map_Inr_iff elim!: list_all2_mono)
  {
    case (Inl e)
    from sealed_reads [OF assms(1-4) table _ dags(1)] have "units_ordered units"
      by (intro planned_units_ordered [OF dags(3) planned]) (simp add: dags(2))
    from callable_new_ordered [OF this Inl] Inl show ?thesis by simp
  next
    case (Inr c)
    from callable_new_parts [OF Inr] obtain es n positions where
      es: "try_fold plan_unit ([], [], 0) units = Inr (es, cl_groups c, n)" "length (cl_steps c) = length es"
      "\<And>i. i < length es \<Longrightarrow> st_declaration (cl_steps c ! i) = fst (es ! i)" by metis
    from plan_units_entries [of "([], [], 0)" units] es(1) obtain ess where "es = concat ess" "entries_of units ess" by auto
    with entries_keys have keys: "map entry_key_of es = map pd_key (concat (map unit_decls units))" by blast
    have "map (\<lambda>s. pd_key (st_declaration s)) (cl_steps c) = map entry_key_of es"
      using es(2,3) by (simp add: list_eq_iff_nth_eq entry_key_of_def)
    with keys planned_keys [OF planned] have
      "set (map (\<lambda>s. pd_key (st_declaration s)) (cl_steps c)) \<subseteq> set (schedule_declarations schedule)"
      by (simp add: schedule_declarations_def)
    with callable_new_sound [OF Inr] Inr show ?thesis by simp
  }
qed

section \<open>Concrete inputs\<close>

text \<open>The sample DAGs, sealed with their own schedules: \<open>x\<close> and \<open>y\<close> are unfolds over one axis, \<open>z\<close> is a
  formula, \<open>q\<close> is a port.\<close>

definition sample_check :: "nat \<Rightarrow> nat component_check" where
  "sample_check p = component_check sample_group_facts (if p = 0 then sample_callable else sample_instance)"

definition sample_schedule :: "nat \<Rightarrow> runtime_schedule" where
  "sample_schedule p =
     (case runtime_schedule_build p sample_runtime_dags sample_instances (sample_check p) of
        Some (Inr s) \<Rightarrow> s
      | _ \<Rightarrow> \<lparr>rs_dags = [], rs_units = [], rs_deps = Map.empty\<rparr>)"

definition sample_sealed :: "nat sealed_dag list" where
  "sample_sealed =
     [\<lparr>sg_id = sample_callable, sg_scope = 0,
       sg_bodies = [(ResolvedName sample_callable ''z'', NodeBody (FormulaBody 0)),
         (ResolvedName sample_callable ''x'', NodeBody (FormulaBody 1)),
         (ResolvedName sample_callable ''k'', ConstBody (FormulaBody 2)),
         (ResolvedName sample_callable ''y'', NodeBody (FormulaBody 3))],
       sg_dependencies = rs_deps (sample_schedule 0), sg_domains = Map.empty\<rparr>,
      \<lparr>sg_id = sample_instance, sg_scope = 1,
       sg_bodies = [(ResolvedName sample_instance ''q'', ParamBody None)],
       sg_dependencies = rs_deps (sample_schedule 1), sg_domains = Map.empty\<rparr>]"

definition sample_executable :: "nat \<Rightarrow> ((int, nat) scoped_node, nat) result" where
  "sample_executable e = Inr (if e = 0 then OtherNode 0 else UnfoldNode e (OtherNode 0) (OtherNode e) sample_axis)"

definition sample_units :: "((int, nat) planned_unit list, planning_error) result" where
  "sample_units =
     res_bind (prepare_declarations sample_executable sample_sealed) (plan_units (sample_schedule 0))"

lemma sample_built:
  "runtime_schedule_build 0 sample_runtime_dags sample_instances (sample_check 0) = Some (Inr (sample_schedule 0))"
  "runtime_schedule_build 1 sample_runtime_dags sample_instances (sample_check 1) = Some (Inr (sample_schedule 1))"
proof -
  have "case runtime_schedule_build 0 sample_runtime_dags sample_instances (sample_check 0) of Some (Inr s) \<Rightarrow> True | _ \<Rightarrow> False"
    "case runtime_schedule_build 1 sample_runtime_dags sample_instances (sample_check 1) of Some (Inr s) \<Rightarrow> True | _ \<Rightarrow> False"
    by code_simp+
  then show "runtime_schedule_build 0 sample_runtime_dags sample_instances (sample_check 0) = Some (Inr (sample_schedule 0))"
    "runtime_schedule_build 1 sample_runtime_dags sample_instances (sample_check 1) = Some (Inr (sample_schedule 1))"
    by (auto simp: sample_schedule_def split: option.splits sum.splits)
qed

lemma sample_checks_ok: "plans_list_members (sample_check p)"
  unfolding sample_check_def by (rule component_check_lists_members) (auto simp: sample_group_facts_def facts_ok_def)

lemma sample_sealed_ok: "sealed_with_schedules sample_runtime_dags sample_instances sample_check sample_sealed"
  using sample_built unfolding sealed_with_schedules_def
  by (auto simp: sample_sealed_def sample_runtime_dags_def intro: exI [of _ 0] exI [of _ "Suc 0"])

lemma sample_registry_distinct: "registry_distinct sample_runtime_dags"
  by (simp add: registry_distinct_def sample_runtime_dags_def closure_entries_def dag_nodes_def sample_node_def
      sample_callable_def sample_instance_def List.map_filter_def dag_new_def)

theorem schedules_are_plannable_witness:
  "\<exists>units c. sample_units = Inr units \<and> callable_new units = Inr c \<and> callable_ok c \<and> length (cl_steps c) = 3"
proof -
  have "case sample_units of Inl e \<Rightarrow> False | Inr units \<Rightarrow>
      (case callable_new units of Inl e \<Rightarrow> False | Inr c \<Rightarrow> length (cl_steps c) = 3)" by code_simp
  then obtain units c where c: "sample_units = Inr units" "callable_new units = Inr c" "length (cl_steps c) = 3"
    by (auto split: sum.splits)
  from c(1) obtain table where table: "prepare_declarations sample_executable sample_sealed = Inr table"
    "plan_units (sample_schedule 0) table = Inr units" by (auto simp: sample_units_def result_iffs)
  from schedules_are_plannable [OF sample_checks_ok sample_instances_ok(1) sample_registry_distinct sample_sealed_ok table(1)
      sample_instances_ok(2) sample_built(1) table(2)] c show ?thesis by auto
qed

end
