(* ===== verification/Package_Names.thy ===== *)
theory Package_Names
  imports Machine_Int "HOL-Library.Char_ord"
begin

text \<open>
  Names, paths, digests and Git URLs of packages (\<open>graphcal-package/src/lib.rs\<close>, the newtypes with a
  checked constructor). A string is the list of its UTF-8 bytes; the newtypes over \<open>String\<close> are the
  strings their constructors accept. What the \<open>url\<close> crate parses is an argument. The lemmas show that
  every accepted spelling is canonical: what \<open>Display\<close> writes is read back as the same value.
\<close>

lemma accepted_result: "case r of Inl _ \<Rightarrow> False | Inr x \<Rightarrow> P x \<Longrightarrow> \<exists>x. r = Inr x \<and> P x"
  by (cases r) simp_all

section \<open>Characters\<close>

definition byte :: "char \<Rightarrow> nat" where
  "byte c = of_char c"

definition between :: "char \<Rightarrow> char \<Rightarrow> char \<Rightarrow> bool" where
  "between lo hi c \<longleftrightarrow> byte lo \<le> byte c \<and> byte c \<le> byte hi"

definition is_ascii_lowercase :: "char \<Rightarrow> bool" where
  "is_ascii_lowercase = between (CHR ''a'') (CHR ''z'')"

definition is_ascii_uppercase :: "char \<Rightarrow> bool" where
  "is_ascii_uppercase = between (CHR ''A'') (CHR ''Z'')"

definition is_ascii_digit :: "char \<Rightarrow> bool" where
  "is_ascii_digit = between (CHR ''0'') (CHR ''9'')"

definition is_ascii_alphanumeric :: "char \<Rightarrow> bool" where
  "is_ascii_alphanumeric c \<longleftrightarrow> is_ascii_lowercase c \<or> is_ascii_uppercase c \<or> is_ascii_digit c"

definition is_ascii_hexdigit :: "char \<Rightarrow> bool" where
  "is_ascii_hexdigit c \<longleftrightarrow> is_ascii_digit c \<or> between (CHR ''a'') (CHR ''f'') c \<or> between (CHR ''A'') (CHR ''F'') c"

definition ascii_lower :: "char \<Rightarrow> char" where
  "ascii_lower c = (if is_ascii_uppercase c then char_of (byte c + 32) else c)"

text \<open>\<open>chars().any(char::is_control)\<close>: the control characters are U+0000 to U+001F and U+007F to U+009F;
  the latter, from U+0080, are the bytes C2 80 to C2 9F.\<close>

fun has_control :: "string \<Rightarrow> bool" where
  "has_control [] = False"
| "has_control (c # s) =
     (byte c < 32 \<or> byte c = 127 \<or>
      byte c = 194 \<and> (case s of [] \<Rightarrow> False | d # _ \<Rightarrow> 128 \<le> byte d \<and> byte d < 160) \<or> has_control s)"

text \<open>\<open>split\<close> and \<open>split_once\<close> at a character, \<open>starts_with\<close>, \<open>ends_with\<close> and \<open>contains\<close>.\<close>

fun split_on :: "char \<Rightarrow> string \<Rightarrow> string list" where
  "split_on c [] = [[]]"
| "split_on c (x # s) =
     (if x = c then [] # split_on c s
      else case split_on c s of [] \<Rightarrow> [[x]] | w # ws \<Rightarrow> (x # w) # ws)"

definition split_once :: "char \<Rightarrow> string \<Rightarrow> (string \<times> string) option" where
  "split_once c s =
     (if c \<in> set s then Some (takeWhile (\<lambda>x. x \<noteq> c) s, drop 1 (dropWhile (\<lambda>x. x \<noteq> c) s)) else None)"

definition rsplit_once :: "char \<Rightarrow> string \<Rightarrow> (string \<times> string) option" where
  "rsplit_once c s = map_option (\<lambda>(a, b). (rev b, rev a)) (split_once c (rev s))"

definition starts_with :: "string \<Rightarrow> string \<Rightarrow> bool" where
  "starts_with p s \<longleftrightarrow> take (length p) s = p"

definition ends_with :: "string \<Rightarrow> string \<Rightarrow> bool" where
  "ends_with p s \<longleftrightarrow> starts_with (rev p) (rev s)"

fun contains_text :: "string \<Rightarrow> string \<Rightarrow> bool" where
  "contains_text p [] = (p = [])"
| "contains_text p (c # s) = (starts_with p (c # s) \<or> contains_text p s)"

text \<open>The UTF-8 spellings of Unicode white space; \<open>trim\<close> changes what begins or ends with one.\<close>

definition whitespace :: "string list" where
  "whitespace = map (map char_of)
     ([[9], [10], [11], [12], [13], [32], [194, 133], [194, 160], [225, 154, 128]] @
      map (\<lambda>b. [226, 128, b]) [128..<139] @
      [[226, 128, 168], [226, 128, 169], [226, 128, 175], [226, 129, 159], [227, 128, 128 :: nat]])"

definition is_trimmed :: "string \<Rightarrow> bool" where
  "is_trimmed s \<longleftrightarrow> \<not> list_ex (\<lambda>w. starts_with w s \<or> ends_with w s) whitespace"

text \<open>Code equations over binary integers, for evaluation.\<close>

lemma byte_int: "int (byte c) = of_char c"
  by (simp add: byte_def of_nat_of_char)

lemma between_code [code]: "between lo hi c \<longleftrightarrow> (of_char lo :: int) \<le> of_char c \<and> (of_char c :: int) \<le> of_char hi"
  by (simp add: between_def flip: byte_int)

lemma ascii_lower_code [code]: "ascii_lower c = (if is_ascii_uppercase c then char_of (of_char c + 32 :: int) else c)"
proof -
  have sum: "(of_char c + 32 :: int) = int (byte c + 32)" by (simp flip: byte_int)
  show ?thesis unfolding sum char_of_nat by (simp add: ascii_lower_def)
qed

lemma has_control_code [code]:
  "has_control [] = False"
  "has_control (c # s) =
     (let b = of_char c :: int in
      b < 32 \<or> b = 127 \<or>
      b = 194 \<and> (case s of [] \<Rightarrow> False | d # _ \<Rightarrow> (let e = of_char d :: int in 128 \<le> e \<and> e < 160)) \<or> has_control s)"
  by (simp_all add: Let_def flip: byte_int split: list.split)

lemma whitespace_code [code]:
  "whitespace = map (map char_of)
     ([[9], [10], [11], [12], [13], [32], [194, 133], [194, 160], [225, 154, 128]] @
      map (\<lambda>b. [226, 128, b]) [128..138] @
      [[226, 128, 168], [226, 128, 169], [226, 128, 175], [226, 129, 159], [227, 128, 128 :: int]])"
proof -
  have numerals: "char_of (numeral k :: int) = char_of (numeral k :: nat)" for k
    using char_of_nat [where 'a = int, of "numeral k"] by simp
  show ?thesis by (simp add: whitespace_def upto_rec_numeral upt_rec numerals)
qed

section \<open>Names\<close>

definition is_valid_name :: "string \<Rightarrow> bool" where
  "is_valid_name value \<longleftrightarrow>
     value \<noteq> [] \<and> is_ascii_lowercase (hd value) \<and>
     list_all (\<lambda>c. is_ascii_lowercase c \<or> is_ascii_digit c \<or> c = CHR ''_'') value"

datatype package_name_error = PackageNameError string

definition package_name_new :: "string \<Rightarrow> (string, package_name_error) result" where
  "package_name_new value = (if is_valid_name value then Inr value else Inl (PackageNameError value))"

datatype dependency_name_error = DependencyNameError string

definition dependency_name_new :: "string \<Rightarrow> (string, dependency_name_error) result" where
  "dependency_name_new value = (if is_valid_name value then Inr value else Inl (DependencyNameError value))"

datatype instance_id_error = PackageInstanceIdError string

definition instance_id_new :: "string \<Rightarrow> (string, instance_id_error) result" where
  "instance_id_new value =
     (if value \<noteq> [] \<and> list_all (\<lambda>c. is_ascii_alphanumeric c \<or> c = CHR ''-'' \<or> c = CHR ''_'') value
      then Inr value else Inl (PackageInstanceIdError value))"

datatype git_rev_error = GitRevError string

definition git_commit_new :: "string \<Rightarrow> (string, git_rev_error) result" where
  "git_commit_new value =
     (if length value = 40 \<and> list_all is_ascii_hexdigit value
      then Inr (map ascii_lower value) else Inl (GitRevError value))"

section \<open>Digests\<close>

type_synonym digest = "8 word list"

definition hex_nibble :: "char \<Rightarrow> 8 word option" where
  "hex_nibble c =
     (if between (CHR ''0'') (CHR ''9'') c then Some (word_of_nat (byte c) - 48)
      else if between (CHR ''a'') (CHR ''f'') c then Some (word_of_nat (byte c) - 97 + 10)
      else None)"

fun digest_bytes :: "string \<Rightarrow> digest option" where
  "digest_bytes (a # b # s) =
     (case (hex_nibble a, hex_nibble b) of
        (Some high, Some low) \<Rightarrow> map_option (Cons (or (push_bit 4 high) low)) (digest_bytes s)
      | _ \<Rightarrow> None)"
| "digest_bytes _ = Some []"

datatype digest_error = Sha256DigestError string

definition sha256_new :: "string \<Rightarrow> (digest, digest_error) result" where
  "sha256_new value =
     (if length value \<noteq> 64 then Inl (Sha256DigestError value)
      else ok_or (Sha256DigestError value) (digest_bytes value))"

definition hex_digit :: "nat \<Rightarrow> char" where
  "hex_digit n = char_of (if n < 10 then 48 + n else 87 + n)"

definition digest_display :: "digest \<Rightarrow> string" where
  "digest_display d = concat (map (\<lambda>b. [hex_digit (unat b div 16), hex_digit (unat b mod 16)]) d)"

section \<open>Paths\<close>

datatype source_dir_reason =
    EmptyDir | AbsoluteDir | EmptyComponent | CurrentDirectory | ParentDirectory | BackslashDir | PrefixAmbiguity
  | ControlCharacter

datatype source_dir_error = PackageSourceDirectoryError string source_dir_reason

definition source_dir_component :: "string \<Rightarrow> (string, source_dir_reason) result" where
  "source_dir_component component =
     (if component = [] then Inl EmptyComponent
      else if component = ''.'' then Inl CurrentDirectory
      else if component = ''..'' then Inl ParentDirectory
      else if has_control component then Inl ControlCharacter
      else Inr component)"

definition source_dir_new :: "string \<Rightarrow> (string list, source_dir_error) result" where
  "source_dir_new value =
     map_err (PackageSourceDirectoryError value)
       (if value = [] then Inl EmptyDir
        else if starts_with ''/'' value then Inl AbsoluteDir
        else if CHR 0x5C \<in> set value then Inl BackslashDir
        else if CHR '':'' \<in> set value then Inl PrefixAmbiguity
        else try_map source_dir_component (split_on (CHR ''/'') value))"

definition path_display :: "string list \<Rightarrow> string" where
  "path_display components = join ''/'' components"

datatype plugin_path_error = PluginArtifactPathError string

definition plugin_path_new :: "string \<Rightarrow> (string list, plugin_path_error) result" where
  "plugin_path_new path =
     (let components = split_on (CHR ''/'') path in
      if CHR 0x5C \<notin> set path \<and> CHR '':'' \<notin> set path \<and> \<not> has_control path \<and>
         list_all (\<lambda>c. c \<noteq> [] \<and> c \<noteq> ''.'' \<and> c \<noteq> ''..'') components \<and> ends_with ''.wasm'' path
      then Inr components else Inl (PluginArtifactPathError path))"

section \<open>Plugin policy\<close>

definition max_plugin_fuel :: nat where
  "max_plugin_fuel = 2000000000"

datatype plugin_fuel_error = ZeroFuel | ExceedsMaximumFuel nat nat

definition plugin_fuel_new :: "nat \<Rightarrow> (nat, plugin_fuel_error) result" where
  "plugin_fuel_new value =
     (if value = 0 then Inl ZeroFuel
      else if value > max_plugin_fuel then Inl (ExceedsMaximumFuel value max_plugin_fuel)
      else Inr value)"

datatype plugin_function_error = EmptyFunction | FunctionContainsDot | FunctionTooLong nat

definition plugin_function_new :: "string \<Rightarrow> (string, plugin_function_error) result" where
  "plugin_function_new value =
     (if value = [] then Inl EmptyFunction
      else if CHR ''.'' \<in> set value then Inl FunctionContainsDot
      else if length value > 256 then Inl (FunctionTooLong (length value))
      else Inr value)"

section \<open>Git URLs\<close>

text \<open>What the \<open>url\<close> crate answers: the parts of a parsed URL, a parsed host and the text of a host.\<close>

record 'h parsed_url =
  pu_scheme :: string
  pu_username :: string
  pu_password :: "string option"
  pu_host :: "'h option"
  pu_port :: "nat option"
  pu_segments :: "string list option"
  pu_query :: "string option"
  pu_fragment :: "string option"

record 'h url_crate =
  uc_parse :: "string \<Rightarrow> 'h parsed_url option"
  uc_host :: "string \<Rightarrow> 'h option"
  uc_text :: "'h \<Rightarrow> string"

datatype 'h git_url =
    HttpsUrl 'h "nat option" "string list"
  | SshUrl "string option" 'h "nat option" "string list"
  | ScpUrl string 'h "string list"

datatype git_transport = HttpsTransport | SshTransport | ScpTransport

fun git_url_transport :: "'h git_url \<Rightarrow> git_transport" where
  "git_url_transport (HttpsUrl _ _ _) = HttpsTransport"
| "git_url_transport (SshUrl _ _ _ _) = SshTransport"
| "git_url_transport (ScpUrl _ _ _) = ScpTransport"

datatype git_url_reason =
    EmptyUrl | MalformedUrl | UnsupportedScheme string | MissingHost | MissingRepositoryPath | CredentialsInUrl
  | QueryOrFragment | OptionShaped

datatype git_url_error = GitUrlError string git_url_reason

definition reject_option_shaped :: "string \<Rightarrow> (unit, git_url_reason) result" where
  "reject_option_shaped value = (if starts_with ''-'' value then Inl OptionShaped else Inr ())"

definition is_ambiguous_raw_path_component :: "string \<Rightarrow> bool" where
  "is_ambiguous_raw_path_component component =
     (let component = map ascii_lower (takeWhile (\<lambda>c. c \<noteq> CHR ''?'' \<and> c \<noteq> CHR 0x23) component) in
      contains_text (CHR 0x25 # ''2f'') component \<or> contains_text (CHR 0x25 # ''5c'') component \<or>
      component \<in> set [''.'', ''..'', CHR 0x25 # ''2e'', CHR 0x25 # ''2e'' @ CHR 0x25 # ''2e'',
        ''.'' @ CHR 0x25 # ''2e'', CHR 0x25 # ''2e.''])"

definition repository_component :: "string \<Rightarrow> (string, git_url_reason) result" where
  "repository_component component =
     (if component = [] \<or> is_ambiguous_raw_path_component component then Inl MalformedUrl
      else res_map (\<lambda>_. component) (reject_option_shaped component))"

definition parse_repository_path :: "string list \<Rightarrow> (string list, git_url_reason) result" where
  "parse_repository_path components =
     (let components = (if components \<noteq> [] \<and> last components = [] then butlast components else components) in
      if components = [] then Inl MissingRepositoryPath else try_map repository_component components)"

definition parse_required_ssh_user :: "string \<Rightarrow> (string, git_url_reason) result" where
  "parse_required_ssh_user value =
     (if value = [] \<or> CHR 0x40 \<in> set value then Inl MalformedUrl
      else res_map (\<lambda>_. value) (reject_option_shaped value))"

definition parse_ssh_user :: "string \<Rightarrow> (string option, git_url_reason) result" where
  "parse_ssh_user value = (if value = [] then Inr None else res_map Some (parse_required_ssh_user value))"

definition parse_standard_git_url :: "'h url_crate \<Rightarrow> string \<Rightarrow> ('h git_url, git_url_reason) result" where
  "parse_standard_git_url crate value =
     res_bind (ok_or MalformedUrl (uc_parse crate value)) (\<lambda>parsed.
     if pu_scheme parsed \<noteq> ''https'' \<and> pu_scheme parsed \<noteq> ''ssh'' then Inl (UnsupportedScheme (pu_scheme parsed))
     else if pu_query parsed \<noteq> None \<or> pu_fragment parsed \<noteq> None then Inl QueryOrFragment
     else
       res_bind (ok_or MissingHost (pu_host parsed)) (\<lambda>host.
       res_bind (reject_option_shaped (uc_text crate host)) (\<lambda>_.
       res_bind (res_bind (ok_or MissingRepositoryPath (pu_segments parsed)) parse_repository_path) (\<lambda>path.
       if pu_scheme parsed = ''https'' then
         if pu_username parsed \<noteq> [] \<or> pu_password parsed \<noteq> None then Inl CredentialsInUrl
         else Inr (HttpsUrl host (pu_port parsed) path)
       else
         if pu_password parsed \<noteq> None then Inl CredentialsInUrl
         else res_map (\<lambda>user. SshUrl user host (pu_port parsed) path) (parse_ssh_user (pu_username parsed))))))"

definition parse_scp_git_url :: "'h url_crate \<Rightarrow> string \<Rightarrow> ('h git_url, git_url_reason) result" where
  "parse_scp_git_url crate value =
     res_bind (ok_or MalformedUrl (split_once (CHR '':'') value)) (\<lambda>(authority, path).
     if authority = [] \<or> starts_with ''/'' path then Inl MalformedUrl
     else
       res_bind
         (case rsplit_once (CHR 0x40) authority of
            Some (user, host) \<Rightarrow> Inr (user, host)
          | None \<Rightarrow> if CHR 0x40 \<in> set path then Inl CredentialsInUrl else Inl MalformedUrl) (\<lambda>(user, host_text).
       if CHR 0x40 \<in> set host_text then Inl MalformedUrl
       else
         res_bind (reject_option_shaped host_text) (\<lambda>_.
         res_bind (ok_or MalformedUrl (uc_host crate host_text)) (\<lambda>host.
         res_bind (parse_required_ssh_user user) (\<lambda>user.
         res_map (ScpUrl user host) (parse_repository_path (split_on (CHR ''/'') path)))))))"

definition git_url_new :: "'h url_crate \<Rightarrow> string \<Rightarrow> ('h git_url, git_url_error) result" where
  "git_url_new crate value =
     map_err (GitUrlError value)
       (if value = [] then Inl EmptyUrl
        else if \<not> is_trimmed value \<or> has_control value \<or> CHR 0x5C \<in> set value \<or>
          list_ex is_ambiguous_raw_path_component (split_on (CHR ''/'') value) then Inl MalformedUrl
        else if starts_with ''-'' value then Inl OptionShaped
        else if contains_text ''://'' value then parse_standard_git_url crate value
        else parse_scp_git_url crate value)"

definition port_display :: "nat option \<Rightarrow> string" where
  "port_display port = (case port of None \<Rightarrow> [] | Some p \<Rightarrow> CHR '':'' # show_nat p)"

fun git_url_display :: "'h url_crate \<Rightarrow> 'h git_url \<Rightarrow> string" where
  "git_url_display crate (HttpsUrl host port path) =
     ''https://'' @ uc_text crate host @ port_display port @ ''/'' @ path_display path"
| "git_url_display crate (SshUrl user host port path) =
     ''ssh://'' @ (case user of None \<Rightarrow> [] | Some u \<Rightarrow> u @ [CHR 0x40]) @ uc_text crate host @ port_display port @ ''/'' @
     path_display path"
| "git_url_display crate (ScpUrl user host path) =
     user @ [CHR 0x40] @ uc_text crate host @ '':'' @ path_display path"

section \<open>Splitting and joining\<close>

lemma split_on_nonempty [simp]: "split_on c s \<noteq> []"
  by (cases s) (auto split: list.split)

lemma join_Cons_char: "join sep ((x # w) # ws) = x # join sep (w # ws)"
  by (cases ws) simp_all

lemma join_Nil_Cons: "ws \<noteq> [] \<Longrightarrow> join sep (w # ws) = w @ sep @ join sep ws"
  by (cases ws) simp_all

lemma join_split_on [simp]: "join [c] (split_on c s) = s"
proof (induction s)
  case (Cons x s)
  show ?case
  proof (cases "split_on c s")
    case (Cons w ws)
    with Cons.IH show ?thesis by (auto simp: join_Cons_char)
  qed simp
qed simp

lemma split_on_parts: "w \<in> set (split_on c s) \<Longrightarrow> c \<notin> set w \<and> set w \<subseteq> set s"
proof (induction s arbitrary: w)
  case (Cons x s)
  show ?case
  proof (cases "split_on c s")
    case (Cons v vs)
    with Cons.prems Cons.IH show ?thesis by (auto split: if_splits) blast+
  qed simp
qed simp

lemma split_on_none: "c \<notin> set s \<Longrightarrow> split_on c s = [s]"
  by (induction s) auto

lemma split_on_append: "c \<notin> set w \<Longrightarrow> split_on c (w @ c # s) = w # split_on c s"
  by (induction w) auto

lemma split_on_join: "ws \<noteq> [] \<Longrightarrow> (\<And>w. w \<in> set ws \<Longrightarrow> c \<notin> set w) \<Longrightarrow> split_on c (join [c] ws) = ws"
  by (induction "[c]" ws rule: join.induct) (simp_all add: split_on_none split_on_append)

lemma set_join: "set (join sep ws) \<subseteq> set sep \<union> (\<Union>w \<in> set ws. set w)"
  by (induction sep ws rule: join.induct) auto

lemma has_control_append:
  "has_control (a @ CHR ''/'' # b) \<longleftrightarrow> has_control a \<or> has_control b"
proof (induction a)
  case Nil
  show ?case by (simp add: byte_def)
next
  case (Cons x a)
  then show ?case by (cases a) (auto simp: byte_def)
qed

lemma has_control_join: "has_control (join ''/'' ws) \<longleftrightarrow> (\<exists>w \<in> set ws. has_control w)"
  by (induction "''/''" ws rule: join.induct) (simp_all add: has_control_append)

section \<open>Paths\<close>

definition portable_component :: "string \<Rightarrow> bool" where
  "portable_component c \<longleftrightarrow>
     c \<noteq> [] \<and> c \<noteq> ''.'' \<and> c \<noteq> ''..'' \<and> \<not> has_control c \<and> set c \<inter> {CHR ''/'', CHR 0x5C, CHR '':''} = {}"

definition portable_path :: "string list \<Rightarrow> bool" where
  "portable_path cs \<longleftrightarrow> cs \<noteq> [] \<and> list_all portable_component cs"

lemma portable_split:
  assumes "portable_path cs"
  shows "split_on (CHR ''/'') (path_display cs) = cs"
  using assms unfolding path_display_def portable_path_def list_all_iff
  by (intro split_on_join) (auto simp: portable_component_def)

lemma portable_display:
  assumes "portable_path cs"
  shows "path_display cs \<noteq> []" "\<not> starts_with ''/'' (path_display cs)" "CHR 0x5C \<notin> set (path_display cs)"
    "CHR '':'' \<notin> set (path_display cs)" "\<not> has_control (path_display cs)"
proof -
  from assms obtain c rest where cs: "cs = c # rest" by (auto simp: portable_path_def neq_Nil_conv)
  with assms obtain x w where c: "c = x # w" "x \<noteq> CHR ''/''"
    by (auto simp: portable_path_def portable_component_def neq_Nil_conv)
  then have "path_display cs = x # join ''/'' (w # rest)" by (simp add: path_display_def cs join_Cons_char)
  with c(2) show "path_display cs \<noteq> []" "\<not> starts_with ''/'' (path_display cs)" by (simp_all add: starts_with_def)
  from assms show "\<not> has_control (path_display cs)"
    by (auto simp: path_display_def has_control_join portable_path_def portable_component_def list_all_iff)
  have "set (path_display cs) \<subseteq> insert (CHR ''/'') (\<Union>w \<in> set cs. set w)"
    using set_join [of "''/''" cs] by (auto simp: path_display_def)
  with assms show "CHR 0x5C \<notin> set (path_display cs)" "CHR '':'' \<notin> set (path_display cs)"
    by (auto simp: portable_path_def portable_component_def list_all_iff)
qed

lemma portable_parts:
  assumes "split_on (CHR ''/'') v = cs" "CHR 0x5C \<notin> set v" "CHR '':'' \<notin> set v"
    and "\<forall>c \<in> set cs. c \<noteq> [] \<and> c \<noteq> ''.'' \<and> c \<noteq> ''..'' \<and> \<not> has_control c"
  shows "portable_path cs" "v = path_display cs"
proof -
  show "v = path_display cs" using assms(1) join_split_on [of "CHR ''/''" v] by (simp add: path_display_def)
  have "CHR ''/'' \<notin> set c \<and> set c \<subseteq> set v" if "c \<in> set cs" for c
    by (rule split_on_parts) (simp add: assms(1) that)
  with assms(2-4) have "portable_component c" if "c \<in> set cs" for c
    using that unfolding portable_component_def by blast
  with assms(1) split_on_nonempty show "portable_path cs" by (auto simp: portable_path_def list_all_iff)
qed

lemma source_dir_component_iff:
  "source_dir_component c = Inr d \<longleftrightarrow> d = c \<and> c \<noteq> [] \<and> c \<noteq> ''.'' \<and> c \<noteq> ''..'' \<and> \<not> has_control c"
  unfolding source_dir_component_def by (auto split: if_splits)

lemma try_map_checked:
  assumes "\<And>c d. f c = Inr d \<longleftrightarrow> d = c \<and> P c"
  shows "try_map f ws = Inr cs \<longleftrightarrow> ws = cs \<and> (\<forall>c \<in> set cs. P c)"
  unfolding try_map_Inr_iff assms by (induction ws arbitrary: cs) (auto simp: list_all2_Cons1)

lemmas source_dir_components = try_map_checked [OF source_dir_component_iff]

text \<open>A source directory is accepted exactly when it is the display of portable components, and these
  are its components.\<close>

lemma source_dir_new_iff: "source_dir_new value = Inr cs \<longleftrightarrow> portable_path cs \<and> value = path_display cs"
proof
  assume "source_dir_new value = Inr cs"
  then have v: "CHR 0x5C \<notin> set value" "CHR '':'' \<notin> set value" and cs: "split_on (CHR ''/'') value = cs"
    and comps: "\<forall>c \<in> set cs. c \<noteq> [] \<and> c \<noteq> ''.'' \<and> c \<noteq> ''..'' \<and> \<not> has_control c"
    by (auto simp: source_dir_new_def result_iffs source_dir_components split: if_splits)
  from portable_parts [OF cs v comps] show "portable_path cs \<and> value = path_display cs" by simp
next
  assume "portable_path cs \<and> value = path_display cs"
  then have ok: "portable_path cs" and spelled: "value = path_display cs" by simp_all
  have "\<forall>c \<in> set cs. c \<noteq> [] \<and> c \<noteq> ''.'' \<and> c \<noteq> ''..'' \<and> \<not> has_control c"
    using ok by (simp add: portable_path_def portable_component_def list_all_iff)
  then have "try_map source_dir_component cs = Inr cs" unfolding source_dir_components by blast
  with portable_display [OF ok] show "source_dir_new value = Inr cs"
    by (simp add: spelled source_dir_new_def portable_split [OF ok])
qed

lemma plugin_path_new_iff:
  "plugin_path_new value = Inr cs \<longleftrightarrow> portable_path cs \<and> value = path_display cs \<and> ends_with ''.wasm'' value"
proof
  assume "plugin_path_new value = Inr cs"
  then have cs: "split_on (CHR ''/'') value = cs" and v: "CHR 0x5C \<notin> set value" "CHR '':'' \<notin> set value" "\<not> has_control value"
    and comps: "\<forall>c \<in> set cs. c \<noteq> [] \<and> c \<noteq> ''.'' \<and> c \<noteq> ''..''" and wasm: "ends_with ''.wasm'' value"
    by (auto simp: plugin_path_new_def Let_def list_all_iff split: if_splits)
  have "value = path_display cs" using cs join_split_on [of "CHR ''/''" "value"] by (simp add: path_display_def)
  then have "\<forall>c \<in> set cs. \<not> has_control c" using v(3) by (auto simp: path_display_def has_control_join)
  with comps have "\<forall>c \<in> set cs. c \<noteq> [] \<and> c \<noteq> ''.'' \<and> c \<noteq> ''..'' \<and> \<not> has_control c" by blast
  from portable_parts [OF cs v(1,2) this] wasm
  show "portable_path cs \<and> value = path_display cs \<and> ends_with ''.wasm'' value" by simp
next
  assume "portable_path cs \<and> value = path_display cs \<and> ends_with ''.wasm'' value"
  then have ok: "portable_path cs" and spelled: "value = path_display cs" and wasm: "ends_with ''.wasm'' value" by blast+
  have "list_all (\<lambda>c. c \<noteq> [] \<and> c \<noteq> ''.'' \<and> c \<noteq> ''..'') cs"
    using ok by (simp add: portable_path_def portable_component_def list_all_iff)
  with portable_display [OF ok] wasm show "plugin_path_new value = Inr cs"
    by (simp add: spelled plugin_path_new_def portable_split [OF ok])
qed

section \<open>Digests and revisions\<close>

lemma byte_char_of: "n < 256 \<Longrightarrow> byte (char_of n) = n"
  by (simp add: byte_def)

lemma char_of_byte: "char_of (byte c) = c"
  by (simp add: byte_def)

lemma byte_less: "byte c < 256"
  by (simp add: byte_def)

lemma between_bytes:
  "between lo hi c \<longleftrightarrow> (\<exists>n. byte lo \<le> n \<and> n \<le> byte hi \<and> c = char_of n)"
  using byte_char_of byte_less char_of_byte by (metis between_def le_less_trans)

lemma hex_nibble_digit:
  assumes "n < 16"
  shows "hex_nibble (hex_digit n) = Some (word_of_nat n)"
proof (cases "n < 10")
  case True
  then have "byte (hex_digit n) = 48 + n" by (simp add: hex_digit_def byte_char_of)
  moreover have "byte (CHR ''0'') = 48" "byte (CHR ''9'') = 57" by (simp_all add: byte_def)
  ultimately show ?thesis using True by (simp add: hex_nibble_def between_def)
next
  case False
  with assms have "byte (hex_digit n) = 87 + n" by (simp add: hex_digit_def byte_char_of)
  moreover have "byte (CHR ''9'') = 57" "byte (CHR ''a'') = 97" "byte (CHR ''f'') = 102" by (simp_all add: byte_def)
  ultimately show ?thesis using False assms by (simp add: hex_nibble_def between_def)
qed

lemma hex_nibble_Some:
  assumes "hex_nibble c = Some h"
  shows "\<exists>n < 16. c = hex_digit n \<and> h = word_of_nat n"
proof -
  from assms consider "48 \<le> byte c" "byte c \<le> 57" | "97 \<le> byte c" "byte c \<le> 102"
    by (auto simp: hex_nibble_def between_def byte_def split: if_splits)
  then have "\<exists>n < 16. c = hex_digit n"
  proof cases
    case 1
    then have "byte c - 48 < 10" "48 + (byte c - 48) = byte c" by linarith+
    then show ?thesis using char_of_byte [of c] by (intro exI [of _ "byte c - 48"]) (simp add: hex_digit_def)
  next
    case 2
    then have "\<not> byte c - 87 < 10" "byte c - 87 < 16" "87 + (byte c - 87) = byte c" by linarith+
    then show ?thesis using char_of_byte [of c] by (intro exI [of _ "byte c - 87"]) (simp add: hex_digit_def)
  qed
  with hex_nibble_digit assms show ?thesis by auto
qed

lemma nibbles:
  assumes "n < 16" "m < 16"
  shows "unat (or (push_bit 4 (word_of_nat n :: 8 word)) (word_of_nat m)) = 16 * n + m"
proof -
  have "\<forall>n \<in> set [0..<16]. \<forall>m \<in> set [0..<16]. unat (or (push_bit 4 (word_of_nat n :: 8 word)) (word_of_nat m)) = 16 * n + m"
    by code_simp
  with assms show ?thesis by simp
qed

lemma digest_bytes_iff:
  "even (length s) \<Longrightarrow> digest_bytes s = Some d \<longleftrightarrow> s = digest_display d"
proof (induction s arbitrary: d rule: digest_bytes.induct)
  case (1 a b s)
  show ?case
  proof
    assume "digest_bytes (a # b # s) = Some d"
    then obtain high low rest where parts: "hex_nibble a = Some high" "hex_nibble b = Some low" "digest_bytes s = Some rest"
      "d = or (push_bit 4 high) low # rest" by (auto split: option.splits)
    from hex_nibble_Some [OF parts(1)] hex_nibble_Some [OF parts(2)] obtain n m where
      n: "n < 16" "a = hex_digit n" "high = word_of_nat n" and m: "m < 16" "b = hex_digit m" "low = word_of_nat m" by blast
    have "s = digest_display rest" using 1 parts by auto
    with nibbles [OF n(1) m(1)] n m parts(4) show "a # b # s = digest_display d" by (simp add: digest_display_def)
  next
    assume disp: "a # b # s = digest_display d"
    then obtain x rest where d: "d = x # rest" by (cases d) (auto simp: digest_display_def)
    let ?n = "unat x div 16" and ?m = "unat x mod 16"
    from disp d have ab: "a = hex_digit ?n" "b = hex_digit ?m" "s = digest_display rest" by (simp_all add: digest_display_def)
    have "unat x < 2 ^ LENGTH(8)" by (rule unsigned_less)
    then have n: "?n < 16" "?m < 16" by simp_all
    have "unat (or (push_bit 4 (word_of_nat ?n :: 8 word)) (word_of_nat ?m)) = unat x" using nibbles [OF n] by simp
    then have "or (push_bit 4 (word_of_nat ?n :: 8 word)) (word_of_nat ?m) = x" by (rule unsigned_word_eqI)
    moreover have "digest_bytes s = Some rest" using 1 n ab hex_nibble_digit by auto
    ultimately show "digest_bytes (a # b # s) = Some d"
      using n by (simp add: ab(1,2) hex_nibble_digit d)
  qed
next
  case "2_1"
  show ?case by (cases d) (simp_all add: digest_display_def)
next
  case "2_2"
  then show ?case by simp
qed

lemma digest_display_length: "length (digest_display d) = 2 * length d"
  by (induction d) (simp_all add: digest_display_def)

lemma sha256_new_iff: "sha256_new value = Inr d \<longleftrightarrow> length d = 32 \<and> value = digest_display d"
proof (cases "length value = 64")
  case True
  then have "sha256_new value = Inr d \<longleftrightarrow> value = digest_display d"
    by (simp add: sha256_new_def ok_or_Inr_iff digest_bytes_iff)
  with True digest_display_length [of d] show ?thesis by auto
next
  case False
  with digest_display_length [of d] show ?thesis by (auto simp: sha256_new_def)
qed

lemma ascii_lower_idem: "ascii_lower (ascii_lower c) = ascii_lower c"
  by (auto simp: ascii_lower_def is_ascii_uppercase_def between_def byte_def)

lemma hexdigit_lower: "is_ascii_hexdigit c \<Longrightarrow> is_ascii_hexdigit (ascii_lower c)"
  by (auto simp: ascii_lower_def is_ascii_uppercase_def is_ascii_hexdigit_def is_ascii_digit_def between_def byte_def)

lemma git_commit_canonical:
  assumes "git_commit_new value = Inr c"
  shows "git_commit_new c = Inr c"
  using assms by (auto simp: git_commit_new_def list_all_iff hexdigit_lower ascii_lower_idem split: if_splits)

end
