(* ===== verification/Package_Manifest.thy ===== *)
theory Package_Manifest
  imports Package_Names
begin

text \<open>
  Package manifests (\<open>graphcal-package/src/lib.rs\<close>: \<open>PackageManifest\<close>, \<open>parse_manifest_str\<close> and its helpers).
  The \<open>toml\<close> crate turns text into a table: a table is the list of its entries in iteration order, and
  the values that every reader rejects are one constructor. The lemmas state which tables are accepted
  and that an accepted manifest satisfies the invariants of its types.
\<close>

section \<open>TOML values\<close>

datatype toml_value =
    TomlString string
  | TomlInteger int
  | TomlArray "toml_value list"
  | TomlTable "(string \<times> toml_value) list"
  | TomlOther

type_synonym toml_table = "(string \<times> toml_value) list"

text \<open>\<open>Value::as_str\<close>, \<open>as_integer\<close>, \<open>as_array\<close> and \<open>as_table\<close>.\<close>

definition as_str :: "toml_value \<Rightarrow> string option" where
  "as_str v = (case v of TomlString s \<Rightarrow> Some s | _ \<Rightarrow> None)"

definition as_integer :: "toml_value \<Rightarrow> int option" where
  "as_integer v = (case v of TomlInteger i \<Rightarrow> Some i | _ \<Rightarrow> None)"

definition as_array :: "toml_value \<Rightarrow> toml_value list option" where
  "as_array v = (case v of TomlArray vs \<Rightarrow> Some vs | _ \<Rightarrow> None)"

definition as_table :: "toml_value \<Rightarrow> toml_table option" where
  "as_table v = (case v of TomlTable t \<Rightarrow> Some t | _ \<Rightarrow> None)"

section \<open>Manifests\<close>

record 'h git_dependency =
  gd_url :: "'h git_url"
  gd_rev :: string

record 'h dependency_spec =
  ds_package :: "string option"
  ds_git :: "'h git_dependency"

definition expected_package_name :: "'h dependency_spec \<Rightarrow> string \<Rightarrow> string" where
  "expected_package_name spec alias = (case ds_package spec of Some name \<Rightarrow> name | None \<Rightarrow> alias)"

type_synonym plugin_function_selector = "string list \<times> string"

record plugin_policy =
  pp_default_fuel :: "nat option"
  pp_function_limits :: "(plugin_function_selector, nat) btree"

record 'h package_manifest =
  pm_name :: string
  pm_source_dir :: "string list"
  pm_dependencies :: "(string, 'h dependency_spec) btree"
  pm_policy :: plugin_policy

datatype manifest_error =
    TomlParseError string
  | MissingField string
  | InvalidType string string
  | UnsupportedField string string
  | InvalidPackageName package_name_error
  | InvalidDependencyName dependency_name_error
  | InvalidGitRev git_rev_error
  | InvalidGitUrl git_url_error
  | InvalidSourceDir string source_dir_reason
  | UnsupportedDependencyField string string
  | SelfAliasInManifest string string
  | InvalidPluginFuel string int nat
  | InvalidPluginPath plugin_path_error
  | InvalidPluginFunction string plugin_function_error
  | DuplicatePluginFunctionLimit "string list" string

definition reject_unknown_fields :: "toml_table \<Rightarrow> string list \<Rightarrow> string \<Rightarrow> (unit, manifest_error) result" where
  "reject_unknown_fields table allowed table_name =
     (case find (\<lambda>key. key \<notin> set allowed) (map fst table) of
        None \<Rightarrow> Inr ()
      | Some field \<Rightarrow> Inl (UnsupportedField table_name field))"

definition manifest_optional_string :: "toml_table \<Rightarrow> string \<Rightarrow> string \<Rightarrow> (string option, manifest_error) result" where
  "manifest_optional_string table key field =
     (case map_of table key of
        Some (TomlString value) \<Rightarrow> Inr (Some value)
      | Some _ \<Rightarrow> Inl (InvalidType field ''a string'')
      | None \<Rightarrow> Inr None)"

definition manifest_required_string :: "toml_table \<Rightarrow> string \<Rightarrow> string \<Rightarrow> (string, manifest_error) result" where
  "manifest_required_string table key field =
     res_bind (manifest_optional_string table key field) (ok_or (MissingField field))"

definition parse_source_dir :: "string \<Rightarrow> (string list, manifest_error) result" where
  "parse_source_dir dir =
     map_err (\<lambda>e. case e of PackageSourceDirectoryError _ reason \<Rightarrow> InvalidSourceDir dir reason) (source_dir_new dir)"

definition u64_of_i64 :: "int \<Rightarrow> nat option" where
  "u64_of_i64 i = (if i < 0 then None else Some (nat i))"

definition parse_plugin_fuel :: "toml_value \<Rightarrow> string \<Rightarrow> (nat, manifest_error) result" where
  "parse_plugin_fuel item field =
     (case item of
        TomlInteger i \<Rightarrow>
          ok_or (InvalidPluginFuel field i max_plugin_fuel)
            (Option.bind (u64_of_i64 i) (\<lambda>n. case plugin_fuel_new n of Inr fuel \<Rightarrow> Some fuel | Inl _ \<Rightarrow> None))
      | _ \<Rightarrow> Inl (InvalidType field ''an integer''))"

definition function_limit ::
  "(plugin_function_selector, nat) btree \<Rightarrow> nat \<times> toml_value \<Rightarrow> ((plugin_function_selector, nat) btree, manifest_error) result" where
  "function_limit limits indexed =
     (case indexed of (index, entry) \<Rightarrow>
        case as_table entry of
          None \<Rightarrow> Inl (InvalidType (''[plugins].function_limits['' @ show_nat index @ '']'') ''a table'')
        | Some entry \<Rightarrow>
            res_bind (reject_unknown_fields entry [''plugin'', ''function'', ''fuel_per_call''] ''[[plugins.function_limits]]'') (\<lambda>_.
            res_bind (manifest_required_string entry ''plugin'' ''[[plugins.function_limits]].plugin'') (\<lambda>plugin_text.
            res_bind (map_err InvalidPluginPath (plugin_path_new plugin_text)) (\<lambda>plugin.
            res_bind (manifest_required_string entry ''function'' ''[[plugins.function_limits]].function'') (\<lambda>function_text.
            res_bind (map_err (InvalidPluginFunction function_text) (plugin_function_new function_text)) (\<lambda>fn.
            res_bind (ok_or (MissingField ''[[plugins.function_limits]].fuel_per_call'') (map_of entry ''fuel_per_call'')) (\<lambda>fuel.
            res_bind (parse_plugin_fuel fuel (''[plugins].function_limits['' @ show_nat index @ ''].fuel_per_call'')) (\<lambda>budget.
              if map_of limits (plugin, fn) \<noteq> None then Inl (DuplicatePluginFunctionLimit plugin fn)
              else Inr (bt_insert (plugin, fn) budget limits)))))))))"

definition default_fuel_per_call :: "toml_table \<Rightarrow> (nat option, manifest_error) result" where
  "default_fuel_per_call table =
     (case map_of table ''fuel_per_call'' of
        None \<Rightarrow> Inr None
      | Some v \<Rightarrow> res_map Some (parse_plugin_fuel v ''[plugins].fuel_per_call''))"

definition function_limits_of :: "toml_table \<Rightarrow> ((plugin_function_selector, nat) btree, manifest_error) result" where
  "function_limits_of table =
     (case map_of table ''function_limits'' of
        None \<Rightarrow> Inr []
      | Some (TomlArray entries) \<Rightarrow> try_fold function_limit [] (enumerate 0 entries)
      | Some _ \<Rightarrow> Inl (InvalidType ''[plugins].function_limits'' ''an array of tables''))"

definition parse_plugin_execution_policy :: "toml_value option \<Rightarrow> (plugin_policy, manifest_error) result" where
  "parse_plugin_execution_policy item =
     (case item of
        None \<Rightarrow> Inr \<lparr>pp_default_fuel = None, pp_function_limits = []\<rparr>
      | Some item \<Rightarrow>
          (case as_table item of
             None \<Rightarrow> Inl (InvalidType ''[plugins]'' ''a table'')
           | Some table \<Rightarrow>
               res_bind (reject_unknown_fields table [''fuel_per_call'', ''function_limits''] ''[plugins]'') (\<lambda>_.
               res_bind (default_fuel_per_call table) (\<lambda>default_fuel.
               res_map (\<lambda>limits. \<lparr>pp_default_fuel = default_fuel, pp_function_limits = limits\<rparr>)
                 (function_limits_of table)))))"

definition parse_dependency_spec ::
  "'h url_crate \<Rightarrow> string \<Rightarrow> toml_value \<Rightarrow> ('h dependency_spec, manifest_error) result" where
  "parse_dependency_spec crate dependency item =
     (case as_table item of
        None \<Rightarrow> Inl (InvalidType (''[dependencies].'' @ dependency) ''an inline table'')
      | Some table \<Rightarrow>
          (case find (\<lambda>key. key \<notin> set [''git'', ''rev'', ''package'']) (map fst table) of
             Some other \<Rightarrow> Inl (UnsupportedDependencyField dependency other)
           | None \<Rightarrow>
               res_bind (case map_of table ''git'' of
                   Some (TomlString url) \<Rightarrow> map_err InvalidGitUrl (git_url_new crate url)
                 | Some _ \<Rightarrow> Inl (InvalidType (''[dependencies].'' @ dependency @ ''.git'') ''a string'')
                 | None \<Rightarrow> Inl (MissingField ''[dependencies].<name>.git'')) (\<lambda>git.
               res_bind (case map_of table ''rev'' of
                   Some (TomlString revision) \<Rightarrow> map_err InvalidGitRev (git_commit_new revision)
                 | Some _ \<Rightarrow> Inl (InvalidType (''[dependencies].'' @ dependency @ ''.rev'') ''a string'')
                 | None \<Rightarrow> Inl (MissingField ''[dependencies].<name>.rev'')) (\<lambda>commit.
               res_map (\<lambda>package. \<lparr>ds_package = package, ds_git = \<lparr>gd_url = git, gd_rev = commit\<rparr>\<rparr>)
                 (case map_of table ''package'' of
                    None \<Rightarrow> Inr None
                  | Some package \<Rightarrow>
                      res_map Some
                        (res_bind (ok_or (InvalidType (''[dependencies].'' @ dependency @ ''.package'') ''a string'') (as_str package))
                          (\<lambda>name. map_err InvalidPackageName (package_name_new name))))))))"

definition manifest_dependency ::
  "'h url_crate \<Rightarrow> string \<Rightarrow> string \<times> toml_value \<Rightarrow> (string \<times> 'h dependency_spec, manifest_error) result" where
  "manifest_dependency crate package_name entry =
     (case entry of (key, item) \<Rightarrow>
        res_bind (map_err InvalidDependencyName (dependency_name_new key)) (\<lambda>dep_name.
          if dep_name = package_name then Inl (SelfAliasInManifest package_name dep_name)
          else res_map (Pair dep_name) (parse_dependency_spec crate dep_name item)))"

text \<open>\<open>collect\<close> into a \<open>BTreeMap\<close>.\<close>

definition collect_map :: "('k::linorder \<times> 'v) list \<Rightarrow> ('k, 'v) btree" where
  "collect_map kvs = foldl (\<lambda>m (k, v). bt_insert k v m) [] kvs"

definition parse_manifest_dependencies ::
  "'h url_crate \<Rightarrow> toml_value option \<Rightarrow> string \<Rightarrow> ((string, 'h dependency_spec) btree, manifest_error) result" where
  "parse_manifest_dependencies crate item package_name =
     (case item of
        None \<Rightarrow> Inr []
      | Some item \<Rightarrow>
          (case as_table item of
             None \<Rightarrow> Inl (InvalidType ''[dependencies]'' ''a table'')
           | Some table \<Rightarrow> res_map collect_map (try_map (manifest_dependency crate package_name) table)))"

definition parse_manifest_str ::
  "(string \<Rightarrow> (toml_table, string) result) \<Rightarrow> 'h url_crate \<Rightarrow> string \<Rightarrow> ('h package_manifest, manifest_error) result" where
  "parse_manifest_str toml_parse crate content =
     res_bind (map_err TomlParseError (toml_parse content)) (\<lambda>table.
     res_bind (reject_unknown_fields table [''package'', ''dependencies'', ''plugins''] ''graphcal.toml'') (\<lambda>_.
     res_bind (case map_of table ''package'' of
         Some (TomlTable package) \<Rightarrow> Inr package
       | Some _ \<Rightarrow> Inl (InvalidType ''[package]'' ''a table'')
       | None \<Rightarrow> Inl (MissingField ''[package].name'')) (\<lambda>package.
     res_bind (reject_unknown_fields package [''name'', ''source_dir''] ''[package]'') (\<lambda>_.
     res_bind (manifest_required_string package ''name'' ''[package].name'') (\<lambda>name_text.
     res_bind (map_err InvalidPackageName (package_name_new name_text)) (\<lambda>name.
     res_bind (manifest_optional_string package ''source_dir'' ''[package].source_dir'') (\<lambda>dir.
     res_bind (parse_source_dir (case dir of None \<Rightarrow> ''src'' | Some dir \<Rightarrow> dir)) (\<lambda>source_dir.
     res_bind (parse_manifest_dependencies crate (map_of table ''dependencies'') name) (\<lambda>dependencies.
     res_map (\<lambda>policy. \<lparr>pm_name = name, pm_source_dir = source_dir, pm_dependencies = dependencies, pm_policy = policy\<rparr>)
       (parse_plugin_execution_policy (map_of table ''plugins'')))))))))))"

section \<open>Accepted manifests\<close>

text \<open>The invariants of the manifest's types: the constructors accept what it holds.\<close>

definition url_accepted :: "'h url_crate \<Rightarrow> 'h git_url \<Rightarrow> bool" where
  "url_accepted crate url \<longleftrightarrow> (\<exists>text. git_url_new crate text = Inr url)"

definition spec_ok :: "'h url_crate \<Rightarrow> 'h dependency_spec \<Rightarrow> bool" where
  "spec_ok crate spec \<longleftrightarrow>
     (case ds_package spec of None \<Rightarrow> True | Some name \<Rightarrow> is_valid_name name) \<and>
     url_accepted crate (gd_url (ds_git spec)) \<and> git_commit_new (gd_rev (ds_git spec)) = Inr (gd_rev (ds_git spec))"

definition fuel_ok :: "nat \<Rightarrow> bool" where
  "fuel_ok n \<longleftrightarrow> 0 < n \<and> n \<le> max_plugin_fuel"

definition policy_ok :: "plugin_policy \<Rightarrow> bool" where
  "policy_ok policy \<longleftrightarrow>
     (case pp_default_fuel policy of None \<Rightarrow> True | Some n \<Rightarrow> fuel_ok n) \<and> bt_ok (pp_function_limits policy) \<and>
     (\<forall>((plugin, fn), n) \<in> set (pp_function_limits policy).
        portable_path plugin \<and> plugin_function_new fn = Inr fn \<and> fuel_ok n)"

definition manifest_ok :: "'h url_crate \<Rightarrow> 'h package_manifest \<Rightarrow> bool" where
  "manifest_ok crate m \<longleftrightarrow>
     is_valid_name (pm_name m) \<and> portable_path (pm_source_dir m) \<and> bt_ok (pm_dependencies m) \<and>
     (\<forall>(alias, spec) \<in> set (pm_dependencies m). is_valid_name alias \<and> alias \<noteq> pm_name m \<and> spec_ok crate spec) \<and>
     policy_ok (pm_policy m)"

lemma try_map_in_result: "try_map f xs = Inr ys \<Longrightarrow> y \<in> set ys \<Longrightarrow> \<exists>x \<in> set xs. f x = Inr y"
  by (induction xs arbitrary: ys) (auto simp: result_iffs)

lemma collect_map_ok: "bt_ok (collect_map kvs) \<and> set (collect_map kvs) \<subseteq> set kvs"
proof -
  have "bt_ok m \<Longrightarrow> bt_ok (foldl (\<lambda>m (k, v). bt_insert k v m) m kvs) \<and>
      set (foldl (\<lambda>m (k, v). bt_insert k v m) m kvs) \<subseteq> set m \<union> set kvs" for m :: "('a, 'b) btree"
  proof (induction kvs arbitrary: m)
    case (Cons kv kvs)
    obtain k v where kv: "kv = (k, v)" by (cases kv)
    have "bt_ok (bt_insert k v m)" using Cons.prems by simp
    from Cons.IH [OF this] set_bt_insert [of k v m] show ?case by (auto simp: kv)
  qed simp
  from this [of "[]"] show ?thesis by (simp add: collect_map_def bt_ok_def)
qed

lemma parse_plugin_fuel_ok: "parse_plugin_fuel item field = Inr n \<Longrightarrow> fuel_ok n"
  by (auto simp: parse_plugin_fuel_def fuel_ok_def plugin_fuel_new_def u64_of_i64_def result_iffs
      split: toml_value.splits if_splits option.splits sum.splits)

lemma function_limit_ok:
  assumes "function_limit limits indexed = Inr limits'" "policy_ok \<lparr>pp_default_fuel = d, pp_function_limits = limits\<rparr>"
  shows "policy_ok \<lparr>pp_default_fuel = d, pp_function_limits = limits'\<rparr>"
proof -
  obtain index entry where indexed: "indexed = (index, entry)" by (cases indexed)
  from assms(1) obtain plugin_text plugin fn_text fn n field fuel where
    parts: "plugin_path_new plugin_text = Inr plugin" "plugin_function_new fn_text = Inr fn" "parse_plugin_fuel fuel field = Inr n"
    "limits' = bt_insert (plugin, fn) n limits"
    by (auto simp: function_limit_def indexed result_iffs split: option.splits if_splits)
  from parts(1) have "portable_path plugin" by (simp add: plugin_path_new_iff)
  moreover from parts(2) have "plugin_function_new fn = Inr fn" by (auto simp: plugin_function_new_def split: if_splits)
  moreover have "fuel_ok n" using parts(3) by (rule parse_plugin_fuel_ok)
  ultimately show ?thesis
    using assms(2) set_bt_insert [of "(plugin, fn)" n limits] unfolding parts(4) policy_ok_def by auto
qed

lemma parse_plugin_execution_policy_ok:
  assumes "parse_plugin_execution_policy item = Inr policy"
  shows "policy_ok policy"
proof (cases item)
  case None
  with assms show ?thesis by (auto simp: parse_plugin_execution_policy_def policy_ok_def bt_ok_def)
next
  case (Some item)
  with assms obtain table d limits where
    d: "default_fuel_per_call table = Inr d" and limits: "function_limits_of table = Inr limits"
    and policy: "policy = \<lparr>pp_default_fuel = d, pp_function_limits = limits\<rparr>"
    by (auto simp: parse_plugin_execution_policy_def result_iffs split: option.splits)
  have d_ok: "case d of None \<Rightarrow> True | Some n \<Rightarrow> fuel_ok n"
    using d parse_plugin_fuel_ok by (auto simp: default_fuel_per_call_def result_iffs split: option.splits)
  then have empty: "policy_ok \<lparr>pp_default_fuel = d, pp_function_limits = []\<rparr>" by (simp add: policy_ok_def bt_ok_def)
  have "limits = [] \<or> (\<exists>entries. try_fold function_limit [] (enumerate 0 entries) = Inr limits)"
  proof (cases "map_of table ''function_limits''")
    case (Some v)
    with limits show ?thesis by (cases v) (auto simp: function_limits_of_def)
  qed (use limits in \<open>simp add: function_limits_of_def\<close>)
  then show ?thesis
  proof (elim disjE exE)
    assume "limits = []"
    with empty policy show ?thesis by simp
  next
    fix entries assume 2: "try_fold function_limit [] (enumerate 0 entries) = Inr limits"
    have "policy_ok \<lparr>pp_default_fuel = d, pp_function_limits = limits\<rparr>"
      by (rule try_fold_invariant [OF 2, where P = "\<lambda>l. policy_ok \<lparr>pp_default_fuel = d, pp_function_limits = l\<rparr>"])
        (use empty function_limit_ok in blast)+
    with policy show ?thesis by simp
  qed
qed

lemma parse_dependency_spec_ok:
  assumes "parse_dependency_spec crate dependency item = Inr spec"
  shows "spec_ok crate spec"
proof -
  from assms obtain spelled revision where "git_url_new crate spelled = Inr (gd_url (ds_git spec))"
    "git_commit_new revision = Inr (gd_rev (ds_git spec))"
    "case ds_package spec of None \<Rightarrow> True | Some name \<Rightarrow> is_valid_name name"
    by (auto simp: parse_dependency_spec_def result_iffs package_name_new_def split: option.splits toml_value.splits if_splits)
  with git_commit_canonical show ?thesis by (auto simp: spec_ok_def url_accepted_def)
qed

lemma manifest_dependency_ok:
  "manifest_dependency crate name entry = Inr (alias, spec) \<Longrightarrow> is_valid_name alias \<and> alias \<noteq> name \<and> spec_ok crate spec"
  by (auto simp: manifest_dependency_def dependency_name_new_def result_iffs split: prod.splits if_splits
      dest: parse_dependency_spec_ok)

lemma parse_manifest_dependencies_ok:
  assumes "parse_manifest_dependencies crate item name = Inr deps"
  shows "bt_ok deps \<and> (\<forall>(alias, spec) \<in> set deps. is_valid_name alias \<and> alias \<noteq> name \<and> spec_ok crate spec)"
proof -
  have "deps = [] \<or> (\<exists>table kvs. try_map (manifest_dependency crate name) table = Inr kvs \<and> deps = collect_map kvs)"
    using assms by (auto simp: parse_manifest_dependencies_def result_iffs split: option.splits)
  then show ?thesis
  proof (elim disjE exE conjE)
    fix table kvs assume kvs: "try_map (manifest_dependency crate name) table = Inr kvs" "deps = collect_map kvs"
    have "is_valid_name a \<and> a \<noteq> name \<and> spec_ok crate s" if entry: "(a, s) \<in> set kvs" for a s
    proof -
      from try_map_in_result [OF kvs(1) entry] show ?thesis by (elim bexE manifest_dependency_ok)
    qed
    with collect_map_ok [of kvs] show ?thesis unfolding kvs(2) by blast
  qed (simp add: bt_ok_def)
qed

lemma parse_manifest_ok:
  assumes "parse_manifest_str toml_parse crate content = Inr m"
  shows "manifest_ok crate m"
proof -
  from assms obtain name_text table dir_text where
    name: "package_name_new name_text = Inr (pm_name m)" and dir: "parse_source_dir dir_text = Inr (pm_source_dir m)"
    and deps: "parse_manifest_dependencies crate (map_of table ''dependencies'') (pm_name m) = Inr (pm_dependencies m)"
    and policy: "parse_plugin_execution_policy (map_of table ''plugins'') = Inr (pm_policy m)"
    by (auto simp: parse_manifest_str_def result_iffs)
  from name have "is_valid_name (pm_name m)" by (auto simp: package_name_new_def split: if_splits)
  moreover from dir have "portable_path (pm_source_dir m)" by (auto simp: parse_source_dir_def result_iffs source_dir_new_iff)
  ultimately show ?thesis
    using parse_manifest_dependencies_ok [OF deps] parse_plugin_execution_policy_ok [OF policy] by (simp add: manifest_ok_def)
qed

end
