(* ===== verification/Package_Lock.thy ===== *)
theory Package_Lock
  imports Package_Manifest Checked_Type Dep_Graph
begin

text \<open>
  Lockfiles (\<open>graphcal-package/src/lib.rs\<close>: \<open>Lockfile::validated\<close> and its checks). A lockfile lists
  package instances with their direct dependencies. The lemmas show that validation accepts exactly the
  lockfiles whose packages form a well-formed, acyclic graph reachable from the root, and that every
  rejection names a fault the lockfile has.
\<close>

section \<open>Lockfiles\<close>

datatype 'h package_source = RootSource | GitSource "'h git_url" string string digest

datatype 'h canonical_source = CanonicalRoot | CanonicalGit "'h git_url" string

fun canonical_key :: "'h package_source \<Rightarrow> 'h canonical_source" where
  "canonical_key RootSource = CanonicalRoot"
| "canonical_key (GitSource url _ revision _) = CanonicalGit url revision"

record 'h locked_package =
  lp_id :: string
  lp_name :: string
  lp_source_dir :: "string list"
  lp_source :: "'h package_source"
  lp_dependencies :: "(string, string) btree"

record locked_plugin =
  pl_path :: "string list"
  pl_sha256 :: digest

record 'h lockfile =
  lk_version :: nat
  lk_created_by :: string
  lk_graphcal_version :: string
  lk_stdlib_version :: string
  lk_root :: string
  lk_packages :: "'h locked_package list"
  lk_plugins :: "locked_plugin list"

definition lock_version :: nat where
  "lock_version = 1"

text \<open>\<open>CanonicalPackageInstance\<close>: name, source directory, canonical source and dependencies.\<close>

definition canonical_instance ::
  "'h locked_package \<Rightarrow> string \<times> string list \<times> 'h canonical_source \<times> (string, string) btree" where
  "canonical_instance p = (lp_name p, lp_source_dir p, canonical_key (lp_source p), lp_dependencies p)"

record 'h digest_conflict =
  dc_first :: string
  dc_second :: string
  dc_url :: "'h git_url"
  dc_commit :: string
  dc_first_digest :: digest
  dc_second_digest :: digest

datatype 'h lock_error =
    UnsupportedLockVersion nat
  | GraphcalVersionMismatch string string
  | StdlibVersionMismatch string string
  | DuplicatePackageId string
  | MissingRoot string
  | RootPackageMustUseRootSource string
  | RootSourceOnDependency string
  | MissingDependencyTarget string string string
  | SelfDependencyAlias string string
  | LockedCycle string "string list"
  | UnreachablePackage string
  | ConflictingGitSourceDigest "'h digest_conflict"
  | DuplicateCanonicalPackage string string
  | DuplicatePluginPath string
  | MissingPackageManifest string
  | ManifestWithoutLockedPackage string
  | LockedManifestNameMismatch string string string
  | LockedManifestSourceDirectoryMismatch string "string list" "string list"
  | UndeclaredDependencyEdge string string
  | MissingDependencyEdge string string
  | PackageNameMismatch string string string string string
  | DependencySourceMismatch string string

text \<open>Packages by identity; a later entry replaces an earlier one.\<close>

definition package_table :: "'h locked_package list \<Rightarrow> string \<Rightarrow> 'h locked_package option" where
  "package_table packages = foldl (\<lambda>m p. m(lp_id p \<mapsto> p)) Map.empty packages"

section \<open>Checks of single packages\<close>

definition check_entry :: "string set \<Rightarrow> 'h locked_package \<Rightarrow> (string set, 'h lock_error) result" where
  "check_entry ids p =
     (if lp_id p \<in> ids then Inl (DuplicatePackageId (lp_id p))
      else if map_of (lp_dependencies p) (lp_name p) \<noteq> None then Inl (SelfDependencyAlias (lp_id p) (lp_name p))
      else Inr (insert (lp_id p) ids))"

definition check_source :: "string \<Rightarrow> unit \<Rightarrow> 'h locked_package \<Rightarrow> (unit, 'h lock_error) result" where
  "check_source root_id _ p =
     (case (lp_id p = root_id, lp_source p) of
        (True, RootSource) \<Rightarrow> Inr ()
      | (False, GitSource _ _ _ _) \<Rightarrow> Inr ()
      | (True, GitSource _ _ _ _) \<Rightarrow> Inl (RootPackageMustUseRootSource (lp_id p))
      | (False, RootSource) \<Rightarrow> Inl (RootSourceOnDependency (lp_id p)))"

definition check_targets :: "string set \<Rightarrow> unit \<Rightarrow> 'h locked_package \<Rightarrow> (unit, 'h lock_error) result" where
  "check_targets ids _ p =
     try_fold (\<lambda>_ (dependency, target).
         if target \<notin> ids then Inl (MissingDependencyTarget (lp_id p) dependency target) else Inr ())
       () (lp_dependencies p)"

section \<open>Dependency cycles\<close>

text \<open>The depth-first search. A frame is a package with the dependencies it has not tried, innermost
  first; \<open>positions\<close> counts the frames of the packages being visited from the outermost.\<close>

type_synonym lock_frame = "string \<times> (string \<times> string) list"

definition lock_weight :: "'h locked_package list \<Rightarrow> string set \<Rightarrow> nat" where
  "lock_weight packages seen = (\<Sum>p \<leftarrow> packages. if lp_id p \<in> seen then 0 else length (lp_dependencies p) + 2)"

lemma lock_weight_mono: "A \<subseteq> B \<Longrightarrow> lock_weight packages B \<le> lock_weight packages A"
  unfolding lock_weight_def by (induction packages) (auto intro!: add_mono)

lemma package_table_in: "package_table packages k = Some p \<Longrightarrow> p \<in> set packages \<and> lp_id p = k"
proof -
  have "foldl (\<lambda>m p. m(lp_id p \<mapsto> p)) m packages k = Some p \<Longrightarrow> m k = Some p \<or> p \<in> set packages \<and> lp_id p = k" for m
    by (induction packages arbitrary: m) (fastforce split: if_splits)+
  then show "package_table packages k = Some p \<Longrightarrow> ?thesis" by (fastforce simp: package_table_def)
qed

lemma lock_weight_insert:
  assumes "p \<in> set packages" "lp_id p \<notin> seen"
  shows "lock_weight packages (insert (lp_id p) seen) + (length (lp_dependencies p) + 2) \<le> lock_weight packages seen"
  using assms(1)
proof (induction packages)
  case (Cons q packages)
  show ?case
  proof (cases "p = q")
    case True
    have "lock_weight packages (insert (lp_id p) seen) \<le> lock_weight packages seen" by (rule lock_weight_mono) blast
    with True assms(2) show ?thesis by (simp add: lock_weight_def)
  next
    case False
    with Cons show ?thesis by (simp add: lock_weight_def)
  qed
qed simp

function lock_dfs ::
  "'h locked_package list \<Rightarrow> string set \<Rightarrow> (string \<Rightarrow> nat option) \<Rightarrow> lock_frame list \<Rightarrow>
   (string set \<times> (string \<Rightarrow> nat option), 'h lock_error) result" where
  "lock_dfs packages visited positions [] = Inr (visited, positions)"
| "lock_dfs packages visited positions ((current, []) # stack) =
     lock_dfs packages (insert current visited) (positions(current := None)) stack"
| "lock_dfs packages visited positions ((current, (dependency, target) # rest) # stack) =
     (if target \<in> visited then lock_dfs packages visited positions ((current, rest) # stack)
      else case positions target of
          Some start \<Rightarrow> Inl (LockedCycle target (map fst (drop (start + 1) (rev ((current, rest) # stack)))))
        | None \<Rightarrow>
            (case package_table packages target of
               Some p \<Rightarrow>
                 lock_dfs packages visited (positions(target \<mapsto> length stack + 1))
                   ((lp_id p, lp_dependencies p) # (current, rest) # stack)
             | None \<Rightarrow> Inl (MissingDependencyTarget current dependency target)))"
  by pat_completeness auto
termination
proof (relation "measure (\<lambda>(packages, visited, positions, stack).
    lock_weight packages (visited \<union> dom positions) + (\<Sum>(_, ds) \<leftarrow> stack. length ds + 1))")
  fix packages :: "'h locked_package list" and visited :: "string set" and positions :: "string \<Rightarrow> nat option"
    and current and stack :: "lock_frame list"
  have "visited \<union> dom positions \<subseteq> insert current visited \<union> dom (positions(current := None))" by auto
  from lock_weight_mono [OF this, of packages]
  show "((packages, insert current visited, positions(current := None), stack), (packages, visited, positions, (current, []) # stack)) \<in>
      measure (\<lambda>(packages, visited, positions, stack).
        lock_weight packages (visited \<union> dom positions) + (\<Sum>(_, ds) \<leftarrow> stack. length ds + 1))" by simp
next
  fix packages :: "'h locked_package list" and visited :: "string set" and positions :: "string \<Rightarrow> nat option"
    and current dependency target rest and stack :: "lock_frame list" and p
  assume "target \<notin> visited" "positions target = None" "package_table packages target = Some p"
  with package_table_in [of packages target p] have p: "p \<in> set packages" "lp_id p = target" "target \<notin> visited \<union> dom positions"
    by auto
  have "visited \<union> dom (positions(target \<mapsto> length stack + 1)) = insert (lp_id p) (visited \<union> dom positions)" using p(2) by auto
  with lock_weight_insert [OF p(1), of "visited \<union> dom positions"] p(2,3)
  show "((packages, visited, positions(target \<mapsto> length stack + 1), (lp_id p, lp_dependencies p) # (current, rest) # stack),
      (packages, visited, positions, (current, (dependency, target) # rest) # stack)) \<in>
      measure (\<lambda>(packages, visited, positions, stack).
        lock_weight packages (visited \<union> dom positions) + (\<Sum>(_, ds) \<leftarrow> stack. length ds + 1))" by simp
qed simp_all

definition dfs_from ::
  "'h locked_package list \<Rightarrow> string set \<times> (string \<Rightarrow> nat option) \<Rightarrow> 'h locked_package \<Rightarrow>
   (string set \<times> (string \<Rightarrow> nat option), 'h lock_error) result" where
  "dfs_from packages s p =
     (case s of (visited, positions) \<Rightarrow>
        if lp_id p \<in> visited then Inr s
        else lock_dfs packages visited (positions(lp_id p \<mapsto> 0)) [(lp_id p, lp_dependencies p)])"

definition reject_dependency_cycles :: "'h locked_package list \<Rightarrow> (unit, 'h lock_error) result" where
  "reject_dependency_cycles packages = res_map (\<lambda>_. ()) (try_fold (dfs_from packages) ({}, Map.empty) packages)"

section \<open>Unreachable packages\<close>

text \<open>The pending packages, the next one first.\<close>

function reach_loop :: "'h locked_package list \<Rightarrow> string set \<Rightarrow> string list \<Rightarrow> string set" where
  "reach_loop packages reachable [] = reachable"
| "reach_loop packages reachable (package_id # pending) =
     (if package_id \<in> reachable then reach_loop packages reachable pending
      else reach_loop packages (insert package_id reachable)
        (case package_table packages package_id of
           Some p \<Rightarrow> rev (map snd (lp_dependencies p)) @ pending
         | None \<Rightarrow> pending))"
  by pat_completeness auto
termination
proof (relation "measure (\<lambda>(packages, reachable, pending). lock_weight packages reachable + length pending)")
  fix packages :: "'h locked_package list" and reachable :: "string set" and k and pending :: "string list"
  assume new: "k \<notin> reachable"
  show "((packages, insert k reachable, case package_table packages k of
        Some p \<Rightarrow> rev (map snd (lp_dependencies p)) @ pending | None \<Rightarrow> pending), packages, reachable, k # pending)
      \<in> measure (\<lambda>(packages, reachable, pending). lock_weight packages reachable + length pending)"
  proof (cases "package_table packages k")
    case None
    have "lock_weight packages (insert k reachable) \<le> lock_weight packages reachable" by (rule lock_weight_mono) blast
    with None show ?thesis by simp
  next
    case (Some p)
    with package_table_in [of packages k p] lock_weight_insert [of p packages reachable] new show ?thesis by auto
  qed
qed simp_all

definition reject_unreachable_packages :: "'h lockfile \<Rightarrow> (unit, 'h lock_error) result" where
  "reject_unreachable_packages l =
     (let reachable = reach_loop (lk_packages l) {} [lk_root l] in
      case iter_min (filter (\<lambda>package_id. package_id \<notin> reachable) (map lp_id (lk_packages l))) of
        None \<Rightarrow> Inr ()
      | Some package_id \<Rightarrow> Inl (UnreachablePackage package_id))"

section \<open>Conflicts and duplicates\<close>

definition check_digest ::
  "('h git_url \<times> string \<Rightarrow> (digest \<times> string) option) \<Rightarrow> 'h locked_package \<Rightarrow>
   ('h git_url \<times> string \<Rightarrow> (digest \<times> string) option, 'h lock_error) result" where
  "check_digest sources p =
     (case lp_source p of
        RootSource \<Rightarrow> Inr sources
      | GitSource url _ revision sha256 \<Rightarrow>
          (case sources (url, revision) of
             Some (expected, first) \<Rightarrow>
               if expected \<noteq> sha256 then
                 Inl (ConflictingGitSourceDigest \<lparr>dc_first = first, dc_second = lp_id p, dc_url = url, dc_commit = revision,
                   dc_first_digest = expected, dc_second_digest = sha256\<rparr>)
               else Inr sources
           | None \<Rightarrow> Inr (sources((url, revision) \<mapsto> (sha256, lp_id p)))))"

definition reject_conflicting_git_source_hashes :: "'h locked_package list \<Rightarrow> (unit, 'h lock_error) result" where
  "reject_conflicting_git_source_hashes packages = res_map (\<lambda>_. ()) (try_fold check_digest Map.empty packages)"

definition check_canonical ::
  "(string \<times> string list \<times> 'h canonical_source \<times> (string, string) btree \<Rightarrow> string option) \<Rightarrow> 'h locked_package \<Rightarrow>
   (string \<times> string list \<times> 'h canonical_source \<times> (string, string) btree \<Rightarrow> string option, 'h lock_error) result" where
  "check_canonical canonical p =
     (case canonical (canonical_instance p) of
        Some existing \<Rightarrow> Inl (DuplicateCanonicalPackage existing (lp_id p))
      | None \<Rightarrow> Inr (canonical(canonical_instance p \<mapsto> lp_id p)))"

definition reject_duplicate_canonical_instances :: "'h locked_package list \<Rightarrow> (unit, 'h lock_error) result" where
  "reject_duplicate_canonical_instances packages = res_map (\<lambda>_. ()) (try_fold check_canonical Map.empty packages)"

definition check_plugin :: "string list set \<Rightarrow> locked_plugin \<Rightarrow> (string list set, 'h lock_error) result" where
  "check_plugin paths plugin =
     (if pl_path plugin \<in> paths then Inl (DuplicatePluginPath (path_display (pl_path plugin)))
      else Inr (insert (pl_path plugin) paths))"

section \<open>Validation\<close>

definition lock_validated :: "'h lockfile \<Rightarrow> string \<Rightarrow> string \<Rightarrow> ('h lockfile, 'h lock_error) result" where
  "lock_validated l graphcal_version stdlib_version =
     (if lk_version l \<noteq> lock_version then Inl (UnsupportedLockVersion (lk_version l))
      else if lk_graphcal_version l \<noteq> graphcal_version then
        Inl (GraphcalVersionMismatch (lk_graphcal_version l) graphcal_version)
      else if lk_stdlib_version l \<noteq> stdlib_version then Inl (StdlibVersionMismatch (lk_stdlib_version l) stdlib_version)
      else
        res_bind (try_fold check_entry {} (lk_packages l)) (\<lambda>ids.
        if lk_root l \<notin> ids then Inl (MissingRoot (lk_root l))
        else
          res_bind (try_fold (check_source (lk_root l)) () (lk_packages l)) (\<lambda>_.
          res_bind (try_fold (check_targets ids) () (lk_packages l)) (\<lambda>_.
          res_bind (reject_dependency_cycles (lk_packages l)) (\<lambda>_.
          res_bind (reject_unreachable_packages l) (\<lambda>_.
          res_bind (reject_conflicting_git_source_hashes (lk_packages l)) (\<lambda>_.
          res_bind (reject_duplicate_canonical_instances (lk_packages l)) (\<lambda>_.
          res_map (\<lambda>_. l) (try_fold check_plugin {} (lk_plugins l))))))))))"

section \<open>The dependency graph\<close>

definition package_edge :: "'h locked_package list \<Rightarrow> string \<Rightarrow> string \<Rightarrow> bool" where
  "package_edge packages a b \<longleftrightarrow> (\<exists>p \<in> set packages. lp_id p = a \<and> b \<in> snd ` set (lp_dependencies p))"

lemma foldl_table:
  "distinct (map lp_id packages) \<Longrightarrow> foldl (\<lambda>m p. m(lp_id p \<mapsto> p)) m packages k =
    (case find (\<lambda>p. lp_id p = k) packages of Some p \<Rightarrow> Some p | None \<Rightarrow> m k)"
proof (induction packages arbitrary: m)
  case (Cons p packages)
  have "find (\<lambda>p. lp_id p = k) packages = None" if "lp_id p = k"
  proof -
    have "lp_id x \<noteq> k" if "x \<in> set packages" for x
      using Cons.prems that \<open>lp_id p = k\<close> by (metis distinct.simps(2) imageI list.set_map list.simps(9))
    then show ?thesis by (simp add: find_None_iff)
  qed
  with Cons show ?case by auto
qed simp

lemma package_table_iff:
  assumes "distinct (map lp_id packages)"
  shows "package_table packages k = Some p \<longleftrightarrow> p \<in> set packages \<and> lp_id p = k"
proof
  show "package_table packages k = Some p \<Longrightarrow> p \<in> set packages \<and> lp_id p = k" by (rule package_table_in)
  assume p: "p \<in> set packages \<and> lp_id p = k"
  then obtain q where "find (\<lambda>p. lp_id p = k) packages = Some q"
    by (cases "find (\<lambda>p. lp_id p = k) packages") (auto simp: find_None_iff)
  then have q: "package_table packages k = Some q" using foldl_table [OF assms] by (simp add: package_table_def)
  with package_table_in [OF q] p assms have "q = p" by (auto simp: distinct_map dest: inj_onD)
  with q show "package_table packages k = Some p" by simp
qed

lemma package_edge_of:
  assumes "distinct (map lp_id packages)" "p \<in> set packages"
  shows "package_edge packages (lp_id p) w \<longleftrightarrow> w \<in> snd ` set (lp_dependencies p)"
  using assms by (auto simp: package_edge_def distinct_map dest: inj_onD)

text \<open>The packages that are done: closed under dependencies and on no cycle.\<close>

definition dfs_done :: "(string \<Rightarrow> string \<Rightarrow> bool) \<Rightarrow> string set \<Rightarrow> bool" where
  "dfs_done R visited \<longleftrightarrow> (\<forall>v \<in> visited. (\<forall>w. R v w \<longrightarrow> w \<in> visited) \<and> \<not> R\<^sup>+\<^sup>+ v v)"

lemma closed_trancl: "\<forall>v \<in> A. \<forall>w. R v w \<longrightarrow> w \<in> A \<Longrightarrow> v \<in> A \<Longrightarrow> R\<^sup>+\<^sup>+ v w \<Longrightarrow> w \<in> A"
  by (erule tranclp_induct) blast+

lemma closed_rtrancl: "\<forall>v \<in> A. \<forall>w. R v w \<longrightarrow> w \<in> A \<Longrightarrow> v \<in> A \<Longrightarrow> R\<^sup>*\<^sup>* v w \<Longrightarrow> w \<in> A"
  by (erule rtranclp_induct) blast+

lemma dfs_done_insert:
  assumes ok: "dfs_done R visited" and new: "p \<notin> visited" and deps: "\<And>w. R p w \<Longrightarrow> w \<in> visited"
  shows "dfs_done R (insert p visited)"
proof -
  have closed: "\<forall>v \<in> visited. \<forall>w. R v w \<longrightarrow> w \<in> visited" using ok by (auto simp: dfs_done_def)
  have "\<not> R\<^sup>+\<^sup>+ p p"
  proof
    assume "R\<^sup>+\<^sup>+ p p"
    then obtain w where w: "R p w" "R\<^sup>*\<^sup>* w p" by (auto dest: tranclpD)
    from closed_rtrancl [OF closed deps [OF w(1)] w(2)] new show False by simp
  qed
  with ok deps show ?thesis unfolding dfs_done_def by blast
qed

text \<open>The frames: a dependency of a frame's package is done, still to try, or the package of the frame
  inside it.\<close>

fun frames_ok :: "(string \<Rightarrow> string \<Rightarrow> bool) \<Rightarrow> string set \<Rightarrow> string option \<Rightarrow> lock_frame list \<Rightarrow> bool" where
  "frames_ok R visited child [] = True"
| "frames_ok R visited child ((p, rest) # stack) =
     ((\<forall>w. R p w \<longrightarrow> w \<in> visited \<or> w \<in> snd ` set rest \<or> child = Some w) \<and> (\<forall>w \<in> snd ` set rest. R p w) \<and>
      (\<forall>c. child = Some c \<longrightarrow> R p c) \<and> frames_ok R visited (Some p) stack)"

lemma frames_ok_mono: "frames_ok R V child stack \<Longrightarrow> V \<subseteq> W \<Longrightarrow> frames_ok R W child stack"
  by (induction R V child stack rule: frames_ok.induct) auto

lemma frames_ok_pop: "frames_ok R V (Some p) stack \<Longrightarrow> frames_ok R (insert p V) None stack"
  by (cases stack) (auto intro: frames_ok_mono)

lemma frames_ok_successively:
  "frames_ok R V child stack \<Longrightarrow> successively (\<lambda>a b. R b a) (map fst stack)"
proof (induction stack arbitrary: child)
  case (Cons f stack)
  obtain p rest where f: "f = (p, rest)" by (cases f)
  from Cons.prems have "frames_ok R V (Some p) stack" by (simp add: f)
  with Cons.IH [OF this] show ?case by (cases stack) (auto simp: f)
qed simp

definition positions_ok :: "(string \<Rightarrow> nat option) \<Rightarrow> string list \<Rightarrow> bool" where
  "positions_ok positions path \<longleftrightarrow> distinct path \<and> (\<forall>k i. positions k = Some i \<longleftrightarrow> i < length path \<and> path ! i = k)"

lemma positions_ok_push:
  assumes "positions_ok positions path" "k \<notin> set path"
  shows "positions_ok (positions(k \<mapsto> length path)) (path @ [k])"
  using assms by (auto simp: positions_ok_def nth_append less_Suc_eq split: if_splits)

lemma positions_ok_pop:
  assumes "positions_ok positions (path @ [k])"
  shows "positions_ok (positions(k := None)) path"
proof -
  have "positions k' = Some i \<longleftrightarrow> i < Suc (length path) \<and> (path @ [k]) ! i = k'" for k' i
    using assms by (simp add: positions_ok_def)
  moreover have "i < length path \<Longrightarrow> path ! i \<noteq> k" for i using assms by (auto simp: positions_ok_def)
  moreover have "distinct path" using assms by (simp add: positions_ok_def)
  ultimately show ?thesis by (auto simp: positions_ok_def nth_append less_Suc_eq split: if_splits)
qed

lemma positions_ok_dom: "positions_ok positions path \<Longrightarrow> dom positions = set path"
  by (auto simp: positions_ok_def in_set_conv_nth dom_def)

lemma successively_cycle:
  assumes "successively R c" "c \<noteq> []" "distinct c" "R (last c) (hd c)"
  shows "dependency_cycle R c"
  using assms by (auto simp: dependency_cycle_def successively_conv_nth)

lemma positions_cycle:
  assumes chain: "successively R path" and positions: "positions_ok positions path" "positions target = Some start"
    and closing: "path \<noteq> []" "R (last path) target"
  shows "dependency_cycle R (target # drop (start + 1) path)"
proof -
  have start: "start < length path" "path ! start = target" using positions by (auto simp: positions_ok_def)
  then have c: "target # drop (start + 1) path = drop start path" by (metis Cons_nth_drop_Suc Suc_eq_plus1)
  have "successively R (take start path @ drop start path)" using chain by simp
  then have "successively R (drop start path)" unfolding successively_append_iff by blast
  moreover have "drop start path \<noteq> []" "distinct (drop start path)" "last (drop start path) = last path"
    "hd (drop start path) = target"
    using start positions(1) by (simp_all add: positions_ok_def last_drop hd_drop_conv_nth)
  ultimately show ?thesis unfolding c using closing(2) by (intro successively_cycle) simp_all
qed

section \<open>The search is right\<close>

definition dfs_state_ok ::
  "'h locked_package list \<Rightarrow> string set \<Rightarrow> (string \<Rightarrow> nat option) \<Rightarrow> lock_frame list \<Rightarrow> bool" where
  "dfs_state_ok packages visited positions stack \<longleftrightarrow>
     dfs_done (package_edge packages) visited \<and> frames_ok (package_edge packages) visited None stack \<and>
     positions_ok positions (rev (map fst stack)) \<and> set (map fst stack) \<inter> visited = {}"

definition dfs_result ::
  "'h locked_package list \<Rightarrow> string set \<Rightarrow> (string set \<times> (string \<Rightarrow> nat option), 'h lock_error) result \<Rightarrow> bool" where
  "dfs_result packages need r \<longleftrightarrow>
     (case r of
        Inl e \<Rightarrow> \<exists>start successors. e = LockedCycle start successors \<and>
          dependency_cycle (package_edge packages) (start # successors)
      | Inr (visited, positions) \<Rightarrow>
          positions = Map.empty \<and> need \<subseteq> visited \<and> dfs_done (package_edge packages) visited)"

lemma positions_ok_Nil: "positions_ok positions [] \<longleftrightarrow> positions = Map.empty"
  by (auto simp: positions_ok_def fun_eq_iff)

lemma lock_dfs_ok:
  assumes distinct: "distinct (map lp_id packages)"
    and targets: "\<forall>a b. package_edge packages a b \<longrightarrow> b \<in> lp_id ` set packages"
    and ok: "dfs_state_ok packages visited positions stack"
  shows "dfs_result packages (visited \<union> set (map fst stack)) (lock_dfs packages visited positions stack)"
  using assms
proof (induction packages visited positions stack rule: lock_dfs.induct)
  case (1 packages visited positions)
  then show ?case by (simp add: dfs_result_def dfs_state_ok_def positions_ok_Nil)
next
  case (2 packages visited positions current stack)
  let ?R = "package_edge packages"
  have ok: "dfs_done ?R visited" "frames_ok ?R visited None ((current, []) # stack)"
    "positions_ok positions (rev (map fst stack) @ [current])" "current \<notin> visited" "set (map fst stack) \<inter> visited = {}"
    using 2(4) by (auto simp: dfs_state_ok_def)
  have "dfs_done ?R (insert current visited)" using ok(1,2,4) by (intro dfs_done_insert) auto
  moreover have "frames_ok ?R (insert current visited) None stack" using ok(2) by (auto intro: frames_ok_pop)
  moreover have "current \<notin> set (map fst stack)" using ok(3) by (simp add: positions_ok_def)
  ultimately have "dfs_state_ok packages (insert current visited) (positions(current := None)) stack"
    using positions_ok_pop [OF ok(3)] ok(5) by (auto simp: dfs_state_ok_def)
  from 2(1) [OF 2(2,3) this] show ?case by (simp del: fun_upd_apply)
next
  case (3 packages visited positions current dependency target rest stack)
  let ?R = "package_edge packages"
  have ok: "dfs_done ?R visited" "frames_ok ?R visited None ((current, (dependency, target) # rest) # stack)"
    "positions_ok positions (rev (map fst stack) @ [current])" "insert current (set (map fst stack)) \<inter> visited = {}"
    using 3(5) by (simp_all add: dfs_state_ok_def)
  have edge: "?R current target" using ok(2) by simp
  show ?case
  proof (cases "target \<in> visited")
    case True
    have "frames_ok ?R visited None ((current, rest) # stack)" using ok(2) True by auto
    with ok have "dfs_state_ok packages visited positions ((current, rest) # stack)" by (simp add: dfs_state_ok_def)
    from 3(1) [OF True 3(3,4) this] True show ?thesis by simp
  next
    case new: False
    show ?thesis
    proof (cases "positions target")
      case (Some start)
      have "successively ?R (rev (map fst ((current, (dependency, target) # rest) # stack)))"
        unfolding successively_rev by (rule frames_ok_successively [OF ok(2)])
      then have "successively ?R (rev (map fst stack) @ [current])" by simp
      from positions_cycle [OF this ok(3) Some] edge
      have "dependency_cycle ?R (target # drop (start + 1) (rev (map fst stack) @ [current]))" by simp
      moreover have "map fst (drop (start + 1) (rev ((current, rest) # stack))) = drop (start + 1) (rev (map fst stack) @ [current])"
        by (simp only: drop_map [symmetric] rev_map map_append list.map fst_conv rev.simps)
      ultimately show ?thesis using new Some by (simp add: dfs_result_def)
    next
      case None
      from 3(4) edge obtain p where p: "p \<in> set packages" "lp_id p = target" by blast
      then have table: "package_table packages target = Some p" using 3(3) by (simp add: package_table_iff)
      have "target \<notin> set (rev (map fst stack) @ [current])" using positions_ok_dom [OF ok(3)] None by blast
      from positions_ok_push [OF ok(3) this]
      have "positions_ok (positions(target \<mapsto> length stack + 1)) (rev (map fst ((lp_id p, lp_dependencies p) # (current, rest) # stack)))"
        by (simp add: p(2))
      moreover have "frames_ok ?R visited None ((lp_id p, lp_dependencies p) # (current, rest) # stack)"
        using ok(2) package_edge_of [OF 3(3) p(1)] by (auto simp: p(2))
      ultimately have "dfs_state_ok packages visited (positions(target \<mapsto> length stack + 1))
          ((lp_id p, lp_dependencies p) # (current, rest) # stack)"
        using ok(1,4) new p(2) by (auto simp: dfs_state_ok_def)
      from 3(2) [OF new None table 3(3,4) this]
      have "dfs_result packages (visited \<union> set (map fst ((lp_id p, lp_dependencies p) # (current, rest) # stack)))
          (lock_dfs packages visited positions ((current, (dependency, target) # rest) # stack))"
        using new None table by (simp del: fun_upd_apply)
      then show ?thesis by (auto simp: dfs_result_def split: sum.splits)
    qed
  qed
qed

lemma reject_dependency_cycles_ok:
  assumes distinct: "distinct (map lp_id packages)"
    and targets: "\<forall>a b. package_edge packages a b \<longrightarrow> b \<in> lp_id ` set packages"
  shows "case reject_dependency_cycles packages of
      Inl e \<Rightarrow> \<exists>start successors. e = LockedCycle start successors \<and>
        dependency_cycle (package_edge packages) (start # successors)
    | Inr _ \<Rightarrow> \<forall>a. \<not> (package_edge packages)\<^sup>+\<^sup>+ a a"
proof -
  let ?R = "package_edge packages"
  let ?P = "\<lambda>i s. dfs_result packages (lp_id ` set (take i packages)) (Inr s)"
  let ?E = "\<lambda>e. \<exists>start successors. e = LockedCycle start successors \<and> dependency_cycle ?R (start # successors)"
  have "case try_fold (dfs_from packages) ({}, Map.empty) packages of Inl e \<Rightarrow> ?E e | Inr s \<Rightarrow> ?P (length packages) s"
  proof (rule try_fold_rule [where P = ?P])
    show "?P 0 ({}, Map.empty)" by (simp add: dfs_result_def dfs_done_def)
    fix i and s :: "string set \<times> (string \<Rightarrow> nat option)"
    assume i: "i < length packages" and P: "?P i s"
    obtain visited where s: "s = (visited, Map.empty)" and ok: "lp_id ` set (take i packages) \<subseteq> visited" "dfs_done ?R visited"
      using P by (cases s) (auto simp: dfs_result_def)
    let ?p = "packages ! i"
    have take: "set (take (Suc i) packages) = insert ?p (set (take i packages))" using i by (simp add: take_Suc_conv_app_nth)
    show "case dfs_from packages s ?p of Inl e \<Rightarrow> ?E e | Inr s' \<Rightarrow> ?P (Suc i) s'"
    proof (cases "lp_id ?p \<in> visited")
      case True
      with ok take show ?thesis by (auto simp: dfs_from_def s dfs_result_def)
    next
      case False
      have "dfs_state_ok packages visited [lp_id ?p \<mapsto> 0] [(lp_id ?p, lp_dependencies ?p)]"
        using False ok(2) package_edge_of [OF distinct, of ?p] i
        by (auto simp: dfs_state_ok_def positions_ok_def)
      from lock_dfs_ok [OF distinct targets this] False ok(1) take show ?thesis
        by (auto simp: dfs_from_def s dfs_result_def split: sum.splits prod.splits)
    qed
  qed
  moreover have "\<not> ?R\<^sup>+\<^sup>+ a a" if "?P (length packages) s" for s a
  proof
    assume cycle: "?R\<^sup>+\<^sup>+ a a"
    then obtain b where "?R a b" by (auto dest: tranclpD)
    then have "a \<in> lp_id ` set packages" by (auto simp: package_edge_def)
    with that cycle show False by (cases s) (auto simp: dfs_result_def dfs_done_def)
  qed
  ultimately show ?thesis
    by (cases "try_fold (dfs_from packages) ({}, Map.empty) packages") (auto simp: reject_dependency_cycles_def)
qed

lemma reach_loop_ok:
  assumes distinct: "distinct (map lp_id packages)"
    and "start \<in> reachable \<union> set pending" "\<forall>k \<in> reachable \<union> set pending. (package_edge packages)\<^sup>*\<^sup>* start k"
    and "\<forall>v \<in> reachable. \<forall>w. package_edge packages v w \<longrightarrow> w \<in> reachable \<union> set pending"
  shows "reach_loop packages reachable pending = {k. (package_edge packages)\<^sup>*\<^sup>* start k}"
  using assms
proof (induction packages reachable pending rule: reach_loop.induct)
  case (1 packages reachable)
  have closed: "\<forall>v \<in> reachable. \<forall>w. package_edge packages v w \<longrightarrow> w \<in> reachable" and start: "start \<in> reachable"
    using 1(2,4) by simp_all
  show ?case
  proof (rule set_eqI, rule iffI)
    fix k assume "k \<in> reach_loop packages reachable []"
    with 1(3) show "k \<in> {k. (package_edge packages)\<^sup>*\<^sup>* start k}" by simp
  next
    fix k assume "k \<in> {k. (package_edge packages)\<^sup>*\<^sup>* start k}"
    then have "(package_edge packages)\<^sup>*\<^sup>* start k" by blast
    from closed_rtrancl [OF closed start this] show "k \<in> reach_loop packages reachable []" by simp
  qed
next
  case (2 packages reachable k pending)
  show ?case
  proof (cases "k \<in> reachable")
    case True
    with 2(1) [OF True 2(3)] 2(4-6) show ?thesis by (auto simp: insert_absorb)
  next
    case new: False
    let ?next = "case package_table packages k of Some p \<Rightarrow> rev (map snd (lp_dependencies p)) @ pending | None \<Rightarrow> pending"
    have succ: "w \<in> set ?next \<longleftrightarrow> w \<in> set pending \<or> package_edge packages k w" for w
    proof (cases "package_table packages k")
      case None
      then have "\<not> package_edge packages k w" using package_table_iff [OF 2(3), of k] by (auto simp: package_edge_def)
      with None show ?thesis by simp
    next
      case (Some p)
      then have "p \<in> set packages" "lp_id p = k" using package_table_iff [OF 2(3)] by auto
      with package_edge_of [OF 2(3)] Some show ?thesis by force
    qed
    have "start \<in> insert k reachable \<union> set ?next" using 2(4) succ by auto
    moreover have "\<forall>x \<in> insert k reachable \<union> set ?next. (package_edge packages)\<^sup>*\<^sup>* start x"
      using 2(5) succ by (auto intro: rtranclp.rtrancl_into_rtrancl)
    moreover have "\<forall>v \<in> insert k reachable. \<forall>w. package_edge packages v w \<longrightarrow> w \<in> insert k reachable \<union> set ?next"
      using 2(6) succ by auto
    ultimately show ?thesis using 2(2) [OF new 2(3)] new by simp
  qed
qed

lemma reachable_set:
  assumes "distinct (map lp_id packages)"
  shows "reach_loop packages {} [k] = {j. (package_edge packages)\<^sup>*\<^sup>* k j}"
proof (rule reach_loop_ok [OF assms])
  show "k \<in> {} \<union> set [k]" by simp
  show "\<forall>j \<in> {} \<union> set [k]. (package_edge packages)\<^sup>*\<^sup>* k j" by simp
  show "\<forall>v \<in> {}. \<forall>w. package_edge packages v w \<longrightarrow> w \<in> {} \<union> set [k]" by blast
qed

lemma reject_unreachable_ok:
  assumes "distinct (map lp_id (lk_packages l))"
  shows "case reject_unreachable_packages l of
      Inl e \<Rightarrow> \<exists>k. e = UnreachablePackage k \<and> k \<in> lp_id ` set (lk_packages l) \<and>
        \<not> (package_edge (lk_packages l))\<^sup>*\<^sup>* (lk_root l) k
    | Inr _ \<Rightarrow> \<forall>k \<in> lp_id ` set (lk_packages l). (package_edge (lk_packages l))\<^sup>*\<^sup>* (lk_root l) k"
proof -
  note reach = reachable_set [OF assms, of "lk_root l"]
  let ?bad = "filter (\<lambda>k. k \<notin> {k. (package_edge (lk_packages l))\<^sup>*\<^sup>* (lk_root l) k}) (map lp_id (lk_packages l))"
  have eq: "reject_unreachable_packages l =
      (case iter_min ?bad of None \<Rightarrow> Inr () | Some k \<Rightarrow> Inl (UnreachablePackage k))"
    by (simp only: reject_unreachable_packages_def reach Let_def)
  show ?thesis
  proof (cases "iter_min ?bad")
    case None
    then have "?bad = []" by (simp add: iter_min_def split: list.splits)
    then have "\<forall>k \<in> lp_id ` set (lk_packages l). (package_edge (lk_packages l))\<^sup>*\<^sup>* (lk_root l) k"
      unfolding filter_empty_conv by simp
    with None eq show ?thesis by simp
  next
    case (Some k)
    then have "k \<in> set ?bad" unfolding iter_min_iff by blast
    then have "k \<in> lp_id ` set (lk_packages l)" "\<not> (package_edge (lk_packages l))\<^sup>*\<^sup>* (lk_root l) k" by simp_all
    with Some eq show ?thesis by simp
  qed
qed

end
