(* ===== verification/Lock_Validation.thy ===== *)
theory Lock_Validation
  imports Package_Lock
begin

text \<open>
  What validation of a lockfile means, its binding to the manifests of the packages
  (\<open>ValidatedLockfile::bind_manifests\<close>, \<open>validate_lock_against_manifests\<close>) and the resolution of package
  selectors in the bound graph (\<open>PackageGraph::resolve_package_selector\<close>).
\<close>

section \<open>Well-formed lockfiles\<close>

definition git_pin :: "'h locked_package \<Rightarrow> (('h git_url \<times> string) \<times> digest) option" where
  "git_pin p = (case lp_source p of RootSource \<Rightarrow> None | GitSource url _ revision sha256 \<Rightarrow> Some ((url, revision), sha256))"

definition pins_agree :: "'h locked_package list \<Rightarrow> bool" where
  "pins_agree packages \<longleftrightarrow>
     (\<forall>p \<in> set packages. \<forall>q \<in> set packages. \<forall>k d d'. git_pin p = Some (k, d) \<longrightarrow> git_pin q = Some (k, d') \<longrightarrow> d = d')"

definition lockfile_ok :: "'h lockfile \<Rightarrow> string \<Rightarrow> string \<Rightarrow> bool" where
  "lockfile_ok l graphcal_version stdlib_version \<longleftrightarrow>
     (let packages = lk_packages l; ids = lp_id ` set packages; edge = package_edge packages in
        lk_version l = lock_version \<and> lk_graphcal_version l = graphcal_version \<and> lk_stdlib_version l = stdlib_version \<and>
        distinct (map lp_id packages) \<and> (\<forall>p \<in> set packages. lp_name p \<notin> fst ` set (lp_dependencies p)) \<and>
        lk_root l \<in> ids \<and> (\<forall>p \<in> set packages. lp_source p = RootSource \<longleftrightarrow> lp_id p = lk_root l) \<and>
        (\<forall>a b. edge a b \<longrightarrow> b \<in> ids) \<and> (\<forall>a. \<not> edge\<^sup>+\<^sup>+ a a) \<and> (\<forall>k \<in> ids. edge\<^sup>*\<^sup>* (lk_root l) k) \<and>
        pins_agree packages \<and> distinct (map canonical_instance packages) \<and> distinct (map pl_path (lk_plugins l)))"

text \<open>The fault a rejection names.\<close>

definition repeats :: "('a \<Rightarrow> 'b) \<Rightarrow> 'a list \<Rightarrow> 'a \<Rightarrow> 'a \<Rightarrow> bool" where
  "repeats f xs x y \<longleftrightarrow> (\<exists>j < length xs. xs ! j = y \<and> x \<in> set (take j xs) \<and> f x = f y)"

fun lock_fault :: "'h lockfile \<Rightarrow> string \<Rightarrow> string \<Rightarrow> 'h lock_error \<Rightarrow> bool" where
  "lock_fault l gv sv (UnsupportedLockVersion v) = (v = lk_version l \<and> v \<noteq> lock_version)"
| "lock_fault l gv sv (GraphcalVersionMismatch locked active) = (locked = lk_graphcal_version l \<and> active = gv \<and> locked \<noteq> active)"
| "lock_fault l gv sv (StdlibVersionMismatch locked active) = (locked = lk_stdlib_version l \<and> active = sv \<and> locked \<noteq> active)"
| "lock_fault l gv sv (DuplicatePackageId k) = (\<exists>p q. repeats lp_id (lk_packages l) p q \<and> lp_id q = k)"
| "lock_fault l gv sv (SelfDependencyAlias k name) =
     (\<exists>p \<in> set (lk_packages l). lp_id p = k \<and> lp_name p = name \<and> name \<in> fst ` set (lp_dependencies p))"
| "lock_fault l gv sv (MissingRoot k) = (k = lk_root l \<and> k \<notin> lp_id ` set (lk_packages l))"
| "lock_fault l gv sv (RootPackageMustUseRootSource k) =
     (k = lk_root l \<and> (\<exists>p \<in> set (lk_packages l). lp_id p = k \<and> lp_source p \<noteq> RootSource))"
| "lock_fault l gv sv (RootSourceOnDependency k) =
     (k \<noteq> lk_root l \<and> (\<exists>p \<in> set (lk_packages l). lp_id p = k \<and> lp_source p = RootSource))"
| "lock_fault l gv sv (MissingDependencyTarget k alias target) =
     (target \<notin> lp_id ` set (lk_packages l) \<and> (\<exists>p \<in> set (lk_packages l). lp_id p = k \<and> (alias, target) \<in> set (lp_dependencies p)))"
| "lock_fault l gv sv (LockedCycle start successors) = dependency_cycle (package_edge (lk_packages l)) (start # successors)"
| "lock_fault l gv sv (UnreachablePackage k) =
     (k \<in> lp_id ` set (lk_packages l) \<and> \<not> (package_edge (lk_packages l))\<^sup>*\<^sup>* (lk_root l) k)"
| "lock_fault l gv sv (ConflictingGitSourceDigest c) =
     (dc_first_digest c \<noteq> dc_second_digest c \<and>
      (\<exists>p \<in> set (lk_packages l). lp_id p = dc_first c \<and> git_pin p = Some ((dc_url c, dc_commit c), dc_first_digest c)) \<and>
      (\<exists>p \<in> set (lk_packages l). lp_id p = dc_second c \<and> git_pin p = Some ((dc_url c, dc_commit c), dc_second_digest c)))"
| "lock_fault l gv sv (DuplicateCanonicalPackage k j) =
     (\<exists>p q. repeats canonical_instance (lk_packages l) p q \<and> lp_id p = k \<and> lp_id q = j)"
| "lock_fault l gv sv (DuplicatePluginPath path) =
     (\<exists>p q. repeats pl_path (lk_plugins l) p q \<and> path = path_display (pl_path q))"
| "lock_fault l gv sv _ = False"

section \<open>The checks\<close>

lemma repeats_not_distinct: "repeats f xs x y \<Longrightarrow> \<not> distinct (map f xs)"
proof
  assume "repeats f xs x y" and distinct: "distinct (map f xs)"
  then obtain j i where ij: "j < length xs" "i < j" "f (xs ! i) = f (xs ! j)"
    by (auto simp: repeats_def in_set_conv_nth)
  then have "map f xs ! i = map f xs ! j" "i < length (map f xs)" "j < length (map f xs)" by simp_all
  with distinct nth_eq_iff_index_eq [of "map f xs" i j] ij(2) show False by simp
qed

lemma take_Suc_set: "i < length xs \<Longrightarrow> set (take (Suc i) xs) = insert (xs ! i) (set (take i xs))"
  by (simp add: take_Suc_conv_app_nth)

lemma check_entries_ok:
  "case try_fold check_entry {} (lk_packages l) of
     Inl e \<Rightarrow> lock_fault l gv sv e
   | Inr ids \<Rightarrow> ids = lp_id ` set (lk_packages l) \<and> distinct (map lp_id (lk_packages l)) \<and>
       (\<forall>p \<in> set (lk_packages l). lp_name p \<notin> fst ` set (lp_dependencies p))"
proof -
  let ?ps = "lk_packages l"
  let ?P = "\<lambda>i ids. ids = lp_id ` set (take i ?ps) \<and> distinct (map lp_id (take i ?ps)) \<and>
    (\<forall>p \<in> set (take i ?ps). lp_name p \<notin> fst ` set (lp_dependencies p))"
  have "case try_fold check_entry {} ?ps of Inl e \<Rightarrow> lock_fault l gv sv e | Inr ids \<Rightarrow> ?P (length ?ps) ids"
  proof (rule try_fold_rule [where P = ?P])
    fix i ids assume i: "i < length ?ps" and P: "?P i ids"
    let ?p = "?ps ! i"
    show "case check_entry ids ?p of Inl e \<Rightarrow> lock_fault l gv sv e | Inr ids' \<Rightarrow> ?P (Suc i) ids'"
    proof (cases "lp_id ?p \<in> ids")
      case True
      with P obtain p where "p \<in> set (take i ?ps)" "lp_id p = lp_id ?p" by auto
      with i have "repeats lp_id ?ps p ?p" by (auto simp: repeats_def)
      with True show ?thesis by (auto simp: check_entry_def)
    next
      case new: False
      show ?thesis
      proof (cases "map_of (lp_dependencies ?p) (lp_name ?p)")
        case None
        then have "lp_name ?p \<notin> fst ` set (lp_dependencies ?p)" by (simp add: map_of_eq_None_iff)
        with None new P i show ?thesis by (auto simp: check_entry_def take_Suc_conv_app_nth)
      next
        case (Some t)
        then have "lp_name ?p \<in> fst ` set (lp_dependencies ?p)" by (metis map_of_eq_None_iff option.distinct(1))
        with Some new i show ?thesis by (auto simp: check_entry_def)
      qed
    qed
  qed simp
  then show ?thesis by (simp split: sum.splits)
qed

lemma check_sources_ok:
  "case try_fold (check_source (lk_root l)) () (lk_packages l) of
     Inl e \<Rightarrow> lock_fault l gv sv e
   | Inr _ \<Rightarrow> \<forall>p \<in> set (lk_packages l). lp_source p = RootSource \<longleftrightarrow> lp_id p = lk_root l"
proof -
  let ?ps = "lk_packages l"
  let ?P = "\<lambda>i _. \<forall>p \<in> set (take i ?ps). lp_source p = RootSource \<longleftrightarrow> lp_id p = lk_root l"
  have "case try_fold (check_source (lk_root l)) () ?ps of Inl e \<Rightarrow> lock_fault l gv sv e | Inr s \<Rightarrow> ?P (length ?ps) s"
  proof (rule try_fold_rule [where P = ?P])
    fix i s assume i: "i < length ?ps" and P: "?P i s"
    show "case check_source (lk_root l) s (?ps ! i) of Inl e \<Rightarrow> lock_fault l gv sv e | Inr s' \<Rightarrow> ?P (Suc i) s'"
      using i P nth_mem [OF i] take_Suc_set [OF i]
      by (cases "lp_id (?ps ! i) = lk_root l"; cases "lp_source (?ps ! i)") (auto simp: check_source_def)
  qed simp
  then show ?thesis by (simp split: sum.splits)
qed

lemma check_target_ok:
  assumes "p \<in> set (lk_packages l)" "ids = lp_id ` set (lk_packages l)"
  shows "case check_targets ids s p of Inl e \<Rightarrow> lock_fault l gv sv e | Inr _ \<Rightarrow> snd ` set (lp_dependencies p) \<subseteq> ids"
proof -
  let ?ds = "lp_dependencies p"
  have "case check_targets ids s p of Inl e \<Rightarrow> lock_fault l gv sv e | Inr _ \<Rightarrow> snd ` set (take (length ?ds) ?ds) \<subseteq> ids"
    unfolding check_targets_def
  proof (rule try_fold_rule [where P = "\<lambda>i _. snd ` set (take i ?ds) \<subseteq> ids"])
    fix i and s :: unit assume i: "i < length ?ds" and P: "snd ` set (take i ?ds) \<subseteq> ids"
    obtain dep target where d: "?ds ! i = (dep, target)" by (cases "?ds ! i")
    with nth_mem [OF i] have "(dep, target) \<in> set ?ds" by simp
    with assms P take_Suc_set [OF i]
    show "case (\<lambda>_ (dependency, target). if target \<notin> ids then Inl (MissingDependencyTarget (lp_id p) dependency target) else Inr ()) s (?ds ! i) of
        Inl e \<Rightarrow> lock_fault l gv sv e | Inr _ \<Rightarrow> snd ` set (take (Suc i) ?ds) \<subseteq> ids"
      by (auto simp: d)
  qed simp
  then show ?thesis by (simp split: sum.splits)
qed

lemma check_targets_ok:
  assumes "ids = lp_id ` set (lk_packages l)"
  shows "case try_fold (check_targets ids) () (lk_packages l) of
     Inl e \<Rightarrow> lock_fault l gv sv e
   | Inr _ \<Rightarrow> \<forall>a b. package_edge (lk_packages l) a b \<longrightarrow> b \<in> ids"
proof -
  let ?ps = "lk_packages l"
  let ?P = "\<lambda>i _. \<forall>p \<in> set (take i ?ps). snd ` set (lp_dependencies p) \<subseteq> ids"
  have "case try_fold (check_targets ids) () ?ps of Inl e \<Rightarrow> lock_fault l gv sv e | Inr s \<Rightarrow> ?P (length ?ps) s"
  proof (rule try_fold_rule [where P = ?P])
    fix i s assume i: "i < length ?ps" and P: "?P i s"
    from check_target_ok [OF nth_mem [OF i] assms, where s = s] P take_Suc_set [OF i]
    show "case check_targets ids s (?ps ! i) of Inl e \<Rightarrow> lock_fault l gv sv e | Inr s' \<Rightarrow> ?P (Suc i) s'"
      by (cases "check_targets ids s (?ps ! i)") auto
  qed simp
  then show ?thesis by (cases "try_fold (check_targets ids) () ?ps") (auto simp: package_edge_def)
qed

lemma conflicts_ok:
  "case reject_conflicting_git_source_hashes (lk_packages l) of
     Inl e \<Rightarrow> lock_fault l gv sv e
   | Inr _ \<Rightarrow> pins_agree (lk_packages l)"
proof -
  let ?ps = "lk_packages l"
  let ?P = "\<lambda>i (s :: 'a git_url \<times> string \<Rightarrow> (digest \<times> string) option).
    (\<forall>k d j. s k = Some (d, j) \<longrightarrow> (\<exists>p \<in> set (take i ?ps). git_pin p = Some (k, d) \<and> lp_id p = j)) \<and>
    (\<forall>p \<in> set (take i ?ps). \<forall>k d. git_pin p = Some (k, d) \<longrightarrow> (\<exists>j. s k = Some (d, j)))"
  have "case try_fold check_digest Map.empty ?ps of Inl e \<Rightarrow> lock_fault l gv sv e | Inr s \<Rightarrow> ?P (length ?ps) s"
  proof (rule try_fold_rule [where P = ?P])
    show "?P 0 Map.empty" by simp
    fix i s assume i: "i < length ?ps" and P: "?P i s"
    let ?p = "?ps ! i"
    show "case check_digest s ?p of Inl e \<Rightarrow> lock_fault l gv sv e | Inr s' \<Rightarrow> ?P (Suc i) s'"
    proof (cases "lp_source ?p")
      case RootSource
      then have "git_pin ?p = None" by (simp add: git_pin_def)
      with RootSource P take_Suc_set [OF i] show ?thesis by (auto simp: check_digest_def)
    next
      case (GitSource url requested revision sha256)
      then have pin: "git_pin ?p = Some ((url, revision), sha256)" by (simp add: git_pin_def)
      show ?thesis
      proof (cases "s (url, revision)")
        case None
        then have "\<And>p d. p \<in> set (take i ?ps) \<Longrightarrow> git_pin p \<noteq> Some ((url, revision), d)" using P by fastforce
        with None GitSource P pin take_Suc_set [OF i] show ?thesis by (auto simp: check_digest_def)
      next
        case (Some e)
        obtain d j where e: "e = (d, j)" by (cases e)
        with P Some obtain p where p: "p \<in> set (take i ?ps)" "git_pin p = Some ((url, revision), d)" "lp_id p = j" by blast
        show ?thesis
        proof (cases "d = sha256")
          case True
          with Some e GitSource P pin take_Suc_set [OF i] show ?thesis by (auto simp: check_digest_def)
        next
          case False
          have "p \<in> set ?ps" using p(1) by (rule in_set_takeD)
          with False Some e GitSource p(2,3) pin nth_mem [OF i] show ?thesis by (auto simp: check_digest_def)
        qed
      qed
    qed
  qed
  moreover have "pins_agree ?ps" if P: "?P (length ?ps) s" for s
    unfolding pins_agree_def
  proof (intro ballI allI impI)
    fix p q k d d' assume "p \<in> set ?ps" "q \<in> set ?ps" "git_pin p = Some (k, d)" "git_pin q = Some (k, d')"
    with P obtain j j' where "s k = Some (d, j)" "s k = Some (d', j')" by (metis order_refl take_all)
    then show "d = d'" by simp
  qed
  ultimately show ?thesis
    by (cases "try_fold check_digest Map.empty ?ps") (simp_all add: reject_conflicting_git_source_hashes_def)
qed

lemma duplicates_ok:
  "case reject_duplicate_canonical_instances (lk_packages l) of
     Inl e \<Rightarrow> lock_fault l gv sv e
   | Inr _ \<Rightarrow> distinct (map canonical_instance (lk_packages l))"
proof -
  let ?ps = "lk_packages l"
  let ?P = "\<lambda>i s. (\<forall>c j. s c = Some j \<longrightarrow> (\<exists>p \<in> set (take i ?ps). canonical_instance p = c \<and> lp_id p = j)) \<and>
    (\<forall>p \<in> set (take i ?ps). s (canonical_instance p) \<noteq> None) \<and> distinct (map canonical_instance (take i ?ps))"
  have "case try_fold check_canonical Map.empty ?ps of Inl e \<Rightarrow> lock_fault l gv sv e | Inr s \<Rightarrow> ?P (length ?ps) s"
  proof (rule try_fold_rule [where P = ?P])
    show "?P 0 Map.empty" by simp
    fix i s assume i: "i < length ?ps" and P: "?P i s"
    let ?p = "?ps ! i"
    show "case check_canonical s ?p of Inl e \<Rightarrow> lock_fault l gv sv e | Inr s' \<Rightarrow> ?P (Suc i) s'"
    proof (cases "s (canonical_instance ?p)")
      case None
      then have "canonical_instance ?p \<notin> canonical_instance ` set (take i ?ps)" using P by auto
      with None P i show ?thesis by (auto simp: check_canonical_def take_Suc_conv_app_nth)
    next
      case (Some j)
      with P obtain p where p: "p \<in> set (take i ?ps)" "canonical_instance p = canonical_instance ?p" "lp_id p = j" by blast
      with i have "repeats canonical_instance ?ps p ?p" by (auto simp: repeats_def)
      with Some p(3) show ?thesis by (auto simp: check_canonical_def)
    qed
  qed
  then show ?thesis
    by (cases "try_fold check_canonical Map.empty ?ps") (auto simp: reject_duplicate_canonical_instances_def)
qed

lemma plugins_ok:
  "case try_fold check_plugin {} (lk_plugins l) of
     Inl e \<Rightarrow> lock_fault l gv sv e
   | Inr _ \<Rightarrow> distinct (map pl_path (lk_plugins l))"
proof -
  let ?ps = "lk_plugins l"
  let ?P = "\<lambda>i s. s = pl_path ` set (take i ?ps) \<and> distinct (map pl_path (take i ?ps))"
  have "case try_fold check_plugin {} ?ps of Inl e \<Rightarrow> lock_fault l gv sv e | Inr s \<Rightarrow> ?P (length ?ps) s"
  proof (rule try_fold_rule [where P = ?P])
    fix i s assume i: "i < length ?ps" and P: "?P i s"
    let ?p = "?ps ! i"
    show "case check_plugin s ?p of Inl e \<Rightarrow> lock_fault l gv sv e | Inr s' \<Rightarrow> ?P (Suc i) s'"
    proof (cases "pl_path ?p \<in> s")
      case True
      with P obtain p where "p \<in> set (take i ?ps)" "pl_path p = pl_path ?p" by auto
      with i have "repeats pl_path ?ps p ?p" by (auto simp: repeats_def)
      with True show ?thesis by (auto simp: check_plugin_def)
    next
      case False
      with P i show ?thesis by (auto simp: check_plugin_def take_Suc_conv_app_nth)
    qed
  qed simp
  then show ?thesis by (simp split: sum.splits)
qed

section \<open>Validation decides\<close>

lemma lock_validated_cases:
  "case lock_validated l gv sv of Inl e \<Rightarrow> lock_fault l gv sv e | Inr l' \<Rightarrow> l' = l \<and> lockfile_ok l gv sv"
proof (cases "lk_version l = lock_version \<and> lk_graphcal_version l = gv \<and> lk_stdlib_version l = sv")
  case False
  then show ?thesis by (auto simp: lock_validated_def)
next
  case versions: True
  show ?thesis
  proof (cases "try_fold check_entry {} (lk_packages l) :: (string set, 'a lock_error) result")
    case (Inl e)
    with check_entries_ok [of l gv sv] versions show ?thesis by (simp add: lock_validated_def)
  next
    case entries: (Inr ids)
    with check_entries_ok [of l gv sv] have ids: "ids = lp_id ` set (lk_packages l)" "distinct (map lp_id (lk_packages l))"
      "\<forall>p \<in> set (lk_packages l). lp_name p \<notin> fst ` set (lp_dependencies p)" by simp_all
    let ?rest = "res_bind (try_fold (check_source (lk_root l)) () (lk_packages l)) (\<lambda>_.
      res_bind (try_fold (check_targets ids) () (lk_packages l)) (\<lambda>_.
      res_bind (reject_dependency_cycles (lk_packages l)) (\<lambda>_.
      res_bind (reject_unreachable_packages l) (\<lambda>_.
      res_bind (reject_conflicting_git_source_hashes (lk_packages l)) (\<lambda>_.
      res_bind (reject_duplicate_canonical_instances (lk_packages l)) (\<lambda>_.
      res_map (\<lambda>_. l) (try_fold check_plugin {} (lk_plugins l))))))))"
    have eq: "lock_validated l gv sv = (if lk_root l \<notin> ids then Inl (MissingRoot (lk_root l)) else ?rest)"
      using versions entries by (simp add: lock_validated_def)
    have cycles: "case reject_dependency_cycles (lk_packages l) of
        Inl e \<Rightarrow> lock_fault l gv sv e | Inr _ \<Rightarrow> \<forall>a. \<not> (package_edge (lk_packages l))\<^sup>+\<^sup>+ a a"
      if "\<forall>a b. package_edge (lk_packages l) a b \<longrightarrow> b \<in> ids"
      using reject_dependency_cycles_ok [OF ids(2)] that ids(1) by (auto split: sum.splits)
    have unreachable: "case reject_unreachable_packages l of
        Inl e \<Rightarrow> lock_fault l gv sv e
      | Inr _ \<Rightarrow> \<forall>k \<in> lp_id ` set (lk_packages l). (package_edge (lk_packages l))\<^sup>*\<^sup>* (lk_root l) k"
      using reject_unreachable_ok [OF ids(2)] by (auto split: sum.splits)
    show ?thesis
    proof (cases "lk_root l \<in> ids")
      case False
      with eq ids(1) show ?thesis by simp
    next
      case True
      show ?thesis
      proof (cases "lock_validated l gv sv")
        case (Inl e)
        with eq True have "?rest = Inl e" by simp
        then have "lock_fault l gv sv e"
          using check_sources_ok [of l gv sv] check_targets_ok [OF ids(1), of gv sv] cycles unreachable conflicts_ok [of l gv sv]
            duplicates_ok [of l gv sv] plugins_ok [of l gv sv]
          unfolding res_bind_Inl_iff res_map_Inl_iff by (elim disjE exE conjE) simp_all
        with Inl show ?thesis by simp
      next
        case (Inr l')
        with eq True have "?rest = Inr l'" by simp
        then have facts: "l' = l" "\<forall>p \<in> set (lk_packages l). lp_source p = RootSource \<longleftrightarrow> lp_id p = lk_root l"
          "\<forall>a b. package_edge (lk_packages l) a b \<longrightarrow> b \<in> ids" "\<forall>a. \<not> (package_edge (lk_packages l))\<^sup>+\<^sup>+ a a"
          "\<forall>k \<in> lp_id ` set (lk_packages l). (package_edge (lk_packages l))\<^sup>*\<^sup>* (lk_root l) k"
          "pins_agree (lk_packages l)" "distinct (map canonical_instance (lk_packages l))" "distinct (map pl_path (lk_plugins l))"
          using check_sources_ok [of l gv sv] check_targets_ok [OF ids(1), of gv sv] cycles unreachable conflicts_ok [of l gv sv]
            duplicates_ok [of l gv sv] plugins_ok [of l gv sv]
          unfolding res_bind_Inr_iff res_map_Inr_iff by (elim exE conjE, simp)+
        with versions ids True Inr show ?thesis by (simp add: lockfile_ok_def Let_def)
      qed
    qed
  qed
qed

lemma lock_fault_not_ok: "lock_fault l gv sv e \<Longrightarrow> \<not> lockfile_ok l gv sv"
proof
  assume fault: "lock_fault l gv sv e" and ok: "lockfile_ok l gv sv"
  note ok = ok [unfolded lockfile_ok_def Let_def]
  show False
  proof (cases e)
    case (DuplicatePackageId k)
    with fault ok repeats_not_distinct [of lp_id] show ?thesis by auto
  next
    case (DuplicateCanonicalPackage k j)
    with fault ok repeats_not_distinct [of canonical_instance] show ?thesis by auto
  next
    case (DuplicatePluginPath path)
    with fault ok repeats_not_distinct [of pl_path] show ?thesis by auto
  next
    case (LockedCycle start successors)
    with fault have "(package_edge (lk_packages l))\<^sup>+\<^sup>+ start start"
      using dependency_cycle_trancl [of _ "start # successors"] by simp
    with ok show ?thesis by blast
  next
    case (ConflictingGitSourceDigest c)
    with fault obtain p q where "p \<in> set (lk_packages l)" "q \<in> set (lk_packages l)"
      "git_pin p = Some ((dc_url c, dc_commit c), dc_first_digest c)" "git_pin q = Some ((dc_url c, dc_commit c), dc_second_digest c)"
      "dc_first_digest c \<noteq> dc_second_digest c" by auto
    moreover have "pins_agree (lk_packages l)" using ok by blast
    ultimately show ?thesis unfolding pins_agree_def by blast
  next
    case (MissingDependencyTarget k dep target)
    with fault obtain p where "p \<in> set (lk_packages l)" "(dep, target) \<in> set (lp_dependencies p)"
      "target \<notin> lp_id ` set (lk_packages l)" by auto
    moreover from this have "package_edge (lk_packages l) (lp_id p) target" by (force simp: package_edge_def)
    ultimately show ?thesis using ok by blast
  qed (use fault ok in auto)
qed

section \<open>Binding to manifests\<close>

record 'h package_graph =
  pk_root :: string
  pk_packages :: "string \<Rightarrow> 'h locked_package option"

definition package_graph_of :: "'h lockfile \<Rightarrow> 'h package_graph" where
  "package_graph_of l = \<lparr>pk_root = lk_root l, pk_packages = package_table (lk_packages l)\<rparr>"

record 'h validated_package_graph =
  vg_graph :: "'h package_graph"
  vg_manifests :: "(string, 'h package_manifest) btree"

definition match_manifest ::
  "(string, 'h package_manifest) btree \<Rightarrow> 'h locked_package \<Rightarrow> ('h locked_package \<times> 'h package_manifest, 'h lock_error) result" where
  "match_manifest manifests p =
     res_bind (ok_or (MissingPackageManifest (lp_id p)) (map_of manifests (lp_id p))) (\<lambda>m.
     if lp_name p \<noteq> pm_name m then Inl (LockedManifestNameMismatch (lp_id p) (lp_name p) (pm_name m))
     else if lp_source_dir p \<noteq> pm_source_dir m then
       Inl (LockedManifestSourceDirectoryMismatch (lp_id p) (lp_source_dir p) (pm_source_dir m))
     else Inr (p, m))"

definition check_dependency ::
  "'h package_graph \<Rightarrow> 'h locked_package \<Rightarrow> unit \<Rightarrow> string \<times> 'h dependency_spec \<Rightarrow> (unit, 'h lock_error) result" where
  "check_dependency graph p _ entry =
     (case entry of (dependency, spec) \<Rightarrow>
        res_bind (ok_or (MissingDependencyEdge (lp_id p) dependency) (map_of (lp_dependencies p) dependency)) (\<lambda>target_id.
        res_bind (ok_or (MissingDependencyTarget (lp_id p) dependency target_id) (pk_packages graph target_id)) (\<lambda>target.
        let expected = expected_package_name spec dependency in
        if lp_name target \<noteq> expected then
          Inl (PackageNameMismatch (lp_id p) dependency expected (lp_id target) (lp_name target))
        else
          (case lp_source target of
             GitSource url requested_rev revision _ \<Rightarrow>
               if url = gd_url (ds_git spec) \<and> requested_rev = gd_rev (ds_git spec) \<and> revision = gd_rev (ds_git spec)
               then Inr () else Inl (DependencySourceMismatch (lp_id p) dependency)
           | RootSource \<Rightarrow> Inl (DependencySourceMismatch (lp_id p) dependency)))))"

definition check_bound ::
  "'h package_graph \<Rightarrow> unit \<Rightarrow> 'h locked_package \<times> 'h package_manifest \<Rightarrow> (unit, 'h lock_error) result" where
  "check_bound graph _ matched =
     (case matched of (p, m) \<Rightarrow>
        (case find (\<lambda>dependency. map_of (pm_dependencies m) dependency = None) (map fst (lp_dependencies p)) of
           Some dependency \<Rightarrow> Inl (UndeclaredDependencyEdge (lp_id p) dependency)
         | None \<Rightarrow> try_fold (check_dependency graph p) () (pm_dependencies m)))"

definition bind_manifests ::
  "'h lockfile \<Rightarrow> (string, 'h package_manifest) btree \<Rightarrow> ('h validated_package_graph, 'h lock_error) result" where
  "bind_manifests l manifests =
     (let graph = package_graph_of l in
      case find (\<lambda>package. pk_packages graph package = None) (map fst manifests) of
        Some package \<Rightarrow> Inl (ManifestWithoutLockedPackage package)
      | None \<Rightarrow>
          res_bind (try_map (match_manifest manifests) (lk_packages l)) (\<lambda>matched.
          res_map (\<lambda>_. \<lparr>vg_graph = graph, vg_manifests = manifests\<rparr>) (try_fold (check_bound graph) () matched)))"

definition validate_lock_against_manifests ::
  "'h lockfile \<Rightarrow> (string, 'h package_manifest) btree \<Rightarrow> string \<Rightarrow> string \<Rightarrow> ('h validated_package_graph, 'h lock_error) result" where
  "validate_lock_against_manifests l manifests gv sv =
     res_bind (lock_validated l gv sv) (\<lambda>l. bind_manifests l manifests)"

section \<open>What binding means\<close>

definition dependency_satisfied :: "'h package_graph \<Rightarrow> 'h locked_package \<Rightarrow> string \<Rightarrow> 'h dependency_spec \<Rightarrow> bool" where
  "dependency_satisfied graph p dependency spec \<longleftrightarrow>
     (\<exists>target_id target sha256. map_of (lp_dependencies p) dependency = Some target_id \<and>
        pk_packages graph target_id = Some target \<and> lp_name target = expected_package_name spec dependency \<and>
        lp_source target = GitSource (gd_url (ds_git spec)) (gd_rev (ds_git spec)) (gd_rev (ds_git spec)) sha256)"

definition package_matches :: "'h package_graph \<Rightarrow> 'h locked_package \<Rightarrow> 'h package_manifest \<Rightarrow> bool" where
  "package_matches graph p m \<longleftrightarrow>
     lp_name p = pm_name m \<and> lp_source_dir p = pm_source_dir m \<and>
     fst ` set (lp_dependencies p) \<subseteq> fst ` set (pm_dependencies m) \<and>
     (\<forall>(dependency, spec) \<in> set (pm_dependencies m). dependency_satisfied graph p dependency spec)"

definition manifests_match :: "'h lockfile \<Rightarrow> (string, 'h package_manifest) btree \<Rightarrow> bool" where
  "manifests_match l manifests \<longleftrightarrow>
     fst ` set manifests \<subseteq> lp_id ` set (lk_packages l) \<and>
     (\<forall>p \<in> set (lk_packages l). \<exists>m. map_of manifests (lp_id p) = Some m \<and> package_matches (package_graph_of l) p m)"

lemma find_SomeD: "find P xs = Some y \<Longrightarrow> y \<in> set xs \<and> P y"
  by (induction xs) (auto split: if_splits)

lemma try_fold_unit: "try_fold f () xs = Inr () \<longleftrightarrow> (\<forall>x \<in> set xs. f () x = Inr ())"
  by (induction xs) (auto simp: result_iffs)

lemma check_dependency_iff: "check_dependency graph p () (dependency, spec) = Inr () \<longleftrightarrow> dependency_satisfied graph p dependency spec"
proof (cases "map_of (lp_dependencies p) dependency")
  case (Some target_id)
  show ?thesis
  proof (cases "pk_packages graph target_id")
    case (Some target)
    with \<open>map_of (lp_dependencies p) dependency = Some target_id\<close> show ?thesis
      by (cases "lp_source target") (auto simp: check_dependency_def dependency_satisfied_def Let_def)
  qed (simp add: check_dependency_def dependency_satisfied_def Some)
qed (simp add: check_dependency_def dependency_satisfied_def)

lemma check_bound_iff:
  "check_bound graph () (p, m) = Inr () \<longleftrightarrow>
    fst ` set (lp_dependencies p) \<subseteq> fst ` set (pm_dependencies m) \<and>
    (\<forall>(dependency, spec) \<in> set (pm_dependencies m). dependency_satisfied graph p dependency spec)"
proof (cases "find (\<lambda>dependency. map_of (pm_dependencies m) dependency = None) (map fst (lp_dependencies p))")
  case None
  then have "fst ` set (lp_dependencies p) \<subseteq> fst ` set (pm_dependencies m)"
    by (auto simp: find_None_iff map_of_eq_None_iff)
  with None show ?thesis
    using check_dependency_iff [of graph p "fst x" "snd x" for x] by (simp add: check_bound_def try_fold_unit case_prod_beta)
next
  case (Some dependency)
  then have "dependency \<in> fst ` set (lp_dependencies p)" "map_of (pm_dependencies m) dependency = None"
    by (auto dest: find_SomeD)
  with Some show ?thesis by (auto simp: check_bound_def map_of_eq_None_iff)
qed

lemma match_manifest_iff:
  "match_manifest manifests p = Inr q \<longleftrightarrow>
    (\<exists>m. q = (p, m) \<and> map_of manifests (lp_id p) = Some m \<and> lp_name p = pm_name m \<and> lp_source_dir p = pm_source_dir m)"
  by (auto simp: match_manifest_def result_iffs split: if_splits)

lemma match_manifests_iff:
  "try_map (match_manifest manifests) packages = Inr matched \<longleftrightarrow>
    matched = map (\<lambda>p. (p, the (map_of manifests (lp_id p)))) packages \<and>
    (\<forall>p \<in> set packages. \<exists>m. map_of manifests (lp_id p) = Some m \<and> lp_name p = pm_name m \<and> lp_source_dir p = pm_source_dir m)"
  by (induction packages arbitrary: matched) (auto simp: result_iffs match_manifest_iff)

lemma bind_manifests_iff:
  assumes "distinct (map lp_id (lk_packages l))"
  shows "bind_manifests l manifests = Inr g \<longleftrightarrow>
    manifests_match l manifests \<and> g = \<lparr>vg_graph = package_graph_of l, vg_manifests = manifests\<rparr>"
proof -
  have known: "pk_packages (package_graph_of l) k = None \<longleftrightarrow> k \<notin> lp_id ` set (lk_packages l)" for k
    using package_table_iff [OF assms, of k] by (cases "package_table (lk_packages l) k") (force simp: package_graph_of_def)+
  show ?thesis
  proof (cases "find (\<lambda>package. pk_packages (package_graph_of l) package = None) (map fst manifests)")
    case (Some k)
    then have "k \<in> fst ` set manifests" "k \<notin> lp_id ` set (lk_packages l)"
      using known by (auto dest: find_SomeD)
    with Some show ?thesis by (auto simp: bind_manifests_def manifests_match_def)
  next
    case None
    then have "fst ` set manifests \<subseteq> lp_id ` set (lk_packages l)" using known by (auto simp: find_None_iff)
    moreover have "bind_manifests l manifests = Inr g \<longleftrightarrow>
        (\<forall>p \<in> set (lk_packages l). \<exists>m. map_of manifests (lp_id p) = Some m \<and> lp_name p = pm_name m \<and> lp_source_dir p = pm_source_dir m) \<and>
        (\<forall>p \<in> set (lk_packages l). check_bound (package_graph_of l) () (p, the (map_of manifests (lp_id p))) = Inr ()) \<and>
        g = \<lparr>vg_graph = package_graph_of l, vg_manifests = manifests\<rparr>"
      using None by (auto simp: bind_manifests_def Let_def result_iffs match_manifests_iff try_fold_unit)
    moreover have "(\<exists>m. map_of manifests (lp_id p) = Some m \<and> lp_name p = pm_name m \<and> lp_source_dir p = pm_source_dir m) \<and>
        check_bound (package_graph_of l) () (p, the (map_of manifests (lp_id p))) = Inr () \<longleftrightarrow>
        (\<exists>m. map_of manifests (lp_id p) = Some m \<and> package_matches (package_graph_of l) p m)" for p
      by (cases "map_of manifests (lp_id p)") (simp_all add: package_matches_def check_bound_iff)
    then have "manifests_match l manifests \<longleftrightarrow> fst ` set manifests \<subseteq> lp_id ` set (lk_packages l) \<and>
        (\<forall>p \<in> set (lk_packages l). \<exists>m. map_of manifests (lp_id p) = Some m \<and> lp_name p = pm_name m \<and> lp_source_dir p = pm_source_dir m) \<and>
        (\<forall>p \<in> set (lk_packages l). check_bound (package_graph_of l) () (p, the (map_of manifests (lp_id p))) = Inr ())"
      unfolding manifests_match_def by metis
    ultimately show ?thesis by simp
  qed
qed

section \<open>Resolving package selectors\<close>

datatype package_relation = SelfReference | DependencyRelation string

record selected_package =
  sl_package :: string
  sl_relation :: package_relation

datatype package_resolve_error = UnknownCurrentPackage string | UnknownDependency string string string

definition resolve_package_selector ::
  "'h package_graph \<Rightarrow> string \<Rightarrow> string \<Rightarrow> (selected_package, package_resolve_error) result" where
  "resolve_package_selector graph current selector =
     res_bind (ok_or (UnknownCurrentPackage current) (pk_packages graph current)) (\<lambda>p.
     if selector = lp_name p then Inr \<lparr>sl_package = current, sl_relation = SelfReference\<rparr>
     else
       (case map_of (lp_dependencies p) selector of
          None \<Rightarrow> Inl (UnknownDependency current (lp_name p) selector)
        | Some target \<Rightarrow> Inr \<lparr>sl_package = target, sl_relation = DependencyRelation selector\<rparr>))"

section \<open>Validated lockfiles and bound graphs\<close>

lemma lock_validated_decides:
  "case lock_validated l gv sv of
     Inl e \<Rightarrow> lock_fault l gv sv e \<and> \<not> lockfile_ok l gv sv
   | Inr l' \<Rightarrow> l' = l \<and> lockfile_ok l gv sv"
  using lock_validated_cases [of l gv sv] lock_fault_not_ok [of l gv sv] by (auto split: sum.splits)

lemma lockfile_ok_distinct: "lockfile_ok l gv sv \<Longrightarrow> distinct (map lp_id (lk_packages l))"
  by (simp add: lockfile_ok_def Let_def)

lemma validated_graph_iff:
  "validate_lock_against_manifests l manifests gv sv = Inr g \<longleftrightarrow>
    lockfile_ok l gv sv \<and> manifests_match l manifests \<and> g = \<lparr>vg_graph = package_graph_of l, vg_manifests = manifests\<rparr>"
proof (cases "lock_validated l gv sv")
  case (Inl e)
  with lock_validated_decides [of l gv sv] show ?thesis by (simp add: validate_lock_against_manifests_def)
next
  case (Inr l')
  with lock_validated_decides [of l gv sv] have "l' = l" "lockfile_ok l gv sv" by simp_all
  with Inr show ?thesis
    by (simp add: validate_lock_against_manifests_def bind_manifests_iff [OF lockfile_ok_distinct [of l gv sv]])
qed

text \<open>What a selector may select in a bound graph: the package itself under the name of its manifest, or
  the package that its manifest declares under the alias.\<close>

definition selection_ok :: "'h validated_package_graph \<Rightarrow> string \<Rightarrow> string \<Rightarrow> selected_package \<Rightarrow> bool" where
  "selection_ok g current selector sel \<longleftrightarrow>
     (\<exists>m. map_of (vg_manifests g) current = Some m \<and>
        (case sl_relation sel of
           SelfReference \<Rightarrow> sl_package sel = current \<and> selector = pm_name m
         | DependencyRelation name \<Rightarrow> name = selector \<and> selector \<noteq> pm_name m \<and>
             (\<exists>spec target sha256. map_of (pm_dependencies m) selector = Some spec \<and>
                pk_packages (vg_graph g) (sl_package sel) = Some target \<and> lp_id target = sl_package sel \<and>
                lp_name target = expected_package_name spec selector \<and>
                lp_source target = GitSource (gd_url (ds_git spec)) (gd_rev (ds_git spec)) (gd_rev (ds_git spec)) sha256)))"

text \<open>A package of the graph has a manifest that it matches.\<close>

lemma bound_package:
  assumes "distinct (map lp_id (lk_packages l))" "manifests_match l manifests"
    and "package_table (lk_packages l) current = Some p"
  obtains m where "map_of manifests current = Some m" "package_matches (package_graph_of l) p m"
proof -
  from assms(1,3) have "p \<in> set (lk_packages l)" "lp_id p = current" using package_table_iff by blast+
  with assms(2) that show ?thesis unfolding manifests_match_def by blast
qed

lemma selected_dependency:
  assumes "package_matches (package_graph_of l) p m" "map_of (lp_dependencies p) selector = Some target_id"
  shows "\<exists>spec target sha256. map_of (pm_dependencies m) selector = Some spec \<and>
      package_table (lk_packages l) target_id = Some target \<and> lp_id target = target_id \<and>
      lp_name target = expected_package_name spec selector \<and>
      lp_source target = GitSource (gd_url (ds_git spec)) (gd_rev (ds_git spec)) (gd_rev (ds_git spec)) sha256"
proof -
  have "selector \<in> fst ` set (lp_dependencies p)" using map_of_SomeD [OF assms(2)] by force
  with assms(1) have "selector \<in> fst ` set (pm_dependencies m)" unfolding package_matches_def by blast
  then obtain spec where spec: "map_of (pm_dependencies m) selector = Some spec"
    by (metis map_of_eq_None_iff option.exhaust)
  with assms have "dependency_satisfied (package_graph_of l) p selector spec"
    unfolding package_matches_def using map_of_SomeD [OF spec] by blast
  with assms(2) spec package_table_in show ?thesis by (fastforce simp: dependency_satisfied_def package_graph_of_def)
qed

lemma declared_dependency:
  assumes "package_matches graph p m" "map_of (lp_dependencies p) selector = None"
  shows "selector \<notin> fst ` set (pm_dependencies m)"
  using assms unfolding package_matches_def dependency_satisfied_def by fastforce

lemma resolve_package_selector_sound:
  assumes distinct: "distinct (map lp_id (lk_packages l))" and match: "manifests_match l manifests"
    and g: "g = \<lparr>vg_graph = package_graph_of l, vg_manifests = manifests\<rparr>"
  shows "case resolve_package_selector (vg_graph g) current selector of
      Inr sel \<Rightarrow> selection_ok g current selector sel
    | Inl (UnknownCurrentPackage package) \<Rightarrow> package = current \<and> current \<notin> lp_id ` set (lk_packages l)
    | Inl (UnknownDependency package name alias) \<Rightarrow> package = current \<and> alias = selector \<and>
        (\<exists>m. map_of manifests current = Some m \<and> name = pm_name m \<and> selector \<noteq> name \<and> selector \<notin> fst ` set (pm_dependencies m))"
proof (cases "package_table (lk_packages l) current")
  case None
  then have "p \<in> set (lk_packages l) \<Longrightarrow> lp_id p \<noteq> current" for p
    using package_table_iff [OF distinct, of current p] by auto
  then have "current \<notin> lp_id ` set (lk_packages l)" by blast
  with None show ?thesis by (simp add: resolve_package_selector_def g package_graph_of_def)
next
  case (Some p)
  from bound_package [OF distinct match Some] obtain m where
    m: "map_of manifests current = Some m" "package_matches (package_graph_of l) p m" .
  then have name: "lp_name p = pm_name m" by (simp add: package_matches_def)
  note facts = resolve_package_selector_def g package_graph_of_def selection_ok_def Some m(1) name
  show ?thesis
  proof (cases "selector = lp_name p \<or> map_of (lp_dependencies p) selector = None")
    case True
    with declared_dependency [OF m(2)] show ?thesis by (auto simp: facts)
  next
    case False
    then obtain target_id where target: "selector \<noteq> lp_name p" "map_of (lp_dependencies p) selector = Some target_id" by blast
    with selected_dependency [OF m(2) target(2)] show ?thesis by (simp add: facts)
  qed
qed

section \<open>Properties\<close>

text \<open>C10: validation of a lockfile decides well-formedness. It accepts exactly the lockfiles of the active
  versions whose package ids are unique, whose edges lead to packages without a cycle and reach every
  package from the root, of which only the root has the root source, that pin one digest per Git source,
  and that list no package instance and no plugin path twice; the lockfile is returned unchanged.
  Otherwise the error names a fault that the lockfile has.\<close>

theorem lock_validation:
  "case lock_validated l gv sv of
     Inl e \<Rightarrow> lock_fault l gv sv e \<and> \<not> lockfile_ok l gv sv
   | Inr l' \<Rightarrow> l' = l \<and> lockfile_ok l gv sv"
  by (rule lock_validated_decides)

text \<open>C11: binding a lockfile to manifests. It succeeds exactly when the lockfile is well-formed, every
  manifest belongs to a locked package, and every locked package has a manifest with the same name and
  source directory, the same dependency aliases, and for each alias a locked package of the expected name
  at the Git source and revision that the manifest asks for.\<close>

theorem lock_binding:
  "validate_lock_against_manifests l manifests gv sv = Inr g \<longleftrightarrow>
    lockfile_ok l gv sv \<and> manifests_match l manifests \<and> g = \<lparr>vg_graph = package_graph_of l, vg_manifests = manifests\<rparr>"
  by (rule validated_graph_iff)

text \<open>C22: package selectors of a validated graph. A selector is resolved to what the manifest of the
  current package says, a package of the graph at the declared source; it fails only for a package that
  is not in the graph or a selector that is neither the name of the package nor a declared dependency.\<close>

theorem selector_resolution:
  assumes "validate_lock_against_manifests l manifests gv sv = Inr g"
  shows "case resolve_package_selector (vg_graph g) current selector of
      Inr sel \<Rightarrow> selection_ok g current selector sel
    | Inl (UnknownCurrentPackage package) \<Rightarrow> package = current \<and> current \<notin> lp_id ` set (lk_packages l)
    | Inl (UnknownDependency package name alias) \<Rightarrow> package = current \<and> alias = selector \<and>
        (\<exists>m. map_of manifests current = Some m \<and> name = pm_name m \<and> selector \<noteq> name \<and> selector \<notin> fst ` set (pm_dependencies m))"
  using assms lockfile_ok_distinct unfolding validated_graph_iff by (intro resolve_package_selector_sound) blast+

section \<open>Concrete inputs\<close>

text \<open>A root package \<open>app\<close> with a dependency \<open>lib\<close> on a Git package \<open>mathlib\<close>; hosts are texts.\<close>

definition sample_url :: "string git_url" where
  "sample_url = HttpsUrl ''h'' None [''r'']"

definition sample_lock :: "string lockfile" where
  "sample_lock =
     \<lparr>lk_version = 1, lk_created_by = ''graphcal'', lk_graphcal_version = ''1'', lk_stdlib_version = ''1'', lk_root = ''a'',
      lk_packages =
        [\<lparr>lp_id = ''a'', lp_name = ''app'', lp_source_dir = [''src''], lp_source = RootSource, lp_dependencies = [(''lib'', ''b'')]\<rparr>,
         \<lparr>lp_id = ''b'', lp_name = ''mathlib'', lp_source_dir = [''src''], lp_source = GitSource sample_url ''c'' ''c'' [], lp_dependencies = []\<rparr>],
      lk_plugins = []\<rparr>"

definition sample_policy :: plugin_policy where
  "sample_policy = \<lparr>pp_default_fuel = None, pp_function_limits = []\<rparr>"

definition sample_manifests :: "(string, string package_manifest) btree" where
  "sample_manifests =
     [(''a'', \<lparr>pm_name = ''app'', pm_source_dir = [''src''],
         pm_dependencies = [(''lib'', \<lparr>ds_package = Some ''mathlib'', ds_git = \<lparr>gd_url = sample_url, gd_rev = ''c''\<rparr>\<rparr>)],
         pm_policy = sample_policy\<rparr>),
      (''b'', \<lparr>pm_name = ''mathlib'', pm_source_dir = [''src''], pm_dependencies = [], pm_policy = sample_policy\<rparr>)]"

lemma sample_bound:
  "\<exists>g. validate_lock_against_manifests sample_lock sample_manifests ''1'' ''1'' = Inr g \<and>
    resolve_package_selector (vg_graph g) ''a'' ''lib'' = Inr \<lparr>sl_package = ''b'', sl_relation = DependencyRelation ''lib''\<rparr>"
proof -
  have "case validate_lock_against_manifests sample_lock sample_manifests ''1'' ''1'' of Inl e \<Rightarrow> False
    | Inr g \<Rightarrow> resolve_package_selector (vg_graph g) ''a'' ''lib'' = Inr \<lparr>sl_package = ''b'', sl_relation = DependencyRelation ''lib''\<rparr>"
    by code_simp
  then show ?thesis by (auto split: sum.splits)
qed

theorem selector_resolution_witness:
  "\<exists>g. validate_lock_against_manifests sample_lock sample_manifests ''1'' ''1'' = Inr g \<and>
    selection_ok g ''a'' ''lib'' \<lparr>sl_package = ''b'', sl_relation = DependencyRelation ''lib''\<rparr>"
proof -
  from sample_bound obtain g where g: "validate_lock_against_manifests sample_lock sample_manifests ''1'' ''1'' = Inr g"
    "resolve_package_selector (vg_graph g) ''a'' ''lib'' = Inr \<lparr>sl_package = ''b'', sl_relation = DependencyRelation ''lib''\<rparr>"
    by blast
  from selector_resolution [OF g(1), of "''a''" "''lib''"] g show ?thesis by auto
qed

end
