(* ===== verification/Git_Urls.thy ===== *)
theory Git_Urls
  imports Package_Manifest
begin

text \<open>
  What the constructors of names, paths, digests, Git URLs and manifests of \<open>graphcal-package/src/lib.rs\<close>
  promise: accepted spellings are canonical, accepted URLs have no part that a Git command could take for
  an option or that could name another directory, and accepted manifests hold only accepted values.
\<close>

section \<open>Git URLs\<close>

definition path_safe :: "string list \<Rightarrow> bool" where
  "path_safe path \<longleftrightarrow>
     path \<noteq> [] \<and> (\<forall>c \<in> set path. c \<noteq> [] \<and> \<not> is_ambiguous_raw_path_component c \<and> \<not> starts_with ''-'' c)"

definition user_safe :: "string \<Rightarrow> bool" where
  "user_safe user \<longleftrightarrow> user \<noteq> [] \<and> CHR 0x40 \<notin> set user \<and> \<not> starts_with ''-'' user"

fun git_url_safe :: "'h url_crate \<Rightarrow> 'h git_url \<Rightarrow> bool" where
  "git_url_safe crate (HttpsUrl host port path) = (\<not> starts_with ''-'' (uc_text crate host) \<and> path_safe path)"
| "git_url_safe crate (SshUrl user host port path) =
     (\<not> starts_with ''-'' (uc_text crate host) \<and> path_safe path \<and> (case user of None \<Rightarrow> True | Some u \<Rightarrow> user_safe u))"
| "git_url_safe crate (ScpUrl user host path) =
     (user_safe user \<and> path_safe path \<and>
      (\<exists>spelled. uc_host crate spelled = Some host \<and> CHR 0x40 \<notin> set spelled \<and> \<not> starts_with ''-'' spelled))"

lemma reject_option_shaped_iff: "reject_option_shaped v = Inr u \<longleftrightarrow> \<not> starts_with ''-'' v"
  by (simp add: reject_option_shaped_def)

lemma repository_component_iff:
  "repository_component c = Inr d \<longleftrightarrow>
    d = c \<and> c \<noteq> [] \<and> \<not> is_ambiguous_raw_path_component c \<and> \<not> starts_with ''-'' c"
  by (auto simp: repository_component_def result_iffs reject_option_shaped_iff)

lemma parse_repository_path_safe: "parse_repository_path cs = Inr path \<Longrightarrow> path_safe path"
  unfolding parse_repository_path_def Let_def path_safe_def
  using try_map_checked [where f = repository_component, OF repository_component_iff] by (auto split: if_splits)

lemma parse_required_ssh_user_iff: "parse_required_ssh_user v = Inr user \<longleftrightarrow> user = v \<and> user_safe v"
  by (auto simp: parse_required_ssh_user_def user_safe_def result_iffs reject_option_shaped_iff)

lemma parse_ssh_user_safe: "parse_ssh_user v = Inr user \<Longrightarrow> case user of None \<Rightarrow> True | Some u \<Rightarrow> user_safe u"
  by (auto simp: parse_ssh_user_def result_iffs parse_required_ssh_user_iff split: if_splits)

definition standard_parts :: "'h url_crate \<Rightarrow> 'h parsed_url \<Rightarrow> ('h git_url, git_url_reason) result" where
  "standard_parts crate parsed =
     res_bind (ok_or MissingHost (pu_host parsed)) (\<lambda>host.
     res_bind (reject_option_shaped (uc_text crate host)) (\<lambda>_.
     res_bind (res_bind (ok_or MissingRepositoryPath (pu_segments parsed)) parse_repository_path) (\<lambda>path.
     if pu_scheme parsed = ''https'' then
       if pu_username parsed \<noteq> [] \<or> pu_password parsed \<noteq> None then Inl CredentialsInUrl
       else Inr (HttpsUrl host (pu_port parsed) path)
     else
       if pu_password parsed \<noteq> None then Inl CredentialsInUrl
       else res_map (\<lambda>user. SshUrl user host (pu_port parsed) path) (parse_ssh_user (pu_username parsed)))))"

lemma standard_shape_safe:
  assumes "(if https then
       if user \<noteq> [] \<or> password \<noteq> None then Inl CredentialsInUrl else Inr (HttpsUrl host port path)
     else
       if password \<noteq> None then Inl CredentialsInUrl
       else res_map (\<lambda>u. SshUrl u host port path) (parse_ssh_user user)) = Inr url"
    and "\<not> starts_with ''-'' (uc_text crate host)" "path_safe path"
  shows "git_url_safe crate url \<and> git_url_transport url \<noteq> ScpTransport"
  using assms parse_ssh_user_safe by (auto simp: res_map_Inr_iff split: if_splits)

lemma parse_standard_git_url_safe:
  assumes "parse_standard_git_url crate v = Inr url"
  shows "git_url_safe crate url \<and> git_url_transport url \<noteq> ScpTransport"
proof -
  from assms obtain parsed where
    "(if pu_scheme parsed \<noteq> ''https'' \<and> pu_scheme parsed \<noteq> ''ssh'' then Inl (UnsupportedScheme (pu_scheme parsed))
      else if pu_query parsed \<noteq> None \<or> pu_fragment parsed \<noteq> None then Inl QueryOrFragment
      else standard_parts crate parsed) = Inr url"
    unfolding parse_standard_git_url_def res_bind_Inr_iff standard_parts_def by blast
  then have "standard_parts crate parsed = Inr url" by (simp split: if_splits)
  then obtain host path segments u where
    "reject_option_shaped (uc_text crate host) = Inr u" "parse_repository_path segments = Inr path"
    and shape: "(if pu_scheme parsed = ''https'' then
         if pu_username parsed \<noteq> [] \<or> pu_password parsed \<noteq> None then Inl CredentialsInUrl
         else Inr (HttpsUrl host (pu_port parsed) path)
       else
         if pu_password parsed \<noteq> None then Inl CredentialsInUrl
         else res_map (\<lambda>user. SshUrl user host (pu_port parsed) path) (parse_ssh_user (pu_username parsed))) = Inr url"
    unfolding standard_parts_def res_bind_Inr_iff by blast
  then have "\<not> starts_with ''-'' (uc_text crate host)" "path_safe path"
    by (simp_all only: reject_option_shaped_iff parse_repository_path_safe not_False_eq_True)
  with shape show ?thesis by (rule standard_shape_safe)
qed

lemma parse_scp_git_url_safe:
  assumes "parse_scp_git_url crate v = Inr url"
  shows "git_url_safe crate url \<and> git_url_transport url = ScpTransport"
proof -
  from assms obtain user host_text host segments path where
    "CHR 0x40 \<notin> set host_text" "\<not> starts_with ''-'' host_text" "uc_host crate host_text = Some host" "user_safe user"
    "parse_repository_path segments = Inr path" "url = ScpUrl user host path"
    unfolding parse_scp_git_url_def
    by (auto simp: result_iffs reject_option_shaped_iff parse_required_ssh_user_iff split: if_splits option.splits prod.splits)
  with parse_repository_path_safe show ?thesis by auto
qed


section \<open>Canonical spellings\<close>

text \<open>C25: what \<open>Display\<close> writes is what the constructors read. Source directories and plugin paths are
  accepted exactly when they are portable components joined by slashes (for a plugin, ending in
  \<open>.wasm\<close>), digests exactly when they are the display of 32 bytes, and a commit hash that some spelling
  stands for is read back as itself.\<close>

theorem package_texts_canonical:
  "(source_dir_new v = Inr cs \<longleftrightarrow> portable_path cs \<and> v = path_display cs) \<and>
   (plugin_path_new v = Inr cs \<longleftrightarrow> portable_path cs \<and> v = path_display cs \<and> ends_with ''.wasm'' v) \<and>
   (sha256_new v = Inr d \<longleftrightarrow> length d = 32 \<and> v = digest_display d) \<and>
   ((\<exists>spelled. git_commit_new spelled = Inr v) \<longleftrightarrow> git_commit_new v = Inr v)"
  using source_dir_new_iff plugin_path_new_iff sha256_new_iff git_commit_canonical by blast

section \<open>Manifests\<close>


section \<open>Concrete inputs\<close>

text \<open>Hosts are texts, every text parses as a host and no text as a URL.\<close>

definition sample_crate :: "string url_crate" where
  "sample_crate = \<lparr>uc_parse = \<lambda>_. None, uc_host = Some, uc_text = \<lambda>h. h\<rparr>"

definition sample_revision :: string where
  "sample_revision = replicate 40 (CHR ''a'')"

definition sample_table :: toml_table where
  "sample_table =
     [(''dependencies'', TomlTable [(''lib'', TomlTable
         [(''git'', TomlString (''git'' @ [CHR 0x40] @ ''h:o/r'')), (''rev'', TomlString sample_revision)])]),
      (''package'', TomlTable [(''name'', TomlString ''app'')])]"

lemma sample_git_url: "git_url_new sample_crate (''git'' @ [CHR 0x40] @ ''h:o/r'') = Inr (ScpUrl ''git'' ''h'' [''o'', ''r''])"
  by code_simp


lemma sample_dependencies:
  "\<exists>d. parse_manifest_dependencies sample_crate (map_of sample_table ''dependencies'') ''app'' = Inr d \<and> map fst d = [''lib'']"
proof -
  have "case parse_manifest_dependencies sample_crate (map_of sample_table ''dependencies'') ''app'' of
      Inl _ \<Rightarrow> False | Inr d \<Rightarrow> map fst d = [''lib'']" by code_simp
  then show ?thesis by (rule accepted_result)
qed

lemma sample_fields:
  "reject_unknown_fields sample_table [''package'', ''dependencies'', ''plugins''] ''graphcal.toml'' = Inr ()"
  "map_of sample_table ''package'' = Some (TomlTable [(''name'', TomlString ''app'')])"
  "reject_unknown_fields [(''name'', TomlString ''app'')] [''name'', ''source_dir''] ''[package]'' = Inr ()"
  "manifest_required_string [(''name'', TomlString ''app'')] ''name'' ''[package].name'' = Inr ''app''"
  "manifest_optional_string [(''name'', TomlString ''app'')] ''source_dir'' ''[package].source_dir'' = Inr None"
  "package_name_new ''app'' = Inr ''app''"
  "parse_source_dir ''src'' = Inr [''src'']"
  "parse_plugin_execution_policy (map_of sample_table ''plugins'') = Inr \<lparr>pp_default_fuel = None, pp_function_limits = []\<rparr>"
  by code_simp+


text \<open>The display of an accepted URL need not be accepted: the slash that ends an scp-like path is dropped,
  and then a component that ends in a space ends the text.\<close>

lemma scp_display_rejected:
  "git_url_new sample_crate (''git'' @ [CHR 0x40] @ ''h:r /'') = Inr (ScpUrl ''git'' ''h'' [''r '']) \<and>
   git_url_new sample_crate (git_url_display sample_crate (ScpUrl ''git'' ''h'' [''r ''])) =
     Inl (GitUrlError (''git'' @ [CHR 0x40] @ ''h:r '') MalformedUrl)"
  by code_simp

end
