(* ===== verification/Spec2Isabelle.thy ===== *)
theory Spec2Isabelle
  imports Dimension Nat_Eval Int_Kernels Recurrence_Group Operator_Typing Struct_Value
    Presented_Value Recurrence_Run Callable_Plan Lock_Validation Git_Urls
begin

text \<open>
  Verification library of graphcal, a language for unit-checked calculations (Rust, under \<open>src/crates\<close>).

  A graphcal project is compiled from source files into DAGs of declarations (constants, params, nodes),
  checked for dimensions and indexes, scheduled, planned and evaluated. The library follows a program
  from the arithmetic of its types to the values a run stores.

  \<^item> Shared vocabulary: \<open>GC_Prelude\<close> has Rust's \<open>Result\<close> as a sum (errors on the left), \<open>try_fold\<close>,
    \<open>collect\<close> into results, \<open>BTreeMap\<close> as a sorted association list behind the locale \<open>ordered_map\<close>, and
    decimal rendering. \<open>Machine_Int\<close> has the checked operations of \<open>u64\<close> and \<open>i64\<close> on 64-bit words.
  \<^item> Exponents and dimensions: \<open>Ratio\<close> (\<open>graphcal-ratio/src/ratio.rs\<close>), \<open>Sparse_Monomial\<close>
    (\<open>sparse_monomial.rs\<close>), \<open>Dimension\<close> (\<open>dimension.rs\<close>). Arithmetic is exact or reports overflow, values
    stay in lowest terms, and dimensions form an abelian group with rational powers.
  \<^item> Identities: \<open>Dag_Id\<close> (\<open>dag_id.rs\<close>, \<open>resolved_name.rs\<close>, \<open>syntax/names.rs\<close>, \<open>syntax/module_name.rs\<close>).
  \<^item> Type-level naturals and integers: \<open>Nat_Poly\<close> (\<open>nat.rs\<close>), \<open>Nat_Eval\<close> (\<open>syntax/nat_eval.rs\<close>),
    \<open>Int_Kernels\<close> (\<open>semantic/int_arith.rs\<close>, \<open>semantic/int_division.rs\<close>, \<open>generic_param.rs\<close>): polynomials are
    canonical, substitution and evaluation commute with the operations, and wrapping never goes unnoticed.
  \<^item> Types, indexes and operators: \<open>Checked_Type\<close> (\<open>semantic/checked_type.rs\<close> and its tables),
    \<open>Index_Axis\<close> (\<open>semantic/index_def.rs\<close>, \<open>index_axis.rs\<close>, \<open>key_value.rs\<close>), \<open>Operator_Typing\<close>
    (\<open>tir/operator_typing.rs\<close> and the diagnostics it builds). The rules decide a typing relation, keys stay
    on their axis, and results do not depend on the units of the operands.
  \<^item> Values: \<open>Runtime_Value\<close> and \<open>Struct_Value\<close> (\<open>runtime_value.rs\<close>, \<open>semantic/struct_value.rs\<close>),
    \<open>Presented_Value\<close> (\<open>runtime_presentation.rs\<close>).
  \<^item> Scheduling: \<open>Dep_Graph\<close> and \<open>Components\<close> (\<open>dependency_graph.rs\<close>: insertion, Kahn's algorithm, the
    depth-first order, cycles, Tarjan's components), \<open>Recurrence_Group\<close> (\<open>tir/recurrence_group.rs\<close>,
    \<open>tir/recurrence_plan.rs\<close>), \<open>Schedule\<close> and \<open>Runtime_Schedule\<close> (\<open>tir/schedule.rs\<close>). Orders respect
    dependencies and exist exactly for acyclic graphs, reported cycles are cycles, components are the
    classes of mutual dependence, a recurrence group is accepted exactly under its rules, and the units of
    a schedule list every declaration once, after what it reads. The locale \<open>order_provider\<close> carries
    evaluation along an order.
  \<^item> Planning: \<open>Callable_Plan\<close> (\<open>graphcal-eval/src/exec_plan.rs\<close>) and \<open>Execution_Plan\<close>
    (\<open>execution_plan.rs\<close>): a schedule of the checker is never refused for its order by the planner, and the
    plan runs every step once.
  \<^item> Evaluation: \<open>Node_Unavailable\<close> (\<open>node_unavailable.rs\<close>), \<open>Constant_Pools\<close> (\<open>constant_pools.rs\<close>),
    \<open>Execution_Frame\<close> and \<open>Recurrence_Run\<close> (\<open>recurrence_slots.rs\<close>, \<open>execution_frame.rs\<close>): every declaration
    ends with a value or a reason, never both; a value is stored only when its inputs have one; groups are
    evaluated element by element after the elements they read; a run completes.
  \<^item> Packages (\<open>graphcal-package/src/lib.rs\<close>): \<open>Package_Names\<close> has the checked newtypes and Git URLs,
    \<open>Package_Manifest\<close> the reader of manifests, \<open>Package_Lock\<close> and \<open>Lock_Validation\<close> lockfiles, their
    validation, the binding to manifests and package selectors, and \<open>Git_Urls\<close> what the constructors promise:
    accepted spellings are canonical, accepted URLs carry no part that a Git command takes for an option,
    accepted manifests and lockfiles satisfy their invariants, validation accepts exactly the well-formed
    lockfiles and names a fault of the others, and a selector resolves to what a manifest declares.

  State is passed explicitly: a \<open>&mut self\<close> method returns the updated record, a \<open>for\<close> loop over a
  \<open>Result\<close> is \<open>try_fold\<close>, a \<open>while\<close> loop is a recursive function over its loop variables. Hash maps whose
  order is not observed are functions into options, ordered ones sorted association lists. Every raise,
  early return and overflow of the code is a branch of the result.

  Bounds and fuel. \<open>u64\<close>, \<open>i64\<close> and \<open>u8\<close> are words; \<open>usize\<close> is a natural number except where the code
  checks it. Kahn's loop takes as fuel the number of nodes, which is enough because a node is emitted
  once. All other loops terminate by a measure that is proved: the untried edges of the searches
  (\<open>dfs_loop\<close>, \<open>scc_loop\<close>, \<open>closure_loop\<close>, \<open>lock_dfs\<close>, \<open>reach_loop\<close>), the unplaced members of \<open>greedy_loop\<close>, the members without
  a problem in \<open>trouble_loop\<close>.

  Parameters of the model. Binary64 floats and instants are type variables, with the operations the code
  uses as arguments and their IEEE properties as named hypotheses. The evaluation of one expression, the
  cancellation token and the domain check of a frame are functions of the environment record; the facts
  the checker reads from the formulas of a recurrence group, and the executable tree of a formula, are
  arguments. The \<open>toml\<close> crate is a function from texts to tables,
  the \<open>url\<close> crate a record of the questions that the code asks it.

  Not modelled. The lexer is generated from attributes by a crate that is not part of the repository, and
  the parser, the formatter and the language server are written over its tokens. Loading of projects, the command line,
  reports and the model server are input and output. Name resolution, lowering and the inference over
  whole expressions rewrite large syntax trees; of them the library has the rules for operators and the
  identities they produce. The evaluator of expressions, linear algebra and plots work on binary64
  rounding. Plugins run WebAssembly in a third-party interpreter.
\<close>

end
